(* ===== verification/GoBase.thy ===== *)
theory GoBase
  imports Main "HOL-Library.Word" "HOL-Library.Sublist"
begin

text \<open>
  The prelude: the part of Go's semantics and standard library the components use.
  Strings are byte sequences (\<open>string\<close>, as in Go, where indexing and \<open>len\<close> count
  bytes), \<open>int\<close> and \<open>int64\<close> are integers with \<open>wrap64\<close> written at the
  arithmetic that can overflow, \<open>time.Time\<close> is the number of nanoseconds since the
  Unix epoch and \<open>time.Duration\<close> a number of nanoseconds.
\<close>

named_theorems frame \<open>fields an operation leaves alone\<close>
named_theorems inv_intros \<open>operations keep the invariant of their component\<close>

section \<open>Integers\<close>

text \<open>A signed 64-bit result: two's complement wrap-around.\<close>

definition wrap64 :: "int \<Rightarrow> int" where
  "wrap64 x = (x + 2 ^ 63) mod 2 ^ 64 - 2 ^ 63"

lemma wrap64_id: "- (2 ^ 63) \<le> x \<Longrightarrow> x < 2 ^ 63 \<Longrightarrow> wrap64 x = x"
  by (simp add: wrap64_def)

lemma wrap64_bounds: "- (2 ^ 63) \<le> wrap64 x \<and> wrap64 x < 2 ^ 63"
  by (simp add: wrap64_def)

section \<open>Time\<close>

type_synonym time = int
type_synonym duration = int

definition second :: duration where
  "second = 1000000000"

definition minute :: duration where
  "minute = 60 * second"

definition zero_time :: time where
  \<comment> \<open>\<open>time.Time{}\<close>: year 1, 62135596800 seconds before the epoch.\<close>
  "zero_time = - 62135596800 * second"

definition unix :: "time \<Rightarrow> int" where
  "unix t = t div second"

lemma unix_mono: "t \<le> u \<Longrightarrow> unix t \<le> unix u"
  by (simp add: unix_def second_def zdiv_mono1)

lemma unix_add_seconds: "unix (t + k * second) = unix t + k"
  by (simp add: unix_def second_def)

section \<open>Strings as byte sequences\<close>

definition has_prefix :: "string \<Rightarrow> string \<Rightarrow> bool" where
  \<comment> \<open>\<open>strings.HasPrefix(s, p)\<close>\<close>
  "has_prefix s p \<longleftrightarrow> take (length p) s = p"

definition has_suffix :: "string \<Rightarrow> string \<Rightarrow> bool" where
  \<comment> \<open>\<open>strings.HasSuffix(s, p)\<close>\<close>
  "has_suffix s p \<longleftrightarrow> length p \<le> length s \<and> drop (length s - length p) s = p"

fun contains_str :: "string \<Rightarrow> string \<Rightarrow> bool" where
  \<comment> \<open>\<open>strings.Contains(s, p)\<close>\<close>
  "contains_str [] p = (p = [])"
| "contains_str (c # s) p = (has_prefix (c # s) p \<or> contains_str s p)"

fun ascii_lower_char :: "char \<Rightarrow> char" where
  "ascii_lower_char c =
     (let n = (of_char c :: nat) in if 65 \<le> n \<and> n \<le> 90 then char_of (n + 32) else c)"

definition ascii_lower :: "string \<Rightarrow> string" where
  \<comment> \<open>\<open>strings.ToLower\<close> on ASCII text; the components take the full Unicode mapping
     as a parameter.\<close>
  "ascii_lower = map ascii_lower_char"

definition bytes :: "nat list \<Rightarrow> string" where
  "bytes = map char_of"

definition space_seqs :: "string list" where
  \<comment> \<open>The UTF-8 encodings of the runes \<open>unicode.IsSpace\<close> accepts.\<close>
  "space_seqs =
     [[CHR 0x09], [CHR 0x0A], [CHR 0x0B], [CHR 0x0C], [CHR 0x0D], [CHR 0x20],
      [CHR 0xC2, CHR 0x85], [CHR 0xC2, CHR 0xA0], [CHR 0xE1, CHR 0x9A, CHR 0x80],
      [CHR 0xE2, CHR 0x80, CHR 0x80], [CHR 0xE2, CHR 0x80, CHR 0x81],
      [CHR 0xE2, CHR 0x80, CHR 0x82], [CHR 0xE2, CHR 0x80, CHR 0x83],
      [CHR 0xE2, CHR 0x80, CHR 0x84], [CHR 0xE2, CHR 0x80, CHR 0x85],
      [CHR 0xE2, CHR 0x80, CHR 0x86], [CHR 0xE2, CHR 0x80, CHR 0x87],
      [CHR 0xE2, CHR 0x80, CHR 0x88], [CHR 0xE2, CHR 0x80, CHR 0x89],
      [CHR 0xE2, CHR 0x80, CHR 0x8A], [CHR 0xE2, CHR 0x80, CHR 0xA8],
      [CHR 0xE2, CHR 0x80, CHR 0xA9], [CHR 0xE2, CHR 0x80, CHR 0xAF],
      [CHR 0xE2, CHR 0x81, CHR 0x9F], [CHR 0xE3, CHR 0x80, CHR 0x80]]"

fun strip_seqs :: "string list \<Rightarrow> nat \<Rightarrow> string \<Rightarrow> string" where
  \<comment> \<open>Drops leading members of the set, as often as there are any; the first argument's
     sequences are not empty, so the length of the string is enough fuel.\<close>
  "strip_seqs qs 0 s = s"
| "strip_seqs qs (Suc n) s =
     (case find (\<lambda>q. has_prefix s q) qs of
        None \<Rightarrow> s
      | Some q \<Rightarrow> strip_seqs qs n (drop (length q) s))"

definition trim_left_space :: "string \<Rightarrow> string" where
  "trim_left_space s = strip_seqs space_seqs (length s) s"

definition trim_right_space :: "string \<Rightarrow> string" where
  "trim_right_space s = rev (strip_seqs (map rev space_seqs) (length s) (rev s))"

definition trim_space :: "string \<Rightarrow> string" where
  \<comment> \<open>\<open>strings.TrimSpace\<close>\<close>
  "trim_space s = trim_right_space (trim_left_space s)"

definition trim_right_set :: "char list \<Rightarrow> string \<Rightarrow> string" where
  \<comment> \<open>\<open>strings.TrimRight(s, cutset)\<close> for an ASCII cutset\<close>
  "trim_right_set cs s = rev (dropWhile (\<lambda>c. c \<in> set cs) (rev s))"

definition trim_prefix :: "string \<Rightarrow> string \<Rightarrow> string" where
  \<comment> \<open>\<open>strings.TrimPrefix(s, p)\<close>\<close>
  "trim_prefix s p = (if has_prefix s p then drop (length p) s else s)"

fun last_index :: "char \<Rightarrow> string \<Rightarrow> nat option" where
  \<comment> \<open>\<open>strings.LastIndexByte\<close>; None is Go's \<open>-1\<close>\<close>
  "last_index c [] = None"
| "last_index c (x # xs) =
     (case last_index c xs of
        Some i \<Rightarrow> Some (Suc i)
      | None \<Rightarrow> if x = c then Some 0 else None)"

definition newline :: char where
  "newline = char_of (10::nat)"

definition carriage :: char where
  "carriage = char_of (13::nat)"

lemma has_prefix_append: "has_prefix (p @ s) p"
  by (simp add: has_prefix_def)

lemma has_prefix_iff: "has_prefix s p \<longleftrightarrow> prefix p s"
  by (auto simp: has_prefix_def prefix_def) (metis append_take_drop_id)

lemma has_suffix_iff: "has_suffix s p \<longleftrightarrow> suffix p s"
proof
  assume "has_suffix s p"
  then have "drop (length s - length p) s = p" by (simp add: has_suffix_def)
  then show "suffix p s" by (metis suffix_drop)
next
  assume "suffix p s"
  then show "has_suffix s p" by (auto simp: has_suffix_def suffix_def)
qed

lemma contains_str_iff: "contains_str s p \<longleftrightarrow> sublist p s"
proof (induction s)
  case Nil
  then show ?case by simp
next
  case (Cons c s)
  then show ?case by (auto simp: has_prefix_iff sublist_Cons_right)
qed

section \<open>Lists and maps\<close>

lemma sum_list_update_int:
  fixes xs :: "int list"
  shows "i < length xs \<Longrightarrow> sum_list (xs[i := v]) = sum_list xs - xs ! i + v"
proof (induction xs arbitrary: i)
  case Nil
  then show ?case by simp
next
  case (Cons x xs)
  then show ?case by (cases i) auto
qed

lemma find_append:
  "List.find P (xs @ ys) = (case List.find P xs of Some x \<Rightarrow> Some x | None \<Rightarrow> List.find P ys)"
  by (induction xs) auto

lemma find_rev_None: "List.find P (rev ms) = None \<longleftrightarrow> (\<forall>m\<in>set ms. \<not> P m)"
  by (auto simp: find_None_iff)

lemma find_rev_Some: "List.find P (rev ms) = Some m \<Longrightarrow> P m \<and> m \<in> set ms"
  by (metis find_Some_iff nth_mem set_rev)

text \<open>A field no step of a fold changes.\<close>

lemma fold_frame: "(\<And>x s. f (g x s) = f s) \<Longrightarrow> f (fold g xs s) = f s"
  by (induction xs arbitrary: s) simp_all

lemma card_insert_finite: "finite A \<Longrightarrow> x \<notin> A \<Longrightarrow> int (card (insert x A)) = int (card A) + 1"
  by simp

lemma card_remove_finite: "finite A \<Longrightarrow> x \<in> A \<Longrightarrow> int (card (A - {x})) = int (card A) - 1"
  by (metis card_Suc_Diff1 add_diff_cancel_right' of_nat_1 of_nat_Suc plus_1_eq_Suc add.commute)

section \<open>Decimal numerals\<close>

definition digit_char :: "nat \<Rightarrow> char" where
  "digit_char d = char_of (48 + d)"

fun dec_nat :: "nat \<Rightarrow> string" where
  \<comment> \<open>\<open>strconv.FormatUint(n, 10)\<close>\<close>
  "dec_nat n = (if n < 10 then [digit_char n] else dec_nat (n div 10) @ [digit_char (n mod 10)])"

declare dec_nat.simps [simp del]

lemma digit_char_inj: "d < 10 \<Longrightarrow> e < 10 \<Longrightarrow> digit_char d = digit_char e \<Longrightarrow> d = e"
  by (simp add: digit_char_def char_of_eq_iff of_char_of take_bit_eq_mod)

lemma dec_nat_nonempty: "dec_nat n \<noteq> []"
  by (subst dec_nat.simps) simp

lemma dec_nat_inj: "dec_nat m = dec_nat n \<Longrightarrow> m = n"
proof (induction m arbitrary: n rule: less_induct)
  case (less m)
  have m: "dec_nat m = (if m < 10 then [digit_char m] else dec_nat (m div 10) @ [digit_char (m mod 10)])"
    and n: "dec_nat n = (if n < 10 then [digit_char n] else dec_nat (n div 10) @ [digit_char (n mod 10)])"
    by (rule dec_nat.simps)+
  show ?case
  proof (cases "m < 10 \<or> n < 10")
    case True
    then show ?thesis
      using less.prems m n dec_nat_nonempty digit_char_inj
      by (auto split: if_splits simp: append_eq_Cons_conv Cons_eq_append_conv)
  next
    case False
    then have "dec_nat (m div 10) = dec_nat (n div 10)" "digit_char (m mod 10) = digit_char (n mod 10)"
      using less.prems m n by auto
    moreover from this(1) have "m div 10 = n div 10" using less.IH [of "m div 10" "n div 10"] False by auto
    moreover from \<open>digit_char (m mod 10) = digit_char (n mod 10)\<close> have "m mod 10 = n mod 10"
      by (intro digit_char_inj) auto
    ultimately show ?thesis by (metis div_mult_mod_eq)
  qed
qed

lemma sorted_same: "\<forall>x\<in>set xs. f x = p \<Longrightarrow> sorted (map f xs)"
  by (induction xs) auto

end
