(* ===== verification/Gateway_Errors.thy ===== *)
theory Gateway_Errors
  imports GoBase
begin

text \<open>
  \<open>internal/gateway/errors.go\<close>: the errors the data plane returns, their wire types and
  the google.rpc status names of the Gemini surface, and the wire protocols of
  \<open>internal/model/model.go\<close> with the request types of
  \<open>internal/provider/registry.go\<close>.
\<close>

section \<open>Wire protocols\<close>

text \<open>The protocol strings of the code, one constructor per constant.\<close>

datatype proto =
    ProtoOpenAIChat | ProtoOpenAIResponses | ProtoAnthropicMessages | ProtoGemini
  | ProtoOpenAIEmbeddings | ProtoOpenAIImages | ProtoCustomJSON

datatype api_type = TypeText | TypeImage | TypeEmbedding | TypeCustom

fun type_text :: "api_type \<Rightarrow> string" where
  "type_text TypeText = ''text''"
| "type_text TypeImage = ''image''"
| "type_text TypeEmbedding = ''embedding''"
| "type_text TypeCustom = ''custom''"

fun protocolType :: "proto \<Rightarrow> api_type" where
  "protocolType ProtoOpenAIImages = TypeImage"
| "protocolType ProtoOpenAIEmbeddings = TypeEmbedding"
| "protocolType ProtoCustomJSON = TypeCustom"
| "protocolType _ = TypeText"

fun protocolsForType :: "api_type \<Rightarrow> proto list" where
  "protocolsForType TypeImage = [ProtoOpenAIImages]"
| "protocolsForType TypeEmbedding = [ProtoOpenAIEmbeddings]"
| "protocolsForType TypeCustom = [ProtoCustomJSON]"
| "protocolsForType TypeText =
     [ProtoOpenAIChat, ProtoOpenAIResponses, ProtoAnthropicMessages, ProtoGemini]"

fun shortProto :: "proto \<Rightarrow> string" where
  "shortProto ProtoOpenAIResponses = ''responses''"
| "shortProto ProtoAnthropicMessages = ''messages''"
| "shortProto ProtoGemini = ''gemini''"
| "shortProto _ = ''chat''"

lemma mem_protocolsForType: "p \<in> set (protocolsForType t) \<longleftrightarrow> protocolType p = t"
  by (cases p; cases t) simp_all

section \<open>Errors\<close>

record gateway_error =
  gstatus :: int
  gtype :: string
  gcode :: string
  gmessage :: string

definition newErr :: "int \<Rightarrow> string \<Rightarrow> string \<Rightarrow> gateway_error" where
  "newErr status code msg =
     \<lparr>gstatus = status,
      gtype = (if status = 401 then ''authentication_error''
               else if status = 403 then ''permission_error''
               else if status = 404 then ''not_found_error''
               else if status = 429 then ''rate_limit_error''
               else if status \<ge> 500 then ''api_error''
               else ''invalid_request_error''),
      gcode = code, gmessage = msg\<rparr>"

definition ErrUnauthorized :: gateway_error where
  "ErrUnauthorized = newErr 401 ''invalid_api_key'' ''Invalid or missing API key''"
definition ErrKeyDisabled :: gateway_error where
  "ErrKeyDisabled = newErr 401 ''api_key_disabled'' ''API key is disabled''"
definition ErrKeyExpired :: gateway_error where
  "ErrKeyExpired = newErr 401 ''api_key_expired'' ''API key has expired''"
definition ErrKeyModelDenied :: gateway_error where
  "ErrKeyModelDenied = newErr 403 ''key_model_not_allowed'' ''This API key is not allowed to use this model''"
definition ErrRateLimited :: gateway_error where
  "ErrRateLimited = newErr 429 ''rate_limited'' ''Requests per minute limit reached''"
definition ErrTokenRateLimited :: gateway_error where
  "ErrTokenRateLimited = newErr 429 ''token_rate_limited'' ''Tokens per minute limit reached''"
definition ErrUserDisabled :: gateway_error where
  "ErrUserDisabled = newErr 403 ''user_disabled'' ''User account is disabled''"
definition ErrGroupDisabled :: gateway_error where
  "ErrGroupDisabled = newErr 403 ''group_disabled'' ''User group is disabled''"
definition ErrModelNotFound :: gateway_error where
  "ErrModelNotFound = newErr 404 ''model_not_found'' ''The requested model does not exist''"
definition ErrModelNotAllowed :: gateway_error where
  "ErrModelNotAllowed = newErr 403 ''model_not_allowed'' ''Your group is not allowed to use this model''"
definition ErrQuotaExceeded :: gateway_error where
  "ErrQuotaExceeded = newErr 429 ''quota_exceeded'' ''Token quota for your group has been exhausted''"
definition ErrGatewayBusy :: gateway_error where
  "ErrGatewayBusy = newErr 429 ''gateway_busy'' ''Gateway concurrency limit reached, request queue is full''"
definition ErrQueueTimeout :: gateway_error where
  "ErrQueueTimeout = newErr 429 ''queue_timeout'' ''Request timed out while waiting in the gateway queue''"
definition ErrGroupBusy :: gateway_error where
  "ErrGroupBusy = newErr 429 ''group_rate_limited'' ''User group concurrency limit reached''"
definition ErrKeyBusy :: gateway_error where
  "ErrKeyBusy = newErr 429 ''key_rate_limited'' ''API key concurrency limit reached''"
definition ErrNoUpstream :: gateway_error where
  "ErrNoUpstream = newErr 503 ''no_available_upstream'' ''No healthy upstream account can serve this model''"
definition ErrEndpointNotFound :: gateway_error where
  "ErrEndpointNotFound = newErr 404 ''not_found'' ''not found''"
definition ErrBodyTooLarge :: gateway_error where
  "ErrBodyTooLarge = newErr 413 ''request_too_large'' ''Request body exceeds the configured limit''"
definition ErrBadJSON :: gateway_error where
  "ErrBadJSON = newErr 400 ''invalid_json'' ''Request body is not valid JSON''"
definition ErrContentBlocked :: gateway_error where
  "ErrContentBlocked = newErr 400 ''content_blocked'' ''Request blocked by content compliance policy''"
definition ErrConversionFailed :: gateway_error where
  "ErrConversionFailed = newErr 400 ''protocol_conversion_failed'' ''Request could not be converted to a protocol supported by the upstream''"
definition ErrMemoryBudget :: gateway_error where
  "ErrMemoryBudget = newErr 503 ''gateway_overloaded'' ''Gateway request-body memory budget exhausted, try again later''"
definition ErrComplianceDown :: gateway_error where
  "ErrComplianceDown = newErr 503 ''compliance_unavailable'' ''Content compliance service is unavailable and the policy requires blocking''"

lemmas gateway_error_defs =
  ErrUnauthorized_def ErrKeyDisabled_def ErrKeyExpired_def ErrKeyModelDenied_def
  ErrRateLimited_def ErrTokenRateLimited_def ErrUserDisabled_def ErrGroupDisabled_def
  ErrModelNotFound_def ErrModelNotAllowed_def ErrQuotaExceeded_def ErrGatewayBusy_def
  ErrQueueTimeout_def ErrGroupBusy_def ErrKeyBusy_def ErrNoUpstream_def
  ErrEndpointNotFound_def ErrBodyTooLarge_def ErrBadJSON_def ErrContentBlocked_def
  ErrConversionFailed_def ErrMemoryBudget_def ErrComplianceDown_def

lemma gstatus_newErr [simp]: "gstatus (newErr s c m) = s"
  by (simp add: newErr_def)

lemma gcode_newErr [simp]: "gcode (newErr s c m) = c"
  by (simp add: newErr_def)

lemma gmessage_newErr [simp]: "gmessage (newErr s c m) = m"
  by (simp add: newErr_def)

definition geminiStatus :: "int \<Rightarrow> string" where
  "geminiStatus status =
     (if status = 400 \<or> status = 413 then ''INVALID_ARGUMENT''
      else if status = 401 then ''UNAUTHENTICATED''
      else if status = 403 then ''PERMISSION_DENIED''
      else if status = 404 then ''NOT_FOUND''
      else if status = 429 then ''RESOURCE_EXHAUSTED''
      else if status = 503 then ''UNAVAILABLE''
      else ''INTERNAL'')"

text \<open>The three error shapes \<open>writeErrorProto\<close> encodes, before JSON encoding.\<close>

datatype error_body =
    GeminiError int string string          \<comment> \<open>code, message, status\<close>
  | AnthropicError string string           \<comment> \<open>type, message\<close>
  | OpenAIError string string string       \<comment> \<open>message, type, code\<close>

fun writeErrorProto :: "proto \<Rightarrow> gateway_error \<Rightarrow> int \<times> error_body" where
  "writeErrorProto ProtoGemini e =
     (gstatus e, GeminiError (gstatus e) (gmessage e) (geminiStatus (gstatus e)))"
| "writeErrorProto ProtoAnthropicMessages e =
     (gstatus e, AnthropicError (gtype e) (gmessage e))"
| "writeErrorProto _ e = (gstatus e, OpenAIError (gmessage e) (gtype e) (gcode e))"

definition writeError :: "bool \<Rightarrow> gateway_error \<Rightarrow> int \<times> error_body" where
  "writeError anthropic e =
     (if anthropic then writeErrorProto ProtoAnthropicMessages e
      else writeErrorProto ProtoOpenAIChat e)"

lemma writeErrorProto_status: "fst (writeErrorProto p e) = gstatus e"
  by (cases p) simp_all

end
