(* ===== verification/Slot_Pool.thy ===== *)
theory Slot_Pool
  imports GoBase
begin

text \<open>
  The interface the pipeline relies on wherever it takes a concurrency slot and gives it
  back: the per-group, per-key and per-account counters and the global gate of
  \<open>internal/gateway/limiter.go\<close>. The contract is that a successful take counts exactly one
  more slot, that giving it back restores the pool, and, for the bounded pools, that a
  take never passes the cap and is refused only at the cap.
\<close>

datatype pool_op = Take | Give

fun pool_run :: "('s \<Rightarrow> 's option) \<Rightarrow> ('s \<Rightarrow> 's) \<Rightarrow> pool_op list \<Rightarrow> 's \<Rightarrow> 's" where
  \<comment> \<open>A refused take leaves the pool alone, as the callers do.\<close>
  "pool_run tk gv [] s = s"
| "pool_run tk gv (Take # ops) s =
     pool_run tk gv ops (case tk s of None \<Rightarrow> s | Some s' \<Rightarrow> s')"
| "pool_run tk gv (Give # ops) s = pool_run tk gv ops (gv s)"

locale slot_pool =
  fixes try_take :: "'s \<Rightarrow> 's option"
    and give_back :: "'s \<Rightarrow> 's"
    and in_use :: "'s \<Rightarrow> int"
  assumes take_counts: "try_take s = Some s' \<Longrightarrow> in_use s' = in_use s + 1"
    and give_counts: "in_use (give_back s) = in_use s - 1"
    and take_give: "try_take s = Some s' \<Longrightarrow> give_back s' = s"
begin

lemma give_take_in_use: "try_take s = Some s' \<Longrightarrow> in_use (give_back s') = in_use s"
  by (simp add: take_give)

lemma take_twice:
  "try_take s = Some s1 \<Longrightarrow> try_take s1 = Some s2 \<Longrightarrow> give_back (give_back s2) = s"
  by (simp add: take_give)

end

locale bounded_pool = slot_pool +
  fixes cap :: "'a \<Rightarrow> int"
  assumes take_cap: "try_take s = Some s' \<Longrightarrow> cap s' = cap s"
    and give_cap: "cap (give_back s) = cap s"
    and take_bound: "try_take s = Some s' \<Longrightarrow> 0 < cap s \<Longrightarrow> in_use s' \<le> cap s"
    and take_refused: "try_take s = None \<longleftrightarrow> 0 < cap s \<and> cap s \<le> in_use s"
begin

lemma unlimited_never_refuses: "cap s \<le> 0 \<Longrightarrow> \<exists>s'. try_take s = Some s'"
  using take_refused [of s] by (cases "try_take s") auto

lemma give_then_take: "in_use s \<le> cap s \<Longrightarrow> try_take (give_back s) \<noteq> None"
  using take_refused [of "give_back s"] by (simp add: give_cap give_counts)

lemma pool_run_cap: "cap (pool_run try_take give_back ops s) = cap s"
proof (induction ops arbitrary: s)
  case (Cons op ops)
  then show ?case
    by (cases op) (auto simp: give_cap dest: take_cap split: option.splits)
qed simp

lemma pool_run_bound:
  "0 < cap s \<Longrightarrow> in_use s \<le> cap s \<Longrightarrow>
     in_use (pool_run try_take give_back ops s) \<le> cap s"
proof (induction ops arbitrary: s)
  case (Cons op ops)
  show ?case
  proof (cases op)
    case Take
    show ?thesis
    proof (cases "try_take s")
      case (Some s')
      then have "in_use s' \<le> cap s'" "cap s' = cap s"
        using take_bound [of s s'] take_cap [of s s'] Cons.prems by auto
      with Cons.IH [of s'] Cons.prems Take Some show ?thesis by simp
    qed (use Cons Take in simp)
  next
    case Give
    with Cons.IH [of "give_back s"] Cons.prems show ?thesis
      by (simp add: give_cap give_counts)
  qed
qed simp

end

end
