(* ===== verification/Limiter.thy ===== *)
theory Limiter
  imports Gateway_Errors Slot_Pool "HOL-Library.Multiset"
begin

text \<open>
  \<open>internal/gateway/limiter.go\<close>: the lock-free in-flight counters, the map of counters by
  id, the global gate with its bounded wait queue and the request-body memory budget.
  The atomic counter and the gate are also given as step relations over any number of
  concurrent callers, with the interleavings of the compare-and-swap loop and of the
  condition variable made explicit.
\<close>

section \<open>Counters\<close>

text \<open>\<open>counter.tryAcquire\<close> run without interference: one pass of its loop.\<close>

definition tryAcquire :: "int \<Rightarrow> int \<Rightarrow> int option" where
  "tryAcquire lim cur = (if lim > 0 \<and> cur \<ge> lim then None else Some (cur + 1))"

definition counter_release :: "int \<Rightarrow> int" where
  "counter_release cur = cur - 1"

interpretation counter: bounded_pool "tryAcquire lim" counter_release "\<lambda>c. c" "\<lambda>_. lim"
  by unfold_locales (auto simp: tryAcquire_def counter_release_def split: if_splits)

text \<open>
  The loop under interference. A caller has loaded a value, or holds a slot, or is outside
  the call; its limit is the one of the configuration snapshot it holds, so callers may
  disagree on it.
\<close>

datatype cas_pc = Outside | Loaded int | Holding

record cas_sys =
  cas_cur :: int
  cas_pcs :: "nat \<Rightarrow> cas_pc"

definition cas_init :: cas_sys where
  "cas_init = \<lparr>cas_cur = 0, cas_pcs = (\<lambda>_. Outside)\<rparr>"

definition holding :: "cas_sys \<Rightarrow> nat set" where
  "holding s = {t. cas_pcs s t = Holding}"

inductive cas_step :: "(nat \<Rightarrow> int) \<Rightarrow> cas_sys \<Rightarrow> cas_sys \<Rightarrow> bool" for lim where
  load: "cas_pcs s t = Outside \<Longrightarrow>
     cas_step lim s (s\<lparr>cas_pcs := (cas_pcs s)(t := Loaded (cas_cur s))\<rparr>)"
| refuse: "cas_pcs s t = Loaded v \<Longrightarrow> lim t > 0 \<Longrightarrow> v \<ge> lim t \<Longrightarrow>
     cas_step lim s (s\<lparr>cas_pcs := (cas_pcs s)(t := Outside)\<rparr>)"
| swap: "cas_pcs s t = Loaded v \<Longrightarrow> \<not> (lim t > 0 \<and> v \<ge> lim t) \<Longrightarrow> cas_cur s = v \<Longrightarrow>
     cas_step lim s (s\<lparr>cas_cur := v + 1, cas_pcs := (cas_pcs s)(t := Holding)\<rparr>)"
| retry: "cas_pcs s t = Loaded v \<Longrightarrow> \<not> (lim t > 0 \<and> v \<ge> lim t) \<Longrightarrow> cas_cur s \<noteq> v \<Longrightarrow>
     cas_step lim s (s\<lparr>cas_pcs := (cas_pcs s)(t := Outside)\<rparr>)"
| leave: "cas_pcs s t = Holding \<Longrightarrow>
     cas_step lim s (s\<lparr>cas_cur := cas_cur s - 1, cas_pcs := (cas_pcs s)(t := Outside)\<rparr>)"

inductive cas_reachable :: "(nat \<Rightarrow> int) \<Rightarrow> cas_sys \<Rightarrow> bool" for lim where
  cas_start: "cas_reachable lim cas_init"
| cas_next: "cas_reachable lim s \<Longrightarrow> cas_step lim s s' \<Longrightarrow> cas_reachable lim s'"

definition cas_inv :: "cas_sys \<Rightarrow> bool" where
  "cas_inv s \<longleftrightarrow> finite (holding s) \<and> cas_cur s = int (card (holding s))"

lemma holding_upd:
  "holding (s\<lparr>cas_cur := c, cas_pcs := (cas_pcs s)(t := p)\<rparr>) =
     (if p = Holding then insert t (holding s) else holding s - {t})"
  "holding (s\<lparr>cas_pcs := (cas_pcs s)(t := p)\<rparr>) =
     (if p = Holding then insert t (holding s) else holding s - {t})"
  by (auto simp: holding_def)

lemma cas_inv_step [inv_intros]: "cas_step lim s s' \<Longrightarrow> cas_inv s \<Longrightarrow> cas_inv s'"
proof (induction rule: cas_step.induct)
  case (leave s t)
  then have "t \<in> holding s" and fin: "finite (holding s)"
    by (simp_all add: holding_def cas_inv_def)
  then have "int (card (holding s - {t})) = int (card (holding s)) - 1"
    by (simp only: card_remove_finite)
  with leave fin show ?case
    by (simp only: cas_inv_def holding_upd) (simp add: cas_inv_def)
qed (auto simp: cas_inv_def holding_upd holding_def [symmetric],
     auto simp: holding_def card_insert_finite)

lemma cas_inv_init: "cas_inv cas_init"
  by (simp add: cas_inv_def cas_init_def holding_def)

lemma cas_reachable_inv: "cas_reachable lim s \<Longrightarrow> cas_inv s"
  by (induction rule: cas_reachable.induct) (blast intro: cas_inv_step cas_inv_init)+

lemma cas_reachable_bound:
  "cas_reachable lim s \<Longrightarrow> (\<forall>t. lim t = l) \<Longrightarrow> 0 < l \<Longrightarrow> cas_cur s \<le> l"
proof (induction rule: cas_reachable.induct)
  case (cas_next s s')
  from cas_next(2) cas_next(3) [OF cas_next(4,5)] cas_next(4,5) show ?case
    by (cases rule: cas_step.cases) auto
qed (simp add: cas_init_def)

section \<open>The map of counters\<close>

text \<open>
  \<open>counterMap\<close>: ids map to pointers and the pointers to counters, because a caller keeps the
  pointer it got while the map may drop it. The heap of counters only grows.
\<close>

record counter_map =
  cm_map :: "nat \<rightharpoonup> nat"
  cm_heap :: "int list"

definition newCounterMap :: counter_map where
  "newCounterMap = \<lparr>cm_map = Map.empty, cm_heap = []\<rparr>"

definition cm_get :: "nat \<Rightarrow> counter_map \<Rightarrow> counter_map \<times> nat" where
  "cm_get i cm =
     (case cm_map cm i of
        Some p \<Rightarrow> (cm, p)
      | None \<Rightarrow>
          let p = length (cm_heap cm)
          in (cm\<lparr>cm_map := (cm_map cm)(i \<mapsto> p), cm_heap := cm_heap cm @ [0]\<rparr>, p))"

definition cm_try :: "int \<Rightarrow> nat \<Rightarrow> counter_map \<Rightarrow> counter_map option" where
  "cm_try lim p cm =
     map_option (\<lambda>c. cm\<lparr>cm_heap := (cm_heap cm)[p := c]\<rparr>) (tryAcquire lim (cm_heap cm ! p))"

definition cm_release :: "nat \<Rightarrow> counter_map \<Rightarrow> counter_map" where
  "cm_release p cm = cm\<lparr>cm_heap := (cm_heap cm)[p := counter_release (cm_heap cm ! p)]\<rparr>"

definition cm_snapshot :: "counter_map \<Rightarrow> nat \<rightharpoonup> int" where
  "cm_snapshot cm = (\<lambda>i. map_option (\<lambda>p. cm_heap cm ! p) (cm_map cm i))"

definition cm_prune :: "(nat \<Rightarrow> bool) \<Rightarrow> counter_map \<Rightarrow> counter_map" where
  "cm_prune keep cm =
     cm\<lparr>cm_map := (\<lambda>i. case cm_map cm i of
                      None \<Rightarrow> None
                    | Some p \<Rightarrow> if \<not> keep i \<and> cm_heap cm ! p = 0 then None else Some p)\<rparr>"

definition cm_wf :: "counter_map \<Rightarrow> bool" where
  "cm_wf cm \<longleftrightarrow>
     (\<forall>i p. cm_map cm i = Some p \<longrightarrow> p < length (cm_heap cm)) \<and>
     (\<forall>i j p. cm_map cm i = Some p \<longrightarrow> cm_map cm j = Some p \<longrightarrow> i = j)"

lemma cm_wf_fresh: "cm_wf cm \<Longrightarrow> cm_map cm j \<noteq> Some (length (cm_heap cm))"
  by (auto simp: cm_wf_def)

lemma cm_get_wf [inv_intros]: "cm_wf cm \<Longrightarrow> cm_wf (fst (cm_get i cm))"
  using cm_wf_fresh [of cm]
  by (auto simp: cm_wf_def cm_get_def Let_def less_Suc_eq split: option.splits)

lemma cm_get_pointer:
  "cm_wf cm \<Longrightarrow> cm_get i cm = (cm', p) \<Longrightarrow> p < length (cm_heap cm') \<and> cm_map cm' i = Some p"
  by (auto simp: cm_wf_def cm_get_def Let_def split: option.splits)

lemma cm_get_again: "cm_get i cm = (cm', p) \<Longrightarrow> cm_get i cm' = (cm', p)"
  by (auto simp: cm_get_def Let_def split: option.splits)

lemma cm_prune_wf [inv_intros]: "cm_wf cm \<Longrightarrow> cm_wf (cm_prune keep cm)"
  by (auto simp: cm_wf_def cm_prune_def split: option.splits if_splits)

lemma cm_prune_keeps:
  "cm_snapshot (cm_prune keep cm) i =
     (if \<not> keep i \<and> cm_snapshot cm i = Some 0 then None else cm_snapshot cm i)"
  by (auto simp: cm_snapshot_def cm_prune_def split: option.splits)

lemma cm_prune_busy: "cm_snapshot cm i = Some n \<Longrightarrow> n \<noteq> 0 \<Longrightarrow> cm_snapshot (cm_prune keep cm) i = Some n"
  by (simp add: cm_prune_keeps)

lemma cm_try_release:
  "cm_try lim p cm = Some cm' \<Longrightarrow> p < length (cm_heap cm) \<Longrightarrow> cm_release p cm' = cm"
  by (auto simp: cm_try_def cm_release_def tryAcquire_def counter_release_def split: if_splits)

lemma cm_try_wf [inv_intros]: "cm_wf cm \<Longrightarrow> cm_try lim p cm = Some cm' \<Longrightarrow> cm_wf cm'"
  by (auto simp: cm_wf_def cm_try_def)

lemma cm_release_wf [inv_intros]: "cm_wf cm \<Longrightarrow> cm_wf (cm_release p cm)"
  by (auto simp: cm_wf_def cm_release_def)

section \<open>The gate\<close>

text \<open>
  Everything the gate does to its fields happens while \<open>mu\<close> is held, so each critical
  section is one function. \<open>expired\<close> stands for the waiter's
  \<open>ctx.Err() != nil || time.Now().After(deadline)\<close>.
\<close>

record gate =
  g_inflight :: int
  g_waiting :: int
  g_limit :: int
  g_queue :: int

datatype gate_outcome = Admitted | Rejected gateway_error | MustWait

definition newGate :: "int \<Rightarrow> int \<Rightarrow> gate" where
  "newGate limit queue = \<lparr>g_inflight = 0, g_waiting = 0, g_limit = limit, g_queue = queue\<rparr>"

definition gate_configure :: "int \<Rightarrow> int \<Rightarrow> gate \<Rightarrow> gate" where
  "gate_configure limit queue g = g\<lparr>g_limit := limit, g_queue := queue\<rparr>"

definition slot_free :: "gate \<Rightarrow> bool" where
  "slot_free g \<longleftrightarrow> g_limit g \<le> 0 \<or> g_inflight g < g_limit g"

definition gate_poll :: "bool \<Rightarrow> gate \<Rightarrow> gate \<times> gate_outcome" where
  \<comment> \<open>one pass of the waiting loop\<close>
  "gate_poll expired g =
     (if slot_free g then
        (g\<lparr>g_waiting := g_waiting g - 1, g_inflight := g_inflight g + 1\<rparr>, Admitted)
      else if expired then (g\<lparr>g_waiting := g_waiting g - 1\<rparr>, Rejected ErrQueueTimeout)
      else (g, MustWait))"

definition gate_acquire :: "bool \<Rightarrow> gate \<Rightarrow> gate \<times> gate_outcome" where
  \<comment> \<open>\<open>acquire\<close> up to its return or its first \<open>cond.Wait\<close>\<close>
  "gate_acquire expired g =
     (if slot_free g then (g\<lparr>g_inflight := g_inflight g + 1\<rparr>, Admitted)
      else if g_queue g > 0 \<and> g_waiting g \<ge> g_queue g then (g, Rejected ErrGatewayBusy)
      else gate_poll expired (g\<lparr>g_waiting := g_waiting g + 1\<rparr>))"

definition gate_release :: "gate \<Rightarrow> gate" where
  "gate_release g = g\<lparr>g_inflight := g_inflight g - 1\<rparr>"

definition gate_stats :: "gate \<Rightarrow> int \<times> int \<times> int \<times> int" where
  "gate_stats g = (g_inflight g, g_limit g, g_waiting g, g_queue g)"

definition gate_try :: "gate \<Rightarrow> gate option" where
  \<comment> \<open>an \<open>acquire\<close> that finds a free slot at once\<close>
  "gate_try g = (case gate_acquire True g of (g', Admitted) \<Rightarrow> Some g' | _ \<Rightarrow> None)"

lemmas gate_defs = gate_configure_def slot_free_def gate_poll_def gate_acquire_def gate_release_def

interpretation gate: bounded_pool gate_try gate_release g_inflight g_limit
  by unfold_locales
     (auto simp: gate_try_def gate_defs split: if_splits gate_outcome.splits prod.splits)

text \<open>
  The monitor as a step relation. A caller that waits is asleep on the condition variable
  or awake (it has been notified and has yet to take the lock again). \<open>release\<close> unlocks
  before it signals and \<open>configure\<close> before it broadcasts, so the notifications are in
  flight for a while; the timers and contexts of waiters broadcast at any time.
\<close>

record gate_sys =
  gs_gate :: gate
  gs_holders :: "nat set"
  gs_awake :: "nat set"
  gs_asleep :: "nat set"
  gs_signals :: nat
  gs_bcasts :: nat

definition gate_init :: "int \<Rightarrow> int \<Rightarrow> gate_sys" where
  "gate_init limit queue =
     \<lparr>gs_gate = newGate limit queue, gs_holders = {}, gs_awake = {}, gs_asleep = {},
      gs_signals = 0, gs_bcasts = 0\<rparr>"

definition gs_present :: "gate_sys \<Rightarrow> nat set" where
  "gs_present s = gs_holders s \<union> gs_awake s \<union> gs_asleep s"

datatype gate_label =
  Arrive nat | Wake nat | Release nat | Signal | SignalLost | Configure int int | Broadcast | Timer

inductive gate_step :: "gate_sys \<Rightarrow> gate_label \<Rightarrow> gate_sys \<Rightarrow> bool" where
  arrive_in: "t \<notin> gs_present s \<Longrightarrow> gate_acquire e (gs_gate s) = (g', Admitted) \<Longrightarrow>
     gate_step s (Arrive t) (s\<lparr>gs_gate := g', gs_holders := insert t (gs_holders s)\<rparr>)"
| arrive_out: "t \<notin> gs_present s \<Longrightarrow> gate_acquire e (gs_gate s) = (g', Rejected err) \<Longrightarrow>
     gate_step s (Arrive t) (s\<lparr>gs_gate := g'\<rparr>)"
| arrive_wait: "t \<notin> gs_present s \<Longrightarrow> gate_acquire e (gs_gate s) = (g', MustWait) \<Longrightarrow>
     gate_step s (Arrive t) (s\<lparr>gs_gate := g', gs_asleep := insert t (gs_asleep s)\<rparr>)"
| wake_in: "t \<in> gs_awake s \<Longrightarrow> gate_poll e (gs_gate s) = (g', Admitted) \<Longrightarrow>
     gate_step s (Wake t)
       (s\<lparr>gs_gate := g', gs_awake := gs_awake s - {t}, gs_holders := insert t (gs_holders s)\<rparr>)"
| wake_out: "t \<in> gs_awake s \<Longrightarrow> gate_poll e (gs_gate s) = (g', Rejected err) \<Longrightarrow>
     gate_step s (Wake t) (s\<lparr>gs_gate := g', gs_awake := gs_awake s - {t}\<rparr>)"
| wake_wait: "t \<in> gs_awake s \<Longrightarrow> gate_poll e (gs_gate s) = (g', MustWait) \<Longrightarrow>
     gate_step s (Wake t)
       (s\<lparr>gs_gate := g', gs_awake := gs_awake s - {t}, gs_asleep := insert t (gs_asleep s)\<rparr>)"
| release: "t \<in> gs_holders s \<Longrightarrow>
     gate_step s (Release t)
       (s\<lparr>gs_gate := gate_release (gs_gate s), gs_holders := gs_holders s - {t},
          gs_signals := Suc (gs_signals s)\<rparr>)"
| signal: "gs_signals s = Suc n \<Longrightarrow> t \<in> gs_asleep s \<Longrightarrow>
     gate_step s Signal
       (s\<lparr>gs_signals := n, gs_asleep := gs_asleep s - {t}, gs_awake := insert t (gs_awake s)\<rparr>)"
| signal_lost: "gs_signals s = Suc n \<Longrightarrow> gs_asleep s = {} \<Longrightarrow>
     gate_step s SignalLost (s\<lparr>gs_signals := n\<rparr>)"
| configure: "gate_step s (Configure l q)
       (s\<lparr>gs_gate := gate_configure l q (gs_gate s), gs_bcasts := Suc (gs_bcasts s)\<rparr>)"
| broadcast: "gs_bcasts s = Suc n \<Longrightarrow>
     gate_step s Broadcast
       (s\<lparr>gs_bcasts := n, gs_awake := gs_awake s \<union> gs_asleep s, gs_asleep := {}\<rparr>)"
| timer: "gs_awake s \<union> gs_asleep s \<noteq> {} \<Longrightarrow>
     gate_step s Timer (s\<lparr>gs_awake := gs_awake s \<union> gs_asleep s, gs_asleep := {}\<rparr>)"

inductive gate_reachable :: "int \<Rightarrow> int \<Rightarrow> gate_sys \<Rightarrow> bool" for l q where
  gate_start: "gate_reachable l q (gate_init l q)"
| gate_next: "gate_reachable l q s \<Longrightarrow> gate_step s a s' \<Longrightarrow> gate_reachable l q s'"


definition gate_counts :: "gate_sys \<Rightarrow> bool" where
  "gate_counts s \<longleftrightarrow>
     finite (gs_holders s) \<and> finite (gs_awake s) \<and> finite (gs_asleep s) \<and>
     gs_holders s \<inter> gs_awake s = {} \<and> gs_holders s \<inter> gs_asleep s = {} \<and>
     gs_awake s \<inter> gs_asleep s = {} \<and>
     g_inflight (gs_gate s) = int (card (gs_holders s)) \<and>
     g_waiting (gs_gate s) = int (card (gs_awake s)) + int (card (gs_asleep s))"

text \<open>
  A wake-up in flight covers every free slot a waiter could take, unless a broadcast is
  still to come.
\<close>

definition gate_covered :: "gate_sys \<Rightarrow> bool" where
  "gate_covered s \<longleftrightarrow>
     (gs_bcasts s = 0 \<longrightarrow>
       (g_limit (gs_gate s) \<le> 0 \<longrightarrow> card (gs_asleep s) \<le> gs_signals s) \<and>
       (0 < g_limit (gs_gate s) \<longrightarrow>
          min (g_limit (gs_gate s) - g_inflight (gs_gate s)) (g_waiting (gs_gate s))
            \<le> int (card (gs_awake s)) + int (gs_signals s)))"

lemma int_card_remove:
  "finite A \<Longrightarrow> t \<in> A \<Longrightarrow> int (card A - Suc 0) = int (card A) - 1"
  by (metis One_nat_def card_gt_0_iff empty_iff int_ops(6) of_nat_1 of_nat_less_iff
      less_one linorder_not_less of_nat_diff Suc_leI)

lemmas gate_outcome_simps =
  gate_acquire_def gate_poll_def gate_release_def gate_configure_def slot_free_def gs_present_def

lemma gate_counts_apart:
  "gate_counts s \<Longrightarrow> t \<in> gs_awake s \<Longrightarrow> t \<notin> gs_holders s \<and> t \<notin> gs_asleep s"
  "gate_counts s \<Longrightarrow> t \<in> gs_asleep s \<Longrightarrow> t \<notin> gs_holders s \<and> t \<notin> gs_awake s"
  by (auto simp: gate_counts_def)

lemma gate_counts_step [inv_intros]:
  "gate_step s a s' \<Longrightarrow> gate_counts s \<Longrightarrow> gate_counts s'"
proof (induction rule: gate_step.induct)
  case (signal s n t)
  with gate_counts_apart(2) [of s t] show ?case by (auto simp: gate_counts_def int_card_remove)
next
  case (wake_in t s e g')
  with gate_counts_apart(1) [of s t] show ?case
    by (auto simp: gate_counts_def gate_poll_def slot_free_def int_card_remove split: if_splits)
next
  case (wake_wait t s e g')
  with gate_counts_apart(1) [of s t] show ?case
    by (auto simp: gate_counts_def gate_poll_def slot_free_def int_card_remove split: if_splits)
next
  case (broadcast s n)
  then show ?case by (auto simp: gate_counts_def card_Un_disjoint)
next
  case (timer s)
  then show ?case by (auto simp: gate_counts_def card_Un_disjoint)
qed (auto simp: gate_counts_def gate_outcome_simps int_card_remove split: if_splits)

lemma gate_covered_step [inv_intros]:
  "gate_step s a s' \<Longrightarrow> gate_counts s \<Longrightarrow> gate_covered s \<Longrightarrow> gate_covered s'"
proof (induction rule: gate_step.induct)
  case (signal s n t)
  with gate_counts_apart(2) [of s t] show ?case by (auto simp: gate_covered_def gate_counts_def int_card_remove)
next
  case (wake_in t s e g')
  with gate_counts_apart(1) [of s t] show ?case
    by (auto simp: gate_covered_def gate_counts_def gate_poll_def slot_free_def int_card_remove split: if_splits)
next
  case (wake_wait t s e g')
  then have "0 < card (gs_awake s)" by (auto simp: gate_counts_def card_gt_0_iff)
  with wake_wait gate_counts_apart(1) [of s t] show ?case
    by (auto simp: gate_covered_def gate_counts_def gate_poll_def slot_free_def int_card_remove split: if_splits)
next
  case (wake_out t s e g' err)
  then have "0 < card (gs_awake s)" by (auto simp: gate_counts_def card_gt_0_iff)
  with wake_out show ?case
    by (auto simp: gate_covered_def gate_counts_def gate_poll_def slot_free_def int_card_remove split: if_splits)
next
  case (signal_lost s n)
  then show ?case by (auto simp: gate_covered_def gate_counts_def)
next
  case (broadcast s n)
  then show ?case by (auto simp: gate_covered_def gate_counts_def card_Un_disjoint)
next
  case (timer s)
  then show ?case by (auto simp: gate_covered_def gate_counts_def card_Un_disjoint)
qed (auto simp: gate_covered_def gate_counts_def gate_outcome_simps int_card_remove split: if_splits)

lemma gate_reachable_inv: "gate_reachable l q s \<Longrightarrow> gate_counts s \<and> gate_covered s"
  by (induction rule: gate_reachable.induct)
     (auto intro: gate_counts_step gate_covered_step,
      auto simp: gate_counts_def gate_covered_def gate_init_def newGate_def)


inductive_cases gate_arriveE: "gate_step s (Arrive t) s'"
inductive_cases gate_wakeE: "gate_step s (Wake t) s'"

lemma gate_step_newcomer:
  "gate_step s a s' \<Longrightarrow> t \<in> gs_holders s' \<Longrightarrow> t \<notin> gs_holders s \<Longrightarrow>
     g_limit (gs_gate s') \<le> 0 \<or> g_inflight (gs_gate s') \<le> g_limit (gs_gate s')"
  by (induction rule: gate_step.induct) (auto simp: gate_outcome_simps split: if_splits)

lemma gate_step_sleeper:
  "gate_step s (Arrive t) s' \<Longrightarrow> t \<in> gs_asleep s' \<Longrightarrow> t \<notin> gs_asleep s \<Longrightarrow>
     g_queue (gs_gate s') \<le> 0 \<or> g_waiting (gs_gate s') \<le> g_queue (gs_gate s')"
  by (erule gate_arriveE) (auto simp: gate_outcome_simps split: if_splits)

lemma wake_admits:
  "t \<in> gs_awake s \<Longrightarrow> slot_free (gs_gate s) \<Longrightarrow>
     \<exists>s'. gate_step s (Wake t) s' \<and> t \<in> gs_holders s'"
  by (rule exI, rule conjI, rule wake_in) (auto simp: gate_poll_def)

text \<open>A run to apply the properties to: one slot, a holder and a waiter.\<close>

definition gate_ex1 :: gate_sys where
  "gate_ex1 = (gate_init 1 1)\<lparr>gs_gate := \<lparr>g_inflight = 1, g_waiting = 0, g_limit = 1, g_queue = 1\<rparr>,
     gs_holders := {7}\<rparr>"

definition gate_ex2 :: gate_sys where
  "gate_ex2 = gate_ex1\<lparr>gs_gate := \<lparr>g_inflight = 1, g_waiting = 1, g_limit = 1, g_queue = 1\<rparr>,
     gs_asleep := {8}\<rparr>"

definition gate_ex3 :: gate_sys where
  "gate_ex3 = gate_ex2\<lparr>gs_gate := \<lparr>g_inflight = 0, g_waiting = 1, g_limit = 1, g_queue = 1\<rparr>,
     gs_holders := {}, gs_signals := 1\<rparr>"

lemma gate_ex1_step: "gate_step (gate_init 1 1) (Arrive 7) gate_ex1"
proof -
  have "gate_acquire False (gs_gate (gate_init 1 1)) = (gs_gate gate_ex1, Admitted)"
    by (simp add: gate_outcome_simps gate_init_def newGate_def gate_ex1_def)
  from arrive_in [OF _ this] show ?thesis
    by (simp add: gs_present_def gate_init_def newGate_def gate_ex1_def)
qed

lemma gate_ex2_step: "gate_step gate_ex1 (Arrive 8) gate_ex2"
proof -
  have "gate_acquire False (gs_gate gate_ex1) = (gs_gate gate_ex2, MustWait)"
    by (simp add: gate_outcome_simps gate_init_def newGate_def gate_ex1_def gate_ex2_def)
  from arrive_wait [OF _ this] show ?thesis
    by (simp add: gs_present_def gate_init_def newGate_def gate_ex1_def gate_ex2_def)
qed

lemma gate_ex3_step: "gate_step gate_ex2 (Release 7) gate_ex3"
proof -
  have "7 \<in> gs_holders gate_ex2" by (simp add: gate_ex1_def gate_ex2_def)
  from release [OF this] show ?thesis
    by (simp add: gate_release_def gate_init_def gate_ex1_def gate_ex2_def gate_ex3_def)
qed

lemma gate_ex_reachable:
  "gate_reachable 1 1 gate_ex1" "gate_reachable 1 1 gate_ex2" "gate_reachable 1 1 gate_ex3"
  using gate_start gate_ex1_step gate_ex2_step gate_ex3_step by (blast intro: gate_next)+

text \<open>Property C3: in every reachable state of the global gate, with any number of threads
  arriving, waking, timing out, leaving and any reconfiguration before them, the in-flight count is
  the number of threads inside and the waiting count the number of threads queued; a thread is
  let in only below the limit, and queues only while the queue has room.\<close>

theorem gate_admission:
  assumes "gate_reachable l q s" and "gate_step s a s'"
  shows "g_inflight (gs_gate s') = int (card (gs_holders s')) \<and>
     g_waiting (gs_gate s') = int (card (gs_awake s' \<union> gs_asleep s')) \<and>
     (\<not> gs_holders s' \<subseteq> gs_holders s \<longrightarrow>
        g_limit (gs_gate s') \<le> 0 \<or> int (card (gs_holders s')) \<le> g_limit (gs_gate s')) \<and>
     (\<forall>t. a = Arrive t \<and> t \<in> gs_asleep s' - gs_asleep s \<longrightarrow>
        g_queue (gs_gate s') \<le> 0 \<or> g_waiting (gs_gate s') \<le> g_queue (gs_gate s'))"
proof -
  have counts: "gate_counts s'"
    using gate_reachable_inv [OF assms(1)] gate_counts_step [OF assms(2)] by blast
  then have "card (gs_awake s' \<union> gs_asleep s') = card (gs_awake s') + card (gs_asleep s')"
    by (auto simp: gate_counts_def intro: card_Un_disjoint)
  moreover have "g_queue (gs_gate s') \<le> 0 \<or> g_waiting (gs_gate s') \<le> g_queue (gs_gate s')"
    if "a = Arrive t \<and> t \<in> gs_asleep s' - gs_asleep s" for t
    using gate_step_sleeper [of s t s'] that assms(2) by blast
  ultimately show ?thesis
    using counts gate_step_newcomer [OF assms(2)] by (auto simp: gate_counts_def)
qed

theorem gate_admission_witness:
  "g_inflight (gs_gate gate_ex2) = int (card (gs_holders gate_ex2)) \<and>
   g_waiting (gs_gate gate_ex2) \<le> g_queue (gs_gate gate_ex2)"
  using gate_admission [OF gate_ex_reachable(1) gate_ex2_step]
  by (simp add: gate_ex1_def gate_ex2_def gate_init_def)

text \<open>Property C4: whenever a slot is free while requests are queued, one of them can take it at
  once or after a single wake-up that is already on its way: no release is lost on the queue.\<close>

theorem gate_no_lost_wakeup:
  assumes "gate_reachable l q s" and free: "slot_free (gs_gate s)"
    and waiter: "gs_awake s \<union> gs_asleep s \<noteq> {}"
  shows "\<exists>s1 t s2. (s1 = s \<or> gate_step s Signal s1 \<or> gate_step s Broadcast s1) \<and>
     t \<in> gs_awake s \<union> gs_asleep s \<and> gate_step s1 (Wake t) s2 \<and> t \<in> gs_holders s2"
proof (cases "gs_awake s = {}")
  case False
  then obtain t where "t \<in> gs_awake s" by auto
  with wake_admits [OF _ free] show ?thesis by blast
next
  case True
  with waiter obtain t where t: "t \<in> gs_asleep s" by auto
  have inv: "gate_counts s" "gate_covered s" using gate_reachable_inv [OF assms(1)] by auto
  show ?thesis
  proof (cases "gs_bcasts s")
    case (Suc n)
    let ?s1 = "s\<lparr>gs_bcasts := n, gs_awake := gs_awake s \<union> gs_asleep s, gs_asleep := {}\<rparr>"
    have "gate_step s Broadcast ?s1" using Suc by (rule broadcast)
    moreover have "\<exists>s2. gate_step ?s1 (Wake t) s2 \<and> t \<in> gs_holders s2"
      using t free by (intro wake_admits) auto
    ultimately show ?thesis using t by blast
  next
    case 0
    have "card (gs_asleep s) > 0" using t inv(1) by (auto simp: gate_counts_def card_gt_0_iff)
    with inv 0 True free have "gs_signals s > 0"
      by (auto simp: gate_covered_def gate_counts_def slot_free_def)
    then obtain n where n: "gs_signals s = Suc n" by (cases "gs_signals s") auto
    let ?s1 = "s\<lparr>gs_signals := n, gs_asleep := gs_asleep s - {t}, gs_awake := insert t (gs_awake s)\<rparr>"
    have "gate_step s Signal ?s1" using n t by (rule signal)
    moreover have "\<exists>s2. gate_step ?s1 (Wake t) s2 \<and> t \<in> gs_holders s2"
      using free by (intro wake_admits) auto
    ultimately show ?thesis using t by blast
  qed
qed

theorem gate_no_lost_wakeup_witness:
  "\<exists>s1 t s2. (s1 = gate_ex3 \<or> gate_step gate_ex3 Signal s1 \<or> gate_step gate_ex3 Broadcast s1) \<and>
     t \<in> gs_awake gate_ex3 \<union> gs_asleep gate_ex3 \<and> gate_step s1 (Wake t) s2 \<and> t \<in> gs_holders s2"
proof (rule gate_no_lost_wakeup [OF gate_ex_reachable(3)])
  show "slot_free (gs_gate gate_ex3)" by (simp add: slot_free_def gate_ex3_def)
  show "gs_awake gate_ex3 \<union> gs_asleep gate_ex3 \<noteq> {}" by (simp add: gate_ex3_def gate_ex2_def)
qed

text \<open>However the loads and compare-and-swaps of any number of threads interleave,
  the counter is the number of threads holding a slot and never exceeds a positive limit.\<close>

lemma counter_within_limit:
  assumes "cas_reachable lim s" and "\<forall>t. lim t = l" and "0 < l"
  shows "finite (holding s) \<and> cas_cur s = int (card (holding s)) \<and> int (card (holding s)) \<le> l"
  using cas_reachable_inv [OF assms(1)] cas_reachable_bound [OF assms] by (simp add: cas_inv_def)

theorem counter_within_limit_witness:
  "cas_cur (cas_init\<lparr>cas_cur := 0 + 1,
      cas_pcs := ((cas_pcs cas_init)(3 := Loaded 0))(3 := Holding)\<rparr>) \<le> 1"
proof -
  have "cas_reachable (\<lambda>_. 1) (cas_init\<lparr>cas_pcs := (cas_pcs cas_init)(3 := Loaded 0)\<rparr>)"
    using cas_next [OF cas_start load [of cas_init 3]] by (simp add: cas_init_def)
  from cas_next [OF this swap [of _ 3 0]]
  have "cas_reachable (\<lambda>_. 1) (cas_init\<lparr>cas_cur := 0 + 1,
      cas_pcs := ((cas_pcs cas_init)(3 := Loaded 0))(3 := Holding)\<rparr>)"
    by (simp add: cas_init_def)
  from counter_within_limit [OF this, of 1] show ?thesis by simp
qed

section \<open>The body-memory budget\<close>

record budget =
  b_used :: int
  b_limit :: int

definition newBudget :: "int \<Rightarrow> budget" where
  "newBudget limit = \<lparr>b_used = 0, b_limit = limit\<rparr>"

definition budget_configure :: "int \<Rightarrow> budget \<Rightarrow> budget" where
  "budget_configure limit b = b\<lparr>b_limit := limit\<rparr>"

definition budget_poll :: "bool \<Rightarrow> int \<Rightarrow> budget \<Rightarrow> budget \<times> bool option" where
  \<comment> \<open>one pass of the waiting loop; None is \<open>cond.Wait\<close>\<close>
  "budget_poll expired n b =
     (if b_limit b \<le> 0 \<or> b_used b + n \<le> b_limit b \<or> (b_used b = 0 \<and> n > b_limit b)
      then (b\<lparr>b_used := b_used b + n\<rparr>, Some True)
      else if expired then (b, Some False)
      else (b, None))"

definition budget_acquire :: "bool \<Rightarrow> int \<Rightarrow> budget \<Rightarrow> budget \<times> bool option" where
  "budget_acquire expired n b = (if n \<le> 0 then (b, Some True) else budget_poll expired n b)"

definition budget_release :: "int \<Rightarrow> budget \<Rightarrow> budget" where
  "budget_release n b =
     (if n \<le> 0 then b
      else let u = b_used b - n in b\<lparr>b_used := (if u < 0 then 0 else u)\<rparr>)"

definition budget_stats :: "budget \<Rightarrow> int \<times> int" where
  "budget_stats b = (b_used b, b_limit b)"

record budget_sys =
  bs_budget :: budget
  bs_held :: "int multiset" \<comment> \<open>the reservations not yet released\<close>

inductive budget_step :: "budget_sys \<Rightarrow> budget_sys \<Rightarrow> bool" where
  reserve: "0 < n \<Longrightarrow> budget_acquire e n (bs_budget s) = (b', Some True) \<Longrightarrow>
     budget_step s (s\<lparr>bs_budget := b', bs_held := add_mset n (bs_held s)\<rparr>)"
| give_up: "budget_acquire e n (bs_budget s) = (b', Some False) \<Longrightarrow>
     budget_step s (s\<lparr>bs_budget := b'\<rparr>)"
| unreserve: "n \<in># bs_held s \<Longrightarrow>
     budget_step s (s\<lparr>bs_budget := budget_release n (bs_budget s), bs_held := bs_held s - {#n#}\<rparr>)"
| reconfigure: "budget_step s (s\<lparr>bs_budget := budget_configure l (bs_budget s)\<rparr>)"

inductive budget_reachable :: "int \<Rightarrow> budget_sys \<Rightarrow> bool" for l where
  budget_start: "budget_reachable l \<lparr>bs_budget = newBudget l, bs_held = {#}\<rparr>"
| budget_next: "budget_reachable l s \<Longrightarrow> budget_step s s' \<Longrightarrow> budget_reachable l s'"

definition budget_inv :: "budget_sys \<Rightarrow> bool" where
  "budget_inv s \<longleftrightarrow> b_used (bs_budget s) = \<Sum>\<^sub># (bs_held s) \<and> (\<forall>n \<in># bs_held s. 0 < n)"

lemma sum_mset_pos: "\<forall>n \<in># M. 0 < (n::int) \<Longrightarrow> 0 \<le> \<Sum>\<^sub># M"
  by (induction M) auto

lemma sum_mset_pos_zero: "\<forall>n \<in># M. 0 < (n::int) \<Longrightarrow> \<Sum>\<^sub># M = 0 \<Longrightarrow> M = {#}"
  by (cases M) (auto dest: sum_mset_pos)

lemma budget_inv_step [inv_intros]: "budget_step s s' \<Longrightarrow> budget_inv s \<Longrightarrow> budget_inv s'"
proof (induction rule: budget_step.induct)
  case (unreserve n s)
  then obtain M where "bs_held s = add_mset n M" by (metis insert_DiffM)
  with unreserve sum_mset_pos [of M] show ?case
    by (auto simp: budget_inv_def budget_release_def Let_def)
qed (auto simp: budget_inv_def budget_acquire_def budget_poll_def budget_configure_def
     split: if_splits)

lemma budget_inv_init: "budget_inv \<lparr>bs_budget = newBudget l, bs_held = {#}\<rparr>"
  by (simp add: budget_inv_def newBudget_def)

lemma budget_reachable_inv: "budget_reachable l s \<Longrightarrow> budget_inv s"
  by (induction rule: budget_reachable.induct) (blast intro: budget_inv_step budget_inv_init)+

lemma budget_step_grows:
  "budget_step s s' \<Longrightarrow> budget_inv s \<Longrightarrow> size (bs_held s) < size (bs_held s') \<Longrightarrow>
     b_limit (bs_budget s') \<le> 0 \<or> b_used (bs_budget s') \<le> b_limit (bs_budget s') \<or>
     size (bs_held s') = 1"
proof (induction rule: budget_step.induct)
  case (reserve n e s b')
  then show ?case
    using sum_mset_pos_zero [of "bs_held s"]
    by (auto simp: budget_acquire_def budget_poll_def budget_inv_def split: if_splits)
qed (auto simp: size_Diff_singleton_if)

text \<open>Property C5: the bytes accounted in the memory budget are the sum of the reservations not yet
  released, under any sequence of reservations, refusals, releases and limit changes; a
  reservation is granted only within the limit in force, or when it is the only one.\<close>

theorem budget_accounts:
  assumes "budget_reachable l s" and "budget_step s s'"
  shows "b_used (bs_budget s') = \<Sum>\<^sub># (bs_held s') \<and>
     (size (bs_held s) < size (bs_held s') \<longrightarrow>
        b_limit (bs_budget s') \<le> 0 \<or> b_used (bs_budget s') \<le> b_limit (bs_budget s') \<or>
        size (bs_held s') = 1)"
  using budget_reachable_inv [OF assms(1)] budget_inv_step [OF assms(2)]
    budget_step_grows [OF assms(2)]
  by (simp add: budget_inv_def)

theorem budget_accounts_witness:
  "b_used (budget_release 30 (fst (budget_acquire False 30 (newBudget 20)))) = 0 \<and>
   b_used (fst (budget_acquire False 30 (newBudget 20))) = 30"
proof -
  let ?s0 = "\<lparr>bs_budget = newBudget 20, bs_held = {#}\<rparr>"
  let ?b = "fst (budget_acquire False 30 (newBudget 20))"
  have "budget_step ?s0 (?s0\<lparr>bs_budget := ?b, bs_held := add_mset 30 (bs_held ?s0)\<rparr>)"
    by (rule reserve [where e = False])
       (simp_all add: budget_acquire_def budget_poll_def newBudget_def)
  from budget_accounts [OF budget_start this] have "b_used ?b = 30" by simp
  then show ?thesis by (simp add: budget_release_def)
qed

end
