(* ===== verification/Rate_Limit.thy ===== *)
theory Rate_Limit
  imports Gateway_Errors
begin

text \<open>
  \<open>internal/gateway/ratelimit.go\<close>: trailing 60-second request and token counts per
  subject in one-second ring buffers. The clock is an argument; the code assumes it is not
  before 1970 (Go's \<open>sec % 60\<close> would be a negative index) and the theorems that it does
  not step backwards between the calls.
\<close>

record rateWindow =
  w_reqs :: "int list"
  w_toks :: "int list"
  w_stamps :: "int list"
  w_seen :: time

definition newWindow :: rateWindow where
  "newWindow = \<lparr>w_reqs = replicate 60 0, w_toks = replicate 60 0, w_stamps = replicate 60 0,
     w_seen = zero_time\<rparr>"

type_synonym rateLimiter = "string \<rightharpoonup> rateWindow"

definition slot :: "time \<Rightarrow> rateWindow \<Rightarrow> rateWindow \<times> nat" where
  "slot now w =
     (let sec = unix now; i = nat (sec mod 60)
      in if w_stamps w ! i \<noteq> sec
         then (w\<lparr>w_stamps := (w_stamps w)[i := sec], w_reqs := (w_reqs w)[i := 0],
                 w_toks := (w_toks w)[i := 0]\<rparr>, i)
         else (w, i))"

fun sums_from :: "int \<Rightarrow> int list \<Rightarrow> int list \<Rightarrow> int" where
  \<comment> \<open>the loop of \<open>sums\<close> over the slots, for one of the two counts\<close>
  "sums_from lo (st # sts) (x # xs) = (if st \<ge> lo then x else 0) + sums_from lo sts xs"
| "sums_from lo _ _ = 0"

definition sums :: "time \<Rightarrow> rateWindow \<Rightarrow> int \<times> int" where
  "sums now w =
     (let lo = unix now - 59
      in (sums_from lo (w_stamps w) (w_reqs w), sums_from lo (w_stamps w) (w_toks w)))"

definition window :: "string \<Rightarrow> time \<Rightarrow> rateLimiter \<Rightarrow> rateWindow" where
  "window i now r = (case r i of Some w \<Rightarrow> w | None \<Rightarrow> newWindow)\<lparr>w_seen := now\<rparr>"

definition admit :: "string \<Rightarrow> int \<Rightarrow> int \<Rightarrow> time \<Rightarrow> rateLimiter \<Rightarrow> rateLimiter \<times> gateway_error option" where
  "admit i rpm tpm now r =
     (if rpm \<le> 0 \<and> tpm \<le> 0 then (r, None)
      else let w = window i now r;
               (reqs, toks) = sums now w
           in if rpm > 0 \<and> reqs \<ge> rpm then (r(i \<mapsto> w), Some ErrRateLimited)
              else if tpm > 0 \<and> toks \<ge> tpm then (r(i \<mapsto> w), Some ErrTokenRateLimited)
              else let (w', k) = slot now w
                   in (r(i \<mapsto> w'\<lparr>w_reqs := (w_reqs w')[k := w_reqs w' ! k + 1]\<rparr>), None))"

definition addTokens :: "string \<Rightarrow> int \<Rightarrow> time \<Rightarrow> rateLimiter \<Rightarrow> rateLimiter" where
  "addTokens i n now r =
     (if n \<le> 0 then r
      else let (w', k) = slot now (window i now r)
           in r(i \<mapsto> w'\<lparr>w_toks := (w_toks w')[k := w_toks w' ! k + n]\<rparr>))"

definition rate_prune :: "duration \<Rightarrow> time \<Rightarrow> rateLimiter \<Rightarrow> rateLimiter" where
  "rate_prune maxIdle now r =
     (\<lambda>i. case r i of None \<Rightarrow> None | Some w \<Rightarrow> if w_seen w < now - maxIdle then None else Some w)"

section \<open>The ring as a history of counts per second\<close>

text \<open>
  \<open>ring_rep T sts xs h\<close>: the slots \<open>xs\<close> with the stamps \<open>sts\<close> represent the count
  \<open>h s\<close> of every second \<open>s\<close> of the last minute before \<open>T\<close>, the latest second
  written.
\<close>

definition ring_rep :: "int \<Rightarrow> int list \<Rightarrow> int list \<Rightarrow> (int \<Rightarrow> int) \<Rightarrow> bool" where
  "ring_rep T sts xs h \<longleftrightarrow>
     length sts = 60 \<and> length xs = 60 \<and> 0 \<le> T \<and>
     (\<forall>i<60. sts ! i \<le> T \<and>
        (sts ! i mod 60 = int i \<and> xs ! i = h (sts ! i) \<or> sts ! i = 0 \<and> xs ! i = 0 \<and> (i = 0 \<longrightarrow> 59 < T \<or> h 0 = 0))) \<and>
     (\<forall>s. T - 59 \<le> s \<longrightarrow> h s \<noteq> 0 \<longrightarrow> s \<le> T \<and> 0 \<le> s \<and> sts ! nat (s mod 60) = s)"

definition trailing :: "int \<Rightarrow> (int \<Rightarrow> int) \<Rightarrow> int" where
  "trailing now h = (\<Sum>s\<in>{now - 59..now}. h s)"

lemma sums_from_eq:
  "length sts = length xs \<Longrightarrow>
     sums_from lo sts xs = (\<Sum>i<length xs. if sts ! i \<ge> lo then xs ! i else 0)"
proof (induction lo sts xs rule: sums_from.induct)
  case (1 lo st sts x xs)
  then have "sums_from lo sts xs = (\<Sum>i<length xs. if sts ! i \<ge> lo then xs ! i else 0)" by simp
  then show ?case
    by (simp add: sum.lessThan_Suc_shift del: sum.lessThan_Suc cong: if_cong)
qed auto

lemma close_mod_eq:
  assumes "x mod 60 = y mod (60::int)" and "x < y + 60" and "y < x + 60"
  shows "x = y"
proof -
  from assms(1) obtain k where "x - y = 60 * k" by (metis dvd_def mod_eq_dvd_iff)
  with assms(2,3) show ?thesis by arith
qed

text \<open>Sixty consecutive seconds meet every residue once.\<close>

lemma minute_bij: "bij_betw (\<lambda>s. nat (s mod 60)) {a - 59..a::int} {..<60}"
proof (rule bij_betw_imageI)
  show "inj_on (\<lambda>s. nat (s mod 60)) {a - 59..a}"
  proof (rule inj_onI)
    fix x y :: int
    assume x: "x \<in> {a - 59..a}" and y: "y \<in> {a - 59..a}"
      and eq: "nat (x mod 60) = nat (y mod 60)"
    have "x mod 60 = y mod 60" using eq by (simp only: eq_nat_nat_iff pos_mod_sign zero_less_numeral)
    then show "x = y" by (rule close_mod_eq) (use x y in simp_all)
  qed
  then have "card ((\<lambda>s. nat (s mod 60)) ` {a - 59..a}) = 60"
    by (simp add: card_image)
  moreover have "(\<lambda>s. nat (s mod 60)) ` {a - 59..a} \<subseteq> {..<60}"
    by (auto simp: nat_less_iff)
  ultimately show "(\<lambda>s. nat (s mod 60)) ` {a - 59..a} = {..<60}"
    by (intro card_subset_eq) auto
qed

lemma ring_rep_sums:
  assumes rep: "ring_rep T sts xs h" and now: "T \<le> now"
  shows "sums_from (now - 59) sts xs = trailing now h"
proof -
  have "sums_from (now - 59) sts xs = (\<Sum>i<60. if sts ! i \<ge> now - 59 then xs ! i else 0)"
    using rep by (simp add: sums_from_eq ring_rep_def)
  also have "\<dots> = (\<Sum>s\<in>{now - 59..now}. if sts ! nat (s mod 60) \<ge> now - 59 then xs ! nat (s mod 60) else 0)"
    by (rule sum.reindex_bij_betw [OF minute_bij, symmetric])
  also have "\<dots> = trailing now h"
    unfolding trailing_def
  proof (rule sum.cong [OF refl])
    fix s assume s: "s \<in> {now - 59..now}"
    let ?i = "nat (s mod 60)"
    have i: "?i < 60" "int ?i = s mod 60" by (simp_all add: nat_less_iff)
    show "(if sts ! ?i \<ge> now - 59 then xs ! ?i else 0) = h s"
    proof (cases "h s = 0")
      case False
      then have at: "sts ! ?i = s" using rep s now by (simp add: ring_rep_def)
      moreover have "xs ! ?i = h s"
        using rep i(1) at False s now by (force simp: ring_rep_def)
      ultimately show ?thesis using s by simp
    next
      case True
      have "xs ! ?i = 0" if ge: "sts ! ?i \<ge> now - 59"
      proof -
        have le: "sts ! ?i \<le> now" using rep i now by (force simp: ring_rep_def)
        from rep i consider "sts ! ?i mod 60 = s mod 60" "xs ! ?i = h (sts ! ?i)" | "xs ! ?i = 0"
          by (force simp: ring_rep_def)
        then show ?thesis
        proof cases
          case 1
          from 1(1) have "sts ! ?i = s" by (rule close_mod_eq) (use le ge s in simp_all)
          with 1 True show ?thesis by simp
        qed
      qed
      with True show ?thesis by simp
    qed
  qed
  finally show ?thesis .
qed


lemma ring_rep_later:
  assumes rep: "ring_rep T sts xs h" and le: "T \<le> T'"
  shows "ring_rep T' sts xs h"
  unfolding ring_rep_def
proof (intro conjI allI impI)
  fix i :: nat assume i: "i < 60"
  then have at: "sts ! i \<le> T \<and> (sts ! i mod 60 = int i \<and> xs ! i = h (sts ! i) \<or>
       sts ! i = 0 \<and> xs ! i = 0 \<and> (i = 0 \<longrightarrow> 59 < T \<or> h 0 = 0))"
    using rep by (simp add: ring_rep_def)
  then show "sts ! i \<le> T'" using le by simp
  show "sts ! i mod 60 = int i \<and> xs ! i = h (sts ! i) \<or>
      sts ! i = 0 \<and> xs ! i = 0 \<and> (i = 0 \<longrightarrow> 59 < T' \<or> h 0 = 0)"
    using at le by auto
next
  fix s assume "T' - 59 \<le> s" "h s \<noteq> 0"
  then have "s \<le> T \<and> 0 \<le> s \<and> sts ! nat (s mod 60) = s"
    using rep le by (simp add: ring_rep_def)
  then show "s \<le> T'" "0 \<le> s" "sts ! nat (s mod 60) = s" using le by auto
qed (use rep le in \<open>simp_all add: ring_rep_def\<close>)

lemma ring_rep_new:
  assumes "0 \<le> T" and z: "\<forall>s \<ge> T - 59. h s = 0"
  shows "ring_rep T (replicate 60 0) (replicate 60 0) h"
proof -
  have "59 < T \<or> h 0 = 0" using z [THEN spec, of 0] by auto
  with assms show ?thesis unfolding ring_rep_def by auto
qed

text \<open>One write: the slot of the second is reset when it stood for another second.\<close>

definition ring_write :: "int \<Rightarrow> int \<Rightarrow> int list \<Rightarrow> int list \<Rightarrow> int list" where
  "ring_write sec n sts xs =
     (let i = nat (sec mod 60); xs' = (if sts ! i \<noteq> sec then xs[i := 0] else xs)
      in xs'[i := xs' ! i + n])"

lemma ring_rep_write:
  assumes rep: "ring_rep T sts xs h" and sec: "T \<le> sec"
  shows "ring_rep sec (sts[nat (sec mod 60) := sec]) (ring_write sec n sts xs) (h(sec := h sec + n))"
proof -
  let ?i = "nat (sec mod 60)"
  have len: "length sts = 60" "length xs = 60" and T: "0 \<le> T"
    and at: "\<And>i. i < 60 \<Longrightarrow> sts ! i \<le> T \<and> (sts ! i mod 60 = int i \<and> xs ! i = h (sts ! i) \<or>
          sts ! i = 0 \<and> xs ! i = 0 \<and> (i = 0 \<longrightarrow> 59 < T \<or> h 0 = 0))"
    and live: "\<And>s. T - 59 \<le> s \<Longrightarrow> h s \<noteq> 0 \<Longrightarrow> s \<le> T \<and> 0 \<le> s \<and> sts ! nat (s mod 60) = s"
    using rep unfolding ring_rep_def by auto
  have i: "?i < 60" and int_i: "int ?i = sec mod 60" by (simp_all add: nat_less_iff)
  have new: "ring_write sec n sts xs ! ?i = h sec + n"
  proof (cases "sts ! ?i = sec")
    case True
    have "xs ! ?i = h sec"
      using at [OF i] True int_i live [of sec] T sec by force
    with True i len show ?thesis by (simp add: ring_write_def)
  next
    case False
    then have "h sec = 0" using live [of sec] sec by fastforce
    with False i len show ?thesis by (simp add: ring_write_def)
  qed
  have other: "ring_write sec n sts xs ! j = xs ! j" if "j \<noteq> ?i" for j
    using that by (simp add: ring_write_def Let_def)
  have far: "nat (s mod 60) \<noteq> ?i" if "sec - 59 \<le> s" "s \<le> T" "s \<noteq> sec" for s
  proof
    assume "nat (s mod 60) = ?i"
    then have "s mod 60 = sec mod 60" by (simp only: eq_nat_nat_iff pos_mod_sign zero_less_numeral)
    then have "s = sec" by (rule close_mod_eq) (use that sec in simp_all)
    with that show False by simp
  qed
  show ?thesis
    unfolding ring_rep_def
  proof (intro conjI allI impI)
    fix j :: nat assume j: "j < 60"
    show "sts[?i := sec] ! j \<le> sec"
      using at [OF j] sec len j by (cases "j = ?i") auto
    show "sts[?i := sec] ! j mod 60 = int j \<and>
          ring_write sec n sts xs ! j = (h(sec := h sec + n)) (sts[?i := sec] ! j) \<or>
          sts[?i := sec] ! j = 0 \<and> ring_write sec n sts xs ! j = 0 \<and>
          (j = 0 \<longrightarrow> 59 < sec \<or> (h(sec := h sec + n)) 0 = 0)"
    proof (cases "j = ?i")
      case True
      with new int_i i len show ?thesis by simp
    next
      case False
      have "sts ! j \<noteq> sec" if "sts ! j mod 60 = int j"
        using False int_i that by auto
      moreover have "j = 0 \<longrightarrow> sec \<noteq> 0" using False by auto
      ultimately show ?thesis using at [OF j] other [OF False] sec False by auto
    qed
  next
    fix s assume s: "sec - 59 \<le> s" "(h(sec := h sec + n)) s \<noteq> 0"
    have *: "s = sec \<or> s \<le> T \<and> 0 \<le> s \<and> sts ! nat (s mod 60) = s"
      using live [of s] s sec by (auto split: if_splits)
    show "s \<le> sec" "0 \<le> s" using * T sec by auto
    show "sts[?i := sec] ! nat (s mod 60) = s"
      using * far [of s] s i len by (cases "s = sec") auto
  qed (use len T sec in \<open>simp_all add: ring_write_def Let_def\<close>)
qed

section \<open>The limiter against its specification\<close>

text \<open>
  The specification keeps, per subject, how many requests were admitted and how many
  tokens were booked in every second, and never forgets: it sums the last sixty seconds.
\<close>

datatype rl_event =
    Admit string int int time
  | AddTokens string int time
  | Prune duration time

fun ev_time :: "rl_event \<Rightarrow> time" where
  "ev_time (Admit i rpm tpm t) = t"
| "ev_time (AddTokens i n t) = t"
| "ev_time (Prune d t) = t"

fun ev_ok :: "rl_event \<Rightarrow> bool" where
  \<comment> \<open>the clock is past 1970 and idle windows are kept for at least a minute\<close>
  "ev_ok (Prune d t) \<longleftrightarrow> 0 \<le> t \<and> minute \<le> d"
| "ev_ok e \<longleftrightarrow> 0 \<le> ev_time e"

fun rl_step :: "rl_event \<Rightarrow> rateLimiter \<Rightarrow> rateLimiter \<times> gateway_error option" where
  "rl_step (Admit i rpm tpm t) r = admit i rpm tpm t r"
| "rl_step (AddTokens i n t) r = (addTokens i n t r, None)"
| "rl_step (Prune d t) r = (rate_prune d t r, None)"

fun rl_run :: "rl_event list \<Rightarrow> rateLimiter \<Rightarrow> gateway_error option list" where
  "rl_run [] r = []"
| "rl_run (e # es) r = (let (r', out) = rl_step e r in out # rl_run es r')"

type_synonym history = "string \<Rightarrow> int \<Rightarrow> int"

definition book :: "string \<Rightarrow> int \<Rightarrow> int \<Rightarrow> history \<Rightarrow> history" where
  "book i sec n h = h(i := (h i)(sec := h i sec + n))"

fun spec_step :: "rl_event \<Rightarrow> history \<Rightarrow> history \<Rightarrow> history \<times> history \<times> gateway_error option" where
  "spec_step (Admit i rpm tpm t) hr ht =
     (if rpm \<le> 0 \<and> tpm \<le> 0 then (hr, ht, None)
      else if rpm > 0 \<and> trailing (unix t) (hr i) \<ge> rpm then (hr, ht, Some ErrRateLimited)
      else if tpm > 0 \<and> trailing (unix t) (ht i) \<ge> tpm then (hr, ht, Some ErrTokenRateLimited)
      else (book i (unix t) 1 hr, ht, None))"
| "spec_step (AddTokens i n t) hr ht =
     (if n \<le> 0 then (hr, ht, None) else (hr, book i (unix t) n ht, None))"
| "spec_step (Prune d t) hr ht = (hr, ht, None)"

fun spec_run :: "rl_event list \<Rightarrow> history \<Rightarrow> history \<Rightarrow> gateway_error option list" where
  "spec_run [] hr ht = []"
| "spec_run (e # es) hr ht =
     (let (hr', ht', out) = spec_step e hr ht in out # spec_run es hr' ht')"

definition win_rep :: "int \<Rightarrow> rateWindow \<Rightarrow> (int \<Rightarrow> int) \<Rightarrow> (int \<Rightarrow> int) \<Rightarrow> bool" where
  "win_rep T w hr ht \<longleftrightarrow>
     ring_rep T (w_stamps w) (w_reqs w) hr \<and> ring_rep T (w_stamps w) (w_toks w) ht"

definition rl_rep :: "int \<Rightarrow> rateLimiter \<Rightarrow> history \<Rightarrow> history \<Rightarrow> bool" where
  "rl_rep T r hr ht \<longleftrightarrow> 0 \<le> T \<and>
     (\<forall>i. case r i of
            None \<Rightarrow> \<forall>s \<ge> T - 59. hr i s = 0 \<and> ht i s = 0
          | Some w \<Rightarrow> win_rep T w (hr i) (ht i) \<and>
              (\<forall>s. unix (w_seen w) < s \<longrightarrow> hr i s = 0 \<and> ht i s = 0))"

lemma win_rep_window:
  assumes "rl_rep T r hr ht" and "T \<le> unix t"
  shows "win_rep (unix t) (window i t r) (hr i) (ht i)"
  using assms
  by (auto simp: rl_rep_def window_def newWindow_def win_rep_def
      intro: ring_rep_later ring_rep_new split: option.splits dest!: spec [of _ i])

lemma win_rep_sums:
  "win_rep (unix t) w hr ht \<Longrightarrow> sums t w = (trailing (unix t) hr, trailing (unix t) ht)"
  by (simp add: sums_def Let_def win_rep_def ring_rep_sums [where T = "unix t"])

lemma rl_rep_later:
  assumes rep: "rl_rep T r hr ht" and le: "T \<le> T'"
  shows "rl_rep T' r hr ht"
  unfolding rl_rep_def
proof (intro conjI allI)
  show "0 \<le> T'" using assms by (simp add: rl_rep_def)
  fix i
  have "case r i of None \<Rightarrow> \<forall>s \<ge> T - 59. hr i s = 0 \<and> ht i s = 0
     | Some w \<Rightarrow> win_rep T w (hr i) (ht i) \<and>
        (\<forall>s. unix (w_seen w) < s \<longrightarrow> hr i s = 0 \<and> ht i s = 0)"
    using rep by (simp add: rl_rep_def)
  then show "case r i of None \<Rightarrow> \<forall>s \<ge> T' - 59. hr i s = 0 \<and> ht i s = 0
     | Some w \<Rightarrow> win_rep T' w (hr i) (ht i) \<and>
        (\<forall>s. unix (w_seen w) < s \<longrightarrow> hr i s = 0 \<and> ht i s = 0)"
    using le by (auto simp: win_rep_def intro: ring_rep_later split: option.splits)
qed

text \<open>The two writes of the code: a request, or tokens, in the current second.\<close>

lemma list_update_current: "xs ! i = v \<Longrightarrow> xs[i := v] = xs"
  by auto

lemma slot_writes:
  assumes "slot t w = (w', k)" and "length (w_reqs w) = 60" "length (w_toks w) = 60"
  shows "w_stamps w' = (w_stamps w)[nat (unix t mod 60) := unix t]"
    and "(w_reqs w')[k := w_reqs w' ! k + n] = ring_write (unix t) n (w_stamps w) (w_reqs w)"
    and "(w_toks w')[k := w_toks w' ! k + n] = ring_write (unix t) n (w_stamps w) (w_toks w)"
    and "w_reqs w' = ring_write (unix t) 0 (w_stamps w) (w_reqs w)"
    and "w_toks w' = ring_write (unix t) 0 (w_stamps w) (w_toks w)"
    and "w_seen w' = w_seen w"
  using assms
  by (auto simp: slot_def ring_write_def Let_def nat_less_iff list_update_current split: if_splits)

lemma win_rep_write:
  assumes rep: "win_rep (unix t) w hr ht" and sl: "slot t w = (w', k)"
  shows "win_rep (unix t) (w'\<lparr>w_reqs := (w_reqs w')[k := w_reqs w' ! k + n]\<rparr>)
           (hr(unix t := hr (unix t) + n)) ht"
    and "win_rep (unix t) (w'\<lparr>w_toks := (w_toks w')[k := w_toks w' ! k + n]\<rparr>)
           hr (ht(unix t := ht (unix t) + n))"
proof -
  have r: "ring_rep (unix t) (w_stamps w) (w_reqs w) hr"
    and k: "ring_rep (unix t) (w_stamps w) (w_toks w) ht"
    using rep by (simp_all add: win_rep_def)
  have len: "length (w_reqs w) = 60" "length (w_toks w) = 60"
    using r k by (simp_all add: ring_rep_def)
  note sw = slot_writes [OF sl len]
  show "win_rep (unix t) (w'\<lparr>w_reqs := (w_reqs w')[k := w_reqs w' ! k + n]\<rparr>)
           (hr(unix t := hr (unix t) + n)) ht"
    using ring_rep_write [OF r order_refl, of n] ring_rep_write [OF k order_refl, of 0]
    by (simp add: win_rep_def sw(1,2,5))
  show "win_rep (unix t) (w'\<lparr>w_toks := (w_toks w')[k := w_toks w' ! k + n]\<rparr>)
           hr (ht(unix t := ht (unix t) + n))"
    using ring_rep_write [OF r order_refl, of 0] ring_rep_write [OF k order_refl, of n]
    by (simp add: win_rep_def sw(1,3,4))
qed

lemma ring_rep_future: "ring_rep T sts xs h \<Longrightarrow> T < s \<Longrightarrow> h s = 0"
  unfolding ring_rep_def by (metis diff_gt_0_iff_gt less_le_not_le less_trans diff_strict_left_mono diff_0_right zero_less_numeral less_imp_le)

lemma rl_rep_put:
  assumes rep: "rl_rep (unix t) r hr ht" and win: "win_rep (unix t) w (hr' i) (ht' i)"
    and seen: "w_seen w = t"
    and same: "\<And>j. j \<noteq> i \<Longrightarrow> hr' j = hr j \<and> ht' j = ht j"
  shows "rl_rep (unix t) (r(i \<mapsto> w)) hr' ht'"
  unfolding rl_rep_def
proof (intro conjI allI)
  show "0 \<le> unix t" using rep by (simp add: rl_rep_def)
  fix j
  have "\<forall>s > unix t. hr' i s = 0 \<and> ht' i s = 0"
    using win by (auto simp: win_rep_def intro: ring_rep_future)
  moreover have "case r j of None \<Rightarrow> \<forall>s \<ge> unix t - 59. hr j s = 0 \<and> ht j s = 0
     | Some w \<Rightarrow> win_rep (unix t) w (hr j) (ht j) \<and>
        (\<forall>s. unix (w_seen w) < s \<longrightarrow> hr j s = 0 \<and> ht j s = 0)"
    using rep by (simp add: rl_rep_def)
  ultimately show "case (r(i \<mapsto> w)) j of
       None \<Rightarrow> \<forall>s \<ge> unix t - 59. hr' j s = 0 \<and> ht' j s = 0
     | Some w \<Rightarrow> win_rep (unix t) w (hr' j) (ht' j) \<and>
        (\<forall>s. unix (w_seen w) < s \<longrightarrow> hr' j s = 0 \<and> ht' j s = 0)"
    using win same [of j] seen by (cases "j = i") (simp_all cong: option.case_cong)
qed

lemma rl_rep_prune:
  assumes rep: "rl_rep (unix t) r hr ht" and d: "minute \<le> d"
  shows "rl_rep (unix t) (rate_prune d t r) hr ht"
  unfolding rl_rep_def
proof (intro conjI allI)
  show "0 \<le> unix t" using rep by (simp add: rl_rep_def)
  fix i
  have old: "unix u \<le> unix t - 60" if "u < t - d" for u
  proof -
    have "unix u \<le> unix (t + (- 60) * second)"
      by (rule unix_mono) (use that d in \<open>simp add: minute_def\<close>)
    then show ?thesis unfolding unix_add_seconds by simp
  qed
  have "case r i of None \<Rightarrow> \<forall>s \<ge> unix t - 59. hr i s = 0 \<and> ht i s = 0
     | Some w \<Rightarrow> win_rep (unix t) w (hr i) (ht i) \<and>
        (\<forall>s. unix (w_seen w) < s \<longrightarrow> hr i s = 0 \<and> ht i s = 0)"
    using rep by (simp add: rl_rep_def)
  then show "case rate_prune d t r i of
       None \<Rightarrow> \<forall>s \<ge> unix t - 59. hr i s = 0 \<and> ht i s = 0
     | Some w \<Rightarrow> win_rep (unix t) w (hr i) (ht i) \<and>
        (\<forall>s. unix (w_seen w) < s \<longrightarrow> hr i s = 0 \<and> ht i s = 0)"
    by (auto simp: rate_prune_def dest!: old split: option.splits)
qed

lemma rl_step_rep:
  assumes rep: "rl_rep T r hr ht" and le: "T \<le> unix (ev_time e)" and ok: "ev_ok e"
  shows "\<exists>r' hr' ht' out. rl_step e r = (r', out) \<and> spec_step e hr ht = (hr', ht', out) \<and>
     rl_rep (unix (ev_time e)) r' hr' ht'"
proof -
  let ?T = "unix (ev_time e)"
  have rep': "rl_rep ?T r hr ht" using rep le by (rule rl_rep_later)
  show ?thesis
  proof (cases e)
    case (Admit i rpm tpm t)
    let ?w = "window i t r"
    have w: "win_rep (unix t) ?w (hr i) (ht i)" "w_seen ?w = t"
      using win_rep_window [OF rep, of t i] le Admit by (simp_all add: window_def)
    obtain w' k where sl: "slot t ?w = (w', k)" by fastforce
    have seen: "w_seen w' = t" using sl w(2) by (auto simp: slot_def Let_def split: if_splits)
    have same: "rl_rep (unix t) (r(i \<mapsto> ?w)) hr ht"
      using rep' w Admit by (intro rl_rep_put [where hr = hr and ht = ht]) simp_all
    have new: "rl_rep (unix t) (r(i \<mapsto> w'\<lparr>w_reqs := (w_reqs w')[k := w_reqs w' ! k + 1]\<rparr>))
        (book i (unix t) 1 hr) ht"
      using rep' win_rep_write(1) [OF w(1) sl, of 1] seen Admit
      by (intro rl_rep_put [where hr = hr and ht = ht]) (simp_all add: book_def)
    show ?thesis
      using rep' same new sl Admit by (simp add: admit_def Let_def win_rep_sums [OF w(1)])
  next
    case (AddTokens i n t)
    let ?w = "window i t r"
    have w: "win_rep (unix t) ?w (hr i) (ht i)" "w_seen ?w = t"
      using win_rep_window [OF rep, of t i] le AddTokens by (simp_all add: window_def)
    obtain w' k where sl: "slot t ?w = (w', k)" by fastforce
    have seen: "w_seen w' = t" using sl w(2) by (auto simp: slot_def Let_def split: if_splits)
    have new: "rl_rep (unix t) (r(i \<mapsto> w'\<lparr>w_toks := (w_toks w')[k := w_toks w' ! k + n]\<rparr>))
        hr (book i (unix t) n ht)"
      using rep' win_rep_write(2) [OF w(1) sl, of n] seen AddTokens
      by (intro rl_rep_put [where hr = hr and ht = ht]) (simp_all add: book_def)
    show ?thesis
      using rep' new sl AddTokens by (simp add: addTokens_def Let_def)
  next
    case (Prune d t)
    with ok rep' show ?thesis by (simp add: rl_rep_prune)
  qed
qed

lemma rl_run_rep:
  assumes "rl_rep T r hr ht" and "sorted (map ev_time es)" and "\<forall>e\<in>set es. ev_ok e \<and> T \<le> unix (ev_time e)"
  shows "rl_run es r = spec_run es hr ht"
  using assms
proof (induction es arbitrary: T r hr ht)
  case (Cons e es)
  obtain r' hr' ht' out where st: "rl_step e r = (r', out)" "spec_step e hr ht = (hr', ht', out)"
    and rep: "rl_rep (unix (ev_time e)) r' hr' ht'"
    using rl_step_rep [OF Cons.prems(1), of e] Cons.prems(3) by auto
  have "rl_run es r' = spec_run es hr' ht'"
    using Cons.prems by (intro Cons.IH [OF rep]) (auto intro: unix_mono)
  with st show ?case by simp
qed simp

lemma ev_ok_time: "ev_ok e \<Longrightarrow> 0 \<le> unix (ev_time e)"
  by (cases e) (auto simp: unix_def second_def pos_imp_zdiv_nonneg_iff)

lemma rl_rep_empty: "rl_rep 0 Map.empty (\<lambda>_ _. 0) (\<lambda>_ _. 0)"
  by (simp add: rl_rep_def)

text \<open>Property C2: for every sequence of admissions, token bookings and prunings with a clock
  that does not step back and prunings that keep the last minute, the limiter with its
  one-second ring buffers gives the very decisions of the specification, which remembers
  every second for ever and sums the last sixty of them.\<close>

theorem rate_limiter_refines:
  assumes "sorted (map ev_time es)" and "\<forall>e\<in>set es. ev_ok e"
  shows "rl_run es Map.empty = spec_run es (\<lambda>_ _. 0) (\<lambda>_ _. 0)"
  by (rule rl_run_rep [OF rl_rep_empty]) (use assms ev_ok_time in auto)

definition rl_sample :: "rl_event list" where
  "rl_sample =
     [Admit ''k:1'' 2 100 (10 * second), Admit ''k:1'' 2 100 (11 * second),
      Admit ''k:1'' 2 100 (69 * second), Admit ''k:1'' 2 100 (70 * second),
      AddTokens ''k:1'' 100 (70 * second), Prune minute (71 * second),
      Admit ''k:1'' 2 100 (72 * second)]"

lemma rate_limiter_refines_witness:
  "rl_run rl_sample Map.empty = spec_run rl_sample (\<lambda>_ _. 0) (\<lambda>_ _. 0)"
  by (rule rate_limiter_refines) (simp_all add: rl_sample_def second_def minute_def)

section \<open>The guarantee a client of the limiter gets\<close>

fun admitted_in :: "string \<Rightarrow> int \<Rightarrow> rl_event list \<Rightarrow> gateway_error option list \<Rightarrow> int" where
  \<comment> \<open>the requests of subject \<open>i\<close> admitted in the sixty seconds from \<open>a\<close> on\<close>
  "admitted_in i a (Admit j rpm tpm t # es) (out # outs) =
     (if j = i \<and> a \<le> unix t \<and> unix t \<le> a + 59 \<and> out = None then 1 else 0) + admitted_in i a es outs"
| "admitted_in i a (_ # es) (_ # outs) = admitted_in i a es outs"
| "admitted_in i a _ _ = 0"

fun limited :: "string \<Rightarrow> int \<Rightarrow> rl_event \<Rightarrow> bool" where
  "limited i rpm (Admit j n tpm t) \<longleftrightarrow> j = i \<longrightarrow> n = rpm"
| "limited i rpm _ \<longleftrightarrow> True"

lemma trailing_book:
  "trailing now (h(sec := h sec + n)) = trailing now h + (if now - 59 \<le> sec \<and> sec \<le> now then n else 0)"
proof -
  have "trailing now (h(sec := h sec + n)) = (\<Sum>s\<in>{now - 59..now}. h s + (if s = sec then n else 0))"
    unfolding trailing_def by (intro sum.cong) auto
  also have "\<dots> = trailing now h + (\<Sum>s\<in>{now - 59..now}. if s = sec then n else 0)"
    by (simp add: sum.distrib trailing_def)
  finally show ?thesis by (simp add: sum.delta)
qed

lemma trailing_shift:
  assumes "\<forall>s. 0 \<le> h s" and "\<forall>s > sec. h s = 0" and "sec \<le> now"
  shows "trailing now h \<le> trailing sec h"
proof -
  have "trailing now h = (\<Sum>s\<in>{now - 59..sec}. h s)"
    unfolding trailing_def by (rule sum.mono_neutral_right) (use assms in auto)
  also have "\<dots> \<le> trailing sec h"
    unfolding trailing_def by (rule sum_mono2) (use assms in auto)
  finally show ?thesis .
qed

definition within :: "int \<Rightarrow> int \<Rightarrow> (int \<Rightarrow> int) \<Rightarrow> bool" where
  \<comment> \<open>no sixty consecutive seconds hold more than \<open>rpm\<close>; nothing is booked after \<open>T\<close>\<close>
  "within T rpm h \<longleftrightarrow> (\<forall>s. 0 \<le> h s) \<and> (\<forall>s > T. h s = 0) \<and> (\<forall>now. trailing now h \<le> rpm)"

lemma within_book:
  assumes w: "within T rpm h" and T: "T \<le> sec" and room: "trailing sec h < rpm"
  shows "within sec rpm (h(sec := h sec + 1))"
proof -
  have h: "\<forall>s. 0 \<le> h s" "\<forall>s > sec. h s = 0" "\<And>now. trailing now h \<le> rpm"
    using w T by (auto simp: within_def)
  have "trailing now (h(sec := h sec + 1)) \<le> rpm" for now
    using trailing_shift [OF h(1,2), of now] h(3) [of now] room
    unfolding trailing_book by auto
  then show ?thesis using h(1,2) by (simp add: within_def add_nonneg_nonneg)
qed

lemma spec_run_within:
  assumes "within T rpm (hr i)" and "0 < rpm"
    and "sorted (map ev_time es)" and "\<forall>e\<in>set es. limited i rpm e \<and> T \<le> unix (ev_time e)"
  shows "trailing (a + 59) (hr i) + admitted_in i a es (spec_run es hr ht) \<le> rpm"
  using assms
proof (induction es arbitrary: T hr ht)
  case Nil
  then show ?case by (simp add: within_def)
next
  case (Cons e es)
  have later: "\<forall>e'\<in>set es. limited i rpm e' \<and> unix (ev_time e) \<le> unix (ev_time e')"
    using Cons.prems(3,4) by (auto intro: unix_mono)
  have srt: "sorted (map ev_time es)" using Cons.prems(3) by simp
  have le: "T \<le> unix (ev_time e)" using Cons.prems(4) by simp
  have keep: "within (unix (ev_time e)) rpm (hr i)"
    using Cons.prems(1) le by (simp add: within_def)
  have same: "trailing (a + 59) (hr' i) + admitted_in i a es (spec_run es hr' ht') \<le> rpm"
    if "hr' i = hr i" for hr' ht'
    using Cons.IH [of "unix (ev_time e)" hr'] keep Cons.prems(2) srt later that by simp
  show ?case
  proof (cases e)
    case (Admit j n tpm t)
    show ?thesis
    proof (cases "j = i \<and> snd (snd (spec_step e hr ht)) = None")
      case True
      with Admit Cons.prems(2,4) have st: "spec_step e hr ht = (book i (unix t) 1 hr, ht, None)"
        and room: "trailing (unix t) (hr i) < rpm"
        by (auto split: if_splits)
      have "within (unix t) rpm (book i (unix t) 1 hr i)"
        using within_book [OF Cons.prems(1), of "unix t"] room le Admit by (simp add: book_def)
      then have "trailing (a + 59) (book i (unix t) 1 hr i)
          + admitted_in i a es (spec_run es (book i (unix t) 1 hr) ht) \<le> rpm"
        using Cons.IH [of "unix t" "book i (unix t) 1 hr"] Cons.prems(2) srt later Admit by simp
      then show ?thesis
        using st Admit True by (simp add: book_def trailing_book split: if_splits)
    next
      case False
      then have "spec_step e hr ht = (hr', ht', out) \<Longrightarrow> hr' i = hr i \<and> (j = i \<longrightarrow> out \<noteq> None)" for hr' ht' out
        using Admit by (auto simp: book_def split: if_splits)
      then show ?thesis using same Admit
        by (cases "spec_step e hr ht") auto
    qed
  qed (use same in \<open>simp_all add: book_def\<close>)
qed

text \<open>Property C1: whatever the interleaving with other subjects, token bookings and prunings,
  a subject whose limit is \<open>rpm > 0\<close> has at most \<open>rpm\<close> requests admitted in any sixty
  consecutive seconds.\<close>

theorem rate_limiter_guarantee:
  assumes "0 < rpm" and "sorted (map ev_time es)" and "\<forall>e\<in>set es. ev_ok e"
    and "\<forall>e\<in>set es. limited i rpm e"
  shows "admitted_in i a es (rl_run es Map.empty) \<le> rpm"
proof -
  have "rl_run es Map.empty = spec_run es (\<lambda>_ _. 0) (\<lambda>_ _. 0)"
    by (rule rl_run_rep [OF rl_rep_empty]) (use assms ev_ok_time in auto)
  moreover have "within 0 rpm (\<lambda>_. 0)" using assms(1) by (simp add: within_def trailing_def)
  ultimately show ?thesis
    using spec_run_within [of 0 rpm "\<lambda>_ _. 0" i es a "\<lambda>_ _. 0"] assms ev_ok_time
    by (simp add: trailing_def)
qed

lemma rate_limiter_guarantee_witness:
  "admitted_in ''k:1'' 11 rl_sample (rl_run rl_sample Map.empty) \<le> 2"
  by (rule rate_limiter_guarantee) (simp_all add: rl_sample_def second_def minute_def)

end
