(* ===== verification/Health.thy ===== *)
theory Health
  imports GoBase
begin

text \<open>
  \<open>internal/gateway/health.go\<close>: the circuit breaker of every upstream account and the
  mirroring of its state to the database. The database is the map from account ids to the
  three columns the tracker writes; a write is a job that runs some time later, in any
  order with respect to the other jobs (a goroutine per write), each atomically
  (\<open>persistMu\<close>), or fails, which the code ignores.
\<close>

section \<open>The tracker\<close>

datatype health_status = HealthAvailable | HealthCooling | HealthUnavailable

record accountHealth =
  failures :: int
  cooldownUntil :: time
  lastError :: string
  unavailable :: bool
  seqno :: int
  persisted :: int
  probing :: bool
  probeSince :: time

type_synonym healthTracker = "nat \<rightharpoonup> accountHealth"

definition newAccountHealth :: accountHealth where
  "newAccountHealth = \<lparr>failures = 0, cooldownUntil = zero_time, lastError = '''',
     unavailable = False, seqno = 0, persisted = 0, probing = False, probeSince = zero_time\<rparr>"

definition probeTimeout :: duration where
  "probeTimeout = 30 * second"

definition available :: "nat \<Rightarrow> time \<Rightarrow> healthTracker \<Rightarrow> healthTracker \<times> bool" where
  "available i now h =
     (case h i of
        None \<Rightarrow> (h, True)
      | Some s \<Rightarrow>
          if unavailable s then (h, False)
          else if now < cooldownUntil s then (h, False)
          else if failures s = 0 then (h, True)
          else if probing s \<and> now - probeSince s < probeTimeout then (h, False)
          else (h(i \<mapsto> s\<lparr>probing := True, probeSince := now\<rparr>), True))"

definition isProbing :: "nat \<Rightarrow> time \<Rightarrow> healthTracker \<Rightarrow> bool" where
  "isProbing i now h =
     (case h i of None \<Rightarrow> False | Some s \<Rightarrow> probing s \<and> now - probeSince s < probeTimeout)"

definition health_state :: "nat \<Rightarrow> time \<Rightarrow> healthTracker \<Rightarrow> health_status \<times> time \<times> string" where
  "health_state i now h =
     (case h i of
        None \<Rightarrow> (HealthAvailable, zero_time, '''')
      | Some s \<Rightarrow>
          if unavailable s then (HealthUnavailable, cooldownUntil s, lastError s)
          else if now < cooldownUntil s then (HealthCooling, cooldownUntil s, lastError s)
          else (HealthAvailable, zero_time, lastError s))"

definition ellipsis :: string where
  "ellipsis = bytes [226, 128, 166]"

definition rune_start :: "char \<Rightarrow> bool" where
  \<comment> \<open>\<open>utf8.RuneStart\<close>: the byte is not a continuation byte \<open>10xxxxxx\<close>\<close>
  "rune_start c \<longleftrightarrow> (of_char c :: nat) div 64 \<noteq> 2"

fun rune_cut :: "string \<Rightarrow> nat \<Rightarrow> nat" where
  "rune_cut s 0 = 0"
| "rune_cut s (Suc n) = (if \<not> rune_start (s ! Suc n) then rune_cut s n else Suc n)"

definition truncate_str :: "string \<Rightarrow> nat \<Rightarrow> string" where
  "truncate_str s n =
     (if length s \<le> n then s
      else take (rune_cut s (n - length ellipsis)) s @ ellipsis)"

text \<open>The columns a state change writes to the account's row.\<close>

record health_row =
  r_health :: health_status
  r_until :: "time option"
  r_error :: string

record health_job =
  j_id :: nat
  j_seq :: int
  j_row :: health_row

definition cooldown_row :: "time \<Rightarrow> string \<Rightarrow> health_row" where
  "cooldown_row until msg =
     \<lparr>r_health = HealthCooling, r_until = Some until, r_error = truncate_str msg 500\<rparr>"

definition available_row :: health_row where
  "available_row = \<lparr>r_health = HealthAvailable, r_until = None, r_error = ''''\<rparr>"

definition entry :: "nat \<Rightarrow> healthTracker \<Rightarrow> accountHealth" where
  "entry i h = (case h i of Some s \<Rightarrow> s | None \<Rightarrow> newAccountHealth)"

definition fail_cooldown :: "int \<Rightarrow> duration \<Rightarrow> duration" where
  \<comment> \<open>the cooldown after the \<open>n\<close>-th consecutive failure\<close>
  "fail_cooldown n base =
     (let mult = 2 ^ nat (min (n - 1) 4); d = wrap64 (base * mult)
      in if d > 15 * minute then 15 * minute else d)"

definition failFor :: "nat \<Rightarrow> duration \<Rightarrow> string \<Rightarrow> time \<Rightarrow> healthTracker \<Rightarrow> healthTracker \<times> health_job list" where
  "failFor i d msg now h =
     (let s = entry i h;
          s' = s\<lparr>failures := failures s + 1, probing := False, cooldownUntil := now + d,
                 lastError := msg, seqno := seqno s + 1\<rparr>
      in (h(i \<mapsto> s'), [\<lparr>j_id = i, j_seq = seqno s', j_row = cooldown_row (now + d) msg\<rparr>]))"

definition fail :: "nat \<Rightarrow> duration \<Rightarrow> string \<Rightarrow> time \<Rightarrow> healthTracker \<Rightarrow> healthTracker \<times> health_job list" where
  "fail i base msg now h =
     (let s = entry i h;
          n = failures s + 1;
          d = fail_cooldown n base;
          s' = s\<lparr>failures := n, probing := False, cooldownUntil := now + d,
                 lastError := msg, seqno := seqno s + 1\<rparr>
      in (h(i \<mapsto> s'), [\<lparr>j_id = i, j_seq = seqno s', j_row = cooldown_row (now + d) msg\<rparr>]))"

definition health_ok :: "nat \<Rightarrow> healthTracker \<Rightarrow> healthTracker \<times> health_job list" where
  "health_ok i h =
     (case h i of
        None \<Rightarrow> (h, [])
      | Some s \<Rightarrow>
          if failures s = 0 \<and> \<not> unavailable s then (h, [])
          else
            let s' = s\<lparr>failures := 0, probing := False, unavailable := False,
                       cooldownUntil := zero_time, seqno := seqno s + 1\<rparr>
            in (h(i \<mapsto> s'), [\<lparr>j_id = i, j_seq = seqno s', j_row = available_row\<rparr>]))"

definition health_reset :: "nat \<Rightarrow> healthTracker \<Rightarrow> healthTracker" where
  "health_reset i h = h(i := None)"

definition persist :: "bool \<Rightarrow> health_job \<Rightarrow> healthTracker \<Rightarrow> (nat \<rightharpoonup> health_row) \<Rightarrow>
     healthTracker \<times> (nat \<rightharpoonup> health_row)" where
  \<comment> \<open>the body of the goroutine; \<open>wrote\<close>: the update of the row succeeds. Its error is ignored, after the
     number of the state has been recorded.\<close>
  "persist wrote j h db =
     (case h (j_id j) of
        None \<Rightarrow> (h, db)
      | Some s \<Rightarrow>
          if j_seq j < persisted s then (h, db)
          else (h(j_id j \<mapsto> s\<lparr>persisted := j_seq j\<rparr>), if wrote then db(j_id j \<mapsto> j_row j) else db))"

lemmas health_ops =
  available_def failFor_def fail_def health_ok_def health_reset_def persist_def

section \<open>Cutting an error message\<close>

lemma rune_cut_le: "rune_cut s n \<le> n"
  by (induction s n rule: rune_cut.induct) (auto intro: le_SucI)

lemma rune_cut_start: "rune_cut s n = 0 \<or> rune_start (s ! rune_cut s n)"
  by (induction s n rule: rune_cut.induct) auto

text \<open>A message cut for a column of \<open>n\<close> bytes fits the column, is unchanged when it
  already fits, and otherwise is a prefix of the message that ends where a character starts,
  followed by the ellipsis.\<close>

lemma truncate_fits:
  assumes "3 \<le> n"
  shows "length (truncate_str s n) \<le> n \<and>
     (length s \<le> n \<longrightarrow> truncate_str s n = s) \<and>
     (length s > n \<longrightarrow> (\<exists>k < n. truncate_str s n = take k s @ ellipsis \<and> (k = 0 \<or> rune_start (s ! k))))"
proof -
  let ?k = "rune_cut s (n - 3)"
  have k: "?k \<le> n - 3" by (rule rune_cut_le)
  have len: "length ellipsis = 3" by (simp add: ellipsis_def bytes_def)
  have cut: "n < length s \<Longrightarrow> truncate_str s n = take ?k s @ ellipsis"
    by (simp add: truncate_str_def len)
  show ?thesis
    using k rune_cut_start [of s "n - 3"] assms cut len
    by (cases "length s \<le> n") (auto simp: truncate_str_def intro!: exI [of _ ?k])
qed

lemma truncate_fits_witness:
  "length (truncate_str (bytes [97, 195, 169, 195, 169, 98]) 5) \<le> 5"
  using truncate_fits [of 5] by simp

section \<open>The circuit breaker\<close>

datatype health_op =
    OpAvailable nat time
  | OpFail nat duration string time
  | OpFailFor nat duration string time
  | OpOk nat
  | OpReset nat

fun op_id :: "health_op \<Rightarrow> nat" where
  "op_id (OpAvailable i t) = i"
| "op_id (OpFail i b m t) = i"
| "op_id (OpFailFor i d m t) = i"
| "op_id (OpOk i) = i"
| "op_id (OpReset i) = i"

fun health_exec :: "health_op \<Rightarrow> healthTracker \<Rightarrow> healthTracker" where
  "health_exec (OpAvailable i t) h = fst (available i t h)"
| "health_exec (OpFail i b m t) h = fst (fail i b m t h)"
| "health_exec (OpFailFor i d m t) h = fst (failFor i d m t h)"
| "health_exec (OpOk i) h = fst (health_ok i h)"
| "health_exec (OpReset i) h = health_reset i h"

fun health_runs :: "health_op list \<Rightarrow> healthTracker \<Rightarrow> healthTracker" where
  "health_runs [] h = h"
| "health_runs (p # ps) h = health_runs ps (health_exec p h)"

lemma health_exec_other [frame]: "op_id p \<noteq> i \<Longrightarrow> health_exec p h i = h i"
  by (cases p) (auto simp: health_ops Let_def split: option.splits)

text \<open>What one request may do to an account while another request probes it.\<close>

fun harmless :: "nat \<Rightarrow> time \<Rightarrow> health_op \<Rightarrow> bool" where
  "harmless i until (OpAvailable j t) \<longleftrightarrow> j = i \<longrightarrow> t < until"
| "harmless i until p \<longleftrightarrow> op_id p \<noteq> i"

lemma probe_kept:
  assumes "h i = Some s" and "failures s \<noteq> 0" and "probing s" and "probeSince s = t"
    and "\<forall>p\<in>set ps. harmless i (t + probeTimeout) p"
  shows "health_runs ps h i = Some s"
  using assms
proof (induction ps arbitrary: h)
  case (Cons p ps)
  have "health_exec p h i = Some s"
  proof (cases "op_id p = i")
    case True
    with Cons.prems obtain u where "p = OpAvailable i u" "u < t + probeTimeout"
      by (cases p) auto
    with Cons.prems show ?thesis by (simp add: available_def)
  next
    case False
    with Cons.prems show ?thesis by (simp add: health_exec_other)
  qed
  with Cons show ?case by simp
qed simp

text \<open>Property C6: once a request has been let through to an account that failed before (the
  half-open probe), no other request is let through for thirty seconds, however many ask and
  whatever happens to the other accounts, unless a request on this account reports back.\<close>

theorem single_probe:
  assumes "available i t h = (h1, True)" and "h i = Some s" and "failures s > 0"
    and "\<forall>p\<in>set ps. harmless i (t + probeTimeout) p" and "u < t + probeTimeout"
  shows "\<not> snd (available i u (health_runs ps h1)) \<and>
         (isProbing i u (health_runs ps h1))"
proof -
  have h1: "h1 i = Some (s\<lparr>probing := True, probeSince := t\<rparr>)" and nu: "\<not> unavailable s"
    using assms(1-3) by (auto simp: available_def split: if_splits)
  have "health_runs ps h1 i = Some (s\<lparr>probing := True, probeSince := t\<rparr>)"
    by (rule probe_kept [where h = h1 and t = t]) (use assms h1 in auto)
  with assms(3,5) show ?thesis by (simp add: available_def isProbing_def)
qed

definition health_sample :: healthTracker where
  "health_sample = health_runs [OpFail 7 (5 * second) ''timeout'' (100 * second)] Map.empty"

lemma single_probe_witness:
  "\<not> snd (available 7 (110 * second)
       (health_runs [OpAvailable 7 (106 * second), OpOk 8] (fst (available 7 (105 * second) health_sample))))"
  using single_probe [of 7 "105 * second" health_sample
      "fst (available 7 (105 * second) health_sample)" _
      "[OpAvailable 7 (106 * second), OpOk 8]" "110 * second"]
  by (simp add: health_sample_def available_def fail_def health_ok_def entry_def newAccountHealth_def
      fail_cooldown_def Let_def second_def minute_def probeTimeout_def zero_time_def wrap64_def)

text \<open>The cooldown after consecutive failures.\<close>

lemma fail_cooldown_eq:
  assumes "0 < n" and "0 \<le> base" and "base < 2 ^ 58"
  shows "fail_cooldown n base = min (base * 2 ^ nat (min (n - 1) 4)) (15 * minute)"
proof -
  let ?m = "(2::int) ^ nat (min (n - 1) 4)"
  have "?m \<le> 2 ^ 4" by (rule power_increasing) auto
  then have "base * ?m \<le> base * 16" using assms(2) by (intro mult_left_mono) auto
  then have "wrap64 (base * ?m) = base * ?m"
    using assms(3) order_trans [OF _ mult_nonneg_nonneg [OF assms(2), of ?m], of "- (2 ^ 63)"]
    by (intro wrap64_id) auto
  then show ?thesis by (simp add: fail_cooldown_def Let_def min_def)
qed

lemma fail_entry:
  "fst (fail i base msg t h) i =
     Some ((entry i h)\<lparr>failures := failures (entry i h) + 1, probing := False,
        cooldownUntil := t + fail_cooldown (failures (entry i h) + 1) base,
        lastError := msg, seqno := seqno (entry i h) + 1\<rparr>)"
  by (simp add: fail_def Let_def)

text \<open>After the \<open>n\<close>-th failure in a row the account is refused exactly until
  \<open>min (base * 2 ^ min (n - 1) 4, 15 minutes)\<close> have passed; the first request after that is
  let through as a probe.\<close>

lemma failure_cooldown:
  assumes "\<not> unavailable (entry i h)" and "failures (entry i h) = int n" and "0 \<le> base" and "base < 2 ^ 58"
  shows "snd (available i u (fst (fail i base msg t h))) \<longleftrightarrow>
           t + min (base * 2 ^ min n 4) (15 * minute) \<le> u"
proof -
  have "fail_cooldown (int n + 1) base = min (base * 2 ^ min n 4) (15 * minute)"
    using fail_cooldown_eq [of "int n + 1" base] assms(3,4) by (simp add: min_def)
  then show ?thesis
    using fail_entry [of i base msg t h] assms by (simp add: available_def not_less)
qed

lemma failure_cooldown_witness:
  "\<not> snd (available 7 (109 * second) (fst (fail 7 (5 * second) ''timeout'' (100 * second) health_sample)))
   \<and> snd (available 7 (110 * second) (fst (fail 7 (5 * second) ''timeout'' (100 * second) health_sample)))"
proof -
  have s: "\<not> unavailable (entry 7 health_sample)" "failures (entry 7 health_sample) = int 1"
    by (simp_all add: health_sample_def fail_def entry_def newAccountHealth_def Let_def)
  show ?thesis
    by (simp add: failure_cooldown [OF s] second_def minute_def)
qed

text \<open>A success closes the circuit: the account is available from then on, for any
  number of requests at the same time, until it fails again.\<close>

lemma success_closes:
  assumes "h i = Some s" and "zero_time \<le> u" and "\<forall>p\<in>set ps. op_id p = i \<longrightarrow> (\<exists>t. p = OpAvailable i t)"
  shows "snd (available i u (health_runs ps (fst (health_ok i h)))) \<longleftrightarrow>
     failures s \<noteq> 0 \<or> unavailable s \<or> cooldownUntil s \<le> u"
proof -
  have keep: "health_runs ps g i = Some c"
    if "g i = Some c" "failures c = 0" "\<forall>p\<in>set ps. op_id p = i \<longrightarrow> (\<exists>t. p = OpAvailable i t)" for g c ps
    using that
  proof (induction ps arbitrary: g)
    case (Cons p ps)
    have "health_exec p g i = Some c"
    proof (cases "op_id p = i")
      case True
      then obtain t where "p = OpAvailable i t" using Cons.prems(3) by auto
      with Cons.prems show ?thesis by (auto simp: available_def)
    qed (use Cons.prems in \<open>simp add: health_exec_other\<close>)
    with Cons show ?case by simp
  qed simp
  show ?thesis
  proof (cases "failures s = 0 \<and> \<not> unavailable s")
    case True
    have "health_runs ps (fst (health_ok i h)) i = Some s"
      by (rule keep) (use assms True in \<open>simp_all add: health_ok_def\<close>)
    with True show ?thesis by (simp add: available_def not_less)
  next
    case False
    let ?s = "s\<lparr>failures := 0, probing := False, unavailable := False,
       cooldownUntil := zero_time, seqno := seqno s + 1\<rparr>"
    have "health_runs ps (fst (health_ok i h)) i = Some ?s"
      by (rule keep) (use assms False in \<open>auto simp: health_ok_def Let_def\<close>)
    with False assms(2) show ?thesis by (auto simp: available_def)
  qed
qed

lemma success_closes_witness:
  "snd (available 7 (101 * second) (health_runs [OpAvailable 7 (101 * second), OpFail 8 second ''x'' 0]
     (fst (health_ok 7 health_sample))))"
proof -
  have s: "health_sample 7 = Some (the (health_sample 7))" "failures (the (health_sample 7)) \<noteq> 0"
    by (simp_all add: health_sample_def fail_def entry_def newAccountHealth_def Let_def)
  show ?thesis
    using success_closes [where h = health_sample and i = 7 and s = "the (health_sample 7)" and u =
        "101 * second" and ps = "[OpAvailable 7 (101 * second), OpFail 8 second ''x'' 0]"] s
    by (simp add: zero_time_def second_def)
qed

section \<open>Mirroring the state to the database\<close>

record health_sys =
  hs_mem :: healthTracker
  hs_jobs :: "health_job list"
  hs_db :: "nat \<rightharpoonup> health_row"
  hs_lost :: "nat set"  \<comment> \<open>for the statements only: the accounts whose latest write failed\<close>

definition health_init :: "(nat \<rightharpoonup> health_row) \<Rightarrow> health_sys" where
  "health_init db = \<lparr>hs_mem = Map.empty, hs_jobs = [], hs_db = db, hs_lost = {}\<rparr>"

definition health_spawn :: "healthTracker \<times> health_job list \<Rightarrow> health_sys \<Rightarrow> health_sys" where
  "health_spawn r y = y\<lparr>hs_mem := fst r, hs_jobs := hs_jobs y @ snd r\<rparr>"

definition skipped :: "health_job \<Rightarrow> healthTracker \<Rightarrow> bool" where
  \<comment> \<open>a newer state has been persisted meanwhile, or the account is gone\<close>
  "skipped j h \<longleftrightarrow> (case h (j_id j) of None \<Rightarrow> True | Some s \<Rightarrow> j_seq j < persisted s)"

definition health_job_done :: "bool \<Rightarrow> health_job \<Rightarrow> health_sys \<Rightarrow> health_sys" where
  "health_job_done wrote j y =
     (let (h, db) = persist wrote j (hs_mem y) (hs_db y)
      in \<lparr>hs_mem = h, hs_jobs = remove1 j (hs_jobs y), hs_db = db,
          hs_lost = (if skipped j (hs_mem y) then hs_lost y
                     else if wrote then hs_lost y - {j_id j} else insert (j_id j) (hs_lost y))\<rparr>)"

inductive health_step :: "bool \<Rightarrow> health_sys \<Rightarrow> health_sys \<Rightarrow> bool" for resets where
  step_available: "health_step resets y (y\<lparr>hs_mem := fst (available i t (hs_mem y))\<rparr>)"
| step_fail: "health_step resets y (health_spawn (fail i base msg t (hs_mem y)) y)"
| step_failFor: "health_step resets y (health_spawn (failFor i d msg t (hs_mem y)) y)"
| step_ok: "health_step resets y (health_spawn (health_ok i (hs_mem y)) y)"
| step_reset: "resets \<Longrightarrow> health_step resets y (y\<lparr>hs_mem := health_reset i (hs_mem y)\<rparr>)"
| step_job: "j \<in> set (hs_jobs y) \<Longrightarrow> health_step resets y (health_job_done wrote j y)"

inductive health_reachable :: "bool \<Rightarrow> (nat \<rightharpoonup> health_row) \<Rightarrow> health_sys \<Rightarrow> bool" for resets db where
  reach_init: "health_reachable resets db (health_init db)"
| reach_step: "health_reachable resets db y \<Longrightarrow> health_step resets y y' \<Longrightarrow> health_reachable resets db y'"

definition row_of :: "accountHealth \<Rightarrow> health_row" where
  \<comment> \<open>what the database should say of a state\<close>
  "row_of s = (if failures s = 0 then available_row else cooldown_row (cooldownUntil s) (lastError s))"

text \<open>
  The invariant: the pending writes of an account carry distinct sequence numbers, each the
  number of one of its state changes; the newest of them carries the current state; and
  the number recorded as persisted is that of the row in the database, unless its write failed.
\<close>

definition job_nums :: "nat \<Rightarrow> health_job list \<Rightarrow> int list" where
  "job_nums i js = map j_seq (filter (\<lambda>j. j_id j = i) js)"

definition acct_inv :: "accountHealth \<Rightarrow> health_job list \<Rightarrow> nat \<Rightarrow> bool \<Rightarrow> health_row option \<Rightarrow> bool" where
  "acct_inv s js i lost row \<longleftrightarrow>
     0 \<le> failures s \<and> \<not> unavailable s \<and> 0 < seqno s \<and> 0 \<le> persisted s \<and> persisted s \<le> seqno s \<and>
     distinct (job_nums i js) \<and>
     (\<forall>j\<in>set js. j_id j = i \<longrightarrow> 0 < j_seq j \<and> j_seq j \<le> seqno s \<and> (j_seq j = seqno s \<longrightarrow> j_row j = row_of s)) \<and>
     (persisted s < seqno s \<longrightarrow> seqno s \<in> set (job_nums i js)) \<and>
     (persisted s = seqno s \<longrightarrow> lost \<or> row = Some (row_of s))"

definition health_inv :: "health_sys \<Rightarrow> bool" where
  "health_inv y \<longleftrightarrow>
     (\<forall>i. case hs_mem y i of
            None \<Rightarrow> \<forall>j\<in>set (hs_jobs y). j_id j \<noteq> i
          | Some s \<Rightarrow> acct_inv s (hs_jobs y) i (i \<in> hs_lost y) (hs_db y i))"

lemma job_nums_append [simp]: "job_nums i (js @ ks) = job_nums i js @ job_nums i ks"
  by (simp add: job_nums_def)

lemma job_nums_Cons [simp]:
  "job_nums i (j # js) = (if j_id j = i then j_seq j # job_nums i js else job_nums i js)"
  by (simp add: job_nums_def)

lemma job_nums_Nil [simp]: "job_nums i [] = []"
  by (simp add: job_nums_def)

lemma set_job_nums: "set (job_nums i js) = j_seq ` {j \<in> set js. j_id j = i}"
  by (auto simp: job_nums_def)

text \<open>A state change with its write.\<close>

lemma health_inv_change:
  assumes inv: "health_inv y"
    and s': "0 \<le> failures s'" "\<not> unavailable s'" "seqno s' = seqno (entry i (hs_mem y)) + 1"
      "persisted s' = persisted (entry i (hs_mem y))"
  shows "health_inv (health_spawn ((hs_mem y)(i \<mapsto> s'),
           [\<lparr>j_id = i, j_seq = seqno s', j_row = row_of s'\<rparr>]) y)"
  unfolding health_inv_def
proof
  fix k
  have k: "case hs_mem y k of None \<Rightarrow> \<forall>j\<in>set (hs_jobs y). j_id j \<noteq> k
     | Some s \<Rightarrow> acct_inv s (hs_jobs y) k (k \<in> hs_lost y) (hs_db y k)"
    using inv by (simp add: health_inv_def)
  show "case hs_mem (health_spawn ((hs_mem y)(i \<mapsto> s'), [\<lparr>j_id = i, j_seq = seqno s', j_row = row_of s'\<rparr>]) y) k of
       None \<Rightarrow> \<forall>j\<in>set (hs_jobs (health_spawn ((hs_mem y)(i \<mapsto> s'), [\<lparr>j_id = i, j_seq = seqno s', j_row = row_of s'\<rparr>]) y)).
          j_id j \<noteq> k
     | Some s \<Rightarrow> acct_inv s (hs_jobs (health_spawn ((hs_mem y)(i \<mapsto> s'), [\<lparr>j_id = i, j_seq = seqno s', j_row = row_of s'\<rparr>]) y)) k
          (k \<in> hs_lost (health_spawn ((hs_mem y)(i \<mapsto> s'), [\<lparr>j_id = i, j_seq = seqno s', j_row = row_of s'\<rparr>]) y))
          (hs_db (health_spawn ((hs_mem y)(i \<mapsto> s'), [\<lparr>j_id = i, j_seq = seqno s', j_row = row_of s'\<rparr>]) y) k)"
  proof (cases "k = i")
    case False
    with k show ?thesis by (auto simp: health_spawn_def acct_inv_def split: option.splits)
  next
    case True
    show ?thesis
    proof (cases "hs_mem y i")
      case None
      with k True have "\<forall>j\<in>set (hs_jobs y). j_id j \<noteq> i" by simp
      then have "job_nums i (hs_jobs y) = []" by (simp add: job_nums_def)
      with None k True s' show ?thesis
        by (auto simp: health_spawn_def acct_inv_def entry_def newAccountHealth_def)
    next
      case (Some s)
      with k True have "acct_inv s (hs_jobs y) i (i \<in> hs_lost y) (hs_db y i)" by simp
      with Some True s' show ?thesis
        by (auto simp: health_spawn_def acct_inv_def entry_def set_job_nums)
    qed
  qed
qed

lemma health_invD:
  assumes "health_inv y" and "hs_mem y i = Some s"
  shows "acct_inv s (hs_jobs y) i (i \<in> hs_lost y) (hs_db y i)"
  using assms(1) [unfolded health_inv_def, THEN spec, of i] assms(2) by simp

lemma health_inv_same:
  assumes inv: "health_inv y" and s: "hs_mem y i = Some s"
    and s': "failures s' = failures s" "unavailable s' = unavailable s" "seqno s' = seqno s"
      "persisted s' = persisted s" "row_of s' = row_of s"
  shows "health_inv (y\<lparr>hs_mem := (hs_mem y)(i \<mapsto> s')\<rparr>)"
proof -
  have "acct_inv s (hs_jobs y) i (i \<in> hs_lost y) (hs_db y i)" using inv s by (rule health_invD)
  then have "acct_inv s' (hs_jobs y) i (i \<in> hs_lost y) (hs_db y i)" using s' by (simp add: acct_inv_def)
  with inv show ?thesis by (simp add: health_inv_def cong: option.case_cong)
qed

lemma acct_inv_job:
  assumes inv: "acct_inv s js i lost row" and j: "j \<in> set js" "j_id j = i"
  shows "if j_seq j < persisted s then acct_inv s (remove1 j js) i lost row
         else acct_inv (s\<lparr>persisted := j_seq j\<rparr>) (remove1 j js) i (\<not> wrote) (if wrote then Some (j_row j) else row)"
proof -
  have js: "distinct (job_nums i js)" using inv by (simp add: acct_inv_def)
  obtain xs ys where split: "js = xs @ j # ys" and nin: "j \<notin> set xs"
    using j(1) by (meson split_list_first)
  have rem: "remove1 j js = xs @ ys" using split nin by (simp add: remove1_append)
  have "distinct (job_nums i xs @ j_seq j # job_nums i ys)" using js split j(2) by simp
  then have nums: "set (job_nums i (xs @ ys)) = set (job_nums i js) - {j_seq j}"
    "distinct (job_nums i (xs @ ys))"
    using split j(2) by auto
  have sub: "set (xs @ ys) \<subseteq> set js" using split by auto
  have row: "row_of (s\<lparr>persisted := n\<rparr>) = row_of s" for n by (simp add: row_of_def)
  show ?thesis
  proof (cases "j_seq j < persisted s")
    case True
    have "acct_inv s (xs @ ys) i lost row"
      unfolding acct_inv_def
    proof (intro conjI)
      show "\<forall>j\<in>set (xs @ ys). j_id j = i \<longrightarrow>
          0 < j_seq j \<and> j_seq j \<le> seqno s \<and> (j_seq j = seqno s \<longrightarrow> j_row j = row_of s)"
        using inv sub unfolding acct_inv_def by blast
      show "persisted s < seqno s \<longrightarrow> seqno s \<in> set (job_nums i (xs @ ys))"
        using inv True nums(1) by (simp add: acct_inv_def)
    qed (use inv nums in \<open>simp_all add: acct_inv_def\<close>)
    with True show ?thesis by (simp add: rem)
  next
    case False
    have "0 < j_seq j" "j_seq j \<le> seqno s" "j_seq j = seqno s \<longrightarrow> j_row j = row_of s"
      using inv j by (auto simp: acct_inv_def)
    moreover have "seqno s \<in> set (job_nums i js)" if "j_seq j < seqno s"
      using inv that False by (auto simp: acct_inv_def)
    note facts = calculation this
    have "acct_inv (s\<lparr>persisted := j_seq j\<rparr>) (xs @ ys) i (\<not> wrote) (if wrote then Some (j_row j) else row)"
      unfolding acct_inv_def
    proof (intro conjI)
      show "\<forall>k\<in>set (xs @ ys). j_id k = i \<longrightarrow>
          0 < j_seq k \<and> j_seq k \<le> seqno (s\<lparr>persisted := j_seq j\<rparr>) \<and>
          (j_seq k = seqno (s\<lparr>persisted := j_seq j\<rparr>) \<longrightarrow> j_row k = row_of (s\<lparr>persisted := j_seq j\<rparr>))"
        using inv sub unfolding acct_inv_def row by auto
      show "persisted (s\<lparr>persisted := j_seq j\<rparr>) < seqno (s\<lparr>persisted := j_seq j\<rparr>) \<longrightarrow>
          seqno (s\<lparr>persisted := j_seq j\<rparr>) \<in> set (job_nums i (xs @ ys))"
        using facts nums(1) by simp
      show "persisted (s\<lparr>persisted := j_seq j\<rparr>) = seqno (s\<lparr>persisted := j_seq j\<rparr>) \<longrightarrow>
          \<not> wrote \<or> (if wrote then Some (j_row j) else row) = Some (row_of (s\<lparr>persisted := j_seq j\<rparr>))"
        using facts by (simp add: row)
    qed (use inv nums facts in \<open>simp_all add: acct_inv_def\<close>)
    with False show ?thesis by (simp add: rem)
  qed
qed

lemma health_inv_job:
  assumes inv: "health_inv y" and j: "j \<in> set (hs_jobs y)"
  shows "health_inv (health_job_done wrote j y)"
proof (cases "hs_mem y (j_id j)")
  case None
  with inv j show ?thesis by (auto simp: health_inv_def dest!: spec [of _ "j_id j"])
next
  case (Some s)
  have s: "acct_inv s (hs_jobs y) (j_id j) (j_id j \<in> hs_lost y) (hs_db y (j_id j))"
    using inv Some by (rule health_invD)
  note step = acct_inv_job [OF s j refl, of wrote]
  have other: "acct_inv t (remove1 j (hs_jobs y)) k lost row"
    if "acct_inv t (hs_jobs y) k lost row" "k \<noteq> j_id j" for t k lost row
  proof -
    have "filter (\<lambda>i. j_id i = k) (remove1 j (hs_jobs y)) = filter (\<lambda>i. j_id i = k) (hs_jobs y)"
      using that(2) by (simp add: filter_remove1 remove1_idem)
    then have "job_nums k (remove1 j (hs_jobs y)) = job_nums k (hs_jobs y)"
      by (simp add: job_nums_def)
    with that show ?thesis by (auto simp: acct_inv_def dest: set_mp [OF set_remove1_subset])
  qed
  show ?thesis
    unfolding health_inv_def
  proof
    fix k
    have k: "case hs_mem y k of None \<Rightarrow> \<forall>j\<in>set (hs_jobs y). j_id j \<noteq> k
       | Some s \<Rightarrow> acct_inv s (hs_jobs y) k (k \<in> hs_lost y) (hs_db y k)"
      using inv by (simp add: health_inv_def)
    show "case hs_mem (health_job_done wrote j y) k of
        None \<Rightarrow> \<forall>j'\<in>set (hs_jobs (health_job_done wrote j y)). j_id j' \<noteq> k
      | Some s \<Rightarrow> acct_inv s (hs_jobs (health_job_done wrote j y)) k (k \<in> hs_lost (health_job_done wrote j y))
          (hs_db (health_job_done wrote j y) k)"
    proof (cases "k = j_id j")
      case True
      with step Some show ?thesis by (simp add: health_job_done_def persist_def skipped_def split: if_split_asm)
    next
      case False
      with k Some show ?thesis
        by (auto simp: health_job_done_def persist_def skipped_def other dest: set_mp [OF set_remove1_subset]
            split: option.splits)
    qed
  qed
qed

lemma health_inv_entry:
  "health_inv y \<Longrightarrow> 0 \<le> failures (entry i (hs_mem y)) \<and> \<not> unavailable (entry i (hs_mem y))"
  by (auto simp: health_inv_def entry_def newAccountHealth_def acct_inv_def split: option.splits
      dest!: spec [of _ i])

lemma health_inv_step:
  assumes "health_step False y y'" and "health_inv y"
  shows "health_inv y'"
  using assms
proof (cases rule: health_step.cases)
  case (step_available i t)
  show ?thesis
  proof (cases "hs_mem y i")
    case (Some s)
    let ?s = "s\<lparr>probing := True, probeSince := t\<rparr>"
    have "health_inv (y\<lparr>hs_mem := (hs_mem y)(i \<mapsto> ?s)\<rparr>)"
      by (rule health_inv_same [OF assms(2) Some]) (simp_all add: row_of_def)
    with Some assms(2) step_available show ?thesis by (simp add: available_def)
  qed (use step_available assms(2) in \<open>simp add: available_def\<close>)
next
  case (step_fail i base msg t)
  let ?e = "entry i (hs_mem y)"
  let ?s = "?e\<lparr>failures := failures ?e + 1, probing := False,
     cooldownUntil := t + fail_cooldown (failures ?e + 1) base, lastError := msg, seqno := seqno ?e + 1\<rparr>"
  have e: "0 \<le> failures ?e" "\<not> unavailable ?e"
    using health_inv_entry [OF assms(2)] by simp_all
  then have "fail i base msg t (hs_mem y) =
      ((hs_mem y)(i \<mapsto> ?s), [\<lparr>j_id = i, j_seq = seqno ?s, j_row = row_of ?s\<rparr>])"
    by (simp add: fail_def Let_def row_of_def)
  with e show ?thesis
    unfolding step_fail by (simp only:) (rule health_inv_change [OF assms(2)], simp_all)
next
  case (step_failFor i d msg t)
  let ?e = "entry i (hs_mem y)"
  let ?s = "?e\<lparr>failures := failures ?e + 1, probing := False,
     cooldownUntil := t + d, lastError := msg, seqno := seqno ?e + 1\<rparr>"
  have e: "0 \<le> failures ?e" "\<not> unavailable ?e"
    using health_inv_entry [OF assms(2)] by simp_all
  then have "failFor i d msg t (hs_mem y) =
      ((hs_mem y)(i \<mapsto> ?s), [\<lparr>j_id = i, j_seq = seqno ?s, j_row = row_of ?s\<rparr>])"
    by (simp add: failFor_def Let_def row_of_def)
  with e show ?thesis
    unfolding step_failFor by (simp only:) (rule health_inv_change [OF assms(2)], simp_all)
next
  case (step_ok i)
  show ?thesis
  proof (cases "hs_mem y i")
    case (Some s)
    let ?s = "s\<lparr>failures := 0, probing := False, unavailable := False,
       cooldownUntil := zero_time, seqno := seqno s + 1\<rparr>"
    have "health_inv (health_spawn ((hs_mem y)(i \<mapsto> ?s),
        [\<lparr>j_id = i, j_seq = seqno ?s, j_row = row_of ?s\<rparr>]) y)"
      by (rule health_inv_change [OF assms(2)]) (use Some in \<open>simp_all add: entry_def\<close>)
    with Some assms(2) step_ok show ?thesis
      by (auto simp: health_ok_def row_of_def health_spawn_def)
  qed (use step_ok assms(2) in \<open>simp add: health_ok_def health_spawn_def\<close>)
next
  case (step_job j wrote)
  with assms(2) show ?thesis by (simp add: health_inv_job)
qed auto

lemma health_inv_init: "health_inv (health_init db)"
  by (simp add: health_inv_def health_init_def)

lemma health_reachable_inv: "health_reachable False db y \<Longrightarrow> health_inv y"
  by (induction rule: health_reachable.induct) (blast intro: health_inv_init health_inv_step)+

text \<open>Property C7: as long as no account is reset, the asynchronous writes settle on the right
  row whatever order they run in and whichever of them fail: when none is pending, the database row of every
  account that changed state says what the memory says, unless the latest of its writes failed.\<close>

theorem health_mirror_settles:
  assumes "health_reachable False db y" and "hs_jobs y = []" and "hs_mem y i = Some s" and "i \<notin> hs_lost y"
  shows "hs_db y i = Some (row_of s)"
proof -
  have "acct_inv s [] i False (hs_db y i)"
    using health_invD [OF health_reachable_inv [OF assms(1)] assms(3)] assms(2,4) by simp
  then show ?thesis by (auto simp: acct_inv_def job_nums_def)
qed

definition settle_sample :: health_sys where
  "settle_sample =
     (let y1 = health_spawn (fail 7 second ''a'' 0 (hs_mem (health_init Map.empty))) (health_init Map.empty);
          y2 = health_spawn (failFor 7 minute ''b'' second (hs_mem y1)) y1;
          y3 = health_job_done False (hs_jobs y2 ! 0) y2
      in health_job_done True (hs_jobs y2 ! 1) y3)"

lemmas health_eval =
  health_spawn_def health_job_done_def skipped_def health_init_def health_ops entry_def newAccountHealth_def

lemma settle_sample_reachable: "health_reachable False Map.empty settle_sample"
proof -
  define y1 where "y1 = health_spawn (fail 7 second ''a'' 0 (hs_mem (health_init Map.empty))) (health_init Map.empty)"
  define y2 where "y2 = health_spawn (failFor 7 minute ''b'' second (hs_mem y1)) y1"
  define y3 where "y3 = health_job_done False (hs_jobs y2 ! 0) y2"
  have "health_reachable False Map.empty y2"
    unfolding y2_def y1_def by (rule reach_step [OF reach_step [OF reach_init step_fail] step_failFor])
  moreover have "health_step False y2 y3"
    unfolding y3_def by (rule step_job) (simp add: y1_def y2_def health_eval Let_def)
  moreover have "health_step False y3 (health_job_done True (hs_jobs y2 ! 1) y3)"
    by (rule step_job) (simp add: y1_def y2_def y3_def health_eval Let_def)
  ultimately show ?thesis
    unfolding settle_sample_def Let_def y1_def [symmetric] y2_def [symmetric] y3_def [symmetric]
    by (blast intro: reach_step)
qed

lemma health_mirror_settles_witness:
  "hs_db settle_sample 7 = Some (cooldown_row (second + minute) ''b'')"
proof -
  have 1: "hs_jobs settle_sample = []" and 2: "hs_mem settle_sample 7 = Some (the (hs_mem settle_sample 7))"
    and 4: "7 \<notin> hs_lost settle_sample"
    and 3: "row_of (the (hs_mem settle_sample 7)) = cooldown_row (second + minute) ''b''"
    by (simp_all add: settle_sample_def health_eval Let_def row_of_def)
  show ?thesis
    using health_mirror_settles [OF settle_sample_reachable 1 2 4] 3 by simp
qed

text \<open>The proviso is needed: the number of a state is recorded before its write, and the error of the write is
  ignored, so after a failed write nothing brings the row up to date before the account changes again.\<close>

lemma failed_write_stays:
  "\<exists>y s. health_reachable False db y \<and> hs_jobs y = [] \<and> hs_mem y i = Some s \<and> persisted s = seqno s \<and>
     failures s = 1 \<and> hs_db y i = db i"
proof -
  define y1 where "y1 = health_spawn (failFor i minute ''down'' 0 (hs_mem (health_init db))) (health_init db)"
  have "health_step False y1 (health_job_done False (hs_jobs y1 ! 0) y1)"
    by (rule step_job) (simp add: y1_def health_eval Let_def)
  moreover have "health_reachable False db y1"
    unfolding y1_def by (rule reach_step [OF reach_init step_failFor])
  ultimately have "health_reachable False db (health_job_done False (hs_jobs y1 ! 0) y1)" by (blast intro: reach_step)
  then show ?thesis
    by (intro exI [of _ "health_job_done False (hs_jobs y1 ! 0) y1"] exI [of _ "the (hs_mem (health_job_done False (hs_jobs y1 ! 0) y1) i)"])
      (simp add: y1_def health_eval Let_def)
qed

text \<open>
  A reset (the administrator clears the account's health) removes the sequence numbers, so a
  write issued before it can run after a newer one and overwrite it.
\<close>

definition reset_sample :: health_sys where
  "reset_sample =
     (let y1 = health_spawn (failFor 7 minute ''old'' 0 (hs_mem (health_init Map.empty))) (health_init Map.empty);
          y2 = y1\<lparr>hs_mem := health_reset 7 (hs_mem y1)\<rparr>;
          y3 = health_spawn (failFor 7 minute ''new'' second (hs_mem y2)) y2;
          y4 = health_job_done True (hs_jobs y3 ! 1) y3
      in health_job_done True (hs_jobs y3 ! 0) y4)"

lemma reset_sample_reachable: "health_reachable True Map.empty reset_sample"
proof -
  define y1 where "y1 = health_spawn (failFor 7 minute ''old'' 0 (hs_mem (health_init Map.empty))) (health_init Map.empty)"
  define y2 where "y2 = y1\<lparr>hs_mem := health_reset 7 (hs_mem y1)\<rparr>"
  define y3 where "y3 = health_spawn (failFor 7 minute ''new'' second (hs_mem y2)) y2"
  define y4 where "y4 = health_job_done True (hs_jobs y3 ! 1) y3"
  have "health_step True y1 y2" unfolding y2_def by (rule step_reset) simp
  moreover have "health_reachable True Map.empty y1"
    unfolding y1_def by (rule reach_step [OF reach_init step_failFor])
  moreover have "health_step True y2 y3" unfolding y3_def by (rule step_failFor)
  moreover have "health_step True y3 y4"
    unfolding y4_def by (rule step_job) (simp add: y1_def y2_def y3_def health_eval Let_def)
  moreover have "health_step True y4 (health_job_done True (hs_jobs y3 ! 0) y4)"
    by (rule step_job) (simp add: y1_def y2_def y3_def y4_def health_eval Let_def)
  ultimately show ?thesis
    unfolding reset_sample_def Let_def y1_def [symmetric] y2_def [symmetric] y3_def [symmetric] y4_def [symmetric]
    by (blast intro: reach_step)
qed

text \<open>Property C8: with a reset between two failures the mirroring can settle on the older row:
  memory holds the new error, no write is pending, and the database keeps the old one.\<close>

theorem reset_lets_stale_write_win:
  "\<exists>y s. health_reachable True Map.empty y \<and> hs_jobs y = [] \<and> hs_mem y 7 = Some s \<and>
     lastError s = ''new'' \<and> persisted s = seqno s \<and>
     hs_db y 7 = Some (cooldown_row minute ''old'') \<and> hs_db y 7 \<noteq> Some (row_of s)"
proof (intro exI conjI)
  show "health_reachable True Map.empty reset_sample" by (rule reset_sample_reachable)
  show "hs_mem reset_sample 7 = Some (the (hs_mem reset_sample 7))" and "hs_jobs reset_sample = []"
    and "lastError (the (hs_mem reset_sample 7)) = ''new''"
    and "persisted (the (hs_mem reset_sample 7)) = seqno (the (hs_mem reset_sample 7))"
    and "hs_db reset_sample 7 = Some (cooldown_row minute ''old'')"
    and "hs_db reset_sample 7 \<noteq> Some (row_of (the (hs_mem reset_sample 7)))"
    by (simp_all add: reset_sample_def health_eval Let_def row_of_def cooldown_row_def second_def)
qed

end
