(* ===== verification/Quota.thy ===== *)
theory Quota
  imports GoBase
begin

text \<open>
  \<open>internal/gateway/quota.go\<close>: the tokens every group used in the current calendar month,
  in memory, refreshed from the hourly rollup table. The rows of the query are an argument
  (\<open>None\<close> when it fails); \<open>zone\<close> is the offset of the server's location from UTC in
  seconds (a location without daylight-saving changes).
\<close>

section \<open>The first instant of a month\<close>

definition day_of_month :: "int \<Rightarrow> int" where
  \<comment> \<open>the day of the month of the \<open>z\<close>-th day after 1970-01-01, in the Gregorian calendar:
     the calendar of 400 years from the first of March of year 0\<close>
  "day_of_month z =
     (let doe = (z + 719468) mod 146097;
          yoe = (doe - doe div 1460 + doe div 36524 - doe div 146096) div 365;
          doy = doe - (365 * yoe + yoe div 4 - yoe div 100);
          mp = (5 * doy + 2) div 153
      in doy - (153 * mp + 2) div 5 + 1)"

definition monthStart :: "int \<Rightarrow> time \<Rightarrow> time" where
  "monthStart zone t =
     (let z = (unix t + zone) div 86400 in ((z - (day_of_month z - 1)) * 86400 - zone) * second)"

section \<open>The tracker\<close>

record quotaTracker =
  used :: "nat \<rightharpoonup> int"
  month :: time

definition mget :: "(nat \<rightharpoonup> int) \<Rightarrow> nat \<Rightarrow> int" where
  \<comment> \<open>a missing key reads as zero\<close>
  "mget m g = (case m g of None \<Rightarrow> 0 | Some v \<Rightarrow> v)"

fun rows_into :: "(nat \<rightharpoonup> int) \<Rightarrow> (nat \<times> int) list \<Rightarrow> nat \<rightharpoonup> int" where
  "rows_into m [] = m"
| "rows_into m ((g, n) # rows) = rows_into (m(g \<mapsto> n)) rows"

definition rows_map :: "(nat \<times> int) list \<Rightarrow> nat \<rightharpoonup> int" where
  "rows_map rows = rows_into Map.empty rows"

definition keep_max :: "(nat \<rightharpoonup> int) \<Rightarrow> (nat \<rightharpoonup> int) \<Rightarrow> nat \<rightharpoonup> int" where
  \<comment> \<open>the loop over \<open>q.used\<close>; every key is visited once, so the order does not matter\<close>
  "keep_max old m = (\<lambda>g. case old g of
       None \<Rightarrow> m g
     | Some v \<Rightarrow> if v > mget m g then Some v else m g)"

definition quota_refresh :: "int \<Rightarrow> (nat \<times> int) list option \<Rightarrow> time \<Rightarrow> quotaTracker \<Rightarrow> quotaTracker" where
  "quota_refresh zone rows now q =
     (let start = monthStart zone now
      in case rows of
           None \<Rightarrow> q
         | Some rs \<Rightarrow>
             let m = rows_map rs
             in \<lparr>used = (if month q = start then keep_max (used q) m else m), month = start\<rparr>)"

definition newQuotaTracker :: "int \<Rightarrow> (nat \<times> int) list option \<Rightarrow> time \<Rightarrow> quotaTracker" where
  "newQuotaTracker zone rows now = quota_refresh zone rows now \<lparr>used = Map.empty, month = zero_time\<rparr>"

definition quota_add :: "int \<Rightarrow> nat \<Rightarrow> int \<Rightarrow> time \<Rightarrow> quotaTracker \<Rightarrow> quotaTracker" where
  "quota_add zone g tokens now q =
     (if tokens \<le> 0 then q
      else let q1 = (if monthStart zone now \<noteq> month q
                     then \<lparr>used = Map.empty, month = monthStart zone now\<rparr> else q)
           in q1\<lparr>used := (used q1)(g \<mapsto> mget (used q1) g + tokens)\<rparr>)"

definition quota_usage :: "nat \<Rightarrow> quotaTracker \<Rightarrow> int" where
  "quota_usage g q = mget (used q) g"

definition exceeded :: "nat \<Rightarrow> int \<Rightarrow> quotaTracker \<Rightarrow> bool" where
  "exceeded g quota q = (if quota \<le> 0 then False else quota_usage g q \<ge> quota)"

lemmas quota_ops = quota_refresh_def quota_add_def quota_usage_def exceeded_def

lemma mget_upd [simp]: "mget (m(g \<mapsto> v)) k = (if k = g then v else mget m k)"
  by (simp add: mget_def)

lemma mget_empty [simp]: "mget Map.empty g = 0"
  by (simp add: mget_def)

lemma keep_max_mget: "0 \<le> mget old g \<Longrightarrow> 0 \<le> mget m g \<Longrightarrow> mget (keep_max old m) g = max (mget old g) (mget m g)"
  by (auto simp: mget_def keep_max_def split: option.splits)

lemma rows_into_mget:
  "mget (rows_into m rows) g = mget m g \<or> (g, mget (rows_into m rows) g) \<in> set rows"
proof (induction m rows rule: rows_into.induct)
  case (2 m k v rows)
  then show ?case by (cases "g = k") (auto simp del: fun_upd_apply)
qed simp

lemma rows_map_mget: "mget (rows_map rows) g = 0 \<or> (g, mget (rows_map rows) g) \<in> set rows"
  using rows_into_mget [of Map.empty rows g] by (simp add: rows_map_def)

section \<open>What the counter counts\<close>

datatype quota_op = QAdd nat int time | QRefresh "(nat \<times> int) list option" time

fun qtime :: "quota_op \<Rightarrow> time" where
  "qtime (QAdd g n t) = t"
| "qtime (QRefresh rows t) = t"

fun quota_exec :: "int \<Rightarrow> quota_op list \<Rightarrow> quotaTracker \<Rightarrow> quotaTracker" where
  "quota_exec zone [] q = q"
| "quota_exec zone (QAdd g n t # ps) q = quota_exec zone ps (quota_add zone g n t q)"
| "quota_exec zone (QRefresh rows t # ps) q = quota_exec zone ps (quota_refresh zone rows t q)"

fun added :: "nat \<Rightarrow> quota_op list \<Rightarrow> int" where
  "added g [] = 0"
| "added g (QAdd k n t # ps) = (if k = g then max 0 n else 0) + added g ps"
| "added g (QRefresh rows t # ps) = added g ps"

fun lagging :: "(nat \<Rightarrow> int) \<Rightarrow> quota_op list \<Rightarrow> bool" where
  \<comment> \<open>the rollup the query reads never holds more than what was counted so far, since the
     call logs are aggregated after the requests they belong to\<close>
  "lagging seen [] \<longleftrightarrow> True"
| "lagging seen (QAdd g n t # ps) \<longleftrightarrow> lagging (seen(g := seen g + max 0 n)) ps"
| "lagging seen (QRefresh rows t # ps) \<longleftrightarrow>
     (\<forall>(g, v)\<in>set (case rows of None \<Rightarrow> [] | Some rs \<Rightarrow> rs). 0 \<le> v \<and> v \<le> seen g) \<and> lagging seen ps"

lemma quota_refresh_month:
  assumes "month q = monthStart zone t" and "\<forall>g. 0 \<le> quota_usage g q"
    and "\<forall>(g, v)\<in>set (case rows of None \<Rightarrow> [] | Some rs \<Rightarrow> rs). 0 \<le> v \<and> v \<le> quota_usage g q"
  shows "month (quota_refresh zone rows t q) = month q \<and>
     quota_usage g (quota_refresh zone rows t q) = quota_usage g q"
proof (cases rows)
  case (Some rs)
  have "0 \<le> mget (rows_map rs) g \<and> mget (rows_map rs) g \<le> quota_usage g q"
    using rows_map_mget [of rs g] assms(2,3) Some by auto
  with Some assms(1,2) show ?thesis
    by (simp add: quota_refresh_def quota_usage_def keep_max_mget)
qed (simp add: quota_refresh_def)

lemma quota_add_month:
  assumes "month q = monthStart zone t"
  shows "month (quota_add zone k n t q) = month q \<and>
     quota_usage g (quota_add zone k n t q) = quota_usage g q + (if k = g then max 0 n else 0)"
  using assms by (auto simp: quota_add_def quota_usage_def Let_def)

text \<open>Property C9: within one month, whatever the order of bookings and of refreshes from the
  lagging rollups, failed ones included, the counter of every group is exactly what it started
  with plus all the tokens booked: nothing is counted twice and nothing is lost.\<close>

theorem quota_counts_exactly:
  assumes "\<forall>p\<in>set ps. monthStart zone (qtime p) = month q" and "\<forall>g. 0 \<le> quota_usage g q"
    and "lagging (\<lambda>g. quota_usage g q) ps"
  shows "quota_usage g (quota_exec zone ps q) = quota_usage g q + added g ps"
  using assms
proof (induction ps arbitrary: q)
  case (Cons p ps)
  show ?case
  proof (cases p)
    case (QAdd k n t)
    let ?q = "quota_add zone k n t q"
    have st: "month ?q = month q" "\<And>g. quota_usage g ?q = quota_usage g q + (if k = g then max 0 n else 0)"
      using quota_add_month [of q zone t k n] Cons.prems(1) QAdd by simp_all
    have "(\<lambda>g. quota_usage g ?q) = (\<lambda>g. quota_usage g q)(k := quota_usage k q + max 0 n)"
      by (rule ext) (simp add: st(2))
    then have "lagging (\<lambda>g. quota_usage g ?q) ps" using Cons.prems(3) QAdd by simp
    then have "quota_usage g (quota_exec zone ps ?q) = quota_usage g ?q + added g ps"
      using Cons.prems(1,2) st by (intro Cons.IH) (simp_all add: QAdd)
    then show ?thesis using st(2) [of g] by (simp add: QAdd)
  next
    case (QRefresh rows t)
    let ?q = "quota_refresh zone rows t q"
    have st: "month ?q = month q" "\<And>g. quota_usage g ?q = quota_usage g q"
      using quota_refresh_month [of q zone t rows] Cons.prems QRefresh by simp_all
    then have "quota_usage g (quota_exec zone ps ?q) = quota_usage g ?q + added g ps"
      using Cons.prems by (intro Cons.IH) (simp_all add: QRefresh)
    then show ?thesis using st(2) [of g] by (simp add: QRefresh)
  qed
qed simp

definition quota_sample :: quotaTracker where
  "quota_sample = newQuotaTracker 0 (Some [(1, 100), (2, 7)]) (1785200000 * second)"

text \<open>The first of July and of August 2026, UTC.\<close>

lemma month_samples:
  "monthStart 0 (1785200000 * second) = 1782864000 * second"
  "monthStart 0 (1785203600 * second) = 1782864000 * second"
  "monthStart 0 (1785207200 * second) = 1782864000 * second"
  "monthStart 0 (1785542400 * second) = 1785542400 * second"
  by code_simp+

lemma quota_sample_fields:
  "used quota_sample = [1 \<mapsto> 100, 2 \<mapsto> 7]" "month quota_sample = 1782864000 * second"
proof -
  have "zero_time \<noteq> 1782864000 * second" by (simp add: zero_time_def second_def)
  then show "used quota_sample = [1 \<mapsto> 100, 2 \<mapsto> 7]" "month quota_sample = 1782864000 * second"
    by (simp_all add: quota_sample_def newQuotaTracker_def quota_refresh_def month_samples rows_map_def)
qed

lemma quota_counts_exactly_witness:
  "quota_usage 1 (quota_exec 0 [QAdd 1 50 (1785200000 * second), QRefresh (Some [(1, 120)]) (1785203600 * second),
      QRefresh None (1785203600 * second), QAdd 1 5 (1785207200 * second)] quota_sample) = 155"
proof -
  let ?ps = "[QAdd 1 50 (1785200000 * second), QRefresh (Some [(1, 120)]) (1785203600 * second),
      QRefresh None (1785203600 * second), QAdd 1 5 (1785207200 * second)]"
  have 1: "\<forall>p\<in>set ?ps. monthStart 0 (qtime p) = month quota_sample"
    by (simp only: list.set insert_iff empty_iff ball_simps qtime.simps month_samples quota_sample_fields)
  have 2: "\<forall>g. 0 \<le> quota_usage g quota_sample"
    by (simp add: quota_sample_fields quota_usage_def mget_def)
  have 3: "lagging (\<lambda>g. quota_usage g quota_sample) ?ps"
    by (simp add: quota_sample_fields quota_usage_def mget_def)
  show ?thesis
    unfolding quota_counts_exactly [OF 1 2 3] by (simp add: quota_sample_fields quota_usage_def mget_def)
qed

text \<open>
  \<open>exceeded\<close> does not look at the month. After midnight on the first, a group at its quota
  stays rejected until a booking of another group or the next refresh replaces the counters.
\<close>

text \<open>A group that used up its quota is still rejected in the next month although it
  has used nothing of that month's quota, as long as neither a refresh nor a booking comes.\<close>

lemma quota_outlives_month:
  assumes "0 < quota" and "quota \<le> n" and "monthStart zone t = month q" and "0 \<le> quota_usage g q"
  shows "exceeded g quota (quota_add zone g n t q) \<and>
     (monthStart zone u \<noteq> month q \<longrightarrow>
        \<not> exceeded g quota (quota_refresh zone (Some []) u (quota_add zone g n t q)))"
  using assms quota_add_month [of q zone t g n g]
  by (auto simp: quota_refresh_def exceeded_def quota_usage_def rows_map_def Let_def)

lemma quota_outlives_month_witness:
  "exceeded 1 100 (quota_add 0 1 150 (1785200000 * second) quota_sample) \<and>
   \<not> exceeded 1 100 (quota_refresh 0 (Some []) (1785542400 * second)
       (quota_add 0 1 150 (1785200000 * second) quota_sample))"
proof -
  have m: "monthStart 0 (1785200000 * second) = month quota_sample"
    "monthStart 0 (1785542400 * second) \<noteq> month quota_sample" "0 \<le> quota_usage 1 quota_sample"
    unfolding month_samples quota_sample_fields by (simp_all add: quota_sample_fields quota_usage_def mget_def second_def)
  show ?thesis
    using quota_outlives_month [where quota = 100 and n = 150 and zone = 0 and g = 1, OF _ _ m(1,3)] m(2) by simp
qed

end
