(* ===== verification/Key_Cache.thy ===== *)
theory Key_Cache
  imports GoBase
begin

text \<open>
  \<open>internal/gateway/principal.go\<close>: the cache of API-key lookups. The key table is the
  map from hashes to rows (\<open>None\<close> also stands for a failed query, which the code treats
  the same way); a lookup is the steps of the code that other requests can interleave
  with: reading the cache and the generation, querying, storing the result.
\<close>

section \<open>Data\<close>

record api_user =
  u_id :: nat
  u_username :: string
  u_role :: string
  u_enabled :: bool
  u_locked :: bool
  u_group :: nat

record api_key =
  k_id :: nat
  k_name :: string
  k_enabled :: bool
  k_tpm :: int
  k_rpm :: int
  k_expires :: "time option"
  k_models :: "string list"
  k_user :: "api_user option"

record Principal =
  KeyID :: nat
  KeyName :: string
  UserID :: nat
  Username :: string
  UserRole :: string
  UserEnabled :: bool
  KeyEnabled :: bool
  KeyExpired :: bool
  KeyModels :: "string set option"
  KeyTPM :: int
  KeyRPM :: int
  GroupID :: nat

definition principal_of :: "api_key \<Rightarrow> time \<Rightarrow> Principal" where
  "principal_of k now =
     (let p = \<lparr>KeyID = k_id k, KeyName = k_name k, UserID = 0, Username = '''', UserRole = '''',
               UserEnabled = False, KeyEnabled = k_enabled k,
               KeyExpired = (case k_expires k of None \<Rightarrow> False | Some t \<Rightarrow> now > t),
               KeyModels = (if k_models k = [] then None else Some (set (k_models k))),
               KeyTPM = k_tpm k, KeyRPM = k_rpm k, GroupID = 0\<rparr>
      in case k_user k of
           None \<Rightarrow> p
         | Some u \<Rightarrow> p\<lparr>UserID := u_id u, Username := u_username u, UserRole := u_role u,
                       UserEnabled := u_enabled u \<and> \<not> u_locked u, GroupID := u_group u\<rparr>)"

definition keyCacheMax :: nat where
  "keyCacheMax = 20000"

definition keyCacheTTL :: duration where
  "keyCacheTTL = 30 * second"

definition keyCacheNegTTL :: duration where
  "keyCacheNegTTL = 5 * second"

record keyEntry =
  e_principal :: "Principal option"
  e_expires :: time

record keyCache =
  kc_m :: "(string \<times> keyEntry) list"
  kc_gen :: nat

text \<open>The map as an association list with distinct keys, so that its size computes.\<close>

definition kc_get :: "string \<Rightarrow> keyCache \<Rightarrow> keyEntry option" where
  "kc_get h c = map_of (kc_m c) h"

definition kc_size :: "keyCache \<Rightarrow> nat" where
  "kc_size c = length (kc_m c)"

definition newKeyCache :: keyCache where
  "newKeyCache = \<lparr>kc_m = [], kc_gen = 0\<rparr>"

definition invalidate :: "keyCache \<Rightarrow> keyCache" where
  "invalidate c = \<lparr>kc_m = [], kc_gen = kc_gen c + 1\<rparr>"

definition put :: "string \<Rightarrow> keyEntry \<Rightarrow> (string \<times> keyEntry) list \<Rightarrow> (string \<times> keyEntry) list" where
  "put h e m = (h, e) # filter (\<lambda>(k, _). k \<noteq> h) m"

definition kc_store :: "string \<Rightarrow> keyEntry \<Rightarrow> time \<Rightarrow> keyCache \<Rightarrow> keyCache" where
  "kc_store h e now c =
     (let m = kc_m c;
          m1 = (if length m \<ge> keyCacheMax
                then let swept = filter (\<lambda>(_, v). \<not> now > e_expires v) m
                     in if length swept \<ge> keyCacheMax then [] else swept
                else m)
      in c\<lparr>kc_m := put h e m1\<rparr>)"

text \<open>A lookup, in the three steps between which other requests run.\<close>

definition lookup_hit :: "string \<Rightarrow> time \<Rightarrow> keyCache \<Rightarrow> Principal option option" where
  "lookup_hit h now c =
     (case kc_get h c of
        Some e \<Rightarrow> if now < e_expires e then Some (e_principal e) else None
      | None \<Rightarrow> None)"

definition lookup_query :: "api_key option \<Rightarrow> time \<Rightarrow> Principal option \<times> duration" where
  "lookup_query row now =
     (case row of
        None \<Rightarrow> (None, keyCacheNegTTL)
      | Some k \<Rightarrow> (Some (principal_of k now), keyCacheTTL))"

definition lookup_store :: "string \<Rightarrow> nat \<Rightarrow> Principal option \<times> duration \<Rightarrow> time \<Rightarrow> keyCache \<Rightarrow> keyCache" where
  "lookup_store h gen res now c =
     (if kc_gen c = gen
      then kc_store h \<lparr>e_principal = fst res, e_expires = now + snd res\<rparr> now c else c)"

definition lookup :: "string \<Rightarrow> api_key option \<Rightarrow> time \<Rightarrow> keyCache \<Rightarrow> keyCache \<times> Principal option" where
  \<comment> \<open>a lookup nobody interleaves with\<close>
  "lookup h row now c =
     (case lookup_hit h now c of
        Some p \<Rightarrow> (c, p)
      | None \<Rightarrow>
          let res = lookup_query row now in (lookup_store h (kc_gen c) res now c, fst res))"

definition touch :: "nat \<Rightarrow> int \<Rightarrow> (nat \<rightharpoonup> int) \<Rightarrow> (nat \<rightharpoonup> int) \<times> bool" where
  \<comment> \<open>\<open>now\<close> in Unix seconds; True when this caller claims the write of \<open>LastUsedAt\<close>. The
     load and the compare-and-swap are one step: a swap that fails because another caller
     claimed first gives the same result as running after it.\<close>
  "touch key now seen =
     (let prev = (case seen key of None \<Rightarrow> 0 | Some v \<Rightarrow> v)
      in if now - prev < minute div second then (seen(key \<mapsto> prev), False)
         else (seen(key \<mapsto> now), True))"

section \<open>The size bound\<close>

definition kc_wf :: "keyCache \<Rightarrow> bool" where
  "kc_wf c \<longleftrightarrow> distinct (map fst (kc_m c)) \<and> length (kc_m c) \<le> keyCacheMax"

lemma put_get: "map_of (put h e m) k = (if k = h then Some e else map_of m k)"
  by (induction m) (auto simp: put_def)

lemma put_distinct: "distinct (map fst m) \<Longrightarrow> distinct (map fst (put h e m))"
  by (induction m) (auto simp: put_def)

lemma put_length: "length (put h e m) \<le> Suc (length m)"
  by (simp add: put_def)

lemma distinct_filter_fst: "distinct (map fst m) \<Longrightarrow> distinct (map fst (filter P m))"
  by (induction m) auto

lemma kc_store_wf [inv_intros]:
  assumes "kc_wf c"
  shows "kc_wf (kc_store h e now c)"
proof -
  let ?swept = "filter (\<lambda>(_, v). \<not> now > e_expires v) (kc_m c)"
  let ?m1 = "if length (kc_m c) \<ge> keyCacheMax
     then if length ?swept \<ge> keyCacheMax then [] else ?swept else kc_m c"
  have "distinct (map fst ?m1)" "length ?m1 < keyCacheMax"
    using assms by (auto simp: kc_wf_def distinct_filter_fst keyCacheMax_def)
  moreover have "kc_m (kc_store h e now c) = put h e ?m1"
    by (simp add: kc_store_def Let_def)
  ultimately show ?thesis
    using put_length [of h e ?m1] put_distinct [of ?m1 h e] by (simp add: kc_wf_def)
qed

lemma invalidate_wf [inv_intros]: "kc_wf (invalidate c)"
  by (simp add: invalidate_def kc_wf_def)

lemma lookup_store_wf [inv_intros]: "kc_wf c \<Longrightarrow> kc_wf (lookup_store h gen res now c)"
  by (simp add: lookup_store_def inv_intros)

lemma kc_store_sub:
  "(k, v) \<in> set (kc_m (kc_store h e now c)) \<Longrightarrow> (k, v) = (h, e) \<or> (k, v) \<in> set (kc_m c)"
  by (auto simp: kc_store_def put_def Let_def split: if_splits)

lemma kc_store_get: "kc_get h (kc_store h e now c) = Some e"
  by (simp add: kc_store_def kc_get_def put_get Let_def)

text \<open>A lookup whose result is fresh in the cache does not query; otherwise it returns
  the principal of the row it read and the next lookup within the entry's life returns the
  same without a query: thirty seconds for a key that exists, five for one that does not.\<close>

lemma lookup_caches:
  assumes "lookup_hit h now c = None" and "now \<le> u"
    and "u < now + (if row = None then keyCacheNegTTL else keyCacheTTL)"
  shows "snd (lookup h row now c) = (case row of None \<Rightarrow> None | Some k \<Rightarrow> Some (principal_of k now)) \<and>
     lookup h other u (fst (lookup h row now c)) = (fst (lookup h row now c), snd (lookup h row now c))"
  using assms
  by (cases row)
    (simp_all add: lookup_def lookup_query_def lookup_store_def Let_def lookup_hit_def kc_store_get)

definition sample_key :: api_key where
  "sample_key = \<lparr>k_id = 3, k_name = ''ci'', k_enabled = True, k_tpm = 0, k_rpm = 60,
     k_expires = Some (500 * second), k_models = [], k_user = None\<rparr>"

lemma lookup_caches_witness:
  "lookup ''abc'' None (129 * second) (fst (lookup ''abc'' (Some sample_key) (100 * second) newKeyCache)) =
     (fst (lookup ''abc'' (Some sample_key) (100 * second) newKeyCache), Some (principal_of sample_key (100 * second)))"
  using lookup_caches [of "''abc''" "100 * second" newKeyCache "129 * second" "Some sample_key" None]
  by (auto simp: lookup_hit_def kc_get_def newKeyCache_def keyCacheTTL_def second_def prod_eq_iff)

section \<open>Lookups interleaved with changes of the key table\<close>

text \<open>
  Every change of the table by the API is followed by \<open>invalidate\<close>. Versions count the
  changes; \<open>content v\<close> is the table at version \<open>v\<close>. A running lookup has read the
  generation (\<open>Asked\<close>) or also the row (\<open>Got\<close>, with the version it read).
\<close>

datatype lookup_pc = Asked nat | Got nat nat "Principal option \<times> duration"

record key_sys =
  ks_cache :: keyCache
  ks_version :: nat
  ks_flushed :: nat
  ks_read :: "string \<Rightarrow> nat"
  ks_runs :: "(string \<times> lookup_pc) list"

definition key_init :: key_sys where
  "key_init = \<lparr>ks_cache = newKeyCache, ks_version = 0, ks_flushed = 0, ks_read = (\<lambda>_. 0), ks_runs = []\<rparr>"

inductive key_step :: "(nat \<Rightarrow> string \<rightharpoonup> api_key) \<Rightarrow> key_sys \<Rightarrow> key_sys \<Rightarrow> bool" for content where
  change: "key_step content y (y\<lparr>ks_version := ks_version y + 1\<rparr>)"
| flush: "key_step content y (y\<lparr>ks_cache := invalidate (ks_cache y), ks_flushed := ks_version y\<rparr>)"
| ask: "lookup_hit h now (ks_cache y) = None \<Longrightarrow>
     key_step content y (y\<lparr>ks_runs := (h, Asked (kc_gen (ks_cache y))) # ks_runs y\<rparr>)"
| query: "(h, Asked gen) \<in> set (ks_runs y) \<Longrightarrow>
     key_step content y (y\<lparr>ks_runs := (h, Got gen (ks_version y) (lookup_query (content (ks_version y) h) now))
        # remove1 (h, Asked gen) (ks_runs y)\<rparr>)"
| store: "(h, Got gen v res) \<in> set (ks_runs y) \<Longrightarrow>
     key_step content y (y\<lparr>ks_cache := lookup_store h gen res now (ks_cache y),
        ks_read := (if kc_gen (ks_cache y) = gen then (ks_read y)(h := v) else ks_read y),
        ks_runs := remove1 (h, Got gen v res) (ks_runs y)\<rparr>)"

inductive key_reachable :: "(nat \<Rightarrow> string \<rightharpoonup> api_key) \<Rightarrow> key_sys \<Rightarrow> bool" for content where
  key_start: "key_reachable content key_init"
| key_next: "key_reachable content y \<Longrightarrow> key_step content y y' \<Longrightarrow> key_reachable content y'"

definition answer_of :: "(nat \<Rightarrow> string \<rightharpoonup> api_key) \<Rightarrow> nat \<Rightarrow> string \<Rightarrow> Principal option \<Rightarrow> bool" where
  \<comment> \<open>what some query of version \<open>v\<close> answers\<close>
  "answer_of content v h p \<longleftrightarrow> (\<exists>now. p = map_option (\<lambda>k. principal_of k now) (content v h))"

definition key_inv :: "(nat \<Rightarrow> string \<rightharpoonup> api_key) \<Rightarrow> key_sys \<Rightarrow> bool" where
  "key_inv content y \<longleftrightarrow>
     kc_wf (ks_cache y) \<and> ks_flushed y \<le> ks_version y \<and>
     (\<forall>h e. (h, e) \<in> set (kc_m (ks_cache y)) \<longrightarrow>
        ks_flushed y \<le> ks_read y h \<and> ks_read y h \<le> ks_version y \<and>
        answer_of content (ks_read y h) h (e_principal e)) \<and>
     (\<forall>h gen. (h, Asked gen) \<in> set (ks_runs y) \<longrightarrow> gen \<le> kc_gen (ks_cache y)) \<and>
     (\<forall>h gen v res. (h, Got gen v res) \<in> set (ks_runs y) \<longrightarrow>
        gen \<le> kc_gen (ks_cache y) \<and> v \<le> ks_version y \<and> answer_of content v h (fst res) \<and>
        (gen = kc_gen (ks_cache y) \<longrightarrow> ks_flushed y \<le> v))"

lemma key_inv_init: "key_inv content key_init"
  by (simp add: key_inv_def key_init_def newKeyCache_def kc_wf_def)

lemma lookup_query_answer: "answer_of content v h (fst (lookup_query (content v h) now))"
  by (auto simp: answer_of_def lookup_query_def split: option.splits)

lemma answer_of_changed: "answer_of content v h p \<Longrightarrow> v \<le> w \<Longrightarrow> v \<le> w + 1"
  by simp

lemma key_inv_query:
  assumes inv: "key_inv content y" and run: "(h, Asked gen) \<in> set (ks_runs y)"
  shows "key_inv content (y\<lparr>ks_runs := (h, Got gen (ks_version y) (lookup_query (content (ks_version y) h) now))
        # remove1 (h, Asked gen) (ks_runs y)\<rparr>)"
proof -
  have "gen \<le> kc_gen (ks_cache y)" using inv run unfolding key_inv_def by blast
  then show ?thesis
    using inv set_remove1_subset [of "(h, Asked gen)" "ks_runs y"] lookup_query_answer [of content "ks_version y" h now]
    unfolding key_inv_def by (auto simp del: fun_upd_apply)
qed

lemma key_inv_store:
  assumes inv: "key_inv content y" and run: "(h, Got gen v res) \<in> set (ks_runs y)"
  shows "key_inv content (y\<lparr>ks_cache := lookup_store h gen res now (ks_cache y),
        ks_read := (if kc_gen (ks_cache y) = gen then (ks_read y)(h := v) else ks_read y),
        ks_runs := remove1 (h, Got gen v res) (ks_runs y)\<rparr>)"
proof -
  let ?c = "lookup_store h gen res now (ks_cache y)"
  let ?r = "if kc_gen (ks_cache y) = gen then (ks_read y)(h := v) else ks_read y"
  have g: "v \<le> ks_version y" "answer_of content v h (fst res)"
    "gen = kc_gen (ks_cache y) \<longrightarrow> ks_flushed y \<le> v"
    using inv run unfolding key_inv_def by blast+
  have old: "\<And>k e. (k, e) \<in> set (kc_m (ks_cache y)) \<Longrightarrow>
      ks_flushed y \<le> ks_read y k \<and> ks_read y k \<le> ks_version y \<and> answer_of content (ks_read y k) k (e_principal e)"
    using inv unfolding key_inv_def by blast
  have gen: "kc_gen ?c = kc_gen (ks_cache y)"
    by (simp add: lookup_store_def kc_store_def Let_def)
  have new: "ks_flushed y \<le> ?r k \<and> ?r k \<le> ks_version y \<and> answer_of content (?r k) k (e_principal e)"
    if mem: "(k, e) \<in> set (kc_m ?c)" for k e
  proof (cases "kc_gen (ks_cache y) = gen \<and> k = h")
    case True
    have "kc_m ?c = put h \<lparr>e_principal = fst res, e_expires = now + snd res\<rparr> m" if
      "m = (if length (kc_m (ks_cache y)) \<ge> keyCacheMax
         then let swept = filter (\<lambda>(_, v). \<not> now > e_expires v) (kc_m (ks_cache y))
              in if length swept \<ge> keyCacheMax then [] else swept
         else kc_m (ks_cache y))" for m
      using True that by (simp add: lookup_store_def kc_store_def)
    then have "e = \<lparr>e_principal = fst res, e_expires = now + snd res\<rparr>"
      using mem True by (auto simp: put_def)
    with True g show ?thesis by simp
  next
    case False
    have "(k, e) \<in> set (kc_m (ks_cache y))"
      using mem False kc_store_sub [of k e h] by (auto simp: lookup_store_def split: if_splits)
    from old [OF this] False show ?thesis by auto
  qed
  have sub: "set (remove1 (h, Got gen v res) (ks_runs y)) \<subseteq> set (ks_runs y)"
    by (rule set_remove1_subset)
  have wf: "kc_wf ?c" using inv by (simp add: key_inv_def inv_intros)
  have runs: "\<And>k g. (k, Asked g) \<in> set (ks_runs y) \<Longrightarrow> g \<le> kc_gen (ks_cache y)"
    "\<And>k g w r. (k, Got g w r) \<in> set (ks_runs y) \<Longrightarrow> g \<le> kc_gen (ks_cache y) \<and> w \<le> ks_version y \<and>
       answer_of content w k (fst r) \<and> (g = kc_gen (ks_cache y) \<longrightarrow> ks_flushed y \<le> w)"
    "ks_flushed y \<le> ks_version y"
    using inv unfolding key_inv_def by blast+
  let ?y = "y\<lparr>ks_cache := ?c, ks_read := ?r, ks_runs := remove1 (h, Got gen v res) (ks_runs y)\<rparr>"
  have flds: "ks_cache ?y = ?c" "ks_read ?y = ?r" "ks_runs ?y = remove1 (h, Got gen v res) (ks_runs y)"
    "ks_version ?y = ks_version y" "ks_flushed ?y = ks_flushed y"
    by simp_all
  show ?thesis
    unfolding key_inv_def flds gen using wf new runs sub by (intro conjI allI impI) blast+
qed

lemma key_inv_step: "key_step content y y' \<Longrightarrow> key_inv content y \<Longrightarrow> key_inv content y'"
proof (induction rule: key_step.induct)
  case (change y)
  then show ?case by (force simp: key_inv_def le_Suc_eq)
next
  case (flush y)
  have flds: "kc_m (invalidate (ks_cache y)) = []" "kc_gen (invalidate (ks_cache y)) = kc_gen (ks_cache y) + 1"
    by (simp_all add: invalidate_def)
  have runs: "\<And>k g. (k, Asked g) \<in> set (ks_runs y) \<Longrightarrow> g \<le> kc_gen (ks_cache y)"
    "\<And>k g w r. (k, Got g w r) \<in> set (ks_runs y) \<Longrightarrow>
       g \<le> kc_gen (ks_cache y) \<and> w \<le> ks_version y \<and> answer_of content w k (fst r)"
    using flush unfolding key_inv_def by blast+
  show ?case
    unfolding key_inv_def by (auto simp: flds invalidate_wf dest!: runs)
next
  case (ask h now y)
  then show ?case by (auto simp: key_inv_def)
next
  case (query h gen y now)
  then show ?case by (simp add: key_inv_query)
next
  case (store h gen v res y now)
  then show ?case by (rule key_inv_store [rotated])
qed

lemma key_reachable_inv: "key_reachable content y \<Longrightarrow> key_inv content y"
  by (induction rule: key_reachable.induct) (blast intro: key_inv_init key_inv_step)+

text \<open>Property C10: no interleaving of lookups, changes of the key table and invalidations leaves an
  answer in the cache that was read before the last invalidation: once the last change has
  been invalidated, every cached principal is what the current table says, even when slow
  lookups that started earlier finish later. The cache never exceeds its bound.\<close>

theorem cache_never_stale:
  assumes "key_reachable content y" and "ks_flushed y = ks_version y" and "kc_get h (ks_cache y) = Some e"
  shows "answer_of content (ks_version y) h (e_principal e) \<and> kc_size (ks_cache y) \<le> keyCacheMax"
proof -
  have inv: "key_inv content y" using assms(1) by (rule key_reachable_inv)
  have "(h, e) \<in> set (kc_m (ks_cache y))" using assms(3) by (simp add: kc_get_def map_of_SomeD)
  then show ?thesis
    using inv assms(2) unfolding key_inv_def kc_size_def kc_wf_def by force
qed

text \<open>A lookup that starts before a key is disabled and ends after the cache was invalidated.\<close>

definition sample_table :: "nat \<Rightarrow> string \<rightharpoonup> api_key" where
  "sample_table v = [''abc'' \<mapsto> sample_key\<lparr>k_enabled := (v = 0)\<rparr>]"

definition stale_run :: key_sys where
  "stale_run =
     (let y1 = key_init\<lparr>ks_runs := [(''abc'', Asked 0)]\<rparr>;
          res = lookup_query (sample_table 0 ''abc'') (10 * second);
          y2 = y1\<lparr>ks_runs := [(''abc'', Got 0 0 res)]\<rparr>;
          y3 = y2\<lparr>ks_version := 1\<rparr>;
          y4 = y3\<lparr>ks_cache := invalidate (ks_cache y3), ks_flushed := 1\<rparr>;
          y5 = y4\<lparr>ks_cache := lookup_store ''abc'' 0 res (10 * second) (ks_cache y4), ks_runs := []\<rparr>;
          y6 = y5\<lparr>ks_runs := [(''abc'', Asked 1)]\<rparr>;
          res' = lookup_query (sample_table 1 ''abc'') (11 * second);
          y7 = y6\<lparr>ks_runs := [(''abc'', Got 1 1 res')]\<rparr>
      in y7\<lparr>ks_cache := lookup_store ''abc'' 1 res' (11 * second) (ks_cache y7),
            ks_read := (ks_read y7)(''abc'' := 1), ks_runs := []\<rparr>)"

lemmas key_eval =
  key_init_def newKeyCache_def lookup_hit_def kc_get_def invalidate_def lookup_store_def
  kc_store_def put_def keyCacheMax_def Let_def

lemma stale_run_reachable: "key_reachable sample_table stale_run"
proof -
  define res where "res = lookup_query (sample_table 0 ''abc'') (10 * second)"
  define res' where "res' = lookup_query (sample_table 1 ''abc'') (11 * second)"
  define y1 where "y1 = key_init\<lparr>ks_runs := [(''abc'', Asked 0)]\<rparr>"
  define y2 where "y2 = y1\<lparr>ks_runs := [(''abc'', Got 0 0 res)]\<rparr>"
  define y3 where "y3 = y2\<lparr>ks_version := 1\<rparr>"
  define y4 where "y4 = y3\<lparr>ks_cache := invalidate (ks_cache y3), ks_flushed := 1\<rparr>"
  define y5 where "y5 = y4\<lparr>ks_cache := lookup_store ''abc'' 0 res (10 * second) (ks_cache y4), ks_runs := []\<rparr>"
  define y6 where "y6 = y5\<lparr>ks_runs := [(''abc'', Asked 1)]\<rparr>"
  define y7 where "y7 = y6\<lparr>ks_runs := [(''abc'', Got 1 1 res')]\<rparr>"
  define y8 where "y8 = y7\<lparr>ks_cache := lookup_store ''abc'' 1 res' (11 * second) (ks_cache y7),
            ks_read := (ks_read y7)(''abc'' := 1), ks_runs := []\<rparr>"
  note ys = y1_def y2_def y3_def y4_def y5_def y6_def y7_def y8_def
  have "key_step sample_table key_init y1"
    using ask [of "''abc''" 0 key_init sample_table] by (simp add: ys key_eval)
  moreover have "key_step sample_table y1 y2"
    using query [of "''abc''" 0 y1 sample_table "10 * second"] by (simp add: ys key_eval res_def)
  moreover have "key_step sample_table y2 y3"
    using change [of sample_table y2] by (simp add: ys key_eval)
  moreover have "key_step sample_table y3 y4"
    using flush [of sample_table y3] by (simp add: ys key_eval)
  moreover have "key_step sample_table y4 y5"
    using store [of "''abc''" 0 0 res y4 sample_table "10 * second"] by (simp add: ys key_eval)
  moreover have "key_step sample_table y5 y6"
    using ask [of "''abc''" 0 y5 sample_table] by (simp add: ys key_eval)
  moreover have "key_step sample_table y6 y7"
    using query [of "''abc''" 1 y6 sample_table "11 * second"] by (simp add: ys key_eval res'_def)
  moreover have "key_step sample_table y7 y8"
    using store [of "''abc''" 1 1 res' y7 sample_table "11 * second"] by (simp add: ys key_eval)
  moreover have "stale_run = y8"
    by (simp add: stale_run_def ys res_def res'_def Let_def)
  ultimately show ?thesis by (metis key_start key_next)
qed

lemma cache_never_stale_witness:
  "\<exists>e. kc_get ''abc'' (ks_cache stale_run) = Some e \<and>
     answer_of sample_table 1 ''abc'' (e_principal e) \<and> kc_size (ks_cache stale_run) \<le> keyCacheMax"
proof -
  have v: "ks_flushed stale_run = ks_version stale_run" "ks_version stale_run = 1"
    by (simp_all add: stale_run_def Let_def)
  have "kc_get ''abc'' (ks_cache stale_run) \<noteq> None"
    by (simp add: stale_run_def key_eval)
  then obtain e where e: "kc_get ''abc'' (ks_cache stale_run) = Some e" by blast
  show ?thesis using cache_never_stale [OF stale_run_reachable v(1) e] e v(2) by auto
qed

end
