(* ===== verification/Snapshot.thy ===== *)
theory Snapshot
  imports Gateway_Errors "HOL-Library.Char_ord" "HOL-Library.List_Lexorder"
begin

text \<open>
  \<open>internal/gateway/snapshot.go\<close>: the immutable routing configuration built from the
  database and the resolution of client model names. Parameters: the query results, the
  decryption of the stored keys (\<open>None\<close> when it fails), the authentication header of a
  provider (the catalogue), Unicode lower-casing, and the orders in which Go happens to
  iterate over the maps.
\<close>

section \<open>Rows of the database\<close>

record model_mapping =
  mm_request :: string
  mm_upstream :: string

record account =
  a_id :: nat
  a_name :: string
  a_provider :: string
  a_type :: api_type
  a_base_url :: string
  a_key_enc :: string
  a_protocols :: "proto list"
  a_mappings :: "model_mapping list"
  a_priority :: int
  a_weight :: int
  a_max_concurrency :: int
  a_passthrough :: bool
  a_endpoints :: "string list"
  a_enabled :: bool

record model_group =
  mg_id :: nat
  mg_name :: string
  mg_type :: api_type
  mg_models :: "string list"

record user_group =
  ug_id :: nat
  ug_name :: string
  ug_enabled :: bool
  ug_max_concurrency :: int
  ug_key_max_concurrency :: int
  ug_token_quota :: int
  ug_tpm :: int
  ug_rpm :: int
  ug_default :: bool
  ug_model_groups :: "model_group list"

section \<open>The snapshot\<close>

record Upstream =
  up_id :: nat
  up_name :: string
  up_provider :: string
  up_type :: api_type
  up_base_url :: string
  up_key :: string
  up_auth :: string
  up_protocols :: "proto list"
  up_mappings :: "string \<rightharpoonup> string"
  up_priority :: int
  up_weight :: int
  up_max_concurrency :: int
  up_passthrough :: bool
  up_endpoints :: "string list"

definition HasProtocol :: "Upstream \<Rightarrow> proto \<Rightarrow> bool" where
  "HasProtocol u p \<longleftrightarrow> p \<in> set (up_protocols u)"

datatype model_kind = KindModel | KindVirtual | KindGroup

record ModelInfo =
  mi_name :: string
  mi_type :: api_type
  mi_kind :: model_kind
  mi_provider :: string
  mi_accounts :: nat
  mi_models :: "string list"

record GroupView =
  gv_id :: nat
  gv_name :: string
  gv_enabled :: bool
  gv_max_concurrency :: int
  gv_key_max_concurrency :: int
  gv_quota :: int
  gv_tpm :: int
  gv_rpm :: int
  gv_allowed :: "string list option" \<comment> \<open>None: all models\<close>
  gv_group_names :: "string list option"

record Snapshot =
  sn_accounts :: "nat \<rightharpoonup> Upstream"
  byModel :: "string \<rightharpoonup> Upstream list"
  sn_models :: "ModelInfo list"
  modelType :: "string \<rightharpoonup> api_type"
  lowerName :: "string \<rightharpoonup> string"
  lowerDup :: "string \<Rightarrow> bool"
  passthrough :: "api_type \<Rightarrow> Upstream list"
  sn_endpoints :: "string list"
  sn_groups :: "nat \<rightharpoonup> GroupView"
  DefaultGroup :: "GroupView option"
  ModelGroups :: "nat \<rightharpoonup> model_group"
  groupByName :: "string \<rightharpoonup> model_group"
  VirtualModel :: string
  sn_built :: time

definition UpstreamsFor :: "Snapshot \<Rightarrow> string \<Rightarrow> Upstream list" where
  "UpstreamsFor s m = (case byModel s m of None \<Rightarrow> [] | Some us \<Rightarrow> us)"

definition PassthroughFor :: "Snapshot \<Rightarrow> api_type \<Rightarrow> Upstream list" where
  "PassthroughFor s t = passthrough s t"

definition HasEndpoint :: "Snapshot \<Rightarrow> string \<Rightarrow> bool" where
  "HasEndpoint s p \<longleftrightarrow> p \<in> set (sn_endpoints s)"

definition EndpointsFor :: "Snapshot \<Rightarrow> string \<Rightarrow> string list" where
  "EndpointsFor s m = sort (remdups (concat (map up_endpoints (UpstreamsFor s m))))"

definition ModelType :: "Snapshot \<Rightarrow> string \<Rightarrow> api_type option" where
  "ModelType s m = modelType s m"

fun ModelGroupNameFor :: "GroupView option \<Rightarrow> string \<Rightarrow> model_group list \<Rightarrow> string" where
  \<comment> \<open>the model groups in the order of the iteration\<close>
  "ModelGroupNameFor g m [] = ''''"
| "ModelGroupNameFor g m (mg # mgs) =
     (if (case g of None \<Rightarrow> False
          | Some gv \<Rightarrow> (case gv_group_names gv of None \<Rightarrow> False | Some ns \<Rightarrow> mg_name mg \<notin> set ns))
      then ModelGroupNameFor g m mgs
      else if m \<in> set (mg_models mg) then mg_name mg
      else ModelGroupNameFor g m mgs)"

section \<open>Resolving a client's model name\<close>

definition vendorPrefixes :: "string list" where
  "vendorPrefixes = [''anthropic/'', ''openai/'', ''deepseek/'', ''google/'', ''models/'', ''x-ai/'',
     ''xai/'', ''moonshotai/'', ''moonshot/'', ''zhipu/'', ''z-ai/'', ''minimax/'', ''qwen/'',
     ''alibaba/'', ''meta-llama/'', ''mistralai/'']"

definition digit :: "char \<Rightarrow> bool" where
  "digit c \<longleftrightarrow> CHR ''0'' \<le> c \<and> c \<le> CHR ''9''"

definition versionLike :: "string \<Rightarrow> bool" where
  "versionLike rest =
     (if rest = [] then False
      else if rest = ''latest'' then True
      else if \<exists>r\<in>set rest. \<not> digit r \<and> r \<noteq> CHR ''-'' \<and> r \<noteq> CHR ''.'' then False
      else digit (hd rest))"

datatype resolution =
    ResolveFound string "api_type option"
  | ResolveUnknown
  | ResolveAmbiguous

definition try_name :: "(string \<Rightarrow> string) \<Rightarrow> Snapshot \<Rightarrow> string \<Rightarrow> bool \<Rightarrow>
     (string \<times> api_type option) option \<times> bool" where
  \<comment> \<open>the closure \<open>try\<close>; the flag is the captured \<open>ambiguous\<close>\<close>
  "try_name lower s n amb =
     (case modelType s n of
        Some t \<Rightarrow> (Some (n, Some t), amb)
      | None \<Rightarrow>
          let l = lower n
          in if lowerDup s l then (None, True)
             else case lowerName s l of
                    Some c \<Rightarrow> (Some (c, modelType s c), amb)
                  | None \<Rightarrow> (None, amb))"

definition strip_vendor :: "(string \<Rightarrow> string) \<Rightarrow> string \<Rightarrow> string" where
  "strip_vendor lower name =
     (let n = (case find (\<lambda>p. has_prefix (lower name) p) vendorPrefixes of
                 Some p \<Rightarrow> drop (length p) name | None \<Rightarrow> name)
      in case last_index (CHR ''/'') n of
           Some i \<Rightarrow> if Suc i < length n then drop (Suc i) n else n
         | None \<Rightarrow> n)"

definition version_rest :: "string \<Rightarrow> string \<Rightarrow> string option" where
  \<comment> \<open>the extra segment by which a request and a configured name differ\<close>
  "version_rest ln l =
     (if has_prefix ln (l @ ''-'') then Some (drop (length l + 1) ln)
      else if has_prefix l (ln @ ''-'') then Some (drop (length ln + 1) l)
      else None)"

definition version_match :: "Snapshot \<Rightarrow> api_type option \<Rightarrow> string \<Rightarrow> string \<Rightarrow> bool" where
  \<comment> \<open>the conditions under which the loop does not skip the name \<open>l\<close>\<close>
  "version_match s want ln l =
     (case lowerName s l of
        None \<Rightarrow> False
      | Some c \<Rightarrow>
          (want = None \<or> modelType s c = want) \<and>
          (case version_rest ln l of None \<Rightarrow> False | Some rest \<Rightarrow> versionLike rest))"

fun best_matches :: "Snapshot \<Rightarrow> api_type option \<Rightarrow> string \<Rightarrow> string list \<Rightarrow> string list \<times> int \<Rightarrow>
     string list \<times> int" where
  \<comment> \<open>the loop over \<open>s.lowerName\<close>: the longest matching names so far and their length\<close>
  "best_matches s want ln [] st = st"
| "best_matches s want ln (l # ls) (ms, best) =
     best_matches s want ln ls
       (if \<not> version_match s want ln l then (ms, best)
        else if int (length l) > best then ([l], int (length l))
        else if int (length l) = best then (ms @ [l], best)
        else (ms, best))"

definition all_types :: "api_type list" where
  "all_types = [TypeText, TypeEmbedding, TypeImage, TypeCustom]"

definition try_latest :: "(string \<Rightarrow> string) \<Rightarrow> Snapshot \<Rightarrow> string \<Rightarrow> bool \<Rightarrow>
     (string \<times> api_type option) option \<times> bool" where
  "try_latest lower s n amb =
     (if has_suffix (lower n) ''-latest'' then try_name lower s (take (length n - 7) n) amb
      else (None, amb))"

definition resolve_rest :: "(string \<Rightarrow> string) \<Rightarrow> string list \<Rightarrow> Snapshot \<Rightarrow> string \<Rightarrow> string \<Rightarrow>
     api_type option \<Rightarrow> bool \<Rightarrow> resolution" where
  \<comment> \<open>from the version-suffix tolerance on\<close>
  "resolve_rest lower keys s name n want amb =
     (let ms = fst (best_matches s want (lower n) keys ([], -1))
      in if length ms = 1 \<and> \<not> lowerDup s (hd ms) \<and> \<not> amb
         then case lowerName s (hd ms) of
                Some c \<Rightarrow> ResolveFound c (modelType s c) | None \<Rightarrow> ResolveUnknown
         else if ms \<noteq> [] \<or> amb then ResolveAmbiguous
         else case find (\<lambda>t. passthrough s t \<noteq> []) (case want of Some t \<Rightarrow> [t] | None \<Rightarrow> all_types) of
                Some t \<Rightarrow> ResolveFound name (Some t)
              | None \<Rightarrow> ResolveUnknown)"

definition ResolveDetail :: "(string \<Rightarrow> string) \<Rightarrow> string list \<Rightarrow> Snapshot \<Rightarrow> string \<Rightarrow>
     api_type option \<Rightarrow> resolution" where
  \<comment> \<open>\<open>keys\<close> is the order of the iteration over \<open>s.lowerName\<close>; \<open>want = None\<close> is the
     empty string\<close>
  "ResolveDetail lower keys s name want =
     (case try_name lower s name False of
        (Some (c, t), _) \<Rightarrow> ResolveFound c t
      | (None, a1) \<Rightarrow>
          let n = strip_vendor lower name
          in case try_name lower s n a1 of
               (Some (c, t), _) \<Rightarrow> ResolveFound c t
             | (None, a2) \<Rightarrow>
                 (case try_latest lower s n a2 of
                    (Some (c, t), _) \<Rightarrow> ResolveFound c t
                  | (None, a3) \<Rightarrow> resolve_rest lower keys s name n want a3))"

definition Resolve :: "(string \<Rightarrow> string) \<Rightarrow> string list \<Rightarrow> Snapshot \<Rightarrow> string \<Rightarrow>
     api_type option \<Rightarrow> (string \<times> api_type option) option" where
  "Resolve lower keys s name want =
     (case ResolveDetail lower keys s name want of ResolveFound c t \<Rightarrow> Some (c, t) | _ \<Rightarrow> None)"

section \<open>Building the snapshot\<close>

record scan =
  \<comment> \<open>what the loop over the accounts accumulates\<close>
  sc_accounts :: "nat \<rightharpoonup> Upstream"
  sc_by_model :: "string \<rightharpoonup> Upstream list"
  sc_type :: "string \<rightharpoonup> api_type"
  sc_providers :: "string \<Rightarrow> string list"
  sc_passthrough :: "api_type \<Rightarrow> Upstream list"
  sc_endpoints :: "string list"

definition scan_init :: scan where
  "scan_init = \<lparr>sc_accounts = Map.empty, sc_by_model = Map.empty, sc_type = Map.empty,
     sc_providers = (\<lambda>_. []), sc_passthrough = (\<lambda>_. []), sc_endpoints = []\<rparr>"

definition upstream_of :: "(string \<Rightarrow> string option) \<Rightarrow> (string \<Rightarrow> string) \<Rightarrow> account \<Rightarrow> Upstream" where
  "upstream_of decrypt auth_header a =
     \<lparr>up_id = a_id a, up_name = a_name a, up_provider = a_provider a, up_type = a_type a,
      up_base_url = trim_right_set [CHR ''/''] (a_base_url a),
      up_key = (case decrypt (a_key_enc a) of Some k \<Rightarrow> k | None \<Rightarrow> ''''),
      up_auth = (let h = auth_header (a_provider a) in if h = '''' then ''bearer'' else h),
      up_protocols = remdups (a_protocols a),
      up_mappings = map_of (rev (map (\<lambda>m. (mm_request m, mm_upstream m)) (a_mappings a))),
      up_priority = a_priority a, up_weight = max (a_weight a) 1,
      up_max_concurrency = a_max_concurrency a, up_passthrough = a_passthrough a,
      up_endpoints = (if a_type a = TypeCustom then remdups (a_endpoints a) else [])\<rparr>"

fun scan_mappings :: "Upstream \<Rightarrow> account \<Rightarrow> model_mapping list \<Rightarrow> scan \<Rightarrow> scan" where
  "scan_mappings u a [] sc = sc"
| "scan_mappings u a (m # ms) sc =
     (let r = mm_request m
      in scan_mappings u a ms
           (sc\<lparr>sc_by_model := (sc_by_model sc)(r \<mapsto>
                 (case sc_by_model sc r of None \<Rightarrow> [] | Some us \<Rightarrow> us) @ [u]),
               sc_type := (sc_type sc)(r \<mapsto> a_type a),
               sc_providers := (sc_providers sc)(r := List.insert (a_provider a) (sc_providers sc r))\<rparr>))"

definition scan_account :: "(string \<Rightarrow> string option) \<Rightarrow> (string \<Rightarrow> string) \<Rightarrow> account \<Rightarrow> scan \<Rightarrow> scan" where
  "scan_account decrypt auth_header a sc =
     (let u = upstream_of decrypt auth_header a;
          sc1 = (if a_passthrough a
                 then sc\<lparr>sc_passthrough := (sc_passthrough sc)(a_type a := sc_passthrough sc (a_type a) @ [u])\<rparr>
                 else sc);
          sc2 = sc1\<lparr>sc_endpoints := sc_endpoints sc1 @ up_endpoints u\<rparr>;
          sc3 = scan_mappings u a (a_mappings a) sc2
      in sc3\<lparr>sc_accounts := (sc_accounts sc3)(a_id a \<mapsto> u)\<rparr>)"

fun index_names :: "(string \<Rightarrow> string) \<Rightarrow> string list \<Rightarrow> (string \<rightharpoonup> string) \<times> (string \<Rightarrow> bool) \<Rightarrow>
     (string \<rightharpoonup> string) \<times> (string \<Rightarrow> bool)" where
  \<comment> \<open>the loop over \<open>snap.byModel\<close>, in the order of the list\<close>
  "index_names lower [] st = st"
| "index_names lower (m # ms) (names, dup) =
     index_names lower ms
       (names(lower m \<mapsto> m),
        if names (lower m) \<noteq> None \<and> names (lower m) \<noteq> Some m then dup(lower m := True) else dup)"

definition by_priority :: "Upstream list \<Rightarrow> Upstream list" where
  \<comment> \<open>\<open>sort.SliceStable\<close>\<close>
  "by_priority = sort_key up_priority"

definition model_info :: "scan \<Rightarrow> string \<Rightarrow> ModelInfo" where
  "model_info sc m =
     \<lparr>mi_name = m, mi_type = the (sc_type sc m), mi_kind = KindModel,
      mi_provider = (case sc_providers sc m of [p] \<Rightarrow> p | _ \<Rightarrow> ''''),
      mi_accounts = (case sc_by_model sc m of None \<Rightarrow> 0 | Some us \<Rightarrow> length us), mi_models = []\<rparr>"

definition add_virtual :: "bool \<Rightarrow> string \<Rightarrow> Snapshot \<Rightarrow> Snapshot" where
  "add_virtual enabled vm s =
     (if enabled \<and> vm \<noteq> ''''
      then s\<lparr>sn_models := \<lparr>mi_name = vm, mi_type = TypeText, mi_kind = KindVirtual, mi_provider = '''',
                         mi_accounts = 0, mi_models = []\<rparr> # sn_models s,
             modelType := (modelType s)(vm \<mapsto> TypeText), VirtualModel := vm\<rparr>
      else s)"

definition add_model_group :: "model_group \<Rightarrow> Snapshot \<Rightarrow> Snapshot" where
  "add_model_group mg s =
     (let s1 = s\<lparr>ModelGroups := (ModelGroups s)(mg_id mg \<mapsto> mg)\<rparr>
      in if modelType s (mg_name mg) = None
         then s1\<lparr>groupByName := (groupByName s)(mg_name mg \<mapsto> mg),
                 modelType := (modelType s)(mg_name mg \<mapsto> mg_type mg),
                 sn_models := sn_models s @
                   [\<lparr>mi_name = mg_name mg, mi_type = mg_type mg, mi_kind = KindGroup, mi_provider = '''',
                     mi_accounts = 0, mi_models = mg_models mg\<rparr>]\<rparr>
         else s1)"

definition group_view :: "user_group \<Rightarrow> GroupView" where
  "group_view g =
     \<lparr>gv_id = ug_id g, gv_name = ug_name g, gv_enabled = ug_enabled g,
      gv_max_concurrency = ug_max_concurrency g, gv_key_max_concurrency = ug_key_max_concurrency g,
      gv_quota = ug_token_quota g, gv_tpm = ug_tpm g, gv_rpm = ug_rpm g,
      gv_allowed = (if ug_model_groups g = [] then None
                    else Some (concat (map mg_models (ug_model_groups g)))),
      gv_group_names = (if ug_model_groups g = [] then None
                        else Some (map mg_name (ug_model_groups g)))\<rparr>"

definition add_user_group :: "user_group \<Rightarrow> Snapshot \<Rightarrow> Snapshot" where
  "add_user_group g s =
     (let s1 = s\<lparr>sn_groups := (sn_groups s)(ug_id g \<mapsto> group_view g)\<rparr>
      in if ug_default g then s1\<lparr>DefaultGroup := Some (group_view g)\<rparr> else s1)"

definition scan_accounts :: "(string \<Rightarrow> string option) \<Rightarrow> (string \<Rightarrow> string) \<Rightarrow> account list \<Rightarrow> scan" where
  "scan_accounts decrypt auth_header accts =
     fold (scan_account decrypt auth_header) (filter a_enabled accts) scan_init"

definition base_snapshot :: "(string \<Rightarrow> string) \<Rightarrow> string list \<Rightarrow> time \<Rightarrow> scan \<Rightarrow> Snapshot" where
  \<comment> \<open>the part computed from the accounts; \<open>order\<close>: the iteration over \<open>snap.byModel\<close>\<close>
  "base_snapshot lower order now sc =
     (let (names, dup) = index_names lower order (Map.empty, \<lambda>_. False)
      in \<lparr>sn_accounts = sc_accounts sc,
          byModel = (\<lambda>m. map_option by_priority (sc_by_model sc m)),
          sn_models = map (model_info sc) (sort order),
          modelType = sc_type sc, lowerName = names, lowerDup = dup,
          passthrough = (\<lambda>t. by_priority (sc_passthrough sc t)),
          sn_endpoints = sc_endpoints sc, sn_groups = Map.empty, DefaultGroup = None,
          ModelGroups = Map.empty, groupByName = Map.empty, VirtualModel = '''', sn_built = now\<rparr>)"

definition build :: "(string \<Rightarrow> string) \<Rightarrow> string list \<Rightarrow> time \<Rightarrow> bool \<Rightarrow> string \<Rightarrow> scan \<Rightarrow>
     model_group list \<Rightarrow> user_group list \<Rightarrow> Snapshot" where
  "build lower order now enabled vm sc mgs ugs =
     fold add_user_group ugs
       (fold add_model_group mgs (add_virtual enabled vm (base_snapshot lower order now sc)))"

definition rebuild :: "(string \<Rightarrow> string) \<Rightarrow> (string \<Rightarrow> string option) \<Rightarrow> (string \<Rightarrow> string) \<Rightarrow> string list \<Rightarrow>
     time \<Rightarrow> bool \<Rightarrow> string \<Rightarrow> account list option \<Rightarrow> model_group list option \<Rightarrow>
     user_group list option \<Rightarrow> Snapshot option \<Rightarrow> Snapshot option \<times> bool" where
  \<comment> \<open>the stored snapshot and whether the rebuild succeeded; None: the query failed\<close>
  "rebuild lower decrypt auth_header order now enabled vm accts mgs ugs cur =
     (case accts of None \<Rightarrow> (cur, False)
      | Some as \<Rightarrow>
          let sc = scan_accounts decrypt auth_header as
          in case mgs of None \<Rightarrow> (cur, False)
             | Some ms \<Rightarrow>
                 (case ugs of None \<Rightarrow> (cur, False)
                  | Some us \<Rightarrow> (Some (build lower order now enabled vm sc ms us), True)))"

section \<open>What the snapshot contains\<close>

text \<open>The accounts in the order of the query, each as often as it maps the model.\<close>

definition serving :: "(string \<Rightarrow> string option) \<Rightarrow> (string \<Rightarrow> string) \<Rightarrow> account list \<Rightarrow> string \<Rightarrow> Upstream list" where
  "serving decrypt auth_header accts m =
     concat (map (\<lambda>a. map (\<lambda>_. upstream_of decrypt auth_header a) (filter (\<lambda>x. mm_request x = m) (a_mappings a))) accts)"

definition listed :: "string \<Rightarrow> (string \<rightharpoonup> Upstream list) \<Rightarrow> Upstream list" where
  "listed m f = (case f m of None \<Rightarrow> [] | Some us \<Rightarrow> us)"

lemma scan_mappings_by_model:
  "listed m (sc_by_model (scan_mappings u a ms sc)) =
     listed m (sc_by_model sc) @ map (\<lambda>_. u) (filter (\<lambda>x. mm_request x = m) ms)"
  by (induction u a ms sc rule: scan_mappings.induct) (auto simp: Let_def listed_def)

lemma scan_mappings_frame [frame]:
  "sc_accounts (scan_mappings u a ms sc) = sc_accounts sc"
  "sc_passthrough (scan_mappings u a ms sc) = sc_passthrough sc"
  "sc_endpoints (scan_mappings u a ms sc) = sc_endpoints sc"
  by (induction u a ms sc rule: scan_mappings.induct) (auto simp: Let_def)

lemma scan_account_by_model:
  "listed m (sc_by_model (scan_account decrypt auth_header a sc)) =
     listed m (sc_by_model sc) @ serving decrypt auth_header [a] m"
  by (simp add: scan_account_def Let_def scan_mappings_by_model serving_def)

lemma fold_scan_by_model:
  "listed m (sc_by_model (fold (scan_account decrypt auth_header) accts sc)) =
     listed m (sc_by_model sc) @ serving decrypt auth_header accts m"
  by (induction accts arbitrary: sc) (simp_all add: scan_account_by_model serving_def)

lemma add_group_frame [frame]:
  "byModel (add_user_group g s) = byModel s" "byModel (add_model_group mg s) = byModel s"
  "byModel (add_virtual e vm s) = byModel s"
  by (simp_all add: add_user_group_def add_model_group_def add_virtual_def Let_def)

lemma build_byModel: "byModel (build lower order now e vm sc mgs ugs) = (\<lambda>m. map_option by_priority (sc_by_model sc m))"
  by (simp add: build_def base_snapshot_def frame fold_frame [where f = byModel] split: prod.splits)

section \<open>The index of lower-cased names\<close>

lemma index_names_lower:
  "fst (index_names lower ms st) l =
     (case find (\<lambda>m. lower m = l) (rev ms) of Some m \<Rightarrow> Some m | None \<Rightarrow> fst st l)"
proof (induction lower ms st rule: index_names.induct)
  case (2 lower m ms names dup)
  then show ?case by (auto simp: find_append split: option.splits)
qed simp

lemma index_names_append: "index_names lower (xs @ ys) st = index_names lower ys (index_names lower xs st)"
proof (induction lower xs st rule: index_names.induct)
  case (1 lower st)
  show ?case by simp
next
  case (2 lower m ms names dup)
  then show ?case by simp
qed

lemma index_names_dup:
  "distinct ms \<Longrightarrow>
     snd (index_names lower ms (Map.empty, \<lambda>_. False)) l \<longleftrightarrow>
       (\<exists>m\<in>set ms. \<exists>m'\<in>set ms. m \<noteq> m' \<and> lower m = l \<and> lower m' = l)"
proof (induction ms rule: rev_induct)
  case Nil
  then show ?case by simp
next
  case (snoc m ms)
  obtain names dup where st: "index_names lower ms (Map.empty, \<lambda>_. False) = (names, dup)" by fastforce
  have nm: "names k = find (\<lambda>m. lower m = k) (rev ms)" for k
    using index_names_lower [of lower ms "(Map.empty, \<lambda>_. False)" k] st
    by (simp split: option.splits)
  have IH: "dup k \<longleftrightarrow> (\<exists>m\<in>set ms. \<exists>m'\<in>set ms. m \<noteq> m' \<and> lower m = k \<and> lower m' = k)" if "k = l" for k
    using snoc st that by simp
  have new: "names (lower m) \<noteq> None \<and> names (lower m) \<noteq> Some m \<longleftrightarrow> (\<exists>m'\<in>set ms. lower m' = lower m)"
    using snoc.prems find_rev_Some [of "\<lambda>k. lower k = lower m" ms m]
    by (auto simp: nm find_rev_None)
  have "snd (index_names lower (ms @ [m]) (Map.empty, \<lambda>_. False)) l \<longleftrightarrow>
      dup l \<or> l = lower m \<and> (\<exists>m'\<in>set ms. lower m' = lower m)"
    unfolding index_names_append st index_names.simps snd_conv new by simp
  also have "\<dots> \<longleftrightarrow> (\<exists>m1\<in>set (ms @ [m]). \<exists>m'\<in>set (ms @ [m]). m1 \<noteq> m' \<and> lower m1 = l \<and> lower m' = l)"
    using IH snoc.prems by auto
  finally show ?case .
qed

text \<open>The index of a snapshot built in the order \<open>order\<close>, and what does not depend on it.\<close>

lemma lowerName_frame [frame]:
  "lowerName (add_user_group g s) = lowerName s" "lowerName (add_model_group mg s) = lowerName s"
  "lowerName (add_virtual e vm s) = lowerName s"
  "lowerDup (add_user_group g s) = lowerDup s" "lowerDup (add_model_group mg s) = lowerDup s"
  "lowerDup (add_virtual e vm s) = lowerDup s"
  by (simp_all add: add_user_group_def add_model_group_def add_virtual_def Let_def)

lemma build_index:
  "lowerName (build lower order now e vm sc mgs ugs) = fst (index_names lower order (Map.empty, \<lambda>_. False))"
  "lowerDup (build lower order now e vm sc mgs ugs) = snd (index_names lower order (Map.empty, \<lambda>_. False))"
  by (simp_all add: build_def base_snapshot_def frame fold_frame [where f = lowerName]
      fold_frame [where f = lowerDup] split: prod.splits)

lemma add_model_group_same:
  "modelType s = modelType s' \<Longrightarrow> modelType (add_model_group mg s) = modelType (add_model_group mg s')"
  by (simp add: add_model_group_def Let_def)

lemma passthrough_frame [frame]:
  "passthrough (add_user_group g s) = passthrough s" "passthrough (add_model_group mg s) = passthrough s"
  "passthrough (add_virtual e vm s) = passthrough s" "modelType (add_user_group g s) = modelType s"
  by (simp_all add: add_user_group_def add_model_group_def add_virtual_def Let_def)

lemma fold_model_groups_same:
  "modelType s = modelType s' \<Longrightarrow> modelType (fold add_model_group mgs s) = modelType (fold add_model_group mgs s')"
proof (induction mgs arbitrary: s s')
  case (Cons mg mgs)
  show ?case unfolding fold_simps by (rule Cons.IH [OF add_model_group_same [OF Cons.prems]])
qed simp

lemma build_order:
  "modelType (build lower order now e vm sc mgs ugs) = modelType (build lower order' now e vm sc mgs ugs)"
  "passthrough (build lower order now e vm sc mgs ugs) = passthrough (build lower order' now e vm sc mgs ugs)"
proof -
  have "modelType (add_virtual e vm (base_snapshot lower order now sc)) =
      modelType (add_virtual e vm (base_snapshot lower order' now sc))"
    by (simp add: add_virtual_def base_snapshot_def split: prod.splits)
  from fold_model_groups_same [OF this, of mgs]
  show "modelType (build lower order now e vm sc mgs ugs) = modelType (build lower order' now e vm sc mgs ugs)"
    by (simp add: build_def fold_frame [where f = modelType] frame)
  show "passthrough (build lower order now e vm sc mgs ugs) = passthrough (build lower order' now e vm sc mgs ugs)"
    by (simp add: build_def fold_frame [where f = passthrough] frame base_snapshot_def split: prod.splits)
qed

section \<open>Resolution does not depend on the iteration order\<close>

definition longest :: "string list \<Rightarrow> string list" where
  "longest q = filter (\<lambda>l. \<forall>k\<in>set q. length k \<le> length l) q"

lemma best_matches_append:
  "best_matches s want ln (xs @ ys) st = best_matches s want ln ys (best_matches s want ln xs st)"
proof (induction s want ln xs st rule: best_matches.induct)
  case (1 s want ln st)
  show ?case by simp
next
  case (2 s want ln l ls ms best)
  then show ?case by simp
qed

lemma longest_snoc:
  assumes "\<forall>l\<in>set (longest q). int (length l) = best" and "q \<noteq> [] \<longrightarrow> longest q \<noteq> []" and "q = [] \<longrightarrow> best = -1"
  shows "longest (q @ [l]) =
     (if int (length l) > best then [l] else if int (length l) = best then longest q @ [l] else longest q)"
proof -
  have le: "int (length k) \<le> best" if k: "k \<in> set q" for k
  proof -
    obtain m where "m \<in> set (longest q)" using assms(2) k by (cases "longest q") auto
    then show ?thesis using assms(1) k by (force simp: longest_def)
  qed
  have q: "filter (\<lambda>x. (\<forall>k\<in>set q. length k \<le> length x) \<and> length l \<le> length x) q =
      (if int (length l) > best then [] else longest q)"
  proof (cases "int (length l) > best")
    case True
    then have "\<not> length l \<le> length x" if "x \<in> set q" for x using le [OF that] by auto
    with True show ?thesis by auto
  next
    case False
    have "length l \<le> length x" if "x \<in> set q" "\<forall>k\<in>set q. length k \<le> length x" for x
      using assms(1) that False by (force simp: longest_def)
    with False show ?thesis unfolding longest_def by (auto intro: filter_cong)
  qed
  have l: "(\<forall>k\<in>set q. length k \<le> length l) \<longleftrightarrow> best \<le> int (length l)"
  proof (cases "q = []")
    case False
    then obtain m where "m \<in> set (longest q)" using assms(2) False by (cases "longest q") auto
    then have m: "m \<in> set q" "int (length m) = best" using assms(1) by (simp_all add: longest_def)
    show ?thesis
    proof
      assume "\<forall>k\<in>set q. length k \<le> length l"
      then show "best \<le> int (length l)" using m by fastforce
    next
      assume "best \<le> int (length l)"
      then show "\<forall>k\<in>set q. length k \<le> length l" using le by fastforce
    qed
  qed (use assms in simp)
  have "longest (q @ [l]) = filter (\<lambda>x. (\<forall>k\<in>set q. length k \<le> length x) \<and> length l \<le> length x) q @
      (if \<forall>k\<in>set q. length k \<le> length l then [l] else [])"
    by (simp add: longest_def ball_Un conj_commute)
  then show ?thesis unfolding q l by simp
qed

lemma best_matches_longest:
  "let (ms, best) = best_matches s want ln ks ([], -1); q = filter (version_match s want ln) ks
   in ms = longest q \<and> (q = [] \<longrightarrow> best = -1) \<and> (q \<noteq> [] \<longrightarrow> ms \<noteq> []) \<and> (\<forall>l\<in>set ms. int (length l) = best)"
proof (induction ks rule: rev_induct)
  case Nil
  then show ?case by (simp add: longest_def)
next
  case (snoc l ks)
  let ?q = "filter (version_match s want ln) ks"
  obtain ms best where st: "best_matches s want ln ks ([], -1) = (ms, best)" by fastforce
  with snoc have inv: "ms = longest ?q" "?q = [] \<longrightarrow> best = -1" "?q \<noteq> [] \<longrightarrow> ms \<noteq> []"
    "\<forall>l\<in>set ms. int (length l) = best" by (auto simp: Let_def)
  show ?case
  proof (cases "version_match s want ln l")
    case False
    then show ?thesis using inv by (simp add: best_matches_append st Let_def)
  next
    case True
    have step: "longest (?q @ [l]) =
        (if int (length l) > best then [l] else if int (length l) = best then longest ?q @ [l] else longest ?q)"
      by (rule longest_snoc) (use inv in auto)
    have "int (length l) \<le> best \<Longrightarrow> ms \<noteq> []" using inv by (cases "?q = []") auto
    with True inv step show ?thesis by (auto simp: best_matches_append st Let_def)
  qed
qed

lemma best_matches_eq: "fst (best_matches s want ln ks ([], -1)) = longest (filter (version_match s want ln) ks)"
  using best_matches_longest [of s want ln ks] by (auto simp: Let_def split: prod.splits)

lemma longest_perm:
  assumes "distinct p" and "distinct q" and "set p = set q"
  shows "set (longest p) = set (longest q) \<and> length (longest p) = length (longest q)"
proof -
  have "set (longest p) = set (longest q)" using assms by (auto simp: longest_def)
  moreover have "distinct (longest p)" "distinct (longest q)" using assms by (simp_all add: longest_def)
  ultimately show ?thesis by (metis distinct_card)
qed

text \<open>Two snapshots that agree on everything resolution can see.\<close>

definition same_index :: "Snapshot \<Rightarrow> Snapshot \<Rightarrow> bool" where
  "same_index s s' \<longleftrightarrow>
     modelType s = modelType s' \<and> passthrough s = passthrough s' \<and> lowerDup s = lowerDup s' \<and>
     (\<forall>l. (lowerName s l = None \<longleftrightarrow> lowerName s' l = None) \<and>
        (\<not> lowerDup s l \<longrightarrow> lowerName s l = lowerName s' l) \<and>
        (\<forall>c c'. lowerName s l = Some c \<longrightarrow> lowerName s' l = Some c' \<longrightarrow> modelType s c = modelType s c'))"

lemma try_name_same: "same_index s s' \<Longrightarrow> try_name lower s n amb = try_name lower s' n amb"
  by (auto simp: try_name_def same_index_def Let_def split: option.splits)

lemma version_match_same: "same_index s s' \<Longrightarrow> version_match s want ln = version_match s' want ln"
  by (rule ext) (auto simp: version_match_def same_index_def split: option.splits, (metis option.distinct(1) option.inject)+)

lemma resolve_rest_same:
  assumes same: "same_index s s'" and keys: "distinct keys" "distinct keys'" "set keys = set keys'"
  shows "resolve_rest lower keys s name n want amb = resolve_rest lower keys' s' name n want amb"
proof -
  let ?ms = "fst (best_matches s want (lower n) keys ([], -1))"
  let ?ms' = "fst (best_matches s' want (lower n) keys' ([], -1))"
  have perm: "set ?ms = set ?ms' \<and> length ?ms = length ?ms'"
    unfolding best_matches_eq version_match_same [OF same]
    by (rule longest_perm) (use keys in auto)
  have hd: "hd ?ms = hd ?ms'" if "length ?ms = 1"
    using perm that by (cases ?ms; cases ?ms') auto
  have parts: "modelType s' = modelType s" "passthrough s' = passthrough s" "lowerDup s' = lowerDup s"
    "\<And>l. \<not> lowerDup s l \<Longrightarrow> lowerName s' l = lowerName s l"
    using same by (simp_all add: same_index_def)
  show ?thesis
  proof (cases "length ?ms = 1 \<and> \<not> lowerDup s (hd ?ms) \<and> \<not> amb")
    case True
    then show ?thesis using perm hd by (simp add: resolve_rest_def Let_def parts split: option.split)
  next
    case False
    have "?ms = [] \<longleftrightarrow> ?ms' = []" using perm by auto
    then show ?thesis using False perm hd by (auto simp: resolve_rest_def Let_def parts)
  qed
qed

lemma ResolveDetail_same:
  assumes "same_index s s'" and "distinct keys" and "distinct keys'" and "set keys = set keys'"
  shows "ResolveDetail lower keys s name want = ResolveDetail lower keys' s' name want"
  unfolding ResolveDetail_def try_latest_def try_name_same [OF assms(1)] resolve_rest_same [OF assms] ..

lemma build_lower:
  assumes "distinct order" and s: "s = build lower order now e vm sc mgs ugs"
  shows "lowerName s l = List.find (\<lambda>m. lower m = l) (rev order)"
    and "lowerDup s l \<longleftrightarrow> (\<exists>m\<in>set order. \<exists>m'\<in>set order. m \<noteq> m' \<and> lower m = l \<and> lower m' = l)"
  unfolding s build_index index_names_dup [OF assms(1)] index_names_lower by (simp_all split: option.splits)

lemma build_same_index:
  assumes d: "distinct order" "distinct order'" and set: "set order = set order'"
    and s: "s = build lower order now e vm sc mgs ugs" and s': "s' = build lower order' now e vm sc mgs ugs"
    and types: "\<forall>m\<in>set order. \<forall>m'\<in>set order. lower m = lower m' \<longrightarrow> modelType s m = modelType s m'"
  shows "same_index s s'"
proof -
  have mt: "modelType s = modelType s'" "passthrough s = passthrough s'"
    unfolding s s' by (rule build_order)+
  note b = build_lower [OF d(1) s] and b' = build_lower [OF d(2) s']
  have dup: "lowerDup s = lowerDup s'" by (rule ext) (simp add: b(2) b'(2) set)
  show ?thesis
    unfolding same_index_def
  proof (intro conjI allI impI mt dup)
    fix l
    show "lowerName s l = None \<longleftrightarrow> lowerName s' l = None"
      unfolding b(1) b'(1) find_rev_None set ..
    {
      fix c c' assume c: "lowerName s l = Some c" "lowerName s' l = Some c'"
      have m: "lower c = l" "c \<in> set order" using c(1) find_rev_Some unfolding b(1) by fast+
      have m': "lower c' = l" "c' \<in> set order" using c(2) find_rev_Some unfolding b'(1) set by fast+
      have "lower c = lower c'" using m(1) m'(1) by simp
      with types m(2) m'(2) show "modelType s c = modelType s c'" by blast
    }
    assume nd: "\<not> lowerDup s l"
    show "lowerName s l = lowerName s' l"
    proof (cases "lowerName s l")
      case None
      with \<open>lowerName s l = None \<longleftrightarrow> lowerName s' l = None\<close> show ?thesis by simp
    next
      case (Some c)
      with \<open>lowerName s l = None \<longleftrightarrow> lowerName s' l = None\<close>
      obtain c' where c': "lowerName s' l = Some c'" by auto
      have m: "lower c = l" "c \<in> set order" using Some find_rev_Some unfolding b(1) by fast+
      have m': "lower c' = l" "c' \<in> set order" using c' find_rev_Some unfolding b'(1) set by fast+
      have "c = c'" using nd m m' unfolding b(2) by blast
      with Some c' show ?thesis by simp
    qed
  qed
qed

text \<open>Property C11: resolving a model name gives the same result whatever orders Go's maps are
  iterated in when the snapshot is built and when the name is resolved, provided that case
  variants of one name are configured with one type.\<close>

theorem resolve_deterministic:
  assumes "distinct order" and "distinct order'" and "set order = set order'"
    and "\<forall>m\<in>set order. \<forall>m'\<in>set order. lower m = lower m' \<longrightarrow>
      modelType (build lower order now e vm sc mgs ugs) m = modelType (build lower order now e vm sc mgs ugs) m'"
    and "distinct keys" and "distinct keys'" and "set keys = set keys'"
  shows "ResolveDetail lower keys (build lower order now e vm sc mgs ugs) name want =
    ResolveDetail lower keys' (build lower order' now e vm sc mgs ugs) name want"
  by (rule ResolveDetail_same [OF build_same_index [OF assms(1-3) refl refl assms(4)] assms(5-7)])

definition sample_account :: "nat \<Rightarrow> string \<Rightarrow> api_type \<Rightarrow> bool \<Rightarrow> account" where
  "sample_account i m t pass =
     \<lparr>a_id = i, a_name = ''acc'', a_provider = ''openai'', a_type = t, a_base_url = ''https://up/'',
      a_key_enc = ''k'', a_protocols = protocolsForType t, a_mappings = [\<lparr>mm_request = m, mm_upstream = m\<rparr>],
      a_priority = 0, a_weight = 1, a_max_concurrency = 0, a_passthrough = pass, a_endpoints = [], a_enabled = True\<rparr>"

definition sample_scan :: "account list \<Rightarrow> scan" where
  "sample_scan = scan_accounts Some (\<lambda>_. '''')"

lemma resolve_deterministic_witness:
  "ResolveDetail ascii_lower [''gpt-5'', ''demo'']
      (build ascii_lower [''GPT-5'', ''gpt-5'', ''demo''] 0 False '''' (sample_scan
         [sample_account 1 ''GPT-5'' TypeText False, sample_account 2 ''gpt-5'' TypeText False,
          sample_account 3 ''demo'' TypeText True]) [] []) ''gpt-5-2025'' (Some TypeText) =
   ResolveDetail ascii_lower [''demo'', ''gpt-5'']
      (build ascii_lower [''demo'', ''gpt-5'', ''GPT-5''] 0 False '''' (sample_scan
         [sample_account 1 ''GPT-5'' TypeText False, sample_account 2 ''gpt-5'' TypeText False,
          sample_account 3 ''demo'' TypeText True]) [] []) ''gpt-5-2025'' (Some TypeText)"
proof (rule resolve_deterministic)
  show "\<forall>m\<in>set [''GPT-5'', ''gpt-5'', ''demo'']. \<forall>m'\<in>set [''GPT-5'', ''gpt-5'', ''demo'']. ascii_lower m = ascii_lower m' \<longrightarrow>
      modelType (build ascii_lower [''GPT-5'', ''gpt-5'', ''demo''] 0 False '''' (sample_scan
         [sample_account 1 ''GPT-5'' TypeText False, sample_account 2 ''gpt-5'' TypeText False,
          sample_account 3 ''demo'' TypeText True]) [] []) m =
      modelType (build ascii_lower [''GPT-5'', ''gpt-5'', ''demo''] 0 False '''' (sample_scan
         [sample_account 1 ''GPT-5'' TypeText False, sample_account 2 ''gpt-5'' TypeText False,
          sample_account 3 ''demo'' TypeText True]) [] []) m'"
    by code_simp
qed auto

text \<open>Without that proviso the order matters: with two spellings of a name configured
  as a text and as an image model next to a pass-through account, the same request is refused
  as ambiguous or forwarded to the pass-through account, depending on the iteration.\<close>

lemma resolve_depends_on_order:
  "\<exists>accts order order'. distinct order \<and> distinct order' \<and> set order = set order' \<and>
     set order = dom (sc_by_model (sample_scan accts)) \<and>
     ResolveDetail ascii_lower (map ascii_lower (tl order)) (build ascii_lower order 0 False '''' (sample_scan accts) [] [])
       ''gpt-5-2025'' (Some TypeText) = ResolveAmbiguous \<and>
     ResolveDetail ascii_lower (map ascii_lower (tl order)) (build ascii_lower order' 0 False '''' (sample_scan accts) [] [])
       ''gpt-5-2025'' (Some TypeText) = ResolveFound ''gpt-5-2025'' (Some TypeText)"
proof (intro exI conjI)
  let ?accts = "[sample_account 1 ''GPT-5'' TypeText False, sample_account 2 ''gpt-5'' TypeImage False,
      sample_account 3 ''demo'' TypeText True]"
  show "ResolveDetail ascii_lower (map ascii_lower (tl [''gpt-5'', ''GPT-5'', ''demo'']))
      (build ascii_lower [''gpt-5'', ''GPT-5'', ''demo''] 0 False '''' (sample_scan ?accts) [] [])
      ''gpt-5-2025'' (Some TypeText) = ResolveAmbiguous"
    by code_simp
  show "ResolveDetail ascii_lower (map ascii_lower (tl [''gpt-5'', ''GPT-5'', ''demo'']))
      (build ascii_lower [''GPT-5'', ''gpt-5'', ''demo''] 0 False '''' (sample_scan ?accts) [] [])
      ''gpt-5-2025'' (Some TypeText) = ResolveFound ''gpt-5-2025'' (Some TypeText)"
    by code_simp
  show "set [''gpt-5'', ''GPT-5'', ''demo''] = dom (sc_by_model (sample_scan ?accts))"
    by (auto simp: sample_scan_def scan_accounts_def scan_account_def sample_account_def upstream_of_def
        scan_init_def Let_def split: if_splits)
qed auto

section \<open>A rebuild publishes what the rows say\<close>

text \<open>What the rows say, read off the tables: the names the enabled accounts map, the type of
  the last enabled account that maps a name, and the type a client is told for a name, which is
  text for the virtual model, else the accounts' type, else that of the first model group of
  that name.\<close>

definition requests :: "account \<Rightarrow> string set" where
  "requests a = mm_request ` set (a_mappings a)"

definition mapped :: "account list \<Rightarrow> string set" where
  "mapped as = (\<Union>a\<in>{a \<in> set as. a_enabled a}. requests a)"

definition account_type :: "account list \<Rightarrow> string \<Rightarrow> api_type option" where
  "account_type as m = map_option a_type (List.find (\<lambda>a. m \<in> requests a) (rev (filter a_enabled as)))"

definition declared :: "bool \<Rightarrow> string \<Rightarrow> account list \<Rightarrow> model_group list \<Rightarrow> string \<Rightarrow> api_type option" where
  "declared e vm as mgs m =
     (if e \<and> vm \<noteq> '''' \<and> m = vm then Some TypeText
      else case account_type as m of
             Some t \<Rightarrow> Some t
           | None \<Rightarrow> map_option mg_type (List.find (\<lambda>g. mg_name g = m) mgs))"

lemma mapped_list: "mapped as = set (concat (map (\<lambda>a. map mm_request (a_mappings a)) (filter a_enabled as)))"
  by (auto simp: mapped_def requests_def)

lemma fold_last_write:
  assumes "\<And>x s. F (g x s) = (F s)(k x \<mapsto> v x)"
  shows "F (fold g xs s) i = (case List.find (\<lambda>x. k x = i) (rev xs) of Some x \<Rightarrow> Some (v x) | None \<Rightarrow> F s i)"
  by (induction xs arbitrary: s) (auto simp: assms find_append split: option.splits)

lemma scan_mappings_type:
  "sc_type (scan_mappings u a ms sc) m = (if m \<in> mm_request ` set ms then Some (a_type a) else sc_type sc m)"
  by (induction u a ms sc rule: scan_mappings.induct) (auto simp: Let_def)

lemma scan_account_type:
  "sc_type (scan_account decrypt auth_header a sc) m = (if m \<in> requests a then Some (a_type a) else sc_type sc m)"
  by (simp add: scan_account_def Let_def scan_mappings_type requests_def)

lemma fold_scan_type:
  "sc_type (fold (scan_account decrypt auth_header) as sc) m =
     (case List.find (\<lambda>a. m \<in> requests a) (rev as) of Some a \<Rightarrow> Some (a_type a) | None \<Rightarrow> sc_type sc m)"
  by (induction as arbitrary: sc) (auto simp: scan_account_type find_append split: option.splits)

lemma scan_type: "sc_type (scan_accounts decrypt auth_header as) m = account_type as m"
  by (simp add: scan_accounts_def fold_scan_type account_type_def scan_init_def split: option.split)

lemma account_type_mapped: "account_type as m \<noteq> None \<longleftrightarrow> m \<in> mapped as"
proof -
  have "account_type as m = None \<longleftrightarrow> m \<notin> mapped as"
    by (auto simp: account_type_def find_None_iff mapped_def)
  then show ?thesis by simp
qed

lemma scan_by_model:
  "listed m (sc_by_model (scan_accounts decrypt auth_header as)) = serving decrypt auth_header (filter a_enabled as) m"
  by (simp add: scan_accounts_def fold_scan_by_model) (simp add: scan_init_def listed_def)

lemma scan_passthrough:
  "sc_passthrough (fold (scan_account decrypt auth_header) as sc) t =
     sc_passthrough sc t @ map (upstream_of decrypt auth_header) (filter (\<lambda>a. a_passthrough a \<and> a_type a = t) as)"
  by (induction as arbitrary: sc) (auto simp: scan_account_def Let_def frame)

lemma scan_endpoints:
  "sc_endpoints (fold (scan_account decrypt auth_header) as sc) =
     sc_endpoints sc @ concat (map (\<lambda>a. up_endpoints (upstream_of decrypt auth_header a)) as)"
  by (induction as arbitrary: sc) (auto simp: scan_account_def Let_def frame)

lemma scan_account_accounts:
  "sc_accounts (scan_account decrypt auth_header a sc) = (sc_accounts sc)(a_id a \<mapsto> upstream_of decrypt auth_header a)"
  by (simp add: scan_account_def Let_def frame)

lemma build_rest_frame [frame]:
  "sn_endpoints (add_user_group g s) = sn_endpoints s" "sn_endpoints (add_model_group mg s) = sn_endpoints s"
  "sn_endpoints (add_virtual e vm s) = sn_endpoints s"
  "sn_accounts (add_user_group g s) = sn_accounts s" "sn_accounts (add_model_group mg s) = sn_accounts s"
  "sn_accounts (add_virtual e vm s) = sn_accounts s"
  "sn_models (add_user_group g s) = sn_models s"
  "sn_groups (add_model_group mg s) = sn_groups s" "sn_groups (add_virtual e vm s) = sn_groups s"
  by (simp_all add: add_user_group_def add_model_group_def add_virtual_def Let_def)

lemma fold_groups_type:
  "modelType (fold add_model_group mgs s) m =
     (case modelType s m of Some t \<Rightarrow> Some t
      | None \<Rightarrow> map_option mg_type (List.find (\<lambda>g. mg_name g = m) mgs))"
  by (induction mgs arbitrary: s) (auto simp: add_model_group_def Let_def split: option.splits)

lemma build_type:
  "modelType (build lower order now e vm (scan_accounts decrypt auth_header as) mgs ugs) m = declared e vm as mgs m"
  by (simp add: build_def fold_frame [where f = modelType] frame fold_groups_type)
     (simp add: add_virtual_def base_snapshot_def declared_def scan_type split: prod.splits option.splits)

text \<open>The public list: every name once per kind, with the type it was given by its rows.\<close>

definition model_entry :: "(string \<Rightarrow> string option) \<Rightarrow> (string \<Rightarrow> string) \<Rightarrow> account list \<Rightarrow> ModelInfo \<Rightarrow> bool" where
  "model_entry decrypt auth_header as i \<longleftrightarrow>
     mi_kind i = KindModel \<longrightarrow> mi_name i \<in> mapped as \<and> account_type as (mi_name i) = Some (mi_type i) \<and>
       mi_accounts i = length (serving decrypt auth_header (filter a_enabled as) (mi_name i))"

lemma fold_groups_models:
  assumes "mi_name ` set (sn_models s) = dom (modelType s)"
  shows "mi_name ` set (sn_models (fold add_model_group mgs s)) = dom (modelType (fold add_model_group mgs s)) \<and>
    {i \<in> set (sn_models (fold add_model_group mgs s)). mi_kind i = KindModel} =
    {i \<in> set (sn_models s). mi_kind i = KindModel}"
  using assms
proof (induction mgs arbitrary: s)
  case (Cons mg mgs)
  have step: "mi_name ` set (sn_models (add_model_group mg s)) = dom (modelType (add_model_group mg s))"
    "{i \<in> set (sn_models (add_model_group mg s)). mi_kind i = KindModel} = {i \<in> set (sn_models s). mi_kind i = KindModel}"
    using Cons.prems by (auto simp: add_model_group_def Let_def)
  show ?case using Cons.IH [OF step(1)] step(2) by simp
qed simp

lemma build_models:
  assumes "set order = mapped as" and "s = build lower order now e vm (scan_accounts decrypt auth_header as) mgs ugs"
  shows "mi_name ` set (sn_models s) = dom (modelType s)"
    and "\<forall>i\<in>set (sn_models s). model_entry decrypt auth_header as i"
proof -
  let ?sc = "scan_accounts decrypt auth_header as" and ?b = "add_virtual e vm (base_snapshot lower order now (scan_accounts decrypt auth_header as))"
  have "mi_name ` set (map (model_info ?sc) (sort order)) = dom (sc_type ?sc)"
    using account_type_mapped assms(1) by (force simp: model_info_def scan_type)
  then have base: "mi_name ` set (sn_models ?b) = dom (modelType ?b)"
    by (auto simp: add_virtual_def base_snapshot_def split: prod.splits)
  have "account_type as m = Some (the (sc_type ?sc m)) \<and> m \<in> mapped as" if "m \<in> set order" for m
    using that account_type_mapped [of as m] assms(1) by (auto simp: scan_type)
  then have "model_entry decrypt auth_header as i" if "i \<in> set (sn_models ?b)" for i
    using that by (auto simp: model_entry_def add_virtual_def base_snapshot_def model_info_def
        scan_by_model [symmetric] listed_def split: prod.splits option.splits if_splits)
  moreover have "sn_models s = sn_models (fold add_model_group mgs ?b)" "modelType s = modelType (fold add_model_group mgs ?b)"
    using assms(2) by (simp_all add: build_def fold_frame [where f = sn_models] fold_frame [where f = modelType] frame)
  ultimately show "mi_name ` set (sn_models s) = dom (modelType s)"
    "\<forall>i\<in>set (sn_models s). model_entry decrypt auth_header as i"
    using fold_groups_models [OF base, of mgs] by (auto simp: model_entry_def)
qed

lemma build_serves:
  "UpstreamsFor (build lower order now e vm (scan_accounts decrypt auth_header as) mgs ugs) m =
     sort_key up_priority (serving decrypt auth_header (filter a_enabled as) m)"
proof -
  have "UpstreamsFor (build lower order now e vm (scan_accounts decrypt auth_header as) mgs ugs) m =
      by_priority (listed m (sc_by_model (scan_accounts decrypt auth_header as)))"
    by (auto simp: UpstreamsFor_def build_byModel listed_def by_priority_def split: option.splits)
  then show ?thesis by (simp add: scan_by_model by_priority_def)
qed

lemma build_passthrough:
  "PassthroughFor (build lower order now e vm (scan_accounts decrypt auth_header as) mgs ugs) t =
     sort_key up_priority (map (upstream_of decrypt auth_header)
       (filter (\<lambda>a. a_enabled a \<and> a_passthrough a \<and> a_type a = t) as))"
proof -
  have "filter (\<lambda>a. a_passthrough a \<and> a_type a = t) (filter a_enabled as) =
      filter (\<lambda>a. a_enabled a \<and> a_passthrough a \<and> a_type a = t) as"
    by (induction as) auto
  then show ?thesis
    by (simp add: PassthroughFor_def build_def fold_frame [where f = passthrough] frame base_snapshot_def
        scan_accounts_def scan_passthrough by_priority_def scan_init_def split: prod.splits)
qed

lemma build_endpoints:
  "HasEndpoint (build lower order now e vm (scan_accounts decrypt auth_header as) mgs ugs) p \<longleftrightarrow>
     (\<exists>a\<in>set as. a_enabled a \<and> a_type a = TypeCustom \<and> p \<in> set (a_endpoints a))"
  by (simp add: HasEndpoint_def build_def fold_frame [where f = sn_endpoints] frame base_snapshot_def
      scan_accounts_def scan_endpoints scan_init_def split: prod.splits)
     (auto simp: upstream_of_def Let_def)

lemma build_accounts:
  "sn_accounts (build lower order now e vm (scan_accounts decrypt auth_header as) mgs ugs) i =
     map_option (upstream_of decrypt auth_header) (List.find (\<lambda>a. a_id a = i) (rev (filter a_enabled as)))"
proof -
  have "sn_accounts (build lower order now e vm (scan_accounts decrypt auth_header as) mgs ugs) =
      sc_accounts (scan_accounts decrypt auth_header as)"
    by (simp add: build_def fold_frame [where f = sn_accounts] frame base_snapshot_def split: prod.splits)
  then show ?thesis
    by (simp add: scan_accounts_def fold_last_write [where F = sc_accounts, OF scan_account_accounts]
        scan_init_def split: option.split)
qed

lemma build_groups:
  "sn_groups (build lower order now e vm sc mgs ugs) i =
     map_option group_view (List.find (\<lambda>g. ug_id g = i) (rev ugs))"
proof -
  have "sn_groups (add_user_group g s) = (sn_groups s)(ug_id g \<mapsto> group_view g)" for g s
    by (simp add: add_user_group_def Let_def)
  note w = fold_last_write [where F = sn_groups and g = add_user_group, OF this]
  show ?thesis
    by (simp add: build_def w fold_frame [where f = sn_groups] frame base_snapshot_def split: prod.splits option.split)
qed

text \<open>Property C12: after a successful rebuild the snapshot is what the rows say. The upstreams
  tried for a model are exactly the enabled accounts that map it, once per mapping, in the order
  of their priority and, among equal priorities, in the order the database returned them; the
  pass-through accounts of a type likewise; each account id, user group id and custom endpoint is
  known exactly when an enabled account or a group has it; a name has the type the rows declare;
  the public list names exactly the names that have a type, an entry for a model with its
  accounts' type and their number; the lower-cased index leads from a name only to a mapped name
  with that lower-cased form, and always to one when there is one; and a lower-cased name is
  marked ambiguous exactly when two mapped names share it. A failed query leaves the previous
  snapshot in place. (\<open>order\<close>, in which Go ranges over the mapped names, is any
  duplicate-free list of them.)\<close>

theorem rebuild_serves:
  assumes "\<forall>as. accts = Some as \<longrightarrow> distinct order \<and> set order = mapped as"
  shows "case rebuild lower decrypt auth_header order now e vm accts mgs ugs cur of
     (cur', True) \<Rightarrow> \<exists>as ms us s. accts = Some as \<and> mgs = Some ms \<and> ugs = Some us \<and> cur' = Some s \<and>
        (\<forall>m. UpstreamsFor s m = sort_key up_priority (serving decrypt auth_header (filter a_enabled as) m)) \<and>
        (\<forall>t. PassthroughFor s t = sort_key up_priority (map (upstream_of decrypt auth_header)
           (filter (\<lambda>a. a_enabled a \<and> a_passthrough a \<and> a_type a = t) as))) \<and>
        (\<forall>i. sn_accounts s i = map_option (upstream_of decrypt auth_header)
           (List.find (\<lambda>a. a_id a = i) (rev (filter a_enabled as)))) \<and>
        (\<forall>i. sn_groups s i = map_option group_view (List.find (\<lambda>g. ug_id g = i) (rev us))) \<and>
        (\<forall>p. HasEndpoint s p \<longleftrightarrow> (\<exists>a\<in>set as. a_enabled a \<and> a_type a = TypeCustom \<and> p \<in> set (a_endpoints a))) \<and>
        (\<forall>m. ModelType s m = declared e vm as ms m) \<and>
        mi_name ` set (sn_models s) = {m. declared e vm as ms m \<noteq> None} \<and>
        (\<forall>i\<in>set (sn_models s). model_entry decrypt auth_header as i) \<and>
        (\<forall>l c. lowerName s l = Some c \<longrightarrow> c \<in> mapped as \<and> lower c = l) \<and>
        (\<forall>m\<in>mapped as. lowerName s (lower m) \<noteq> None) \<and>
        (\<forall>l. lowerDup s l \<longleftrightarrow> (\<exists>m\<in>mapped as. \<exists>m'\<in>mapped as. m \<noteq> m' \<and> lower m = l \<and> lower m' = l))
   | (cur', False) \<Rightarrow> cur' = cur \<and> (accts = None \<or> mgs = None \<or> ugs = None)"
proof (cases "accts = None \<or> mgs = None \<or> ugs = None")
  case True
  then show ?thesis by (auto simp: rebuild_def Let_def split: option.split)
next
  case False
  then obtain as ms us where rows: "accts = Some as" "mgs = Some ms" "ugs = Some us" by auto
  let ?s = "build lower order now e vm (scan_accounts decrypt auth_header as) ms us"
  from assms rows(1) have o: "distinct order" "set order = mapped as" by simp_all
  note low = build_lower [OF o(1) refl, of lower now e vm "scan_accounts decrypt auth_header as" ms us]
  have dom: "dom (modelType ?s) = {m. declared e vm as ms m \<noteq> None}" by (auto simp: build_type)
  have index: "lowerName ?s l = Some c \<longrightarrow> c \<in> mapped as \<and> lower c = l" for l c
    using find_rev_Some [of "\<lambda>m. lower m = l" order] o(2) unfolding low(1) by blast
  have total: "lowerName ?s (lower m) \<noteq> None" if "m \<in> mapped as" for m
    using that o(2) unfolding low(1) find_rev_None by auto
  have dup: "lowerDup ?s l \<longleftrightarrow> (\<exists>m\<in>mapped as. \<exists>m'\<in>mapped as. m \<noteq> m' \<and> lower m = l \<and> lower m' = l)" for l
    using o(2) unfolding low(2) by simp
  note models = build_models [OF o(2) refl, of lower now e vm decrypt auth_header ms us]
  have "rebuild lower decrypt auth_header order now e vm accts mgs ugs cur = (Some ?s, True)"
    by (simp add: rebuild_def rows)
  moreover have types: "\<forall>m. ModelType ?s m = declared e vm as ms m" by (simp add: ModelType_def build_type)
  moreover have "mi_name ` set (sn_models ?s) = {m. declared e vm as ms m \<noteq> None}" using models(1) dom by simp
  ultimately show ?thesis
    unfolding \<open>rebuild lower decrypt auth_header order now e vm accts mgs ugs cur = (Some ?s, True)\<close> prod.case bool.case
    by (intro exI [of _ as] exI [of _ ms] exI [of _ us] exI [of _ ?s] conjI rows refl models(2) types
        allI ballI index total dup build_serves build_passthrough build_accounts build_groups build_endpoints)
      (simp_all add: types)
qed

lemma rebuild_serves_witness:
  "case rebuild ascii_lower Some (\<lambda>_. '''') [''demo'', ''GPT-5''] 0 True ''router''
      (Some [sample_account 1 ''GPT-5'' TypeText False, sample_account 2 ''demo'' TypeImage True]) (Some []) (Some []) None of
     (Some s, True) \<Rightarrow> ModelType s ''demo'' = Some TypeImage \<and> ModelType s ''router'' = Some TypeText \<and>
        map up_id (UpstreamsFor s ''GPT-5'') = [1]
   | _ \<Rightarrow> False"
proof -
  let ?as = "[sample_account 1 ''GPT-5'' TypeText False, sample_account 2 ''demo'' TypeImage True]"
  have "set [''demo'', ''GPT-5''] = mapped ?as"
    unfolding mapped_list by (simp add: sample_account_def insert_commute)
  moreover have "distinct [''demo'', ''GPT-5'']" by simp
  ultimately have "\<forall>as. Some ?as = Some as \<longrightarrow> distinct [''demo'', ''GPT-5''] \<and> set [''demo'', ''GPT-5''] = mapped as"
    by blast
  note r = rebuild_serves [OF this, where lower = ascii_lower and decrypt = Some and auth_header = "\<lambda>_. ''''" and now = 0
      and e = True and vm = "''router''" and mgs = "Some []" and ugs = "Some []" and cur = None]
  have vals: "declared True ''router'' ?as [] ''demo'' = Some TypeImage"
    "declared True ''router'' ?as [] ''router'' = Some TypeText"
    "map up_id (sort_key up_priority (serving Some (\<lambda>_. '''') (filter a_enabled ?as) ''GPT-5'')) = [1]"
    by code_simp+
  show ?thesis using r vals by (auto split: prod.splits bool.splits option.splits)
qed

section \<open>What a resolved name is\<close>

lemma modelType_frame:
  "modelType s m \<noteq> None \<Longrightarrow> modelType (add_virtual e vm s) m \<noteq> None"
  "modelType s m \<noteq> None \<Longrightarrow> modelType (fold add_model_group mgs s) m \<noteq> None"
proof -
  show "modelType s m \<noteq> None \<Longrightarrow> modelType (add_virtual e vm s) m \<noteq> None"
    by (simp add: add_virtual_def)
  show "modelType s m \<noteq> None \<Longrightarrow> modelType (fold add_model_group mgs s) m \<noteq> None"
    by (induction mgs arbitrary: s) (auto simp: add_model_group_def Let_def)
qed

lemma build_typed: "sc_type sc m \<noteq> None \<Longrightarrow> modelType (build lower order now e vm sc mgs ugs) m \<noteq> None"
  unfolding build_def fold_frame [where f = modelType and g = add_user_group, OF passthrough_frame(4)]
  by (rule modelType_frame(2) [OF modelType_frame(1)]) (simp add: base_snapshot_def split: prod.splits)

lemma scan_mappings_typed:
  "dom (sc_by_model sc) = dom (sc_type sc) \<Longrightarrow>
     dom (sc_by_model (scan_mappings u a ms sc)) = dom (sc_type (scan_mappings u a ms sc))"
  by (induction u a ms sc rule: scan_mappings.induct) (simp_all add: Let_def)

lemma scan_typed: "dom (sc_by_model (scan_accounts decrypt auth_header accts)) = dom (sc_type (scan_accounts decrypt auth_header accts))"
proof -
  have "dom (sc_by_model (fold (scan_account decrypt auth_header) as sc)) =
      dom (sc_type (fold (scan_account decrypt auth_header) as sc))"
    if "dom (sc_by_model sc) = dom (sc_type sc)" for as sc
    using that by (induction as arbitrary: sc) (simp_all add: scan_account_def Let_def scan_mappings_typed)
  then show ?thesis by (simp add: scan_accounts_def scan_init_def)
qed

definition typed_index :: "Snapshot \<Rightarrow> bool" where
  "typed_index s \<longleftrightarrow> (\<forall>l c. lowerName s l = Some c \<longrightarrow> modelType s c \<noteq> None)"

lemma build_typed_index:
  assumes "set order = dom (sc_by_model (scan_accounts decrypt auth_header accts))" and "distinct order"
  shows "typed_index (build lower order now e vm (scan_accounts decrypt auth_header accts) mgs ugs)"
  unfolding typed_index_def build_lower(1) [OF assms(2) refl]
proof (intro allI impI)
  fix l c assume "List.find (\<lambda>m. lower m = l) (rev order) = Some c"
  then have "c \<in> set order" using find_rev_Some by fast
  then have "sc_type (scan_accounts decrypt auth_header accts) c \<noteq> None"
    using assms(1) scan_typed [of decrypt auth_header accts] by auto
  then show "modelType (build lower order now e vm (scan_accounts decrypt auth_header accts) mgs ugs) c \<noteq> None"
    by (rule build_typed)
qed

lemma try_name_sound:
  assumes "typed_index s" and "try_name lower s n amb = (Some (c, t), amb')"
  shows "modelType s c = t \<and> t \<noteq> None"
proof (cases "modelType s n")
  case None
  with assms show ?thesis
    by (auto simp: try_name_def typed_index_def Let_def split: option.splits if_splits)
next
  case (Some ty)
  with assms(2) have "c = n" "t = Some ty" by (simp_all add: try_name_def)
  with Some show ?thesis by simp
qed

lemma try_name_flag: "try_name lower s n amb = (r, amb') \<Longrightarrow> amb \<Longrightarrow> amb'"
  by (auto simp: try_name_def Let_def split: option.splits if_splits)

lemma resolve_rest_sound:
  assumes "typed_index s" and "resolve_rest lower keys s name n want amb = ResolveFound c t"
  shows "(modelType s c = t \<and> t \<noteq> None \<and> (want = None \<or> t = want)) \<or>
     (\<not> amb \<and> c = name \<and> (\<exists>ty. t = Some ty \<and> passthrough s ty \<noteq> [] \<and> (want = None \<or> want = Some ty)))"
proof -
  let ?ms = "fst (best_matches s want (lower n) keys ([], -1))"
  show ?thesis
  proof (cases "length ?ms = 1 \<and> \<not> lowerDup s (hd ?ms) \<and> \<not> amb")
    case True
    have "set ?ms \<subseteq> {l. version_match s want (lower n) l}"
      unfolding best_matches_eq by (auto simp: longest_def)
    moreover have "hd ?ms \<in> set ?ms" using True by (cases ?ms) auto
    ultimately have "version_match s want (lower n) (hd ?ms)" by blast
    with True assms show ?thesis
      by (auto simp: resolve_rest_def version_match_def typed_index_def split: option.splits)
  next
    case False
    with assms(2) have "\<not> amb" "c = name"
      "\<exists>ty. t = Some ty \<and> List.find (\<lambda>t. passthrough s t \<noteq> []) (case want of Some t \<Rightarrow> [t] | None \<Rightarrow> all_types) = Some ty"
      by (auto simp: resolve_rest_def Let_def split: if_splits option.splits)
    moreover have "passthrough s ty \<noteq> [] \<and> (want = None \<or> want = Some ty)"
      if "List.find (\<lambda>t. passthrough s t \<noteq> []) (case want of Some t \<Rightarrow> [t] | None \<Rightarrow> all_types) = Some ty" for ty
      using that by (auto simp: find_Some_iff split: option.splits)
    ultimately show ?thesis by blast
  qed
qed

text \<open>A name resolves only to a configured name, with its configured type, or to
  itself by way of a pass-through account of the wanted type; and to the latter only when
  neither the name nor a case variant of it is configured, ambiguous variants included.\<close>

lemma resolve_sound:
  assumes "set order = dom (sc_by_model (scan_accounts decrypt auth_header accts))" and "distinct order"
    and s: "s = build lower order now e vm (scan_accounts decrypt auth_header accts) mgs ugs"
    and found: "ResolveDetail lower keys s name want = ResolveFound c t"
  shows "(modelType s c = t \<and> t \<noteq> None) \<or>
     (c = name \<and> (\<exists>ty. t = Some ty \<and> passthrough s ty \<noteq> [] \<and> (want = None \<or> want = Some ty)) \<and>
      modelType s name = None \<and> lowerName s (lower name) = None \<and> \<not> lowerDup s (lower name))"
proof -
  have ti: "typed_index s" unfolding s by (rule build_typed_index [OF assms(1,2)])
  let ?n = "strip_vendor lower name"
  obtain r1 a1 where t1: "try_name lower s name False = (r1, a1)" by fastforce
  obtain r2 a2 where t2: "try_name lower s ?n a1 = (r2, a2)" by fastforce
  obtain r3 a3 where t3: "try_latest lower s ?n a2 = (r3, a3)" by fastforce
  have mono: "a1 \<longrightarrow> a3"
    using try_name_flag [OF t2] t3 try_name_flag
    by (fastforce simp: try_latest_def split: if_splits)
  have sound3: "r3 = Some (c, t) \<longrightarrow> modelType s c = t \<and> t \<noteq> None"
    using t3 try_name_sound [OF ti] by (auto simp: try_latest_def split: if_splits)
  show ?thesis
  proof (cases "r1 = None \<and> r2 = None \<and> r3 = None")
    case False
    then show ?thesis
      using found t1 t2 t3 sound3 try_name_sound [OF ti]
      by (auto simp: ResolveDetail_def Let_def split: option.splits)
  next
    case True
    then have rest: "resolve_rest lower keys s name ?n want a3 = ResolveFound c t"
      using found t1 t2 t3 by (simp add: ResolveDetail_def Let_def)
    have "a1 \<or> modelType s name = None \<and> lowerName s (lower name) = None \<and> \<not> lowerDup s (lower name)"
      using t1 True by (auto simp: try_name_def Let_def split: option.splits if_splits)
    with resolve_rest_sound [OF ti rest] mono show ?thesis by blast
  qed
qed

lemma resolve_sound_witness:
  "modelType (build ascii_lower [''demo''] 0 False '''' (sample_scan [sample_account 3 ''demo'' TypeText True]) [] [])
     ''demo'' = Some TypeText"
proof -
  have "set [''demo''] = dom (sc_by_model (sample_scan [sample_account 3 ''demo'' TypeText True]))"
    by (auto simp: sample_scan_def scan_accounts_def scan_account_def sample_account_def upstream_of_def
        scan_init_def Let_def split: if_splits)
  moreover have "ResolveDetail ascii_lower [''demo'']
      (build ascii_lower [''demo''] 0 False '''' (sample_scan [sample_account 3 ''demo'' TypeText True]) [] [])
      ''openai/Demo-2025'' (Some TypeText) = ResolveFound ''demo'' (Some TypeText)"
    by code_simp
  ultimately show ?thesis
    using resolve_sound [of "[''demo'']" Some "\<lambda>_. ''''" "[sample_account 3 ''demo'' TypeText True]" _ ascii_lower
        0 False "''''" "[]" "[]" "[''demo'']" "''openai/Demo-2025''" "Some TypeText" "''demo''" "Some TypeText"]
    by (simp add: sample_scan_def)
qed

end
