(* ===== verification/Json.thy ===== *)
theory Json
  imports GoBase "HOL-Library.Monad_Syntax"
begin

text \<open>
  The JSON values the gateway exchanges and what \<open>json.Unmarshal\<close> does with the Go types
  the code decodes them into. A body that is not JSON at all is \<open>None\<close>; a decoding
  result \<open>None\<close> is an error of \<open>Unmarshal\<close>. Objects are association lists without
  duplicate keys; keys match regardless of ASCII case, as in Go, a later key replacing an
  earlier one. Numbers are integers or not (\<open>JFrac\<close>, the literal), which Go refuses to
  decode into an \<open>int\<close>.
\<close>

datatype json =
    JNull
  | JBool bool
  | JInt int
  | JFrac string
  | JStr string
  | JArr "json list"
  | JObj "(string \<times> json) list"

definition same_key :: "string \<Rightarrow> string \<Rightarrow> bool" where
  "same_key k k' \<longleftrightarrow> ascii_lower k = ascii_lower k'"

definition jfield :: "string \<Rightarrow> (string \<times> json) list \<Rightarrow> json" where
  \<comment> \<open>an absent field and \<open>null\<close> both leave the Go field alone\<close>
  "jfield k fs = (case List.find (\<lambda>(k', v). same_key k k') (rev fs) of Some (_, v) \<Rightarrow> v | None \<Rightarrow> JNull)"

definition int64_ok :: "int \<Rightarrow> bool" where
  "int64_ok n \<longleftrightarrow> - (2 ^ 63) \<le> n \<and> n < 2 ^ 63"

fun dec_int :: "json \<Rightarrow> int option" where
  "dec_int JNull = Some 0"
| "dec_int (JInt n) = (if int64_ok n then Some n else None)"
| "dec_int _ = None"

fun dec_int_ptr :: "json \<Rightarrow> int option option" where
  "dec_int_ptr JNull = Some None"
| "dec_int_ptr (JInt n) = (if int64_ok n then Some (Some n) else None)"
| "dec_int_ptr _ = None"

fun dec_str :: "json \<Rightarrow> string option" where
  "dec_str JNull = Some ''''"
| "dec_str (JStr s) = Some s"
| "dec_str _ = None"

fun dec_bool :: "json \<Rightarrow> bool option" where
  "dec_bool JNull = Some False"
| "dec_bool (JBool b) = Some b"
| "dec_bool _ = None"

fun dec_struct :: "'a \<Rightarrow> ((string \<times> json) list \<Rightarrow> 'a option) \<Rightarrow> json \<Rightarrow> 'a option" where
  \<comment> \<open>a struct field: \<open>null\<close> leaves the zero value\<close>
  "dec_struct z f JNull = Some z"
| "dec_struct z f (JObj fs) = f fs"
| "dec_struct z f _ = None"

fun dec_ptr :: "((string \<times> json) list \<Rightarrow> 'a option) \<Rightarrow> json \<Rightarrow> 'a option option" where
  \<comment> \<open>a pointer to a struct\<close>
  "dec_ptr f JNull = Some None"
| "dec_ptr f (JObj fs) = map_option Some (f fs)"
| "dec_ptr f _ = None"

fun dec_list :: "(json \<Rightarrow> 'a option) \<Rightarrow> json \<Rightarrow> 'a list option" where
  "dec_list f JNull = Some []"
| "dec_list f (JArr vs) = those (map f vs)"
| "dec_list f _ = None"

lemma jfield_Nil [simp]: "jfield k [] = JNull"
  by (simp add: jfield_def)

end
