(* ===== verification/Usage.thy ===== *)
theory Usage
  imports Gateway_Errors Json "HOL-Library.Multiset"
begin

text \<open>
  Token accounting of one request (\<open>internal/gateway/upstream.go\<close>,
  \<open>internal/gateway/handler.go\<close>): what an upstream reply says was consumed, how an attempt
  is classified, how the attempts fold into the request and what they cost.
\<close>

section \<open>Usage blocks\<close>

record usage =
  \<comment> \<open>\<open>convert.Usage\<close>\<close>
  PromptTokens :: int
  CompletionTokens :: int
  TotalTokens :: int
  PromptTokensDetails :: "int option" \<comment> \<open>the cached tokens, when the details are present\<close>
  CacheWriteTokens :: int

definition zero_usage :: usage where
  "zero_usage = \<lparr>PromptTokens = 0, CompletionTokens = 0, TotalTokens = 0,
     PromptTokensDetails = None, CacheWriteTokens = 0\<rparr>"

record gemini_usage =
  PromptTokenCount :: int
  CandidatesTokenCount :: int
  ThoughtsTokenCount :: int
  TotalTokenCount :: int
  CachedContentTokenCount :: int

definition with_cached :: "int \<Rightarrow> usage \<Rightarrow> usage" where
  "with_cached n u = (if n > 0 then u\<lparr>PromptTokensDetails := Some n\<rparr> else u)"

definition total_or_sum :: "usage \<Rightarrow> usage" where
  "total_or_sum u =
     (if TotalTokens u = 0 then u\<lparr>TotalTokens := PromptTokens u + CompletionTokens u\<rparr> else u)"

definition geminiUsage :: "gemini_usage \<Rightarrow> usage" where
  "geminiUsage g =
     with_cached (CachedContentTokenCount g)
       (total_or_sum (zero_usage\<lparr>PromptTokens := PromptTokenCount g,
          CompletionTokens := CandidatesTokenCount g + ThoughtsTokenCount g,
          TotalTokens := TotalTokenCount g\<rparr>))"

record anthropic_usage =
  InputTokens :: int
  OutputTokens :: int
  CacheCreationInputTokens :: int
  CacheReadInputTokens :: int

section \<open>Decoding the usage block of a reply\<close>

definition dec_anthropic_usage :: "(string \<times> json) list \<Rightarrow> anthropic_usage option" where
  "dec_anthropic_usage fs = do {
     i \<leftarrow> dec_int (jfield ''input_tokens'' fs);
     out \<leftarrow> dec_int (jfield ''output_tokens'' fs);
     cw \<leftarrow> dec_int (jfield ''cache_creation_input_tokens'' fs);
     cr \<leftarrow> dec_int (jfield ''cache_read_input_tokens'' fs);
     Some \<lparr>InputTokens = i, OutputTokens = out, CacheCreationInputTokens = cw, CacheReadInputTokens = cr\<rparr> }"

definition zero_anthropic_usage :: anthropic_usage where
  "zero_anthropic_usage = \<lparr>InputTokens = 0, OutputTokens = 0, CacheCreationInputTokens = 0, CacheReadInputTokens = 0\<rparr>"

definition dec_gemini_usage :: "(string \<times> json) list \<Rightarrow> gemini_usage option" where
  "dec_gemini_usage fs = do {
     p \<leftarrow> dec_int (jfield ''promptTokenCount'' fs);
     c \<leftarrow> dec_int (jfield ''candidatesTokenCount'' fs);
     th \<leftarrow> dec_int (jfield ''thoughtsTokenCount'' fs);
     t \<leftarrow> dec_int (jfield ''totalTokenCount'' fs);
     ca \<leftarrow> dec_int (jfield ''cachedContentTokenCount'' fs);
     Some \<lparr>PromptTokenCount = p, CandidatesTokenCount = c, ThoughtsTokenCount = th,
           TotalTokenCount = t, CachedContentTokenCount = ca\<rparr> }"

definition dec_cached :: "(string \<times> json) list \<Rightarrow> int option" where
  "dec_cached fs = dec_int (jfield ''cached_tokens'' fs)"

definition dec_usage :: "(string \<times> json) list \<Rightarrow> usage option" where
  "dec_usage fs = do {
     p \<leftarrow> dec_int (jfield ''prompt_tokens'' fs);
     c \<leftarrow> dec_int (jfield ''completion_tokens'' fs);
     t \<leftarrow> dec_int (jfield ''total_tokens'' fs);
     d \<leftarrow> dec_ptr dec_cached (jfield ''prompt_tokens_details'' fs);
     Some \<lparr>PromptTokens = p, CompletionTokens = c, TotalTokens = t, PromptTokensDetails = d, CacheWriteTokens = 0\<rparr> }"

definition dec_responses_usage :: "(string \<times> json) list \<Rightarrow> usage option" where
  "dec_responses_usage fs = do {
     i \<leftarrow> dec_int (jfield ''input_tokens'' fs);
     out \<leftarrow> dec_int (jfield ''output_tokens'' fs);
     t \<leftarrow> dec_int (jfield ''total_tokens'' fs);
     ca \<leftarrow> dec_struct 0 dec_cached (jfield ''input_tokens_details'' fs);
     Some (with_cached ca (zero_usage\<lparr>PromptTokens := i, CompletionTokens := out, TotalTokens := t\<rparr>)) }"

text \<open>The two spellings of a pair of counts, as pointers.\<close>

record alias_usage =
  al_prompt :: "int option"
  al_completion :: "int option"
  al_input :: "int option"
  al_output :: "int option"
  al_prompt_cached :: "int option"
  al_input_cached :: "int option"

definition dec_alias_usage :: "bool \<Rightarrow> (string \<times> json) list \<Rightarrow> alias_usage option" where
  \<comment> \<open>with the details blocks (images) or without (custom JSON)\<close>
  "dec_alias_usage details fs = do {
     p \<leftarrow> dec_int_ptr (jfield ''prompt_tokens'' fs);
     c \<leftarrow> dec_int_ptr (jfield ''completion_tokens'' fs);
     i \<leftarrow> dec_int_ptr (jfield ''input_tokens'' fs);
     out \<leftarrow> dec_int_ptr (jfield ''output_tokens'' fs);
     pd \<leftarrow> (if details then dec_ptr dec_cached (jfield ''prompt_tokens_details'' fs) else Some None);
     idt \<leftarrow> (if details then dec_ptr dec_cached (jfield ''input_tokens_details'' fs) else Some None);
     Some \<lparr>al_prompt = p, al_completion = c, al_input = i, al_output = out,
           al_prompt_cached = pd, al_input_cached = idt\<rparr> }"

definition deref :: "int option \<Rightarrow> int" where
  "deref p = (case p of None \<Rightarrow> 0 | Some n \<Rightarrow> n)"

definition usage_of_pair :: "int option \<Rightarrow> int option \<Rightarrow> int \<Rightarrow> usage" where
  "usage_of_pair p c cached =
     with_cached cached (zero_usage\<lparr>PromptTokens := deref p, CompletionTokens := deref c,
       TotalTokens := deref p + deref c\<rparr>)"

definition image_usage :: "alias_usage \<Rightarrow> usage" where
  "image_usage r =
     (if al_prompt r \<noteq> None \<or> al_completion r \<noteq> None
      then usage_of_pair (al_prompt r) (al_completion r) (deref (al_prompt_cached r))
      else if al_input r \<noteq> None \<or> al_output r \<noteq> None
      then usage_of_pair (al_input r) (al_output r) (deref (al_input_cached r))
      else usage_of_pair None None 0)"

definition custom_usage :: "alias_usage \<Rightarrow> usage option" where
  "custom_usage r =
     (if al_prompt r \<noteq> None \<or> al_completion r \<noteq> None
      then Some (usage_of_pair (al_prompt r) (al_completion r) 0)
      else if al_input r \<noteq> None \<or> al_output r \<noteq> None
      then Some (usage_of_pair (al_input r) (al_output r) 0)
      else None)"

definition anthropic_reply_usage :: "anthropic_usage \<Rightarrow> usage" where
  "anthropic_reply_usage a =
     (let p = InputTokens a + CacheReadInputTokens a + CacheCreationInputTokens a
      in with_cached (CacheReadInputTokens a)
           (zero_usage\<lparr>PromptTokens := p, CacheWriteTokens := CacheCreationInputTokens a,
              CompletionTokens := OutputTokens a, TotalTokens := p + OutputTokens a\<rparr>))"

definition top_field :: "string \<Rightarrow> (json \<Rightarrow> 'a option) \<Rightarrow> json option \<Rightarrow> 'a option" where
  \<comment> \<open>\<open>json.Unmarshal(raw, &r)\<close> for a struct with one field; \<open>null\<close> decodes to nothing\<close>
  "top_field k f raw =
     (case raw of
        Some (JObj fs) \<Rightarrow> f (jfield k fs)
      | Some JNull \<Rightarrow> f JNull
      | _ \<Rightarrow> None)"

fun usageFromJSON :: "proto \<Rightarrow> json option \<Rightarrow> usage \<times> bool" where
  "usageFromJSON ProtoGemini raw =
     (case top_field ''usageMetadata'' (dec_ptr dec_gemini_usage) raw of
        Some (Some g) \<Rightarrow> (geminiUsage g, True)
      | _ \<Rightarrow> (zero_usage, False))"
| "usageFromJSON ProtoAnthropicMessages raw =
     (case top_field ''usage'' (dec_struct zero_anthropic_usage dec_anthropic_usage) raw of
        Some a \<Rightarrow> (anthropic_reply_usage a, TotalTokens (anthropic_reply_usage a) > 0)
      | None \<Rightarrow> (zero_usage, False))"
| "usageFromJSON ProtoOpenAIResponses raw =
     (case top_field ''usage'' (dec_ptr dec_responses_usage) raw of
        Some (Some u) \<Rightarrow> (u, True)
      | _ \<Rightarrow> (zero_usage, False))"
| "usageFromJSON ProtoOpenAIImages raw =
     (case top_field ''usage'' (dec_ptr (dec_alias_usage True)) raw of
        Some (Some r) \<Rightarrow> (image_usage r, TotalTokens (image_usage r) > 0)
      | _ \<Rightarrow> (zero_usage, False))"
| "usageFromJSON ProtoCustomJSON raw =
     (case top_field ''usage'' (dec_ptr (dec_alias_usage False)) raw of
        Some (Some r) \<Rightarrow> (case custom_usage r of Some u \<Rightarrow> (u, True) | None \<Rightarrow> (zero_usage, False))
      | _ \<Rightarrow> (zero_usage, False))"
| "usageFromJSON p raw =
     (case top_field ''usage'' (dec_ptr dec_usage) raw of
        Some (Some u) \<Rightarrow> (total_or_sum u, True)
      | _ \<Rightarrow> (zero_usage, False))"

section \<open>Attempts\<close>

datatype usage_status = UsageConfirmed | UsagePartial | UsageUnknown | UsageNone

record attemptRecord =
  at_account :: nat
  at_account_name :: string
  at_provider :: string
  at_protocol :: proto
  at_model :: string
  at_status :: int
  at_latency :: int
  at_error :: string
  at_usage :: "usage_status option" \<comment> \<open>None: the empty string, an attempt never sent\<close>
  at_prompt :: int
  at_completion :: int
  at_cached :: int
  at_cache_write :: int
  at_cost :: int
  at_cost_known :: bool

datatype network_error = DialError | DNSError | OtherNetworkError

definition networkFailureUsage :: "network_error \<Rightarrow> bool \<Rightarrow> usage_status" where
  "networkFailureUsage err sent =
     (if \<not> sent then UsageNone
      else case err of DialError \<Rightarrow> UsageNone | DNSError \<Rightarrow> UsageNone | OtherNetworkError \<Rightarrow> UsageUnknown)"

definition httpFailureUsage :: "int \<Rightarrow> usage_status" where
  "httpFailureUsage status = (if status \<ge> 500 then UsageUnknown else UsageNone)"

definition retryable :: "int \<Rightarrow> bool" where
  "retryable status \<longleftrightarrow> status \<in> {401, 403, 402} \<or> status \<in> {408, 429} \<or> status \<ge> 500 \<or> status = 404"

datatype failure_kind = KindCredentials | KindRateLimited | KindModelMissing | KindServerError | KindOther

definition failureKind :: "int \<Rightarrow> failure_kind" where
  "failureKind status =
     (if status \<in> {401, 403, 402} then KindCredentials
      else if status = 429 then KindRateLimited
      else if status = 404 then KindModelMissing
      else if status \<ge> 500 then KindServerError
      else KindOther)"

text \<open>A Retry-After header: a number of seconds (an \<open>int\<close>, multiplied with wrap-around), a
  date (its distance from now), or neither.\<close>

datatype retry_header = NoRetry | RetrySeconds int | RetryDate time

definition parseRetryAfter :: "retry_header \<Rightarrow> time \<Rightarrow> duration" where
  "parseRetryAfter v now =
     (let d = (case v of NoRetry \<Rightarrow> 0 | RetrySeconds secs \<Rightarrow> wrap64 (secs * second) | RetryDate t \<Rightarrow> t - now)
      in if d \<le> 0 then 0 else if d > 15 * minute then 15 * minute else d)"

record attempt_fold =
  af_unknown :: bool
  af_partial :: bool
  af_confirmed :: bool
  af_prompt :: int
  af_completion :: int

fun fold_attempts :: "attemptRecord list \<Rightarrow> attempt_fold \<Rightarrow> attempt_fold" where
  "fold_attempts [] f = f"
| "fold_attempts (a # as) f =
     fold_attempts as
       (case at_usage a of
          Some UsageConfirmed \<Rightarrow> f\<lparr>af_confirmed := True, af_prompt := af_prompt f + at_prompt a,
             af_completion := af_completion f + at_completion a\<rparr>
        | Some UsagePartial \<Rightarrow> f\<lparr>af_partial := True, af_prompt := af_prompt f + at_prompt a,
             af_completion := af_completion f + at_completion a\<rparr>
        | Some UsageUnknown \<Rightarrow> f\<lparr>af_unknown := True\<rparr>
        | _ \<Rightarrow> f)"

definition status_of_fold :: "attempt_fold \<Rightarrow> usage_status" where
  "status_of_fold f =
     (if af_unknown f then UsageUnknown
      else if af_partial f then UsagePartial
      else if af_confirmed f then UsageConfirmed
      else UsageNone)"

definition no_attempts :: attempt_fold where
  "no_attempts = \<lparr>af_unknown = False, af_partial = False, af_confirmed = False, af_prompt = 0, af_completion = 0\<rparr>"

definition usageFromAttempts :: "attemptRecord list \<Rightarrow> usage_status \<times> int \<times> int" where
  "usageFromAttempts as =
     (let f = fold_attempts as no_attempts in (status_of_fold f, af_prompt f, af_completion f))"

text \<open>The part of the call log the accounting writes.\<close>

datatype call_result = ResNone | ResSuccess | ResClientError | ResUpstreamError | ResBlocked | ResRateLimited

record call_log =
  cl_request_id :: string
  cl_user :: nat
  cl_username :: string
  cl_group :: nat
  cl_group_name :: string
  cl_key :: nat
  cl_key_name :: string
  cl_account :: nat
  cl_account_name :: string
  cl_provider :: string
  cl_request_model :: string
  cl_upstream_model :: string
  cl_model_group :: string
  cl_api_type :: api_type
  cl_upstream_protocol :: "proto option"
  cl_stream :: bool
  cl_prompt :: int
  cl_completion :: int
  cl_total :: int
  cl_cached :: int
  cl_cache_write :: int
  cl_tokens_known :: bool
  cl_usage :: "usage_status option"
  cl_est_prompt :: int
  cl_corrected :: bool
  cl_result :: call_result
  cl_status :: int
  cl_latency :: int
  cl_upstream_latency :: int
  cl_cost :: int
  cl_cost_known :: bool
  cl_cost_ledger :: string
  cl_error :: string
  cl_attempts :: "attemptRecord list"
  cl_route_label :: string
  cl_created :: time

definition setUsage_attempt :: "usage \<Rightarrow> bool \<Rightarrow> bool \<Rightarrow> attemptRecord \<Rightarrow> attemptRecord" where
  "setUsage_attempt u known complete a =
     (let p = PromptTokens u; c = CompletionTokens u; total = p + c;
          (p, total) = (if total = 0 \<and> TotalTokens u > 0 then (TotalTokens u, TotalTokens u) else (p, total))
      in a\<lparr>at_prompt := p, at_completion := c,
           at_usage := Some (if known \<and> total > 0 \<and> complete then UsageConfirmed
                             else if known \<and> total > 0 then UsagePartial
                             else UsageUnknown)\<rparr>)"

definition setUsage :: "usage \<Rightarrow> bool \<Rightarrow> bool \<Rightarrow> attemptRecord list \<times> call_log \<Rightarrow> attemptRecord list \<times> call_log" where
  "setUsage u known complete r =
     (let (as, l) = r
      in if as = [] then (as, l)
         else
           let l1 = (case PromptTokensDetails u of None \<Rightarrow> l | Some n \<Rightarrow> l\<lparr>cl_cached := n\<rparr>);
               l2 = (if CacheWriteTokens u > 0 then l1\<lparr>cl_cache_write := CacheWriteTokens u\<rparr> else l1)
           in (butlast as @ [setUsage_attempt u known complete (last as)], l2))"

section \<open>Pricing the attempts\<close>

type_synonym pricer = "string \<Rightarrow> string \<Rightarrow> int \<Rightarrow> int \<Rightarrow> int \<Rightarrow> int \<Rightarrow> int \<times> bool"

definition consumed :: "attemptRecord \<Rightarrow> bool" where
  "consumed a \<longleftrightarrow> at_prompt a + at_completion a > 0"

fun last_consumed :: "attemptRecord list \<Rightarrow> nat \<Rightarrow> int \<Rightarrow> int" where
  "last_consumed [] i lst = lst"
| "last_consumed (a # as) i lst = last_consumed as (Suc i) (if consumed a then int i else lst)"

fun price_loop :: "pricer \<Rightarrow> call_log \<Rightarrow> int \<Rightarrow> nat \<Rightarrow> attemptRecord list \<Rightarrow> bool \<Rightarrow> int \<Rightarrow>
     attemptRecord list \<times> bool \<times> int" where
  "price_loop cost l lst i [] known sm = ([], known, sm)"
| "price_loop cost l lst i (a # as) known sm =
     (let known1 = (if at_usage a = Some UsageUnknown \<or> at_usage a = Some UsagePartial then False else known)
      in if at_prompt a + at_completion a = 0
         then let (as', k, t) = price_loop cost l lst (Suc i) as known1 sm in (a # as', k, t)
         else
           let a1 = (if int i = lst then a\<lparr>at_cached := cl_cached l, at_cache_write := cl_cache_write l\<rparr> else a);
               (micros, ok) = cost (at_provider a1) (at_model a1) (at_prompt a1) (at_completion a1)
                                (at_cached a1) (at_cache_write a1);
               a2 = a1\<lparr>at_cost := micros, at_cost_known := ok\<rparr>;
               (as', k, t) = price_loop cost l lst (Suc i) as (if \<not> ok then False else known1) (sm + micros)
           in (a2 # as', k, t))"

definition priceAttempts :: "pricer option \<Rightarrow> attemptRecord list \<times> call_log \<Rightarrow> attemptRecord list \<times> call_log" where
  "priceAttempts pr r =
     (case pr of
        None \<Rightarrow> r
      | Some cost \<Rightarrow>
          let (as, l) = r; lst = last_consumed as 0 (- 1)
          in if lst < 0 then (as, l)
             else let (as', known, sm) = price_loop cost l lst 0 as True 0
                  in (as', l\<lparr>cl_cost := sm, cl_cost_known := known, cl_cost_ledger := ''USD''\<rparr>))"

definition protoPath :: "proto \<Rightarrow> string \<Rightarrow> bool \<Rightarrow> string" where
  "protoPath p m stream =
     (case p of
        ProtoCustomJSON \<Rightarrow> ''/''
      | ProtoGemini \<Rightarrow> if stream then ''/models/'' @ m @ '':streamGenerateContent?alt=sse''
                       else ''/models/'' @ m @ '':generateContent''
      | ProtoOpenAIChat \<Rightarrow> ''/chat/completions''
      | ProtoOpenAIResponses \<Rightarrow> ''/responses''
      | ProtoAnthropicMessages \<Rightarrow> ''/messages''
      | ProtoOpenAIEmbeddings \<Rightarrow> ''/embeddings''
      | ProtoOpenAIImages \<Rightarrow> ''/images/generations'')"

section \<open>The folds\<close>

lemma fold_attempts_eq:
  "af_unknown (fold_attempts as f) \<longleftrightarrow> af_unknown f \<or> (\<exists>a\<in>set as. at_usage a = Some UsageUnknown)"
  "af_partial (fold_attempts as f) \<longleftrightarrow> af_partial f \<or> (\<exists>a\<in>set as. at_usage a = Some UsagePartial)"
  "af_confirmed (fold_attempts as f) \<longleftrightarrow> af_confirmed f \<or> (\<exists>a\<in>set as. at_usage a = Some UsageConfirmed)"
  "af_prompt (fold_attempts as f) =
     af_prompt f + (\<Sum>a\<leftarrow>as. if at_usage a \<in> {Some UsageConfirmed, Some UsagePartial} then at_prompt a else 0)"
  "af_completion (fold_attempts as f) =
     af_completion f + (\<Sum>a\<leftarrow>as. if at_usage a \<in> {Some UsageConfirmed, Some UsagePartial} then at_completion a else 0)"
  by (induction as arbitrary: f) (auto split: option.splits usage_status.splits)

lemma usage_status_cases:
  "x \<in> {Some UsageConfirmed, Some UsageNone, None} \<longleftrightarrow> x \<noteq> Some UsageUnknown \<and> x \<noteq> Some UsagePartial"
  "x \<in> {Some UsageNone, None} \<longleftrightarrow> x \<noteq> Some UsageUnknown \<and> x \<noteq> Some UsagePartial \<and> x \<noteq> Some UsageConfirmed"
  by (cases x; cases "the x"; simp)+

text \<open>The request's usage does not depend on the order of its attempts and tells the
  whole truth: the token counts are the sums over the attempts that reported any, confirmed
  means that every attempt was confirmed or consumed nothing, and none that no upstream
  processed the request.\<close>

lemma usage_fold:
  assumes "usageFromAttempts as = (status, p, c)"
  shows "p = (\<Sum>a\<leftarrow>filter (\<lambda>a. at_usage a \<in> {Some UsageConfirmed, Some UsagePartial}) as. at_prompt a) \<and>
    c = (\<Sum>a\<leftarrow>filter (\<lambda>a. at_usage a \<in> {Some UsageConfirmed, Some UsagePartial}) as. at_completion a) \<and>
    (status = UsageConfirmed \<longleftrightarrow>
       (\<exists>a\<in>set as. at_usage a = Some UsageConfirmed) \<and>
       (\<forall>a\<in>set as. at_usage a \<in> {Some UsageConfirmed, Some UsageNone, None})) \<and>
    (status = UsageNone \<longleftrightarrow> (\<forall>a\<in>set as. at_usage a \<in> {Some UsageNone, None})) \<and>
    (\<forall>bs. mset bs = mset as \<longrightarrow> usageFromAttempts bs = usageFromAttempts as)"
proof -
  have sums: "(\<Sum>a\<leftarrow>as. if P a then f a else 0) = (\<Sum>a\<leftarrow>filter P as. f a)" for P and f :: "attemptRecord \<Rightarrow> int" and as
    by (induction as) auto
  have all: "usageFromAttempts bs =
      (status_of_fold (fold_attempts bs no_attempts),
       (\<Sum>a\<in>#mset bs. if at_usage a \<in> {Some UsageConfirmed, Some UsagePartial} then at_prompt a else 0),
       (\<Sum>a\<in>#mset bs. if at_usage a \<in> {Some UsageConfirmed, Some UsagePartial} then at_completion a else 0))" for bs
    unfolding usageFromAttempts_def Let_def fold_attempts_eq
    by (simp add: no_attempts_def sum_mset_sum_list flip: mset_map)
  have st: "status_of_fold (fold_attempts bs no_attempts) = status_of_fold (fold_attempts as no_attempts)"
    if "mset bs = mset as" for bs
    using mset_eq_setD [OF that] by (simp add: status_of_fold_def fold_attempts_eq no_attempts_def)
  have perm: "\<forall>bs. mset bs = mset as \<longrightarrow> usageFromAttempts bs = usageFromAttempts as"
  proof (intro allI impI)
    fix bs assume m: "mset bs = mset as"
    show "usageFromAttempts bs = usageFromAttempts as" unfolding all st [OF m] m ..
  qed
  have status: "status = status_of_fold (fold_attempts as no_attempts)"
    using assms by (simp add: usageFromAttempts_def Let_def)
  have conf: "status = UsageConfirmed \<longleftrightarrow>
       (\<exists>a\<in>set as. at_usage a = Some UsageConfirmed) \<and>
       (\<forall>a\<in>set as. at_usage a \<in> {Some UsageConfirmed, Some UsageNone, None})"
    unfolding status status_of_fold_def fold_attempts_eq no_attempts_def
    usage_status_cases by (auto split: if_splits)
  have none: "status = UsageNone \<longleftrightarrow> (\<forall>a\<in>set as. at_usage a \<in> {Some UsageNone, None})"
    unfolding status status_of_fold_def fold_attempts_eq no_attempts_def
    usage_status_cases by (auto split: if_splits)
  have "p = af_prompt (fold_attempts as no_attempts)" "c = af_completion (fold_attempts as no_attempts)"
    using assms by (simp_all add: usageFromAttempts_def Let_def)
  then have "p = (\<Sum>a\<leftarrow>filter (\<lambda>a. at_usage a \<in> {Some UsageConfirmed, Some UsagePartial}) as. at_prompt a)"
    "c = (\<Sum>a\<leftarrow>filter (\<lambda>a. at_usage a \<in> {Some UsageConfirmed, Some UsagePartial}) as. at_completion a)"
    unfolding fold_attempts_eq sums by (simp_all add: no_attempts_def)
  with perm conf none show ?thesis by blast
qed

definition sample_attempt :: "usage_status option \<Rightarrow> int \<Rightarrow> int \<Rightarrow> attemptRecord" where
  "sample_attempt st p c =
     \<lparr>at_account = 1, at_account_name = ''a'', at_provider = ''openai'', at_protocol = ProtoOpenAIChat,
      at_model = ''gpt-5'', at_status = 200, at_latency = 0, at_error = '''', at_usage = st,
      at_prompt = p, at_completion = c, at_cached = 0, at_cache_write = 0, at_cost = 0, at_cost_known = False\<rparr>"

lemma usage_fold_witness:
  "(\<Sum>a\<leftarrow>filter (\<lambda>a. at_usage a \<in> {Some UsageConfirmed, Some UsagePartial})
       [sample_attempt (Some UsageConfirmed) 7 2, sample_attempt (Some UsageUnknown) 9 0,
        sample_attempt (Some UsageConfirmed) 10 5]. at_prompt a) = 17"
  using usage_fold [of "[sample_attempt (Some UsageConfirmed) 7 2, sample_attempt (Some UsageUnknown) 9 0,
        sample_attempt (Some UsageConfirmed) 10 5]" UsageUnknown 17 7]
  by (simp add: usageFromAttempts_def sample_attempt_def no_attempts_def status_of_fold_def)

section \<open>Retry-After\<close>

text \<open>A Retry-After of up to 292 years is honoured up to fifteen minutes, a date
  likewise, and what is left in the past is no delay.\<close>

lemma retry_after_capped:
  assumes "case v of RetrySeconds s \<Rightarrow> s \<le> 9223372036 \<and> - 9223372036 \<le> s | _ \<Rightarrow> True"
  shows "parseRetryAfter v now =
    (case v of NoRetry \<Rightarrow> 0
     | RetrySeconds s \<Rightarrow> min (max 0 s * second) (15 * minute)
     | RetryDate t \<Rightarrow> min (max 0 (t - now)) (15 * minute))"
proof (cases v)
  case (RetrySeconds s)
  then have "wrap64 (s * second) = s * second"
    using assms by (intro wrap64_id) (auto simp: second_def)
  with RetrySeconds show ?thesis
    by (auto simp: parseRetryAfter_def Let_def second_def minute_def min_def max_def)
qed (auto simp: parseRetryAfter_def Let_def minute_def second_def min_def max_def)

lemma retry_after_capped_witness:
  "parseRetryAfter (RetrySeconds 90) 0 = 90 * second \<and> parseRetryAfter (RetrySeconds 5000) 0 = 15 * minute"
  using retry_after_capped [of "RetrySeconds 90" 0] retry_after_capped [of "RetrySeconds 5000" 0]
  by (simp add: second_def minute_def)

text \<open>One second more and the multiplication wraps around: a Retry-After of 9223372037
  seconds is read as none at all, and the largest one that fits as three quarters of a second.\<close>

lemma retry_after_wraps:
  "parseRetryAfter (RetrySeconds 9223372037) now = 0 \<and>
   parseRetryAfter (RetrySeconds 18446744074) now = 290448384"
  by (simp add: parseRetryAfter_def Let_def wrap64_def second_def minute_def)

section \<open>Pricing\<close>

lemma price_loop_keeps:
  "price_loop cost l lst i as known sm = (as', k, t) \<Longrightarrow>
     length as' = length as \<and>
     (\<forall>j < length as. at_usage (as' ! j) = at_usage (as ! j) \<and> at_prompt (as' ! j) = at_prompt (as ! j) \<and>
        at_completion (as' ! j) = at_completion (as ! j) \<and> at_account (as' ! j) = at_account (as ! j))"
proof (induction as arbitrary: i known sm as' k t)
  case (Cons a as)
  obtain a2 bs i2 kn2 sm2 where as': "as' = a2 # bs" and rest: "price_loop cost l lst (Suc i) as kn2 sm2 = (bs, k, t)"
    and a2: "at_usage a2 = at_usage a" "at_prompt a2 = at_prompt a" "at_completion a2 = at_completion a"
      "at_account a2 = at_account a"
    using Cons.prems by (auto simp: Let_def split: if_splits prod.splits)
  show ?case
    using Cons.IH [OF rest] a2 unfolding as' by (auto simp: nth_Cons split: nat.splits)
qed simp

definition billed :: "attemptRecord \<Rightarrow> bool" where
  "billed a \<longleftrightarrow> at_prompt a + at_completion a \<noteq> 0"

lemma price_loop_sum:
  "price_loop cost l lst i as known sm = (as', k, t) \<Longrightarrow>
     t = sm + (\<Sum>a\<leftarrow>filter billed as'. at_cost a) \<and>
     (k \<longleftrightarrow> known \<and> (\<forall>a\<in>set as. at_usage a \<notin> {Some UsageUnknown, Some UsagePartial}) \<and>
        (\<forall>a\<in>set as'. billed a \<longrightarrow> at_cost_known a))"
proof (induction as arbitrary: i known sm as' k t)
  case (Cons a as)
  show ?case
  proof (cases "billed a")
    case False
    then obtain bs where as': "as' = a # bs"
      and rest: "price_loop cost l lst (Suc i) as
        (if at_usage a = Some UsageUnknown \<or> at_usage a = Some UsagePartial then False else known) sm = (bs, k, t)"
      using Cons.prems by (auto simp: Let_def billed_def split: prod.splits)
    show ?thesis using Cons.IH [OF rest] False unfolding as' by auto
  next
    case True
    define a1 where "a1 = (if int i = lst then a\<lparr>at_cached := cl_cached l, at_cache_write := cl_cache_write l\<rparr> else a)"
    obtain micros ok where c: "cost (at_provider a1) (at_model a1) (at_prompt a1) (at_completion a1)
        (at_cached a1) (at_cache_write a1) = (micros, ok)" by fastforce
    obtain bs where as': "as' = a1\<lparr>at_cost := micros, at_cost_known := ok\<rparr> # bs"
      and rest: "price_loop cost l lst (Suc i) as (if \<not> ok then False
          else if at_usage a = Some UsageUnknown \<or> at_usage a = Some UsagePartial then False else known)
          (sm + micros) = (bs, k, t)"
      using Cons.prems True c unfolding price_loop.simps Let_def a1_def [symmetric]
      by (auto simp: billed_def split: prod.splits)
    have b: "billed (a1\<lparr>at_cost := micros, at_cost_known := ok\<rparr>)" using True by (simp add: billed_def a1_def)
    show ?thesis using Cons.IH [OF rest] b unfolding as' by (auto split: if_splits)
  qed
qed simp

lemma last_consumed_neg: "last_consumed as i lst < 0 \<longleftrightarrow> lst < 0 \<and> \<not> (\<exists>a\<in>set as. consumed a)"
  by (induction as i lst rule: last_consumed.induct) auto

lemma price_loop_usage:
  assumes "price_loop cost l lst i as known sm = (as', k, t)"
  shows "usageFromAttempts as' = usageFromAttempts as"
proof -
  have keep: "length as' = length as" "\<And>j. j < length as \<Longrightarrow> at_usage (as' ! j) = at_usage (as ! j) \<and>
      at_prompt (as' ! j) = at_prompt (as ! j) \<and> at_completion (as' ! j) = at_completion (as ! j)"
    using price_loop_keeps [OF assms] by auto
  have "fold_attempts as' f = fold_attempts as f" for f
    using keep
  proof (induction as' as arbitrary: f rule: list_induct2')
    case (4 x xs y ys)
    have "at_usage x = at_usage y" "at_prompt x = at_prompt y" "at_completion x = at_completion y"
      using 4(3) [of 0] by simp_all
    moreover have "\<And>j. j < length ys \<Longrightarrow> at_usage (xs ! j) = at_usage (ys ! j) \<and>
        at_prompt (xs ! j) = at_prompt (ys ! j) \<and> at_completion (xs ! j) = at_completion (ys ! j)"
      using 4(3) [of "Suc j" for j] by simp
    ultimately show ?case using 4(1,2) by (simp split: option.split usage_status.split)
  qed auto
  then show ?thesis by (simp add: usageFromAttempts_def)
qed

lemma priceAttempts_usage: "priceAttempts pr (as, l) = (as', l') \<Longrightarrow> usageFromAttempts as' = usageFromAttempts as"
  using price_loop_usage by (auto simp: priceAttempts_def Let_def split: option.splits if_splits prod.splits)

text \<open>With a price table, the request costs the sum of what its attempts with tokens
  cost, and the figure is called known only if every one of them had a price and no attempt's
  consumption is unknown or partial; usage counts are never changed by pricing.\<close>

lemma price_sums:
  assumes "priceAttempts (Some cost) (as, l) = (as', l')" and "\<exists>a\<in>set as. consumed a"
  shows "cl_cost l' = (\<Sum>a\<leftarrow>filter billed as'. at_cost a) \<and>
    (cl_cost_known l' \<longleftrightarrow> (\<forall>a\<in>set as. at_usage a \<notin> {Some UsageUnknown, Some UsagePartial}) \<and>
       (\<forall>a\<in>set as'. billed a \<longrightarrow> at_cost_known a)) \<and>
    usageFromAttempts as' = usageFromAttempts as"
proof -
  obtain k t where lp: "price_loop cost l (last_consumed as 0 (- 1)) 0 as True 0 = (as', k, t)"
    and l': "l' = l\<lparr>cl_cost := t, cl_cost_known := k, cl_cost_ledger := ''USD''\<rparr>"
    using assms last_consumed_neg [of as 0 "-1"]
    by (auto simp: priceAttempts_def Let_def split: prod.splits if_splits)
  with price_loop_sum [OF lp] price_loop_usage [OF lp] show ?thesis unfolding l' by simp
qed

definition new_log :: "string \<Rightarrow> api_type \<Rightarrow> time \<Rightarrow> call_log" where
  \<comment> \<open>the log of a new request\<close>
  "new_log i t now =
     \<lparr>cl_request_id = i, cl_user = 0, cl_username = '''', cl_group = 0, cl_group_name = '''',
      cl_key = 0, cl_key_name = '''', cl_account = 0, cl_account_name = '''', cl_provider = '''',
      cl_request_model = '''', cl_upstream_model = '''', cl_model_group = '''', cl_api_type = t,
      cl_upstream_protocol = None, cl_stream = False, cl_prompt = 0, cl_completion = 0, cl_total = 0,
      cl_cached = 0, cl_cache_write = 0, cl_tokens_known = False, cl_usage = None, cl_est_prompt = 0,
      cl_corrected = False, cl_result = ResNone, cl_status = 0, cl_latency = 0, cl_upstream_latency = 0,
      cl_cost = 0, cl_cost_known = False, cl_cost_ledger = '''', cl_error = '''', cl_attempts = [],
      cl_route_label = '''', cl_created = now\<rparr>"

definition sample_pricer :: pricer where
  "sample_pricer prov m p c ca cw = (2 * p + 8 * c, m = ''gpt-5'')"

lemma price_sums_witness:
  "cl_cost (snd (priceAttempts (Some sample_pricer)
     ([sample_attempt (Some UsageConfirmed) 7 2, sample_attempt (Some UsageNone) 0 0,
       sample_attempt (Some UsageConfirmed) 10 5], new_log ''r'' TypeText 0))) = 90"
  using price_sums [of sample_pricer "[sample_attempt (Some UsageConfirmed) 7 2, sample_attempt (Some UsageNone) 0 0,
       sample_attempt (Some UsageConfirmed) 10 5]" "new_log ''r'' TypeText 0"]
  by (simp add: priceAttempts_def sample_attempt_def sample_pricer_def consumed_def billed_def new_log_def)

end
