(* ===== verification/Admission.thy ===== *)
theory Admission
  imports Snapshot Usage Limiter Rate_Limit Quota Health Key_Cache
begin

text \<open>
  The front half of the request pipeline (\<open>internal/gateway/handler.go\<close>): authentication,
  \<open>prepare\<close>, the concurrency slots and the candidate models, and \<open>fail\<close> /
  \<open>finish\<close>, which close every request. The gateway's shared state is threaded through;
  one request runs at a time between the points where the theories of the single components
  treat concurrency. Metrics counters, the activity marks and the audit log are left out.
\<close>

section \<open>State\<close>

record perf =
  pf_max_body_kb :: int
  pf_queue_timeout :: int
  pf_max_retries :: int
  pf_cooldown :: int
  pf_request_timeout :: int

record gw =
  gw_gate :: gate
  gw_groups :: counter_map
  gw_apikeys :: counter_map
  gw_accounts :: counter_map
  gw_health :: healthTracker
  gw_jobs :: "health_job list"
  gw_rates :: rateLimiter
  gw_quota :: quotaTracker
  gw_budget :: budget
  gw_logs :: "call_log list"

datatype reply =
    ErrorReply int error_body
  | RawReply int string
  | StreamReply

record req =
  rq_proto :: proto
  rq_api_type :: api_type
  rq_principal :: "Principal option"
  rq_group :: "GroupView option"
  rq_raw :: "(string \<times> json) list"
  rq_body :: string
  rq_model :: string
  rq_path_model :: string
  rq_path_stream :: bool
  rq_endpoint :: string
  rq_multipart :: bool
  rq_stream :: bool
  rq_include_usage :: bool
  rq_start :: time
  rq_log :: call_log
  rq_attempts :: "attemptRecord list"
  rq_wrote :: bool
  rq_reserved :: int
  rq_retry_after :: "string option" \<comment> \<open>the Retry-After header of the reply\<close>
  rq_out :: "reply list" \<comment> \<open>what the client was sent\<close>

definition newRequest :: "string \<Rightarrow> proto \<Rightarrow> time \<Rightarrow> req" where
  "newRequest i p now =
     \<lparr>rq_proto = p, rq_api_type = protocolType p, rq_principal = None, rq_group = None, rq_raw = [],
      rq_body = '''', rq_model = '''', rq_path_model = '''', rq_path_stream = False, rq_endpoint = '''',
      rq_multipart = False, rq_stream = False, rq_include_usage = False, rq_start = now,
      rq_log = new_log i (protocolType p) now, rq_attempts = [], rq_wrote = False, rq_reserved = 0,
      rq_retry_after = None, rq_out = []\<rparr>"

definition group_subject :: "nat \<Rightarrow> string" where
  "group_subject i = ''g:'' @ dec_nat i"

definition key_subject :: "nat \<Rightarrow> string" where
  "key_subject i = ''k:'' @ dec_nat i"

lemma subjects_distinct:
  "group_subject i = group_subject j \<longleftrightarrow> i = j" "key_subject i = key_subject j \<longleftrightarrow> i = j"
  "group_subject i \<noteq> key_subject j"
  by (auto simp: group_subject_def key_subject_def dest: dec_nat_inj)

section \<open>Closing a request\<close>

definition account_usage :: "req \<Rightarrow> req" where
  \<comment> \<open>the request-level usage in \<open>finish\<close>\<close>
  "account_usage q =
     (let (st, p, c) = usageFromAttempts (rq_attempts q);
          l = (rq_log q)\<lparr>cl_usage := Some st, cl_prompt := p, cl_completion := c, cl_total := p + c,
                 cl_tokens_known := (st = UsageConfirmed)\<rparr>
      in q\<lparr>rq_log := (if st = UsagePartial \<or> st = UsageUnknown
                     then l\<lparr>cl_est_prompt := int (length (rq_body q)) div 4\<rparr> else l)\<rparr>)"

definition identify :: "req \<Rightarrow> call_log \<Rightarrow> call_log" where
  "identify q l =
     (let l1 = (case rq_principal q of None \<Rightarrow> l
                | Some p \<Rightarrow> l\<lparr>cl_user := UserID p, cl_username := Username p, cl_key := KeyID p, cl_key_name := KeyName p\<rparr>)
      in case rq_group q of None \<Rightarrow> l1
         | Some gv \<Rightarrow> l1\<lparr>cl_group := gv_id gv, cl_group_name := gv_name gv\<rparr>)"

definition book_tokens :: "int \<Rightarrow> time \<Rightarrow> req \<Rightarrow> int \<Rightarrow> gw \<Rightarrow> gw" where
  "book_tokens zone now q n g =
     (let g1 = (case rq_group q of
                  Some gv \<Rightarrow> if n > 0 then g\<lparr>gw_quota := quota_add zone (gv_id gv) n now (gw_quota g),
                               gw_rates := addTokens (group_subject (gv_id gv)) n now (gw_rates g)\<rparr> else g
                | None \<Rightarrow> g)
      in case rq_principal q of
           Some p \<Rightarrow> if n > 0 then g1\<lparr>gw_rates := addTokens (key_subject (KeyID p)) n now (gw_rates g1)\<rparr> else g1
         | None \<Rightarrow> g1)"

definition finish :: "int \<Rightarrow> pricer option \<Rightarrow> time \<Rightarrow> gw \<times> req \<Rightarrow> gw \<times> req" where
  "finish zone pr now gq =
     (let (g, q) = gq;
          g1 = (if rq_reserved q > 0 then g\<lparr>gw_budget := budget_release (rq_reserved q) (gw_budget g)\<rparr> else g);
          q1 = (if rq_reserved q > 0 then q\<lparr>rq_reserved := 0\<rparr> else q);
          q2 = account_usage (q1\<lparr>rq_log := (rq_log q1)\<lparr>cl_latency := (now - rq_start q1) div 1000000\<rparr>\<rparr>);
          (as, l) = priceAttempts pr (rq_attempts q2, rq_log q2);
          l1 = (if as \<noteq> [] then l\<lparr>cl_attempts := as\<rparr> else l);
          l2 = identify q2 l1;
          q3 = q2\<lparr>rq_attempts := as, rq_log := l2\<rparr>;
          g2 = book_tokens zone now q3 (cl_total l2) g1
      in (g2\<lparr>gw_logs := gw_logs g2 @ [l2]\<rparr>, q3))"

definition write_error :: "gateway_error \<Rightarrow> req \<Rightarrow> req" where
  "write_error e q =
     (if rq_wrote q then q
      else let (st, b) = writeErrorProto (rq_proto q) e
           in q\<lparr>rq_out := rq_out q @ [ErrorReply st b], rq_wrote := True\<rparr>)"

definition error_result :: "gateway_error \<Rightarrow> call_result" where
  "error_result e =
     (if e = ErrContentBlocked then ResBlocked
      else if gstatus e = 429 then ResRateLimited
      else if gstatus e \<ge> 500 then ResUpstreamError
      else ResClientError)"

definition fail_request :: "int \<Rightarrow> pricer option \<Rightarrow> time \<Rightarrow> gateway_error \<Rightarrow> gw \<times> req \<Rightarrow> gw \<times> req" where
  \<comment> \<open>\<open>Gateway.fail\<close>\<close>
  "fail_request zone pr now e gq =
     (let (g, q) = gq; q1 = write_error e q
      in finish zone pr now
           (g, q1\<lparr>rq_log := (rq_log q1)\<lparr>cl_status := gstatus e, cl_error := gmessage e,
                 cl_result := error_result e\<rparr>\<rparr>))"

section \<open>Authentication\<close>

record credentials =
  cr_authorization :: string
  cr_x_api_key :: string
  cr_api_key :: string
  cr_goog_key :: string
  cr_query_key :: string

definition or_else :: "string \<Rightarrow> string \<Rightarrow> string" where
  "or_else key h = (if key = '''' then trim_space h else key)"

definition presented_key :: "(string \<Rightarrow> string) \<Rightarrow> credentials \<Rightarrow> string" where
  "presented_key lower cr =
     (let a = cr_authorization cr;
          key = (if a \<noteq> '''' \<and> has_prefix (lower a) ''bearer '' then trim_space (drop 7 a) else '''')
      in or_else (or_else (or_else (or_else key (cr_x_api_key cr)) (cr_api_key cr)) (cr_goog_key cr)) (cr_query_key cr))"

definition authenticate :: "(string \<Rightarrow> string) \<Rightarrow> (string \<Rightarrow> Principal option) \<Rightarrow> credentials \<Rightarrow> gateway_error + Principal" where
  \<comment> \<open>\<open>look\<close>: the result of \<open>g.keys.lookup\<close>\<close>
  "authenticate lower look cr =
     (let key = presented_key lower cr
      in if key = '''' \<or> \<not> has_prefix key ''sk-'' then Inl ErrUnauthorized
         else case look key of
                None \<Rightarrow> Inl ErrUnauthorized
              | Some p \<Rightarrow>
                  if \<not> KeyEnabled p then Inl ErrKeyDisabled
                  else if KeyExpired p then Inl ErrKeyExpired
                  else if \<not> UserEnabled p then Inl ErrUserDisabled
                  else Inr p)"

section \<open>prepare\<close>

datatype body_read =
    BodyOk string "json option" \<comment> \<open>the bytes and their parse\<close>
  | BodyTooLarge
  | BodyUnreadable

record incoming =
  in_credentials :: credentials
  in_length :: int
  in_body :: body_read
  in_multipart :: bool \<comment> \<open>the content type is multipart/form-data\<close>
  in_form :: "string + string" \<comment> \<open>\<open>parseMultipart\<close>: its error, or the form's \<open>model\<close> field\<close>

definition effective_group :: "Snapshot \<Rightarrow> Principal \<Rightarrow> GroupView option" where
  "effective_group s p =
     (case (case sn_groups s (GroupID p) of None \<Rightarrow> DefaultGroup s | Some gv \<Rightarrow> Some gv) of
        None \<Rightarrow> None
      | Some grp \<Rightarrow>
          if gv_enabled grp then Some grp
          else case DefaultGroup s of
                 None \<Rightarrow> None
               | Some d \<Rightarrow> if gv_enabled d then Some d else None)"

definition body_limit :: "perf \<Rightarrow> int" where
  "body_limit pf = (let l = pf_max_body_kb pf * 1024 in if l \<le> 0 then 20 * 2 ^ 20 else l)"

definition reservation :: "perf \<Rightarrow> int \<Rightarrow> int" where
  "reservation pf len = (if len \<le> 0 \<or> len > body_limit pf then body_limit pf else len)"

definition raw_field :: "string \<Rightarrow> (string \<times> json) list \<Rightarrow> json option" where
  \<comment> \<open>a key of \<open>map[string]json.RawMessage\<close>\<close>
  "raw_field k fs = map_of (rev fs) k"

definition str_or_empty :: "json option \<Rightarrow> string" where
  "str_or_empty v = (case v of Some (JStr s) \<Rightarrow> s | _ \<Rightarrow> '''')"

definition bool_or_false :: "json option \<Rightarrow> bool" where
  "bool_or_false v = (case v of Some (JBool b) \<Rightarrow> b | _ \<Rightarrow> False)"

definition bad_body :: gateway_error where
  "bad_body = newErr 400 ''invalid_body'' ''Could not read request body''"

definition bad_form :: "string \<Rightarrow> gateway_error" where
  "bad_form err = newErr 400 ''invalid_body'' (''Could not parse multipart form: '' @ err)"

type_synonym step = "req \<times> gateway_error option"

fun and_then :: "step \<Rightarrow> (req \<Rightarrow> step) \<Rightarrow> step" where
  "and_then (q, Some e) f = (q, Some e)"
| "and_then (q, None) f = f q"

definition parse_body :: "incoming \<Rightarrow> req \<Rightarrow> step" where
  "parse_body inc q =
     (case in_body inc of
        BodyTooLarge \<Rightarrow> (q, Some ErrBodyTooLarge)
      | BodyUnreadable \<Rightarrow> (q, Some bad_body)
      | BodyOk bs parsed \<Rightarrow>
          let q1 = q\<lparr>rq_body := bs\<rparr>
          in if rq_proto q = ProtoOpenAIImages \<and> in_multipart inc
             then case in_form inc of
                    Inl err \<Rightarrow> (q1, Some (bad_form err))
                  | Inr m \<Rightarrow> (q1\<lparr>rq_multipart := True, rq_raw := [(''model'', JStr m)]\<rparr>, None)
             else case parsed of
                    Some (JObj fs) \<Rightarrow> (q1\<lparr>rq_raw := fs\<rparr>, None)
                  | _ \<Rightarrow> (q1, Some ErrBadJSON))"

definition quoted :: "string \<Rightarrow> string" where
  "quoted s = [CHR 0x27] @ s @ [CHR 0x27]"

definition missing_model :: gateway_error where
  "missing_model = newErr 400 ''missing_model'' (''The '' @ quoted ''model'' @ '' field is required'')"

definition read_model :: "req \<Rightarrow> step" where
  "read_model q =
     (let m = str_or_empty (raw_field ''model'' (rq_raw q));
          m = trim_space (if rq_path_model q \<noteq> [] then rq_path_model q else m);
          q1 = q\<lparr>rq_model := m\<rparr>
      in if m = [] then (q1, Some missing_model)
         else
           let st = (if rq_path_stream q then True else bool_or_false (raw_field ''stream'' (rq_raw q)));
               iu = (if rq_proto q = ProtoGemini then True else rq_include_usage q);
               iu = (case raw_field ''stream_options'' (rq_raw q) of
                       None \<Rightarrow> iu
                     | Some (JObj fs) \<Rightarrow> (case jfield ''include_usage'' fs of JBool b \<Rightarrow> b | _ \<Rightarrow> False)
                     | Some _ \<Rightarrow> False)
           in (q1\<lparr>rq_stream := st, rq_include_usage := iu, rq_log := (rq_log q1)\<lparr>cl_stream := st\<rparr>\<rparr>, None))"

definition ambiguous_model :: "string \<Rightarrow> gateway_error" where
  "ambiguous_model m = newErr 400 ''model_ambiguous''
     (''Model '' @ quoted m @ '' matches more than one configured model; use the exact configured name'')"

definition wrong_type :: "string \<Rightarrow> api_type option \<Rightarrow> gateway_error" where
  "wrong_type m t = newErr 400 ''model_type_mismatch''
     (''Model '' @ quoted m @ '' is a '' @ (case t of None \<Rightarrow> '''' | Some ty \<Rightarrow> type_text ty) @
      '' model and cannot be used with this endpoint'')"

definition model_allowed :: "Snapshot \<Rightarrow> GroupView \<Rightarrow> string \<Rightarrow> bool" where
  "model_allowed s grp m \<longleftrightarrow>
     (case gv_allowed grp of
        None \<Rightarrow> True
      | Some ms \<Rightarrow> m \<in> set ms \<or>
          (case groupByName s m of
             None \<Rightarrow> False
           | Some mg \<Rightarrow> (case gv_group_names grp of None \<Rightarrow> False | Some ns \<Rightarrow> mg_name mg \<in> set ns)))"

definition authorize_model :: "(string \<Rightarrow> string) \<Rightarrow> string list \<Rightarrow> Snapshot \<Rightarrow> GroupView \<Rightarrow> Principal \<Rightarrow> req \<Rightarrow> step" where
  "authorize_model lower keys s grp p q =
     (case ResolveDetail lower keys s (rq_model q) (Some (rq_api_type q)) of
        ResolveAmbiguous \<Rightarrow> (q, Some (ambiguous_model (rq_model q)))
      | ResolveUnknown \<Rightarrow> (q, Some ErrModelNotFound)
      | ResolveFound c t \<Rightarrow>
          let q1 = q\<lparr>rq_model := c, rq_log := (rq_log q)\<lparr>cl_request_model := c\<rparr>\<rparr>
          in (q1,
              if t \<noteq> Some (rq_api_type q) then Some (wrong_type c t)
              else if \<not> model_allowed s grp c then Some ErrModelNotAllowed
              else if (case KeyModels p of None \<Rightarrow> False | Some ms \<Rightarrow> c \<notin> ms) then Some ErrKeyModelDenied
              else None))"

definition admit_rates :: "GroupView \<Rightarrow> Principal \<Rightarrow> time \<Rightarrow> rateLimiter \<Rightarrow> rateLimiter \<times> gateway_error option" where
  "admit_rates grp p now r =
     (case admit (group_subject (gv_id grp)) (gv_rpm grp) (gv_tpm grp) now r of
        (r1, Some e) \<Rightarrow> (r1, Some e)
      | (r1, None) \<Rightarrow> admit (key_subject (KeyID p)) (KeyRPM p) (KeyTPM p) now r1)"

definition reserve_body :: "(budget \<Rightarrow> budget) \<Rightarrow> int \<Rightarrow> budget \<Rightarrow> budget \<times> bool" where
  \<comment> \<open>\<open>g.bodyBudget.acquire\<close>: when it has to wait, \<open>waited\<close> is what the other
     requests do to the budget until the last pass of its loop\<close>
  "reserve_body waited n b =
     (case budget_acquire False n b of
        (b1, Some ok) \<Rightarrow> (b1, ok)
      | (b1, None) \<Rightarrow> (case budget_poll True n (waited b1) of (b2, r) \<Rightarrow> (b2, r = Some True)))"

definition prepare_admit :: "GroupView \<Rightarrow> Principal \<Rightarrow> time \<Rightarrow> gw \<Rightarrow> req \<Rightarrow> (gw \<times> req) \<times> gateway_error option" where
  \<comment> \<open>the quota and the two rate limits\<close>
  "prepare_admit grp p now g q =
     (if exceeded (gv_id grp) (gv_quota grp) (gw_quota g) then ((g, q), Some ErrQuotaExceeded)
      else let (r, e) = admit_rates grp p now (gw_rates g)
           in ((g\<lparr>gw_rates := r\<rparr>, if e \<noteq> None then q\<lparr>rq_retry_after := Some ''5''\<rparr> else q), e))"

definition prepare :: "(string \<Rightarrow> string) \<Rightarrow> string list \<Rightarrow> (string \<Rightarrow> Principal option) \<Rightarrow> Snapshot \<Rightarrow> perf \<Rightarrow>
    (budget \<Rightarrow> budget) \<Rightarrow> time \<Rightarrow> incoming \<Rightarrow> gw \<times> req \<Rightarrow> (gw \<times> req) \<times> gateway_error option" where
  "prepare lower keys look s pf waited now inc gq =
     (let (g, q) = gq
      in case authenticate lower look (in_credentials inc) of
           Inl e \<Rightarrow> ((g, q), Some e)
         | Inr p \<Rightarrow>
             let q1 = q\<lparr>rq_principal := Some p\<rparr>
             in case effective_group s p of
                  None \<Rightarrow> ((g, q1), Some ErrGroupDisabled)
                | Some grp \<Rightarrow>
                    let q2 = q1\<lparr>rq_group := Some grp\<rparr>;
                        n = reservation pf (in_length inc);
                        (b, ok) = reserve_body waited n (gw_budget g);
                        g2 = g\<lparr>gw_budget := b\<rparr>
                    in if \<not> ok then ((g2, q2), Some ErrMemoryBudget)
                       else case and_then (and_then (parse_body inc (q2\<lparr>rq_reserved := n\<rparr>)) read_model)
                                   (authorize_model lower keys s grp p) of
                              (q3, Some e) \<Rightarrow> ((g2, q3), Some e)
                            | (q3, None) \<Rightarrow> prepare_admit grp p now g2 q3)"

text \<open>The handlers of custom endpoints check the path between two authentications.\<close>

definition ReservedEndpointPrefixes :: "string list" where
  "ReservedEndpointPrefixes = [''/chat'', ''/responses'', ''/messages'', ''/embeddings'', ''/images'', ''/models'']"

definition IsReservedEndpoint :: "string \<Rightarrow> bool" where
  "IsReservedEndpoint p \<longleftrightarrow> (\<exists>r\<in>set ReservedEndpointPrefixes. p = r \<or> has_prefix p (r @ ''/''))"

definition CustomEndpointPath :: "string \<Rightarrow> string" where
  "CustomEndpointPath p =
     (if \<not> has_prefix p ''/v1/'' then ''''
      else let p = trim_right_set [CHR ''/''] (drop 3 p)
           in if p = '''' \<or> p = ''/'' then '''' else p)"

definition prepareCustom :: "(string \<Rightarrow> string) \<Rightarrow> string list \<Rightarrow> (string \<Rightarrow> Principal option) \<Rightarrow> Snapshot \<Rightarrow> perf \<Rightarrow>
    (budget \<Rightarrow> budget) \<Rightarrow> time \<Rightarrow> incoming \<Rightarrow> gw \<times> req \<Rightarrow> (gw \<times> req) \<times> gateway_error option" where
  "prepareCustom lower keys look s pf waited now inc gq =
     (case authenticate lower look (in_credentials inc) of
        Inl e \<Rightarrow> (gq, Some e)
      | Inr _ \<Rightarrow>
          if \<not> HasEndpoint s (rq_endpoint (snd gq)) then (gq, Some ErrEndpointNotFound)
          else prepare lower keys look s pf waited now inc gq)"

section \<open>Concurrency slots\<close>

definition key_limit :: "GroupView \<Rightarrow> int" where
  "key_limit grp =
     (let k = gv_key_max_concurrency grp; m = gv_max_concurrency grp
      in if m > 0 \<and> (k \<le> 0 \<or> k > m) then m else k)"

definition enter_gate :: "(gate \<Rightarrow> gate) \<Rightarrow> gate \<Rightarrow> gate \<times> gateway_error option" where
  \<comment> \<open>\<open>g.gate.acquire\<close>; \<open>waited\<close>: what the others do while the request is queued\<close>
  "enter_gate waited g =
     (case gate_acquire False g of
        (g1, Admitted) \<Rightarrow> (g1, None)
      | (g1, Rejected e) \<Rightarrow> (g1, Some e)
      | (g1, MustWait) \<Rightarrow>
          (case gate_poll True (waited g1) of
             (g2, Admitted) \<Rightarrow> (g2, None)
           | (g2, Rejected e) \<Rightarrow> (g2, Some e)
           | (g2, MustWait) \<Rightarrow> (g2, Some ErrQueueTimeout)))"

record slots =
  \<comment> \<open>the counters the release function gives back\<close>
  sl_group :: nat
  sl_key :: nat

definition acquire :: "(gate \<Rightarrow> gate) \<Rightarrow> GroupView \<Rightarrow> Principal \<Rightarrow> gw \<Rightarrow> gw \<times> (gateway_error + slots)" where
  "acquire waited grp p g =
     (case enter_gate waited (gw_gate g) of
        (gt, Some e) \<Rightarrow> (g\<lparr>gw_gate := gt\<rparr>, Inl e)
      | (gt, None) \<Rightarrow>
          let (gm, gp) = cm_get (gv_id grp) (gw_groups g)
          in case cm_try (gv_max_concurrency grp) gp gm of
               None \<Rightarrow> (g\<lparr>gw_gate := gate_release gt, gw_groups := gm\<rparr>, Inl ErrGroupBusy)
             | Some gm' \<Rightarrow>
                 let (km, kp) = cm_get (KeyID p) (gw_apikeys g)
                 in case cm_try (key_limit grp) kp km of
                      None \<Rightarrow> (g\<lparr>gw_gate := gate_release gt, gw_groups := cm_release gp gm', gw_apikeys := km\<rparr>, Inl ErrKeyBusy)
                    | Some km' \<Rightarrow> (g\<lparr>gw_gate := gt, gw_groups := gm', gw_apikeys := km'\<rparr>,
                                   Inr \<lparr>sl_group = gp, sl_key = kp\<rparr>))"

definition release_slots :: "slots \<Rightarrow> gw \<Rightarrow> gw" where
  "release_slots sl g =
     g\<lparr>gw_apikeys := cm_release (sl_key sl) (gw_apikeys g), gw_groups := cm_release (sl_group sl) (gw_groups g),
       gw_gate := gate_release (gw_gate g)\<rparr>"

section \<open>Candidate models\<close>

definition route_unconfigured :: "string \<Rightarrow> gateway_error" where
  "route_unconfigured label = newErr 503 ''route_unconfigured''
     (''Smart routing is enabled but no model group is configured for '' @ quoted label @ '' requests'')"

definition candidates :: "nat \<Rightarrow> (string \<times> nat) option \<Rightarrow> model_group list \<Rightarrow> Snapshot \<Rightarrow> req \<Rightarrow> req \<times> (gateway_error + string list)" where
  \<comment> \<open>\<open>simple\<close>: the group id of simple requests; \<open>routed\<close>: the router's label and group id
     (None: no router is installed); \<open>mgs\<close>: the iteration over the model groups\<close>
  "candidates simple routed mgs s q =
     (if VirtualModel s \<noteq> '''' \<and> rq_model q = VirtualModel s
      then
        let (label, gid) = (case routed of None \<Rightarrow> (''simple'', simple) | Some r \<Rightarrow> r);
            gid = (if gid = 0 then simple else gid);
            q1 = q\<lparr>rq_log := (rq_log q)\<lparr>cl_route_label := label\<rparr>\<rparr>
        in case ModelGroups s gid of
             None \<Rightarrow> (q1, Inl (route_unconfigured label))
           | Some mg \<Rightarrow> (q1\<lparr>rq_log := (rq_log q1)\<lparr>cl_model_group := mg_name mg\<rparr>\<rparr>, Inr (mg_models mg))
      else case groupByName s (rq_model q) of
             Some mg \<Rightarrow> (q\<lparr>rq_log := (rq_log q)\<lparr>cl_model_group := mg_name mg\<rparr>\<rparr>, Inr (mg_models mg))
           | None \<Rightarrow>
               (q\<lparr>rq_log := (rq_log q)\<lparr>cl_model_group := ModelGroupNameFor (rq_group q) (rq_model q) mgs\<rparr>\<rparr>,
                Inr [rq_model q]))"

section \<open>What counts\<close>

definition cm_count :: "counter_map \<Rightarrow> nat \<Rightarrow> int" where
  \<comment> \<open>a counter that does not exist yet counts zero\<close>
  "cm_count cm i = (case cm_map cm i of None \<Rightarrow> 0 | Some p \<Rightarrow> cm_heap cm ! p)"

lemma cm_count_get: "cm_wf cm \<Longrightarrow> cm_get i cm = (cm', p) \<Longrightarrow> cm_count cm' j = cm_count cm j"
  by (auto simp: cm_count_def cm_get_def cm_wf_def nth_append Let_def split: option.splits if_splits)

lemma cm_wf_same: "cm_wf cm \<Longrightarrow> cm_map cm i = Some p \<Longrightarrow> cm_map cm j = Some p \<Longrightarrow> j = i"
  unfolding cm_wf_def by blast

lemma cm_count_try:
  assumes wf: "cm_wf cm" and at: "cm_map cm i = Some p" and ok: "cm_try lim p cm = Some cm'"
  shows "cm_count cm' j = cm_count cm j + (if j = i then 1 else 0)" and "cm_map cm' = cm_map cm"
    and "0 < lim \<Longrightarrow> cm_count cm' i \<le> lim"
proof -
  have p: "p < length (cm_heap cm)" using wf at by (auto simp: cm_wf_def)
  have cm': "cm' = cm\<lparr>cm_heap := (cm_heap cm)[p := cm_heap cm ! p + 1]\<rparr>" "0 < lim \<longrightarrow> cm_heap cm ! p < lim"
    using ok by (auto simp: cm_try_def tryAcquire_def split: if_splits)
  show "cm_map cm' = cm_map cm" using cm' by simp
  show "cm_count cm' j = cm_count cm j + (if j = i then 1 else 0)"
  proof (cases "j = i")
    case False
    then have "cm_map cm j \<noteq> Some p" using cm_wf_same [OF wf at] by blast
    with False cm'(1) show ?thesis by (cases "cm_map cm j") (simp_all add: cm_count_def)
  qed (use cm'(1) at p in \<open>simp add: cm_count_def\<close>)
  show "0 < lim \<Longrightarrow> cm_count cm' i \<le> lim" using cm' at p by (simp add: cm_count_def)
qed

lemma cm_count_release:
  assumes wf: "cm_wf cm" and at: "cm_map cm i = Some p"
  shows "cm_count (cm_release p cm) j = cm_count cm j - (if j = i then 1 else 0)"
    and "cm_map (cm_release p cm) = cm_map cm"
proof -
  have p: "p < length (cm_heap cm)" using wf at by (auto simp: cm_wf_def)
  show "cm_count (cm_release p cm) j = cm_count cm j - (if j = i then 1 else 0)"
  proof (cases "j = i")
    case False
    then have "cm_map cm j \<noteq> Some p" using cm_wf_same [OF wf at] by blast
    with False show ?thesis by (cases "cm_map cm j") (simp_all add: cm_count_def cm_release_def)
  qed (use at p in \<open>simp add: cm_count_def cm_release_def counter_release_def\<close>)
  show "cm_map (cm_release p cm) = cm_map cm" by (simp add: cm_release_def)
qed

text \<open>The gate as the request finds it when its acquisition is decided.\<close>

definition gate_decided :: "(gate \<Rightarrow> gate) \<Rightarrow> gate \<Rightarrow> gate" where
  "gate_decided waited g =
     (case gate_acquire False g of
        (g1, MustWait) \<Rightarrow> (waited g1)\<lparr>g_waiting := g_waiting (waited g1) - 1\<rparr>
      | _ \<Rightarrow> g)"

lemma enter_gate_decided:
  "enter_gate waited g = (g', r) \<Longrightarrow>
     (r = None \<longrightarrow> g' = (gate_decided waited g)\<lparr>g_inflight := g_inflight (gate_decided waited g) + 1\<rparr> \<and>
        (0 < g_limit g' \<longrightarrow> g_inflight g' \<le> g_limit g')) \<and>
     (r \<noteq> None \<longrightarrow> g' = gate_decided waited g)"
  by (auto simp: enter_gate_def gate_decided_def gate_acquire_def gate_poll_def slot_free_def
      split: if_splits prod.splits gate_outcome.splits)

lemma acquire_outcome:
  assumes wf: "cm_wf (gw_groups g)" "cm_wf (gw_apikeys g)"
    and acq: "acquire waited grp p g = (g', r)"
  shows "case r of
     Inl e \<Rightarrow> gw_gate g' = gate_decided waited (gw_gate g) \<and>
       cm_count (gw_groups g') = cm_count (gw_groups g) \<and> cm_count (gw_apikeys g') = cm_count (gw_apikeys g)
   | Inr sl \<Rightarrow>
       g_inflight (gw_gate g') = g_inflight (gate_decided waited (gw_gate g)) + 1 \<and>
       cm_count (gw_groups g') (gv_id grp) = cm_count (gw_groups g) (gv_id grp) + 1 \<and>
       cm_count (gw_apikeys g') (KeyID p) = cm_count (gw_apikeys g) (KeyID p) + 1 \<and>
       (0 < g_limit (gw_gate g') \<longrightarrow> g_inflight (gw_gate g') \<le> g_limit (gw_gate g')) \<and>
       (0 < gv_max_concurrency grp \<longrightarrow>
          cm_count (gw_groups g') (gv_id grp) \<le> gv_max_concurrency grp \<and>
          cm_count (gw_apikeys g') (KeyID p) \<le> gv_max_concurrency grp) \<and>
       (0 < gv_key_max_concurrency grp \<longrightarrow> cm_count (gw_apikeys g') (KeyID p) \<le> gv_key_max_concurrency grp) \<and>
       gw_gate (release_slots sl g') = gate_decided waited (gw_gate g) \<and>
       cm_count (gw_groups (release_slots sl g')) = cm_count (gw_groups g) \<and>
       cm_count (gw_apikeys (release_slots sl g')) = cm_count (gw_apikeys g)"
proof -
  obtain gt ge where eg: "enter_gate waited (gw_gate g) = (gt, ge)" by fastforce
  note dec = enter_gate_decided [OF eg]
  obtain gm gp where gm: "cm_get (gv_id grp) (gw_groups g) = (gm, gp)" by fastforce
  obtain km kp where km: "cm_get (KeyID p) (gw_apikeys g) = (km, kp)" by fastforce
  have gwf: "cm_wf gm" "cm_map gm (gv_id grp) = Some gp"
    using cm_get_wf [OF wf(1), of "gv_id grp"] cm_get_pointer [OF wf(1) gm] gm by auto
  have kwf: "cm_wf km" "cm_map km (KeyID p) = Some kp"
    using cm_get_wf [OF wf(2), of "KeyID p"] cm_get_pointer [OF wf(2) km] km by auto
  have gc: "cm_count gm = cm_count (gw_groups g)" by (rule ext) (rule cm_count_get [OF wf(1) gm])
  have kc: "cm_count km = cm_count (gw_apikeys g)" by (rule ext) (rule cm_count_get [OF wf(2) km])
  have undo: "gate_release (d\<lparr>g_inflight := g_inflight d + 1\<rparr>) = d" for d
    by (simp add: gate_release_def)
  show ?thesis
  proof (cases ge)
    case (Some e)
    with acq eg dec show ?thesis by (auto simp: acquire_def)
  next
    case None
    with dec have gt: "gt = (gate_decided waited (gw_gate g))\<lparr>g_inflight := g_inflight (gate_decided waited (gw_gate g)) + 1\<rparr>"
      "0 < g_limit gt \<longrightarrow> g_inflight gt \<le> g_limit gt" by auto
    show ?thesis
    proof (cases "cm_try (gv_max_concurrency grp) gp gm")
      case None
      with \<open>ge = None\<close> acq eg gm gt undo gc show ?thesis by (auto simp: acquire_def Let_def)
    next
      case (Some gm')
      note gt' = cm_count_try [OF gwf Some]
      have gwf': "cm_wf gm'" using gwf(1) Some by (rule cm_try_wf)
      have grel: "cm_count (cm_release gp gm') = cm_count (gw_groups g)"
        using cm_count_release [OF gwf', of "gv_id grp" gp] gt' gwf(2) gc by (intro ext) (simp add: fun_eq_iff)
      show ?thesis
      proof (cases "cm_try (key_limit grp) kp km")
        case None
        with Some \<open>ge = None\<close> acq eg gm km gt undo grel kc show ?thesis by (auto simp: acquire_def Let_def)
      next
        case km': (Some km')
        note kt' = cm_count_try [OF kwf km']
        have kwf': "cm_wf km'" using kwf(1) km' by (rule cm_try_wf)
        have krel: "cm_count (cm_release kp km') = cm_count (gw_apikeys g)"
          using cm_count_release [OF kwf', of "KeyID p" kp] kt' kwf(2) kc by (intro ext) (simp add: fun_eq_iff)
        have g': "g' = g\<lparr>gw_gate := gt, gw_groups := gm', gw_apikeys := km'\<rparr>" "r = Inr \<lparr>sl_group = gp, sl_key = kp\<rparr>"
          using acq eg gm km Some km' \<open>ge = None\<close> by (auto simp: acquire_def Let_def)
        have lim: "0 < gv_max_concurrency grp \<Longrightarrow> 0 < key_limit grp \<and> key_limit grp \<le> gv_max_concurrency grp"
          "0 < gv_key_max_concurrency grp \<Longrightarrow> 0 < key_limit grp \<and> key_limit grp \<le> gv_key_max_concurrency grp"
          by (auto simp: key_limit_def Let_def)
        show ?thesis
          unfolding g' using gt gt'(1,3) kt'(1,3) gc kc grel krel undo lim
          by (auto simp: release_slots_def)
      qed
    qed
  qed
qed

lemma and_then_None: "and_then r f = (q', None) \<longleftrightarrow> (\<exists>q1. r = (q1, None) \<and> f q1 = (q', None))"
  by (cases r; cases "snd r") auto

text \<open>What a request asks for and what the limits it must keep are, read off the request and the
  state it meets.\<close>

definition requested_model :: "req \<Rightarrow> incoming \<Rightarrow> string" where
  "requested_model q inc =
     trim_space
       (if rq_path_model q \<noteq> [] then rq_path_model q
        else if rq_proto q = ProtoOpenAIImages \<and> in_multipart inc
             then (case in_form inc of Inr m \<Rightarrow> m | Inl _ \<Rightarrow> [])
        else (case in_body inc of BodyOk _ (Some (JObj fs)) \<Rightarrow> str_or_empty (raw_field ''model'' fs) | _ \<Rightarrow> []))"

definition below_rates :: "string \<Rightarrow> int \<Rightarrow> int \<Rightarrow> time \<Rightarrow> rateLimiter \<Rightarrow> bool" where
  "below_rates i rpm tpm now r \<longleftrightarrow>
     (0 < rpm \<longrightarrow> fst (sums now (window i now r)) < rpm) \<and> (0 < tpm \<longrightarrow> snd (sums now (window i now r)) < tpm)"

lemma admit_below: "admit i rpm tpm now r = (r', None) \<Longrightarrow> below_rates i rpm tpm now r"
  by (auto simp: admit_def below_rates_def Let_def split: if_splits prod.splits)

lemma admit_other: "admit i rpm tpm now r = (r', e) \<Longrightarrow> j \<noteq> i \<Longrightarrow> r' j = r j"
  by (auto simp: admit_def Let_def split: if_splits prod.splits)

lemma admit_rates_outcome:
  assumes "admit_rates grp p now r = (r', None)"
  shows "\<exists>r1. admit (group_subject (gv_id grp)) (gv_rpm grp) (gv_tpm grp) now r = (r1, None) \<and>
      admit (key_subject (KeyID p)) (KeyRPM p) (KeyTPM p) now r1 = (r', None)"
    and "below_rates (group_subject (gv_id grp)) (gv_rpm grp) (gv_tpm grp) now r"
    and "below_rates (key_subject (KeyID p)) (KeyRPM p) (KeyTPM p) now r"
proof -
  show two: "\<exists>r1. admit (group_subject (gv_id grp)) (gv_rpm grp) (gv_tpm grp) now r = (r1, None) \<and>
      admit (key_subject (KeyID p)) (KeyRPM p) (KeyTPM p) now r1 = (r', None)"
    using assms by (auto simp: admit_rates_def split: prod.splits option.splits)
  then obtain r1 where r1: "admit (group_subject (gv_id grp)) (gv_rpm grp) (gv_tpm grp) now r = (r1, None)"
    "admit (key_subject (KeyID p)) (KeyRPM p) (KeyTPM p) now r1 = (r', None)" by blast
  show "below_rates (group_subject (gv_id grp)) (gv_rpm grp) (gv_tpm grp) now r" by (rule admit_below [OF r1(1)])
  have "r1 (key_subject (KeyID p)) = r (key_subject (KeyID p))"
    by (rule admit_other [OF r1(1)]) (use subjects_distinct in metis)
  then show "below_rates (key_subject (KeyID p)) (KeyRPM p) (KeyTPM p) now r"
    using admit_below [OF r1(2)] by (simp add: below_rates_def window_def)
qed

lemma read_model_outcome:
  "read_model q = (q', None) \<Longrightarrow>
     rq_model q' = trim_space (if rq_path_model q \<noteq> [] then rq_path_model q else str_or_empty (raw_field ''model'' (rq_raw q))) \<and>
     rq_model q' \<noteq> [] \<and> rq_principal q' = rq_principal q \<and> rq_group q' = rq_group q \<and>
     rq_reserved q' = rq_reserved q \<and> rq_api_type q' = rq_api_type q"
  by (auto simp: read_model_def Let_def split: if_splits)

lemma parse_body_outcome:
  assumes "parse_body inc q = (q', None)"
  shows "rq_principal q' = rq_principal q \<and> rq_group q' = rq_group q \<and> rq_reserved q' = rq_reserved q \<and>
     rq_api_type q' = rq_api_type q \<and> rq_path_model q' = rq_path_model q"
    and "requested_model q inc =
      trim_space (if rq_path_model q \<noteq> [] then rq_path_model q else str_or_empty (raw_field ''model'' (rq_raw q')))"
  using assms
  by (auto simp: parse_body_def Let_def requested_model_def raw_field_def str_or_empty_def
      split: body_read.splits sum.splits option.splits json.splits if_splits)

lemma authorize_outcome:
  "authorize_model lower keys s grp p q = (q', None) \<Longrightarrow>
     ResolveDetail lower keys s (rq_model q) (Some (rq_api_type q)) = ResolveFound (rq_model q') (Some (rq_api_type q)) \<and>
     model_allowed s grp (rq_model q') \<and> (\<forall>ms. KeyModels p = Some ms \<longrightarrow> rq_model q' \<in> ms) \<and>
     rq_principal q' = rq_principal q \<and> rq_group q' = rq_group q \<and> rq_reserved q' = rq_reserved q"
  by (auto simp: authorize_model_def Let_def split: resolution.splits if_splits option.splits)

lemma prepare_outcome:
  assumes "prepare lower keys look s pf waited now inc (g, q) = ((g', q'), None)"
  shows "\<exists>p grp.
    look (presented_key lower (in_credentials inc)) = Some p \<and> has_prefix (presented_key lower (in_credentials inc)) ''sk-'' \<and>
    KeyEnabled p \<and> \<not> KeyExpired p \<and> UserEnabled p \<and>
    (sn_groups s (GroupID p) = Some grp \<or>
       DefaultGroup s = Some grp \<and> (\<forall>own. sn_groups s (GroupID p) = Some own \<longrightarrow> \<not> gv_enabled own)) \<and>
    gv_enabled grp \<and> rq_principal q' = Some p \<and> rq_group q' = Some grp \<and>
    rq_reserved q' = reservation pf (in_length inc) \<and>
    reserve_body waited (reservation pf (in_length inc)) (gw_budget g) = (gw_budget g', True) \<and>
    requested_model q inc \<noteq> [] \<and>
    ResolveDetail lower keys s (requested_model q inc) (Some (rq_api_type q)) =
      ResolveFound (rq_model q') (Some (rq_api_type q)) \<and>
    model_allowed s grp (rq_model q') \<and> (\<forall>ms. KeyModels p = Some ms \<longrightarrow> rq_model q' \<in> ms) \<and>
    \<not> exceeded (gv_id grp) (gv_quota grp) (gw_quota g) \<and>
    admit_rates grp p now (gw_rates g) = (gw_rates g', None)"
proof -
  obtain p where p: "authenticate lower look (in_credentials inc) = Inr p"
    using assms by (cases "authenticate lower look (in_credentials inc)") (auto simp: prepare_def)
  obtain grp where grp: "effective_group s p = Some grp"
    using assms p by (cases "effective_group s p") (auto simp: prepare_def Let_def)
  let ?n = "reservation pf (in_length inc)"
  let ?q3 = "q\<lparr>rq_principal := Some p, rq_group := Some grp, rq_reserved := ?n\<rparr>"
  obtain b where b: "reserve_body waited ?n (gw_budget g) = (b, True)"
    using assms p grp by (cases "reserve_body waited ?n (gw_budget g)") (auto simp: prepare_def Let_def split: if_splits)
  let ?r = "and_then (and_then (parse_body inc ?q3) read_model) (authorize_model lower keys s grp p)"
  obtain q6 where q6: "?r = (q6, None)" and pa: "prepare_admit grp p now (g\<lparr>gw_budget := b\<rparr>) q6 = ((g', q'), None)"
    using assms p grp b by (cases ?r; cases "snd ?r") (auto simp: prepare_def Let_def)
  then obtain q4 q5 where q4: "parse_body inc ?q3 = (q4, None)" and r5: "read_model q4 = (q5, None)"
    and a6: "authorize_model lower keys s grp p q5 = (q6, None)"
    by (auto simp: and_then_None)
  have q': "q' = q6" "\<not> exceeded (gv_id grp) (gv_quota grp) (gw_quota g)" "gw_budget g' = b"
    "admit_rates grp p now (gw_rates g) = (gw_rates g', None)"
    using pa by (auto simp: prepare_admit_def split: if_splits prod.splits)
  have m: "rq_model q5 = requested_model q inc" "requested_model q inc \<noteq> []"
    using read_model_outcome [OF r5] parse_body_outcome [OF q4] by (auto simp: requested_model_def)
  have k6: "rq_principal q6 = Some p" "rq_group q6 = Some grp" "rq_reserved q6 = ?n"
    "ResolveDetail lower keys s (requested_model q inc) (Some (rq_api_type q)) = ResolveFound (rq_model q6) (Some (rq_api_type q))"
    "model_allowed s grp (rq_model q6)" "\<forall>ms. KeyModels p = Some ms \<longrightarrow> rq_model q6 \<in> ms"
    using authorize_outcome [OF a6] read_model_outcome [OF r5] parse_body_outcome(1) [OF q4] m(1) by auto
  have a: "look (presented_key lower (in_credentials inc)) = Some p" "has_prefix (presented_key lower (in_credentials inc)) ''sk-''"
    "KeyEnabled p" "\<not> KeyExpired p" "UserEnabled p"
    using p by (auto simp: authenticate_def Let_def split: if_splits option.splits)
  have e: "gv_enabled grp" "sn_groups s (GroupID p) = Some grp \<or>
       DefaultGroup s = Some grp \<and> (\<forall>own. sn_groups s (GroupID p) = Some own \<longrightarrow> \<not> gv_enabled own)"
    using grp by (auto simp: effective_group_def split: option.splits if_splits)
  show ?thesis using a e k6 q' m(2) b by blast
qed

text \<open>Property C13: a request that passes \<open>prepare\<close> is fully authorised: its key is enabled
  and not expired, its user enabled, its group enabled and its own, or the default one when its
  own is missing or disabled; the model it asked for (in the path, the form or the body) resolved
  to the endpoint's type and allowed to the group and to the key, its group within quota, its
  group and its key below their request and token rates and counted against both, and its
  body's memory reserved. No check can be skipped.\<close>

theorem prepare_authorises:
  assumes "prepare lower keys look s pf waited now inc (g, q) = ((g', q'), None)"
  shows "\<exists>p grp.
    look (presented_key lower (in_credentials inc)) = Some p \<and> has_prefix (presented_key lower (in_credentials inc)) ''sk-'' \<and>
    KeyEnabled p \<and> \<not> KeyExpired p \<and> UserEnabled p \<and>
    (sn_groups s (GroupID p) = Some grp \<or>
       DefaultGroup s = Some grp \<and> (\<forall>own. sn_groups s (GroupID p) = Some own \<longrightarrow> \<not> gv_enabled own)) \<and>
    gv_enabled grp \<and> rq_principal q' = Some p \<and> rq_group q' = Some grp \<and>
    rq_reserved q' = reservation pf (in_length inc) \<and>
    reserve_body waited (reservation pf (in_length inc)) (gw_budget g) = (gw_budget g', True) \<and>
    requested_model q inc \<noteq> [] \<and>
    ResolveDetail lower keys s (requested_model q inc) (Some (rq_api_type q)) =
      ResolveFound (rq_model q') (Some (rq_api_type q)) \<and>
    model_allowed s grp (rq_model q') \<and> (\<forall>ms. KeyModels p = Some ms \<longrightarrow> rq_model q' \<in> ms) \<and>
    \<not> exceeded (gv_id grp) (gv_quota grp) (gw_quota g) \<and>
    below_rates (group_subject (gv_id grp)) (gv_rpm grp) (gv_tpm grp) now (gw_rates g) \<and>
    below_rates (key_subject (KeyID p)) (KeyRPM p) (KeyTPM p) now (gw_rates g) \<and>
    (\<exists>r1. admit (group_subject (gv_id grp)) (gv_rpm grp) (gv_tpm grp) now (gw_rates g) = (r1, None) \<and>
       admit (key_subject (KeyID p)) (KeyRPM p) (KeyTPM p) now r1 = (gw_rates g', None))"
  using prepare_outcome [OF assms]
  by (elim ex_forward, elim conjE, intro conjI) (assumption | erule admit_rates_outcome)+

text \<open>Property C14: taking the three concurrency slots is all or nothing. A refused request leaves
  every counter as it found it. An admitted one counts once at the gate, once for its group and
  once for its key, within each limit that is set, the group's bounding the key's too; and its
  release function restores all three.\<close>

theorem acquire_all_or_nothing:
  assumes wf: "cm_wf (gw_groups g)" "cm_wf (gw_apikeys g)"
    and acq: "acquire waited grp p g = (g', r)"
  shows "case r of
     Inl e \<Rightarrow> gw_gate g' = gate_decided waited (gw_gate g) \<and>
       cm_count (gw_groups g') = cm_count (gw_groups g) \<and> cm_count (gw_apikeys g') = cm_count (gw_apikeys g)
   | Inr sl \<Rightarrow>
       g_inflight (gw_gate g') = g_inflight (gate_decided waited (gw_gate g)) + 1 \<and>
       cm_count (gw_groups g') (gv_id grp) = cm_count (gw_groups g) (gv_id grp) + 1 \<and>
       cm_count (gw_apikeys g') (KeyID p) = cm_count (gw_apikeys g) (KeyID p) + 1 \<and>
       (0 < g_limit (gw_gate g') \<longrightarrow> g_inflight (gw_gate g') \<le> g_limit (gw_gate g')) \<and>
       (0 < gv_max_concurrency grp \<longrightarrow>
          cm_count (gw_groups g') (gv_id grp) \<le> gv_max_concurrency grp \<and>
          cm_count (gw_apikeys g') (KeyID p) \<le> gv_max_concurrency grp) \<and>
       (0 < gv_key_max_concurrency grp \<longrightarrow> cm_count (gw_apikeys g') (KeyID p) \<le> gv_key_max_concurrency grp) \<and>
       gw_gate (release_slots sl g') = gate_decided waited (gw_gate g) \<and>
       cm_count (gw_groups (release_slots sl g')) = cm_count (gw_groups g) \<and>
       cm_count (gw_apikeys (release_slots sl g')) = cm_count (gw_apikeys g)"
  using acquire_outcome [OF assms] .

section \<open>Rejected requests\<close>

definition budget_decided :: "(budget \<Rightarrow> budget) \<Rightarrow> int \<Rightarrow> budget \<Rightarrow> budget" where
  "budget_decided waited n b = (case budget_acquire False n b of (b1, None) \<Rightarrow> waited b1 | _ \<Rightarrow> b)"

lemma reserve_body_decided:
  "reserve_body waited n b = (b', ok) \<Longrightarrow> 0 < n \<Longrightarrow>
     b' = (if ok then (budget_decided waited n b)\<lparr>b_used := b_used (budget_decided waited n b) + n\<rparr>
           else budget_decided waited n b)"
  by (auto simp: reserve_body_def budget_decided_def budget_acquire_def budget_poll_def
      split: if_splits prod.splits option.splits)

lemma reservation_pos: "0 < reservation pf len"
  by (auto simp: reservation_def body_limit_def Let_def)

definition untouched :: "req \<Rightarrow> req \<Rightarrow> bool" where
  \<comment> \<open>nothing was sent, attempted or released\<close>
  "untouched q q' \<longleftrightarrow> rq_attempts q' = rq_attempts q \<and> rq_wrote q' = rq_wrote q \<and> rq_out q' = rq_out q \<and>
     rq_proto q' = rq_proto q"

lemma step_untouched:
  "parse_body inc q = (q', e) \<Longrightarrow> untouched q q' \<and> rq_reserved q' = rq_reserved q"
  "read_model q = (q', e) \<Longrightarrow> untouched q q' \<and> rq_reserved q' = rq_reserved q"
  "authorize_model lower keys s grp p q = (q', e) \<Longrightarrow> untouched q q' \<and> rq_reserved q' = rq_reserved q"
proof -
  show "parse_body inc q = (q', e) \<Longrightarrow> untouched q q' \<and> rq_reserved q' = rq_reserved q"
    by (auto simp: parse_body_def untouched_def Let_def split: body_read.splits sum.splits option.splits json.splits if_splits)
  show "read_model q = (q', e) \<Longrightarrow> untouched q q' \<and> rq_reserved q' = rq_reserved q"
    by (auto simp: read_model_def untouched_def Let_def split: if_splits)
  show "authorize_model lower keys s grp p q = (q', e) \<Longrightarrow> untouched q q' \<and> rq_reserved q' = rq_reserved q"
    by (auto simp: authorize_model_def untouched_def Let_def split: resolution.splits if_splits)
qed

lemma and_then_untouched:
  assumes "and_then r f = (q', e)" and "untouched q (fst r) \<and> rq_reserved (fst r) = n"
    and "\<And>q1 q2 e. f q1 = (q2, e) \<Longrightarrow> untouched q1 q2 \<and> rq_reserved q2 = rq_reserved q1"
  shows "untouched q q' \<and> rq_reserved q' = n"
proof (cases "snd r")
  case None
  with assms(1) have "f (fst r) = (q', e)" by (cases r) simp
  with assms(2) assms(3) [of "fst r" q' e] show ?thesis by (simp add: untouched_def)
next
  case (Some e1)
  with assms(1,2) show ?thesis by (cases r) simp
qed

definition same_but_rates :: "gw \<Rightarrow> gw \<Rightarrow> bool" where
  "same_but_rates g g' \<longleftrightarrow> (\<exists>b r. g' = g\<lparr>gw_budget := b, gw_rates := r\<rparr>)"

lemma same_but_rates_intros:
  "same_but_rates g g" "same_but_rates g (g\<lparr>gw_budget := b\<rparr>)" "same_but_rates g (g\<lparr>gw_budget := b, gw_rates := r\<rparr>)"
proof -
  have "g = g\<lparr>gw_budget := gw_budget g, gw_rates := gw_rates g\<rparr>" by simp
  then show "same_but_rates g g" unfolding same_but_rates_def by blast
  have "g\<lparr>gw_budget := b\<rparr> = g\<lparr>gw_budget := b, gw_rates := gw_rates g\<rparr>" by simp
  then show "same_but_rates g (g\<lparr>gw_budget := b\<rparr>)" unfolding same_but_rates_def by blast
  show "same_but_rates g (g\<lparr>gw_budget := b, gw_rates := r\<rparr>)" unfolding same_but_rates_def by blast
qed

lemma prepare_frame:
  assumes "prepare lower keys look s pf waited now inc (g, q) = ((g', q'), e)"
  shows "same_but_rates g g' \<and> untouched q q' \<and>
    (let d = budget_decided waited (reservation pf (in_length inc)) (gw_budget g)
     in rq_reserved q' = rq_reserved q \<and> gw_budget g' = gw_budget g \<or>
        rq_reserved q' = rq_reserved q \<and> gw_budget g' = d \<or>
        rq_reserved q' = reservation pf (in_length inc) \<and>
          gw_budget g' = d\<lparr>b_used := b_used d + reservation pf (in_length inc)\<rparr>)"
proof -
  show ?thesis
  proof (cases "authenticate lower look (in_credentials inc)")
    case (Inl e1)
    with assms show ?thesis by (auto simp: prepare_def same_but_rates_intros untouched_def Let_def)
  next
    case (Inr p)
    show ?thesis
    proof (cases "effective_group s p")
      case None
      with assms Inr show ?thesis by (auto simp: prepare_def same_but_rates_intros untouched_def Let_def)
    next
      case (Some grp)
      let ?n = "reservation pf (in_length inc)"
      obtain b ok where b: "reserve_body waited ?n (gw_budget g) = (b, ok)" by fastforce
      note bd = reserve_body_decided [OF b reservation_pos]
      let ?q3 = "q\<lparr>rq_principal := Some p, rq_group := Some grp, rq_reserved := ?n\<rparr>"
      let ?r = "and_then (and_then (parse_body inc ?q3) read_model) (authorize_model lower keys s grp p)"
      have fold1: "untouched ?q3 (fst (parse_body inc ?q3)) \<and> rq_reserved (fst (parse_body inc ?q3)) = ?n"
        using step_untouched(1) [of inc ?q3] by (cases "parse_body inc ?q3") auto
      have fold2: "untouched ?q3 (fst (and_then (parse_body inc ?q3) read_model)) \<and>
          rq_reserved (fst (and_then (parse_body inc ?q3) read_model)) = ?n"
        by (rule and_then_untouched [OF surjective_pairing fold1]) (rule step_untouched(2))
      have fold3: "untouched ?q3 (fst ?r) \<and> rq_reserved (fst ?r) = ?n"
        by (rule and_then_untouched [OF surjective_pairing fold2]) (rule step_untouched(3))
      show ?thesis
      proof (cases ok)
        case False
        with assms Inr Some b bd show ?thesis
          by (auto simp: prepare_def same_but_rates_intros untouched_def Let_def)
      next
        case True
        obtain q3 e3 where r: "?r = (q3, e3)" by fastforce
        have u: "untouched q q3" "rq_reserved q3 = ?n" using fold3 r by (simp_all add: untouched_def)
        show ?thesis
        proof (cases e3)
          case None
          then have "prepare_admit grp p now (g\<lparr>gw_budget := b\<rparr>) q3 = ((g', q'), e)"
            using assms Inr Some b True r by (simp add: prepare_def Let_def)
          with u bd True show ?thesis
            by (auto simp: prepare_admit_def same_but_rates_intros untouched_def Let_def
                split: if_splits prod.splits)
        next
          case (Some e1)
          with assms Inr \<open>effective_group s p = Some grp\<close> b True r u bd show ?thesis
            by (auto simp: prepare_def same_but_rates_intros untouched_def Let_def)
        qed
      qed
    qed
  qed
qed

lemma finish_no_attempts:
  assumes "rq_attempts q = []" and "finish zone pr now (g, q) = (g', q')"
  shows "g' = g\<lparr>gw_budget := if rq_reserved q > 0 then budget_release (rq_reserved q) (gw_budget g) else gw_budget g,
             gw_logs := gw_logs g @ [rq_log q']\<rparr> \<and>
     rq_out q' = rq_out q \<and> rq_reserved q' = min (rq_reserved q) 0 \<and>
     cl_total (rq_log q') = 0 \<and> cl_usage (rq_log q') = Some UsageNone \<and>
     cl_status (rq_log q') = cl_status (rq_log q) \<and> cl_result (rq_log q') = cl_result (rq_log q)"
proof -
  have acc: "account_usage r = r\<lparr>rq_log := (rq_log r)\<lparr>cl_usage := Some UsageNone, cl_prompt := 0,
      cl_completion := 0, cl_total := 0, cl_tokens_known := False\<rparr>\<rparr>" if "rq_attempts r = []" for r
    using that by (simp add: account_usage_def usageFromAttempts_def no_attempts_def status_of_fold_def)
  have price: "priceAttempts pr ([], l) = ([], l)" for l
    by (simp add: priceAttempts_def split: option.split)
  have ident: "cl_total (identify r l) = cl_total l" "cl_usage (identify r l) = cl_usage l"
    "cl_status (identify r l) = cl_status l" "cl_result (identify r l) = cl_result l" for r l
    by (simp_all add: identify_def Let_def split: option.split)
  have book: "book_tokens zone now r 0 h = h" for r h
    by (simp add: book_tokens_def Let_def split: option.split)
  show ?thesis
    using assms by (auto simp: finish_def Let_def acc price ident book)
qed

text \<open>A request that \<open>prepare\<close> rejects leaves nothing behind once it is closed:
  no slot, account, health state or quota is touched, the memory reserved for its body is given
  back, it books no tokens, and the client gets exactly one reply, with the error's status, and
  the log exactly one entry.\<close>

lemma rejected_leaves_nothing:
  assumes prep: "prepare lower keys look s pf waited now inc (g, q) = ((g1, q1), Some e)"
    and new: "rq_attempts q = []" "rq_out q = []" "\<not> rq_wrote q" "rq_reserved q = 0"
    and pos: "0 \<le> b_used (budget_decided waited (reservation pf (in_length inc)) (gw_budget g))"
    and closed: "fail_request zone pr now' e (g1, q1) = (g2, q2)"
  shows "gw_gate g2 = gw_gate g \<and> gw_groups g2 = gw_groups g \<and> gw_apikeys g2 = gw_apikeys g \<and>
    gw_accounts g2 = gw_accounts g \<and> gw_health g2 = gw_health g \<and> gw_quota g2 = gw_quota g \<and>
    gw_budget g2 \<in> {gw_budget g, budget_decided waited (reservation pf (in_length inc)) (gw_budget g)} \<and>
    rq_out q2 = [case writeErrorProto (rq_proto q) e of (st, b) \<Rightarrow> ErrorReply st b] \<and>
    gw_logs g2 = gw_logs g @ [rq_log q2] \<and> cl_total (rq_log q2) = 0 \<and> cl_status (rq_log q2) = gstatus e"
proof -
  let ?n = "reservation pf (in_length inc)"
  let ?d = "budget_decided waited ?n (gw_budget g)"
  note fr = prepare_frame [OF prep, unfolded Let_def]
  obtain b r where g1: "g1 = g\<lparr>gw_budget := b, gw_rates := r\<rparr>" using fr by (auto simp: same_but_rates_def)
  have q1: "rq_attempts q1 = []" "rq_out q1 = []" "\<not> rq_wrote q1" "rq_proto q1 = rq_proto q"
    using fr new by (auto simp: untouched_def)
  define q1' where "q1' = (write_error e q1)\<lparr>rq_log := (rq_log (write_error e q1))\<lparr>cl_status := gstatus e,
      cl_error := gmessage e, cl_result := error_result e\<rparr>\<rparr>"
  have out: "rq_out q1' = [case writeErrorProto (rq_proto q) e of (st, b) \<Rightarrow> ErrorReply st b]"
    "rq_attempts q1' = []" "rq_reserved q1' = rq_reserved q1" "cl_status (rq_log q1') = gstatus e"
    using q1 by (simp_all add: q1'_def write_error_def split: prod.splits)
  have fin: "finish zone pr now' (g1, q1') = (g2, q2)"
    using closed by (simp add: fail_request_def q1'_def Let_def)
  note f = finish_no_attempts [OF out(2) fin]
  have "gw_budget g2 \<in> {gw_budget g, ?d}"
    using f fr new(4) out(3) g1 pos reservation_pos [of pf "in_length inc"]
    by (auto simp: budget_release_def Let_def)
  with f out g1 show ?thesis by simp
qed

section \<open>Sample\<close>

definition sample_gw :: gw where
  "sample_gw = \<lparr>gw_gate = newGate 10 10, gw_groups = newCounterMap, gw_apikeys = newCounterMap,
     gw_accounts = newCounterMap, gw_health = Map.empty, gw_jobs = [], gw_rates = Map.empty,
     gw_quota = \<lparr>used = Map.empty, month = 0\<rparr>, gw_budget = newBudget 67108864, gw_logs = []\<rparr>"

definition sample_group :: user_group where
  "sample_group = \<lparr>ug_id = 4, ug_name = ''dev'', ug_enabled = True, ug_max_concurrency = 2,
     ug_key_max_concurrency = 0, ug_token_quota = 0, ug_tpm = 0, ug_rpm = 60, ug_default = True,
     ug_model_groups = []\<rparr>"

definition sample_snapshot :: Snapshot where
  "sample_snapshot = build ascii_lower [''demo''] 0 False ''''
     (sample_scan [sample_account 3 ''demo'' TypeText False]) [] [sample_group]"

definition sample_principal :: Principal where
  "sample_principal = principal_of (sample_key\<lparr>k_user := Some \<lparr>u_id = 9, u_username = ''ann'',
     u_role = ''user'', u_enabled = True, u_locked = False, u_group = 4\<rparr>\<rparr>) 0"

definition sample_look :: "string \<Rightarrow> Principal option" where
  "sample_look k = (if k = ''sk-1'' then Some sample_principal else None)"

definition sample_perf :: perf where
  "sample_perf = \<lparr>pf_max_body_kb = 1024, pf_queue_timeout = 30, pf_max_retries = 2, pf_cooldown = 60,
     pf_request_timeout = 0\<rparr>"

definition sample_incoming :: "string \<Rightarrow> incoming" where
  "sample_incoming m = \<lparr>in_credentials = \<lparr>cr_authorization = ''Bearer sk-1 '', cr_x_api_key = '''',
     cr_api_key = '''', cr_goog_key = '''', cr_query_key = ''''\<rparr>, in_length = 40,
     in_body = BodyOk ''{...}'' (Some (JObj [(''model'', JStr m), (''stream'', JBool True)])),
     in_multipart = False, in_form = Inl ''''\<rparr>"

definition sample_prepared :: "string \<Rightarrow> (gw \<times> req) \<times> gateway_error option" where
  "sample_prepared m = prepare ascii_lower [''demo''] sample_look sample_snapshot sample_perf (\<lambda>b. b) second
     (sample_incoming m) (sample_gw, newRequest ''r1'' ProtoOpenAIChat 0)"

lemma prepare_authorises_witness:
  "\<exists>p. rq_principal (snd (fst (sample_prepared ''openai/Demo''))) = Some p \<and> KeyEnabled p \<and>
     rq_reserved (snd (fst (sample_prepared ''openai/Demo''))) = 40"
proof -
  have ok: "snd (sample_prepared ''openai/Demo'') = None" by code_simp
  obtain g' q' where r: "sample_prepared ''openai/Demo'' = ((g', q'), None)"
    using ok by (metis prod.collapse)
  have "reservation sample_perf (in_length (sample_incoming ''openai/Demo'')) = 40" by code_simp
  with prepare_authorises [OF r [unfolded sample_prepared_def]] show ?thesis unfolding r by auto
qed

lemma rejected_leaves_nothing_witness:
  "rq_out (snd (fail_request 0 None second ErrModelNotFound (fst (sample_prepared ''other'')))) =
     [case writeErrorProto ProtoOpenAIChat ErrModelNotFound of (st, b) \<Rightarrow> ErrorReply st b]"
proof -
  have ok: "snd (sample_prepared ''other'') = Some ErrModelNotFound" by code_simp
  obtain g1 q1 where r: "sample_prepared ''other'' = ((g1, q1), Some ErrModelNotFound)"
    using ok by (metis prod.collapse)
  obtain g2 q2 where c: "fail_request 0 None second ErrModelNotFound (g1, q1) = (g2, q2)" by fastforce
  have pos: "0 \<le> b_used (budget_decided (\<lambda>b. b) (reservation sample_perf (in_length (sample_incoming ''other''))) (gw_budget sample_gw))"
    by code_simp
  show ?thesis
    using rejected_leaves_nothing [OF r [unfolded sample_prepared_def] _ _ _ _ pos c]
    unfolding r fst_conv c snd_conv by (simp add: newRequest_def)
qed

lemma acquire_all_or_nothing_witness:
  "cm_count (gw_groups (fst (acquire (\<lambda>g. g) (group_view sample_group) sample_principal sample_gw))) 4 = 1"
proof -
  have wf: "cm_wf newCounterMap" by (simp add: cm_wf_def newCounterMap_def)
  obtain g' r where a: "acquire (\<lambda>g. g) (group_view sample_group) sample_principal sample_gw = (g', r)" by fastforce
  have "(case snd (acquire (\<lambda>g. g) (group_view sample_group) sample_principal sample_gw) of Inl e \<Rightarrow> False | Inr sl \<Rightarrow> True)"
    by code_simp
  then obtain sl where sl: "r = Inr sl" unfolding a by (cases r) auto
  have "cm_count (gw_groups sample_gw) 4 = 0" by code_simp
  moreover have "gv_id (group_view sample_group) = 4" by code_simp
  ultimately show ?thesis
    using acquire_all_or_nothing [OF _ _ a] wf unfolding sl a
    by (simp add: sample_gw_def)
qed

text \<open>
  The group's rate limit is charged before the key's is looked at, so a request the key's
  limit rejects has used up one of its group's requests.
\<close>

text \<open>When the group's limit admits a request that the key's limit then rejects, the
  request is not forwarded and yet counts against its group.\<close>

lemma rejected_key_charges_group:
  assumes grp: "admit (group_subject (gv_id grp)) (gv_rpm grp) (gv_tpm grp) now r = (r1, None)" and "0 < gv_rpm grp"
    and key: "admit (key_subject (KeyID p)) (KeyRPM p) (KeyTPM p) now r1 = (r2, Some e)"
    and len: "length (w_reqs (fst (slot now (window (group_subject (gv_id grp)) now r)))) = 60"
  shows "admit_rates grp p now r = (r2, Some e) \<and>
    (\<exists>w. r2 (group_subject (gv_id grp)) = Some w \<and>
       w_reqs w ! nat (unix now mod 60) = w_reqs (fst (slot now (window (group_subject (gv_id grp)) now r))) ! nat (unix now mod 60) + 1)"
proof -
  have "r2 (group_subject (gv_id grp)) = r1 (group_subject (gv_id grp))"
    using key by (auto simp: admit_def Let_def subjects_distinct split: if_splits prod.splits)
  moreover have "nat (unix now mod 60) < 60" by (simp add: nat_less_iff)
  ultimately show ?thesis
    using grp key assms(2) len
    by (auto simp: admit_rates_def admit_def Let_def slot_def split: if_splits prod.splits)
qed

lemma rejected_key_charges_group_witness:
  "snd (admit_rates ((group_view sample_group)\<lparr>gv_rpm := 5\<rparr>) (sample_principal\<lparr>KeyRPM := 1\<rparr>) second
      (fst (admit (key_subject 3) 1 0 second Map.empty))) = Some ErrRateLimited"
proof -
  let ?grp = "(group_view sample_group)\<lparr>gv_rpm := 5\<rparr>" and ?p = "sample_principal\<lparr>KeyRPM := 1\<rparr>"
  let ?r = "fst (admit (key_subject 3) 1 0 second Map.empty)"
  obtain r1 e1 where a: "admit (group_subject (gv_id ?grp)) (gv_rpm ?grp) (gv_tpm ?grp) second ?r = (r1, e1)" by fastforce
  have "snd (admit (group_subject (gv_id ?grp)) (gv_rpm ?grp) (gv_tpm ?grp) second ?r) = None" by code_simp
  then have e1: "e1 = None" unfolding a by simp
  obtain r2 e2 where k: "admit (key_subject (KeyID ?p)) (KeyRPM ?p) (KeyTPM ?p) second r1 = (r2, e2)" by fastforce
  have "snd (admit (key_subject (KeyID ?p)) (KeyRPM ?p) (KeyTPM ?p) second
      (fst (admit (group_subject (gv_id ?grp)) (gv_rpm ?grp) (gv_tpm ?grp) second ?r))) = Some ErrRateLimited" by code_simp
  then have e2: "e2 = Some ErrRateLimited" unfolding a fst_conv k by simp
  have "length (w_reqs (fst (slot second (window (group_subject (gv_id ?grp)) second ?r)))) = 60" by code_simp
  moreover have "0 < gv_rpm ?grp" by code_simp
  ultimately show ?thesis
    using rejected_key_charges_group [OF a [unfolded e1] _ k [unfolded e2]] by simp
qed

end
