(* ===== verification/Forward.thy ===== *)
theory Forward
  imports Admission
begin

text \<open>
  The back half of the request pipeline (\<open>internal/gateway/handler.go\<close>): the order in which
  accounts are tried, the attempts, the relay of the answer, and the two handlers that put the
  stages together. What an upstream, the clock and the client do is an argument: one
  environment per account looked at.
\<close>

section \<open>The order of the accounts\<close>

definition draw_weight :: "Upstream \<Rightarrow> int" where
  "draw_weight u = max (up_weight u) 1"

fun draw_index :: "Upstream list \<Rightarrow> int \<Rightarrow> nat" where
  \<comment> \<open>the inner loop: \<open>r -= weight; if r < 0\<close>\<close>
  "draw_index [] r = 0"
| "draw_index (u # us) r = (if r - draw_weight u < 0 then 0 else Suc (draw_index us (r - draw_weight u)))"

definition total_weight :: "Upstream list \<Rightarrow> int" where
  "total_weight us = (\<Sum>u\<leftarrow>us. draw_weight u)"

lemma draw_weight_pos: "0 < draw_weight u"
  by (simp add: draw_weight_def)

lemma total_weight_nonneg: "0 \<le> total_weight us"
  by (induction us) (auto simp: total_weight_def intro: add_nonneg_nonneg less_imp_le draw_weight_pos)

lemma draw_index_bound: "r < total_weight us \<Longrightarrow> draw_index us r < length us \<or> us = []"
proof (induction us r rule: draw_index.induct)
  case (2 u us r)
  then show ?case
    using draw_weight_pos [of u] by (cases us) (auto simp: total_weight_def)
qed simp

function draw_tier :: "(nat \<Rightarrow> int) \<Rightarrow> nat \<Rightarrow> Upstream list \<Rightarrow> Upstream list" where
  \<comment> \<open>\<open>rand.IntN(total)\<close> is the \<open>k\<close>-th draw modulo the total\<close>
  "draw_tier draws k tier =
     (if tier = [] then []
      else let i = draw_index tier (draws k mod total_weight tier)
           in if i < length tier then tier ! i # draw_tier draws (Suc k) (take i tier @ drop (Suc i) tier)
              else [])"
  by pat_completeness auto

termination
  by (relation "measure (\<lambda>(_, _, tier). length tier)") auto

declare draw_tier.simps [simp del]

function tiers :: "Upstream list \<Rightarrow> Upstream list list" where
  "tiers [] = []"
| "tiers (u # us) =
     (u # takeWhile (\<lambda>v. up_priority v = up_priority u) us) #
       tiers (dropWhile (\<lambda>v. up_priority v = up_priority u) us)"
  by pat_completeness auto

termination
  by (relation "measure length") (auto simp: length_dropWhile_le le_imp_less_Suc)

fun draw_tiers :: "(nat \<Rightarrow> int) \<Rightarrow> nat \<Rightarrow> Upstream list list \<Rightarrow> Upstream list" where
  "draw_tiers draws k [] = []"
| "draw_tiers draws k (t # ts) = draw_tier draws k t @ draw_tiers draws (k + length t) ts"

definition orderUpstreams :: "(nat \<Rightarrow> int) \<Rightarrow> Upstream list \<Rightarrow> Upstream list" where
  "orderUpstreams draws ups = (if length ups < 2 then ups else draw_tiers draws 0 (tiers ups))"

lemma draw_tier_mset: "mset (draw_tier draws k tier) = mset tier"
proof (induction draws k tier rule: draw_tier.induct)
  case (1 draws k tier)
  show ?case
  proof (cases "tier = []")
    case False
    let ?i = "draw_index tier (draws k mod total_weight tier)"
    have "0 < total_weight tier"
      using False draw_weight_pos total_weight_nonneg
      by (cases tier) (auto simp: total_weight_def intro: add_pos_nonneg)
    then have i: "?i < length tier" using draw_index_bound [of _ tier] False by auto
    have "mset (take ?i tier @ drop (Suc ?i) tier) + {#tier ! ?i#} = mset tier"
      using id_take_nth_drop [OF i] by (metis add_mset_add_single mset.simps(2) mset_append union_mset_add_mset_right)
    with 1 [OF False refl i] i show ?thesis
      by (subst draw_tier.simps) (simp add: False Let_def)
  qed (simp add: draw_tier.simps)
qed

lemma concat_tiers: "concat (tiers us) = us"
  by (induction us rule: tiers.induct) auto

lemma draw_tiers_mset: "mset (draw_tiers draws k ts) = mset (concat ts)"
  by (induction draws k ts rule: draw_tiers.induct) (auto simp: draw_tier_mset)

lemma set_draw_tier: "set (draw_tier draws k t) = set t"
  using draw_tier_mset mset_eq_setD by blast

lemma set_draw_tiers: "set (draw_tiers draws k ts) = set (concat ts)"
  using draw_tiers_mset mset_eq_setD by blast

definition one_priority :: "Upstream list \<Rightarrow> bool" where
  "one_priority t \<longleftrightarrow> (\<exists>p. \<forall>u\<in>set t. up_priority u = p)"

lemma tiers_one_priority: "t \<in> set (tiers us) \<Longrightarrow> one_priority t"
proof (induction us rule: tiers.induct)
  case (2 w us)
  have "one_priority (w # takeWhile (\<lambda>v. up_priority v = up_priority w) us)"
    unfolding one_priority_def by (rule exI [of _ "up_priority w"]) (auto dest: set_takeWhileD)
  with 2 show ?case by auto
qed simp

lemma draw_tier_sorted: "one_priority t \<Longrightarrow> sorted (map up_priority (draw_tier draws k t))"
  unfolding one_priority_def by (auto simp: set_draw_tier intro: sorted_same)

lemma draw_tiers_sorted:
  "sorted (map up_priority (concat ts)) \<Longrightarrow> \<forall>t\<in>set ts. one_priority t \<Longrightarrow>
     sorted (map up_priority (draw_tiers draws k ts))"
proof (induction draws k ts rule: draw_tiers.induct)
  case (2 draws k t ts)
  then have "sorted (map up_priority (draw_tier draws k t))" by (simp add: draw_tier_sorted)
  with 2 show ?case by (auto simp: sorted_append set_draw_tier set_draw_tiers)
qed simp

text \<open>The order in which accounts are tried is a permutation of the accounts that keeps
  lower priorities strictly before higher ones, whatever the random draws; and the draw inside
  a tier picks each account for exactly as many of the equally likely draws as its weight.\<close>

lemma order_fair:
  assumes "sorted (map up_priority ups)"
  shows "mset (orderUpstreams draws ups) = mset ups \<and> sorted (map up_priority (orderUpstreams draws ups)) \<and>
    (\<forall>i < length ups. int (card {r. 0 \<le> r \<and> r < total_weight ups \<and> draw_index ups r = i}) = draw_weight (ups ! i))"
proof (intro conjI allI impI)
  show "mset (orderUpstreams draws ups) = mset ups"
    by (simp add: orderUpstreams_def draw_tiers_mset concat_tiers)
  show "sorted (map up_priority (orderUpstreams draws ups))"
    using assms draw_tiers_sorted [of "tiers ups" draws 0] tiers_one_priority [of _ ups]
    by (simp add: orderUpstreams_def concat_tiers)
  fix i assume "i < length ups"
  then show "int (card {r. 0 \<le> r \<and> r < total_weight ups \<and> draw_index ups r = i}) = draw_weight (ups ! i)"
  proof (induction ups arbitrary: i)
    case (Cons u us)
    show ?case
    proof (cases i)
      case 0
      have "{r. 0 \<le> r \<and> r < total_weight (u # us) \<and> draw_index (u # us) r = 0} = {0..<draw_weight u}"
        using total_weight_nonneg [of us] by (auto simp: total_weight_def)
      with 0 draw_weight_pos [of u] show ?thesis by simp
    next
      case (Suc j)
      let ?A = "{r. 0 \<le> r \<and> r < total_weight us \<and> draw_index us r = j}"
      have "{r. 0 \<le> r \<and> r < total_weight (u # us) \<and> draw_index (u # us) r = Suc j} = (\<lambda>r. r + draw_weight u) ` ?A"
      proof (intro equalityI subsetI)
        fix r assume r: "r \<in> {r. 0 \<le> r \<and> r < total_weight (u # us) \<and> draw_index (u # us) r = Suc j}"
        then have "r - draw_weight u \<in> ?A" by (auto simp: total_weight_def split: if_splits)
        then show "r \<in> (\<lambda>r. r + draw_weight u) ` ?A" by (auto intro: image_eqI [where x = "r - draw_weight u"])
      qed (use draw_weight_pos [of u] in \<open>auto simp: total_weight_def\<close>)
      moreover have "inj_on (\<lambda>r. r + draw_weight u) ?A" by (simp add: inj_on_def)
      ultimately show ?thesis using Cons Suc by (simp add: card_image)
    qed
  qed simp
qed

section \<open>Protocols and models\<close>

definition pickProto :: "Upstream \<Rightarrow> proto \<Rightarrow> bool \<Rightarrow> proto option" where
  "pickProto up client conversion =
     (if HasProtocol up client then Some client
      else if \<not> conversion \<or> protocolType client \<noteq> TypeText then None
      else List.find (HasProtocol up) [ProtoOpenAIChat, ProtoOpenAIResponses, ProtoAnthropicMessages, ProtoGemini])"

definition mapModel :: "Upstream \<Rightarrow> string \<Rightarrow> string" where
  "mapModel up m = (case up_mappings up m of Some x \<Rightarrow> if x \<noteq> '''' then x else m | None \<Rightarrow> m)"

lemma pickProto_supported: "pickProto up client conversion = Some p \<Longrightarrow> HasProtocol up p"
  by (auto simp: pickProto_def split: if_splits)

lemma pickProto_native: "\<not> conversion \<Longrightarrow> pickProto up client conversion = Some p \<Longrightarrow> p = client"
  by (auto simp: pickProto_def split: if_splits)

section \<open>What the world does during an attempt\<close>

datatype call =
    CallErr string network_error bool \<comment> \<open>the error, its class, and whether the request was sent\<close>
  | CallResp int retry_header string \<comment> \<open>status, Retry-After and the bytes of the body\<close>

datatype stream_end = StreamOk | StreamClientGone | StreamIncomplete string | StreamBroken string

datatype body_relay =
    RelayReadError string
  | RelayBody string "string + string" \<comment> \<open>the bytes, and \<open>convertResponse\<close> of them\<close>

record attempt_env =
  ae_now :: time
  ae_convert :: "string + string" \<comment> \<open>the conversion of the request to the upstream protocol\<close>
  ae_form :: "string + string" \<comment> \<open>the multipart form encoded again\<close>
  ae_first :: call
  ae_second :: call \<comment> \<open>the repetition without \<open>stream_options\<close>\<close>
  ae_client_gone :: bool
  ae_latency :: int
  ae_sse :: bool
  ae_stream_usage :: usage
  ae_stream_known :: bool
  ae_stream_end :: stream_end
  ae_body :: body_relay
  ae_done :: time

record forward_cfg =
  fc_max_tries :: int
  fc_cooldown :: duration
  fc_raw_cooldown :: duration \<comment> \<open>the setting itself, used for cut-short streams\<close>
  fc_conversion :: bool
  fc_zone :: int
  fc_pricer :: "pricer option"
  fc_parse :: "string \<Rightarrow> json option" \<comment> \<open>\<open>encoding/json\<close>'s parser\<close>
  fc_status_text :: "int \<Rightarrow> string" \<comment> \<open>\<open>http.StatusText\<close>\<close>

definition forward_cfg_of :: "perf \<Rightarrow> bool \<Rightarrow> int \<Rightarrow> pricer option \<Rightarrow> (string \<Rightarrow> json option) \<Rightarrow> (int \<Rightarrow> string) \<Rightarrow> forward_cfg" where
  "forward_cfg_of pf conversion zone pr parse texts =
     \<lparr>fc_max_tries = (if pf_max_retries pf \<le> 0 then 3 else pf_max_retries pf),
      fc_cooldown = (let d = wrap64 (pf_cooldown pf * second) in if d \<le> 0 then 60 * second else d),
      fc_raw_cooldown = wrap64 (pf_cooldown pf * second),
      fc_conversion = conversion, fc_zone = zone, fc_pricer = pr, fc_parse = parse, fc_status_text = texts\<rparr>"

section \<open>The request body\<close>

datatype upstream_body =
    SameBytes string
  | FieldsOf "(string \<times> json) list"
  | Encoded string

definition set_field :: "string \<Rightarrow> json \<Rightarrow> (string \<times> json) list \<Rightarrow> (string \<times> json) list" where
  "set_field k v fs = filter (\<lambda>(k', _). k' \<noteq> k) fs @ [(k, v)]"

definition stateless_only :: string where
  "stateless_only = ''previous_response_id needs a native Responses upstream; conversion to another protocol is stateless''"

definition buildBody :: "attempt_env \<Rightarrow> req \<Rightarrow> proto \<Rightarrow> string \<Rightarrow> string + upstream_body \<times> bool" where
  \<comment> \<open>the body and \<open>dropUsage\<close>; the converters are an input\<close>
  "buildBody e q p m =
     (if p = rq_proto q \<and> p = ProtoGemini then Inr (SameBytes (rq_body q), False)
      else if rq_multipart q then map_sum id (\<lambda>b. (Encoded b, False)) (ae_form e)
      else if p = rq_proto q then
        let fs = set_field ''model'' (JStr m) (rq_raw q)
        in if p = ProtoOpenAIChat \<and> rq_stream q \<and> \<not> rq_include_usage q
           then Inr (FieldsOf (set_field ''stream_options'' (JObj [(''include_usage'', JBool True)]) fs), True)
           else Inr (FieldsOf fs, False)
      else if rq_proto q = ProtoOpenAIResponses \<and>
              (case raw_field ''previous_response_id'' (rq_raw q) of
                 None \<Rightarrow> False | Some v \<Rightarrow> v \<noteq> JNull \<and> v \<noteq> JStr '''')
        then Inl stateless_only
      else map_sum id (\<lambda>b. (Encoded b, False)) (ae_convert e))"

fun stripStreamOptions :: "upstream_body \<Rightarrow> upstream_body" where
  "stripStreamOptions (FieldsOf fs) = FieldsOf (filter (\<lambda>(k, _). k \<noteq> ''stream_options'') fs)"
| "stripStreamOptions b = b"

lemma raw_field_set: "raw_field k (set_field k' v fs) = (if k = k' then Some v else raw_field k fs)"
proof -
  have "map_of (rev (filter (\<lambda>(j, _). j \<noteq> k') fs)) k = map_of (rev fs) k" if "k \<noteq> k'"
    using that by (induction fs) (auto simp: map_add_def split: option.split)
  then show ?thesis by (simp add: raw_field_def set_field_def)
qed

lemma raw_field_strip:
  "raw_field k (filter (\<lambda>(j, _). j \<noteq> k') fs) = (if k = k' then None else raw_field k fs)"
  unfolding raw_field_def
  by (induction fs) (auto simp: map_add_def split: option.split)

definition dec_error :: "(string \<times> json) list \<Rightarrow> string option" where
  \<comment> \<open>the \<open>error\<close> object; a \<open>type\<close> that is not a string fails the decoding\<close>
  "dec_error fs =
     (case (dec_str (jfield ''message'' fs), dec_str (jfield ''type'' fs)) of
        (Some m, Some _) \<Rightarrow> Some m
      | _ \<Rightarrow> None)"

definition error_message :: "json option \<Rightarrow> string" where
  "error_message v =
     (case v of
        Some (JObj fs) \<Rightarrow>
          (case (dec_struct '''' dec_error (jfield ''error'' fs), dec_str (jfield ''message'' fs)) of
             (Some m, Some m') \<Rightarrow> if m \<noteq> '''' then m else m'
           | _ \<Rightarrow> '''')
      | _ \<Rightarrow> '''')"

definition readErrorBody :: "forward_cfg \<Rightarrow> int \<Rightarrow> string \<Rightarrow> string \<times> string" where
  "readErrorBody cfg st body =
     (let raw = (if int (length body) \<le> 65536 then body else take 65536 body); m = error_message (fc_parse cfg raw)
      in if m \<noteq> '''' then (m, raw)
         else
           let s = trim_space raw;
               s = (if int (length s) > 300 then take 300 s @ [CHR 0xE2, CHR 0x80, CHR 0xA6] else s)
           in (if s = '''' then fc_status_text cfg st else s, raw))"

definition effective_call :: "forward_cfg \<Rightarrow> attempt_env \<Rightarrow> bool \<Rightarrow> call \<times> bool" where
  \<comment> \<open>the call that counts and \<open>dropUsage\<close> after it: a 400 about the injected
     \<open>stream_options\<close> is repeated once without them; of any other 400 only the message is kept\<close>
  "effective_call cfg e du =
     (case ae_first e of
        CallResp st hdr body \<Rightarrow>
          if st = 400 \<and> du
          then let msg = fst (readErrorBody cfg st body)
               in if contains_str msg ''stream_options'' then (ae_second e, False)
                  else (CallResp st hdr msg, du)
          else (ae_first e, du)
      | CallErr m c sent \<Rightarrow> (ae_first e, du))"

definition credentialCooldown :: duration where
  "credentialCooldown = 10 * minute"

section \<open>One account\<close>

definition select :: "forward_cfg \<Rightarrow> time \<Rightarrow> Upstream \<Rightarrow> req \<Rightarrow> gw \<Rightarrow> gw \<times> (proto \<times> nat) option" where
  \<comment> \<open>the guards of the loop body; the protocol and the counter taken, or the account is skipped\<close>
  "select cfg now up q g =
     (let (h, ok) = available (up_id up) now (gw_health g);
          g1 = g\<lparr>gw_health := h\<rparr>
      in if \<not> ok then (g1, None)
         else if rq_endpoint q \<noteq> '''' \<and> rq_endpoint q \<notin> set (up_endpoints up) then (g1, None)
         else case pickProto up (rq_proto q) (fc_conversion cfg) of
                None \<Rightarrow> (g1, None)
              | Some p \<Rightarrow>
                  let (cm, ptr) = cm_get (up_id up) (gw_accounts g1)
                  in case cm_try (up_max_concurrency up) ptr cm of
                       None \<Rightarrow> (g1\<lparr>gw_accounts := cm\<rparr>, None)
                     | Some cm' \<Rightarrow> (g1\<lparr>gw_accounts := cm'\<rparr>, Some (p, ptr)))"

definition release_account :: "nat \<Rightarrow> gw \<Rightarrow> gw" where
  "release_account ptr g = g\<lparr>gw_accounts := cm_release ptr (gw_accounts g)\<rparr>"

definition new_attempt :: "Upstream \<Rightarrow> proto \<Rightarrow> string \<Rightarrow> attemptRecord" where
  "new_attempt up p m =
     \<lparr>at_account = up_id up, at_account_name = up_name up, at_provider = up_provider up, at_protocol = p,
      at_model = m, at_status = 0, at_latency = 0, at_error = '''', at_usage = None, at_prompt = 0,
      at_completion = 0, at_cached = 0, at_cache_write = 0, at_cost = 0, at_cost_known = False\<rparr>"

definition health_act :: "(healthTracker \<Rightarrow> healthTracker \<times> health_job list) \<Rightarrow> gw \<Rightarrow> gw" where
  "health_act f g = (let (h, js) = f (gw_health g) in g\<lparr>gw_health := h, gw_jobs := gw_jobs g @ js\<rparr>)"

definition note_upstream :: "Upstream \<Rightarrow> string \<Rightarrow> proto \<Rightarrow> call_log \<Rightarrow> call_log" where
  "note_upstream up m p l =
     l\<lparr>cl_account := up_id up, cl_account_name := up_name up, cl_provider := up_provider up,
       cl_upstream_model := m, cl_upstream_protocol := Some p\<rparr>"

definition http_failure_attempt :: "proto \<Rightarrow> int \<Rightarrow> string \<Rightarrow> json option \<Rightarrow> attemptRecord \<Rightarrow> attemptRecord" where
  "http_failure_attempt p st msg raw a =
     (let (u, ok) = usageFromJSON p raw; a1 = a\<lparr>at_error := msg\<rparr>
      in if ok \<and> (PromptTokens u + CompletionTokens u > 0 \<or> p = ProtoCustomJSON)
         then a1\<lparr>at_usage := Some UsageConfirmed, at_prompt := PromptTokens u, at_completion := CompletionTokens u\<rparr>
         else a1\<lparr>at_usage := Some (httpFailureUsage st)\<rparr>)"

definition punish :: "forward_cfg \<Rightarrow> time \<Rightarrow> nat \<Rightarrow> int \<Rightarrow> duration \<Rightarrow> string \<Rightarrow> gw \<Rightarrow> gw" where
  \<comment> \<open>what a retryable status does to the account's health\<close>
  "punish cfg now i st retry msg g =
     (if st = 404 then g
      else if st = 401 \<or> st = 403 \<or> st = 402
        then health_act (failFor i credentialCooldown (''credentials rejected: '' @ msg) now) g
      else if st = 429 \<and> retry > 0
        then health_act (failFor i retry (''rate limited (Retry-After): '' @ msg) now) g
      else health_act (fail i (fc_cooldown cfg) msg now) g)"

section \<open>Relaying the answer\<close>

definition relay_stream :: "forward_cfg \<Rightarrow> attempt_env \<Rightarrow> gw \<times> req \<Rightarrow> gw \<times> req" where
  "relay_stream cfg e gq =
     (let (g, q) = gq;
          q1 = q\<lparr>rq_wrote := True, rq_out := rq_out q @ [StreamReply],
                 rq_log := (rq_log q)\<lparr>cl_upstream_latency := cl_upstream_latency (rq_log q) + ae_latency e\<rparr>\<rparr>;
          (as, l) = setUsage (ae_stream_usage e) (ae_stream_known e) (ae_stream_end e = StreamOk) (rq_attempts q1, rq_log q1);
          (l1, g1) =
            (case ae_stream_end e of
               StreamOk \<Rightarrow> (l\<lparr>cl_result := ResSuccess, cl_status := 200\<rparr>, g)
             | StreamClientGone \<Rightarrow> (l\<lparr>cl_result := ResClientError, cl_status := 499, cl_error := ''client disconnected''\<rparr>, g)
             | StreamIncomplete msg \<Rightarrow>
                 ((l\<lparr>cl_result := ResUpstreamError, cl_status := 200, cl_error := msg\<rparr>,
                      health_act (fail (cl_account l) (fc_raw_cooldown cfg) msg (ae_done e)) g))
             | StreamBroken msg \<Rightarrow>
                 (l\<lparr>cl_result := ResUpstreamError, cl_status := 200, cl_error := truncate_str msg 500\<rparr>, g))
      in finish (fc_zone cfg) (fc_pricer cfg) (ae_done e) (g1, q1\<lparr>rq_attempts := as, rq_log := l1\<rparr>))"

definition read_failed :: "string \<Rightarrow> gateway_error" where
  "read_failed msg = newErr 502 ''upstream_read_failed'' (''Failed reading upstream response: '' @ msg)"

definition conversion_failed :: "string \<Rightarrow> gateway_error" where
  "conversion_failed msg = newErr 502 ''conversion_failed'' (''Failed converting upstream response: '' @ msg)"

definition relay_body :: "forward_cfg \<Rightarrow> attempt_env \<Rightarrow> proto \<Rightarrow> int \<Rightarrow> gw \<times> req \<Rightarrow> gw \<times> req" where
  "relay_body cfg e p st gq =
     (let (g, q) = gq;
          q1 = q\<lparr>rq_log := (rq_log q)\<lparr>cl_upstream_latency := cl_upstream_latency (rq_log q) + ae_latency e\<rparr>\<rparr>
      in case ae_body e of
           RelayReadError msg \<Rightarrow> fail_request (fc_zone cfg) (fc_pricer cfg) (ae_done e) (read_failed msg) (g, q1)
         | RelayBody raw converted \<Rightarrow>
             let (u, ok) = usageFromJSON p (fc_parse cfg raw);
                 (as, l) = setUsage u ok True (rq_attempts q1, rq_log q1);
                 as = (if p = ProtoCustomJSON \<and> ok \<and> TotalTokens u = 0 \<and> as \<noteq> []
                       then butlast as @ [(last as)\<lparr>at_usage := Some UsageConfirmed\<rparr>] else as);
                 q2 = q1\<lparr>rq_stream := False, rq_attempts := as, rq_log := l\<rparr>
             in case (if p \<noteq> rq_proto q then converted else Inr raw) of
                  Inl err \<Rightarrow> fail_request (fc_zone cfg) (fc_pricer cfg) (ae_done e) (conversion_failed err) (g, q2)
                | Inr body \<Rightarrow>
                    let code = (if p = ProtoCustomJSON then st else 200)
                    in finish (fc_zone cfg) (fc_pricer cfg) (ae_done e)
                         (g, q2\<lparr>rq_wrote := True, rq_out := rq_out q2 @ [RawReply code body],
                              rq_log := (rq_log q2)\<lparr>cl_result := ResSuccess, cl_status := code\<rparr>\<rparr>))"

definition relay :: "forward_cfg \<Rightarrow> attempt_env \<Rightarrow> proto \<Rightarrow> int \<Rightarrow> gw \<times> req \<Rightarrow> gw \<times> req" where
  "relay cfg e p st gq =
     (if rq_stream (snd gq) \<and> ae_sse e then relay_stream cfg e gq else relay_body cfg e p st gq)"

section \<open>One attempt\<close>

datatype verdict =
    Finished
  | NextAccount string int "duration option" \<comment> \<open>last message, status, Retry-After\<close>

definition add_attempt :: "attemptRecord \<Rightarrow> req \<Rightarrow> req" where
  "add_attempt a q = q\<lparr>rq_attempts := rq_attempts q @ [a]\<rparr>"

definition network_failed :: "forward_cfg \<Rightarrow> attempt_env \<Rightarrow> Upstream \<Rightarrow> nat \<Rightarrow> attemptRecord \<Rightarrow> string \<Rightarrow> network_error \<Rightarrow>
    bool \<Rightarrow> gw \<times> req \<Rightarrow> (gw \<times> req) \<times> verdict" where
  "network_failed cfg e up ptr a msg cls sent gq =
     (let (g, q) = gq; g1 = release_account ptr g; st = Some (networkFailureUsage cls sent)
      in if ae_client_gone e
         then
           let q1 = add_attempt (a\<lparr>at_error := ''client disconnected'', at_usage := st\<rparr>) q;
               q2 = q1\<lparr>rq_wrote := True, rq_log := (rq_log q1)\<lparr>cl_result := ResClientError,
                      cl_error := ''client disconnected'', cl_status := 499\<rparr>\<rparr>
           in (finish (fc_zone cfg) (fc_pricer cfg) (ae_done e) (g1, q2), Finished)
         else
           ((health_act (fail (up_id up) (fc_cooldown cfg) msg (ae_now e)) g1,
             add_attempt (a\<lparr>at_error := msg, at_usage := st\<rparr>) q),
            NextAccount msg 502 None))"

definition http_failed :: "forward_cfg \<Rightarrow> attempt_env \<Rightarrow> Upstream \<Rightarrow> proto \<Rightarrow> nat \<Rightarrow> string \<Rightarrow> attemptRecord \<Rightarrow> int \<Rightarrow>
    retry_header \<Rightarrow> string \<Rightarrow> gw \<times> req \<Rightarrow> (gw \<times> req) \<times> verdict" where
  "http_failed cfg e up p ptr m a st hdr body gq =
     (let (g, q) = gq;
          (msg, raw) = readErrorBody cfg st body;
          retry = parseRetryAfter hdr (ae_now e);
          g1 = release_account ptr g;
          q1 = add_attempt (http_failure_attempt p st msg (fc_parse cfg raw) a) q;
          q2 = q1\<lparr>rq_log := (rq_log q1)\<lparr>cl_upstream_latency := cl_upstream_latency (rq_log q1) + ae_latency e\<rparr>\<rparr>
      in if retryable st
         then ((punish cfg (ae_now e) (up_id up) st retry msg g1, q2),
               NextAccount msg st (if st = 429 \<and> retry > 0 then Some retry else None))
         else
           let g2 = health_act (health_ok (up_id up)) g1;
               q3 = q2\<lparr>rq_log := note_upstream up m p (rq_log q2)\<rparr>
           in if p = rq_proto q \<and> fc_parse cfg raw \<noteq> None
              then (finish (fc_zone cfg) (fc_pricer cfg) (ae_done e)
                      (g2, q3\<lparr>rq_wrote := True, rq_out := rq_out q3 @ [RawReply st raw],
                            rq_log := (rq_log q3)\<lparr>cl_status := st, cl_error := msg, cl_result := ResClientError\<rparr>\<rparr>),
                    Finished)
              else (fail_request (fc_zone cfg) (fc_pricer cfg) (ae_done e) (newErr st ''upstream_rejected'' msg) (g2, q3),
                    Finished))"

definition answered :: "forward_cfg \<Rightarrow> attempt_env \<Rightarrow> Upstream \<Rightarrow> proto \<Rightarrow> nat \<Rightarrow> string \<Rightarrow> attemptRecord \<Rightarrow> int \<Rightarrow>
    gw \<times> req \<Rightarrow> (gw \<times> req) \<times> verdict" where
  "answered cfg e up p ptr m a st gq =
     (let (g, q) = gq;
          q1 = add_attempt (a\<lparr>at_usage := Some UsageUnknown\<rparr>) q;
          q2 = q1\<lparr>rq_log := note_upstream up m p (rq_log q1)\<rparr>;
          g1 = health_act (health_ok (up_id up)) g;
          (g2, q3) = relay cfg e p st (g1, q2)
      in ((release_account ptr g2, q3), Finished))"

definition attempt :: "forward_cfg \<Rightarrow> attempt_env \<Rightarrow> Upstream \<Rightarrow> proto \<Rightarrow> nat \<Rightarrow> string \<Rightarrow> gw \<times> req \<Rightarrow> (gw \<times> req) \<times> verdict" where
  "attempt cfg e up p ptr cand gq =
     (let (g, q) = gq; m = mapModel up cand; a = new_attempt up p m
      in case buildBody e q p m of
           Inl err \<Rightarrow>
             let msg = ''conversion: '' @ err
             in ((release_account ptr g, add_attempt (a\<lparr>at_error := msg\<rparr>) q), NextAccount msg 400 None)
         | Inr (_, du) \<Rightarrow>
             let (c, _) = effective_call cfg e du; a1 = a\<lparr>at_latency := ae_latency e\<rparr>
             in case c of
                  CallErr msg cls sent \<Rightarrow> network_failed cfg e up ptr a1 msg cls sent (g, q)
                | CallResp st hdr body \<Rightarrow>
                    let a2 = a1\<lparr>at_status := st\<rparr>
                    in if st \<ge> 300 then http_failed cfg e up p ptr m a2 st hdr body (g, q)
                       else answered cfg e up p ptr m a2 st (g, q))"

section \<open>All of them\<close>

record progress =
  pr_tries :: int
  pr_msg :: string
  pr_status :: int
  pr_retry :: duration

definition no_progress :: progress where
  "no_progress = \<lparr>pr_tries = 0, pr_msg = '''', pr_status = 0, pr_retry = 0\<rparr>"

fun forward_ups :: "forward_cfg \<Rightarrow> (nat \<Rightarrow> attempt_env) \<Rightarrow> string \<Rightarrow> Upstream list \<Rightarrow> nat \<Rightarrow> progress \<Rightarrow> gw \<times> req \<Rightarrow>
    nat \<times> progress \<times> (gw \<times> req) \<times> bool" where
  \<comment> \<open>the loop over the accounts of one candidate; \<open>k\<close> counts the accounts looked at; True: the
     request has been answered\<close>
  "forward_ups cfg env cand [] k st gq = (k, st, gq, False)"
| "forward_ups cfg env cand (up # ups) k st gq =
     (if pr_tries st \<ge> fc_max_tries cfg then (k, st, gq, False)
      else
        case select cfg (ae_now (env k)) up (snd gq) (fst gq) of
          (g1, None) \<Rightarrow> forward_ups cfg env cand ups (Suc k) st (g1, snd gq)
        | (g1, Some (p, ptr)) \<Rightarrow>
            let st1 = st\<lparr>pr_tries := pr_tries st + 1\<rparr>
            in case attempt cfg (env k) up p ptr cand (g1, snd gq) of
                 (gq2, Finished) \<Rightarrow> (Suc k, st1, gq2, True)
               | (gq2, NextAccount msg s r) \<Rightarrow>
                   forward_ups cfg env cand ups (Suc k)
                     (st1\<lparr>pr_msg := msg, pr_status := s,
                          pr_retry := (case r of None \<Rightarrow> pr_retry st1 | Some d \<Rightarrow> d)\<rparr>) gq2)"

definition candidate_accounts :: "Snapshot \<Rightarrow> api_type \<Rightarrow> string \<Rightarrow> Upstream list" where
  "candidate_accounts s t cand =
     (let ups = UpstreamsFor s cand in if ups = [] then PassthroughFor s t else ups)"

fun forward_cands :: "forward_cfg \<Rightarrow> (nat \<Rightarrow> attempt_env) \<Rightarrow> (nat \<Rightarrow> nat \<Rightarrow> int) \<Rightarrow> Snapshot \<Rightarrow> string list \<Rightarrow> nat \<Rightarrow>
    progress \<Rightarrow> gw \<times> req \<Rightarrow> nat \<times> progress \<times> (gw \<times> req) \<times> bool" where
  "forward_cands cfg env draws s [] k st gq = (k, st, gq, False)"
| "forward_cands cfg env draws s (cand # cands) k st gq =
     (let ups = orderUpstreams (draws k) (candidate_accounts s (rq_api_type (snd gq)) cand)
      in case forward_ups cfg env cand ups k st gq of
           (k1, st1, gq1, True) \<Rightarrow> (k1, st1, gq1, True)
         | (k1, st1, gq1, False) \<Rightarrow> forward_cands cfg env draws s cands k1 st1 gq1)"

definition upstream_failed :: "progress \<Rightarrow> gateway_error" where
  "upstream_failed st =
     newErr (if pr_status st = 429 then 429 else if pr_status st = 400 then 400 else 502) ''upstream_failed''
       (''All upstream attempts failed: '' @ truncate_str (pr_msg st) 300)"

definition forward :: "forward_cfg \<Rightarrow> (nat \<Rightarrow> attempt_env) \<Rightarrow> (nat \<Rightarrow> nat \<Rightarrow> int) \<Rightarrow> time \<Rightarrow> Snapshot \<Rightarrow> string list \<Rightarrow>
    gw \<times> req \<Rightarrow> gw \<times> req" where
  "forward cfg env draws end_time s cands gq =
     (case forward_cands cfg env draws s cands 0 no_progress gq of
        (_, _, gq1, True) \<Rightarrow> gq1
      | (_, st, (g, q), False) \<Rightarrow>
          if pr_status st = 0 then fail_request (fc_zone cfg) (fc_pricer cfg) end_time ErrNoUpstream (g, q)
          else
            let q1 = (if pr_status st = 429 \<and> pr_retry st > 0
                      then q\<lparr>rq_retry_after := Some (dec_nat (nat (pr_retry st div second)))\<rparr> else q)
            in fail_request (fc_zone cfg) (fc_pricer cfg) end_time (upstream_failed st) (g, q1))"

end
