(* ===== verification/Forwarding.thy ===== *)
theory Forwarding
  imports Forward
begin

text \<open>
  What forwarding a request guarantees: the slots, the log entry and the reply, the discipline
  of the retries and the status a client sees when nothing worked. The lemmas follow the
  model of \<open>Forward\<close> from one attempt over the loops to \<open>forward\<close>.
\<close>

section \<open>What one attempt does\<close>

definition at_key :: "attemptRecord \<Rightarrow> nat \<times> proto \<times> string \<times> int" where
  "at_key a = (at_account a, at_protocol a, at_model a, at_status a)"

definition keys_of :: "req \<Rightarrow> (nat \<times> proto \<times> string \<times> int) list" where
  "keys_of q = map at_key (rq_attempts q)"

definition pools :: "gw \<Rightarrow> gate \<times> counter_map \<times> counter_map" where
  "pools g = (gw_gate g, gw_groups g, gw_apikeys g)"

lemma pools_update [simp]:
  "pools (g\<lparr>gw_budget := b\<rparr>) = pools g" "pools (g\<lparr>gw_logs := ls\<rparr>) = pools g"
  "pools (g\<lparr>gw_health := h\<rparr>) = pools g" "pools (g\<lparr>gw_accounts := a\<rparr>) = pools g"
  "pools (g\<lparr>gw_jobs := js\<rparr>) = pools g" "pools (g\<lparr>gw_rates := r\<rparr>) = pools g"
  "pools (g\<lparr>gw_quota := u\<rparr>) = pools g"
  by (simp_all add: pools_def)

lemma price_loop_keys: "price_loop cost l lst i as known sm = (as', k, t) \<Longrightarrow> map at_key as' = map at_key as"
  by (induction as arbitrary: i known sm as' k t) (auto simp: Let_def at_key_def split: if_splits prod.splits)

lemma priceAttempts_keys: "priceAttempts pr (as, l) = (as', l') \<Longrightarrow> map at_key as' = map at_key as"
  by (auto simp: priceAttempts_def Let_def dest: price_loop_keys split: option.splits if_splits prod.splits)

lemma priceAttempts_log:
  "priceAttempts pr (as, l) = (as', l') \<Longrightarrow> cl_status l' = cl_status l \<and> cl_result l' = cl_result l \<and> cl_total l' = cl_total l"
  by (auto simp: priceAttempts_def Let_def split: option.splits if_splits prod.splits)

lemma setUsage_keys: "setUsage u known complete (as, l) = (as', l') \<Longrightarrow> map at_key as' = map at_key as"
  by (cases as rule: rev_cases)
     (auto simp: setUsage_def setUsage_attempt_def Let_def at_key_def split: prod.splits)

lemma identify_log [simp]:
  "cl_status (identify q l) = cl_status l" "cl_result (identify q l) = cl_result l" "cl_total (identify q l) = cl_total l"
  by (simp_all add: identify_def Let_def split: option.split)

lemma book_tokens_frame [simp]:
  "gw_accounts (book_tokens zone now q n g) = gw_accounts g" "pools (book_tokens zone now q n g) = pools g"
  "gw_logs (book_tokens zone now q n g) = gw_logs g" "gw_budget (book_tokens zone now q n g) = gw_budget g"
  by (simp_all add: book_tokens_def Let_def split: option.split)

lemma account_usage_frame [simp]:
  "rq_out (account_usage q) = rq_out q" "rq_wrote (account_usage q) = rq_wrote q"
  "rq_attempts (account_usage q) = rq_attempts q" "rq_reserved (account_usage q) = rq_reserved q"
  "cl_status (rq_log (account_usage q)) = cl_status (rq_log q)"
  by (simp_all add: account_usage_def Let_def split: prod.split)

text \<open>What \<open>finish\<close> does to the parts of the state the pipeline relies on.\<close>

definition given_back :: "gw \<Rightarrow> req \<Rightarrow> budget" where
  "given_back g q = (if rq_reserved q > 0 then budget_release (rq_reserved q) (gw_budget g) else gw_budget g)"

lemma finish_frame:
  assumes "finish zone pr now (g, q) = (g', q')"
  shows "gw_accounts g' = gw_accounts g \<and> pools g' = pools g \<and> gw_logs g' = gw_logs g @ [rq_log q'] \<and>
    gw_budget g' = given_back g q \<and> keys_of q' = keys_of q \<and> rq_out q' = rq_out q \<and>
    cl_status (rq_log q') = cl_status (rq_log q) \<and> rq_reserved q' \<le> 0"
proof -
  let ?q1 = "if rq_reserved q > 0 then q\<lparr>rq_reserved := 0\<rparr> else q"
  let ?q2 = "account_usage (?q1\<lparr>rq_log := (rq_log ?q1)\<lparr>cl_latency := (now - rq_start ?q1) div 1000000\<rparr>\<rparr>)"
  obtain as l where p: "priceAttempts pr (rq_attempts ?q2, rq_log ?q2) = (as, l)" by fastforce
  note k = priceAttempts_keys [OF p] and l = priceAttempts_log [OF p]
  show ?thesis
    using assms p k l
    by (auto simp: finish_def Let_def keys_of_def given_back_def split: if_splits prod.splits)
qed

lemma fail_request_frame:
  assumes "fail_request zone pr now e (g, q) = (g', q')"
  shows "gw_accounts g' = gw_accounts g \<and> pools g' = pools g \<and> gw_logs g' = gw_logs g @ [rq_log q'] \<and>
    gw_budget g' = given_back g q \<and> keys_of q' = keys_of q \<and>
    rq_out q' = rq_out q @ (if rq_wrote q then [] else [case writeErrorProto (rq_proto q) e of (st, b) \<Rightarrow> ErrorReply st b]) \<and>
    cl_status (rq_log q') = gstatus e \<and> rq_reserved q' \<le> 0"
proof -
  let ?q1 = "(write_error e q)\<lparr>rq_log := (rq_log (write_error e q))\<lparr>cl_status := gstatus e,
     cl_error := gmessage e, cl_result := error_result e\<rparr>\<rparr>"
  have "finish zone pr now (g, ?q1) = (g', q')" using assms by (simp add: fail_request_def Let_def)
  from finish_frame [OF this] show ?thesis
    by (auto simp: write_error_def given_back_def keys_of_def split: if_splits prod.splits)
qed

lemma health_act_frame [simp]:
  "gw_accounts (health_act f g) = gw_accounts g" "pools (health_act f g) = pools g"
  "gw_logs (health_act f g) = gw_logs g" "gw_budget (health_act f g) = gw_budget g"
  by (simp_all add: health_act_def Let_def split: prod.split)

lemma release_account_frame [simp]:
  "gw_accounts (release_account p g) = cm_release p (gw_accounts g)" "pools (release_account p g) = pools g"
  "gw_logs (release_account p g) = gw_logs g" "gw_budget (release_account p g) = gw_budget g"
  by (simp_all add: release_account_def)

lemma punish_frame [simp]:
  "gw_accounts (punish cfg now i st r m g) = gw_accounts g" "pools (punish cfg now i st r m g) = pools g"
  "gw_logs (punish cfg now i st r m g) = gw_logs g" "gw_budget (punish cfg now i st r m g) = gw_budget g"
  by (simp_all add: punish_def)

text \<open>
  What holds after a request has been closed: one log entry more, the reserved memory given
  back, and one reply, unless the client is gone.
\<close>

definition closed :: "gw \<times> req \<Rightarrow> gw \<times> req \<Rightarrow> bool" where
  "closed gq gq' \<longleftrightarrow>
     gw_logs (fst gq') = gw_logs (fst gq) @ [rq_log (snd gq')] \<and>
     gw_budget (fst gq') = given_back (fst gq) (snd gq) \<and> rq_reserved (snd gq') \<le> 0 \<and>
     (\<not> rq_wrote (snd gq) \<longrightarrow>
        (\<exists>r. rq_out (snd gq') = rq_out (snd gq) @ [r]) \<or>
        (rq_out (snd gq') = rq_out (snd gq) \<and> cl_status (rq_log (snd gq')) = 499))"

lemma closed_fail:
  assumes "fail_request zone pr now e (g, q) = (g', q')" and "gw_logs g = gw_logs g0" "gw_budget g = gw_budget g0"
    and "rq_reserved q = rq_reserved q0" "rq_wrote q \<longrightarrow> rq_wrote q0" "rq_out q = rq_out q0"
  shows "closed (g0, q0) (g', q')"
  using fail_request_frame [OF assms(1)] assms(2-) by (auto simp: closed_def given_back_def)

lemma closed_finish:
  assumes "finish zone pr now (g, q) = (g', q')" and "gw_logs g = gw_logs g0" "gw_budget g = gw_budget g0"
    and "rq_reserved q = rq_reserved q0"
    and "rq_out q = rq_out q0 @ [r] \<or> rq_out q = rq_out q0 \<and> cl_status (rq_log q) = 499"
  shows "closed (g0, q0) (g', q')"
  using finish_frame [OF assms(1)] assms(2-) by (auto simp: closed_def given_back_def)

lemma relay_stream_frame:
  assumes "relay_stream cfg e (g, q) = (g', q')"
  shows "gw_accounts g' = gw_accounts g \<and> pools g' = pools g \<and> keys_of q' = keys_of q \<and> closed (g, q) (g', q')"
proof -
  let ?q1 = "q\<lparr>rq_wrote := True, rq_out := rq_out q @ [StreamReply],
      rq_log := (rq_log q)\<lparr>cl_upstream_latency := cl_upstream_latency (rq_log q) + ae_latency e\<rparr>\<rparr>"
  obtain as l where s: "setUsage (ae_stream_usage e) (ae_stream_known e) (ae_stream_end e = StreamOk)
      (rq_attempts ?q1, rq_log ?q1) = (as, l)" by fastforce
  obtain l1 g1 where f: "finish (fc_zone cfg) (fc_pricer cfg) (ae_done e) (g1, ?q1\<lparr>rq_attempts := as, rq_log := l1\<rparr>) = (g', q')"
    and g1: "gw_accounts g1 = gw_accounts g" "pools g1 = pools g" "gw_logs g1 = gw_logs g" "gw_budget g1 = gw_budget g"
  proof (cases "ae_stream_end e")
  qed (use assms s that in \<open>auto simp: relay_stream_def Let_def\<close>)
  show ?thesis
    using finish_frame [OF f] g1 setUsage_keys [OF s] closed_finish [OF f g1(3,4), of q StreamReply]
    by (simp add: keys_of_def)
qed

lemma relay_body_frame:
  assumes "relay_body cfg e p st (g, q) = (g', q')"
  shows "gw_accounts g' = gw_accounts g \<and> pools g' = pools g \<and> keys_of q' = keys_of q \<and> closed (g, q) (g', q')"
proof -
  let ?q1 = "q\<lparr>rq_log := (rq_log q)\<lparr>cl_upstream_latency := cl_upstream_latency (rq_log q) + ae_latency e\<rparr>\<rparr>"
  show ?thesis
  proof (cases "ae_body e")
    case (RelayReadError msg)
    then have f: "fail_request (fc_zone cfg) (fc_pricer cfg) (ae_done e) (read_failed msg) (g, ?q1) = (g', q')"
      using assms by (simp add: relay_body_def Let_def)
    from fail_request_frame [OF f] closed_fail [OF f refl refl, of q] show ?thesis by (simp add: keys_of_def)
  next
    case (RelayBody raw conv)
    obtain u ok where u: "usageFromJSON p (fc_parse cfg raw) = (u, ok)" by fastforce
    obtain as l where s: "setUsage u ok True (rq_attempts ?q1, rq_log ?q1) = (as, l)" by fastforce
    define bs where "bs = (if p = ProtoCustomJSON \<and> ok \<and> TotalTokens u = 0 \<and> as \<noteq> []
        then butlast as @ [(last as)\<lparr>at_usage := Some UsageConfirmed\<rparr>] else as)"
    have "map at_key bs = map at_key as"
      by (cases as rule: rev_cases) (auto simp: bs_def at_key_def)
    with setUsage_keys [OF s] have keys: "map at_key bs = keys_of q" by (simp add: keys_of_def)
    let ?q2 = "?q1\<lparr>rq_stream := False, rq_attempts := bs, rq_log := l\<rparr>"
    show ?thesis
    proof (cases "if p \<noteq> rq_proto q then conv else Inr raw")
      case (Inl err)
      then have f: "fail_request (fc_zone cfg) (fc_pricer cfg) (ae_done e) (conversion_failed err) (g, ?q2) = (g', q')"
        using assms RelayBody u s by (simp add: relay_body_def Let_def bs_def)
      from fail_request_frame [OF f] closed_fail [OF f refl refl, of q] keys show ?thesis by (simp add: keys_of_def)
    next
      case (Inr body)
      let ?code = "if p = ProtoCustomJSON then st else 200"
      have f: "finish (fc_zone cfg) (fc_pricer cfg) (ae_done e) (g, ?q2\<lparr>rq_wrote := True,
          rq_out := rq_out ?q2 @ [RawReply ?code body],
          rq_log := (rq_log ?q2)\<lparr>cl_result := ResSuccess, cl_status := ?code\<rparr>\<rparr>) = (g', q')"
        using assms RelayBody u s Inr by (simp add: relay_body_def Let_def bs_def)
      from finish_frame [OF f] closed_finish [OF f refl refl, of q] keys show ?thesis by (simp add: keys_of_def)
    qed
  qed
qed

lemma relay_frame:
  "relay cfg e p st (g, q) = (g', q') \<Longrightarrow>
     gw_accounts g' = gw_accounts g \<and> pools g' = pools g \<and> keys_of q' = keys_of q \<and> closed (g, q) (g', q')"
  unfolding relay_def by (simp split: if_splits add: relay_stream_frame relay_body_frame)

text \<open>The request as an attempt leaves it when another account is to be tried.\<close>

definition pending :: "gw \<times> req \<Rightarrow> gw \<times> req \<Rightarrow> bool" where
  "pending gq gq' \<longleftrightarrow>
     gw_logs (fst gq') = gw_logs (fst gq) \<and> gw_budget (fst gq') = gw_budget (fst gq) \<and>
     rq_reserved (snd gq') = rq_reserved (snd gq) \<and> rq_wrote (snd gq') = rq_wrote (snd gq) \<and>
     rq_out (snd gq') = rq_out (snd gq) \<and> rq_proto (snd gq') = rq_proto (snd gq) \<and>
     rq_api_type (snd gq') = rq_api_type (snd gq) \<and> rq_endpoint (snd gq') = rq_endpoint (snd gq)"

lemma pending_refl [simp]: "pending gq gq"
  by (simp add: pending_def)

lemma pending_trans: "pending a b \<Longrightarrow> pending b c \<Longrightarrow> pending a c"
  by (simp add: pending_def)

lemma pending_closed: "pending a b \<Longrightarrow> closed b c \<Longrightarrow> closed a c"
  by (auto simp: pending_def closed_def given_back_def)

text \<open>Responses carry an HTTP status; zero is what an attempt without a response records.\<close>

definition http_call :: "call \<Rightarrow> bool" where
  "http_call c \<longleftrightarrow> (case c of CallErr _ _ _ \<Rightarrow> True | CallResp st _ _ \<Rightarrow> 0 < st)"

definition http_env :: "attempt_env \<Rightarrow> bool" where
  "http_env e \<longleftrightarrow> http_call (ae_first e) \<and> http_call (ae_second e)"

lemma effective_call_http: "http_env e \<Longrightarrow> effective_call cfg e du = (c, du') \<Longrightarrow> http_call c"
  by (auto simp: effective_call_def http_env_def http_call_def Let_def split: call.splits if_splits)

definition outcome :: "gw \<times> req \<Rightarrow> int \<Rightarrow> gw \<times> req \<Rightarrow> verdict \<Rightarrow> bool" where
  \<comment> \<open>\<open>st\<close>: the status recorded for the attempt\<close>
  "outcome gq st gq' v \<longleftrightarrow>
     (case v of
        Finished \<Rightarrow> closed gq gq' \<and> \<not> retryable st \<and> (st = 0 \<longrightarrow> cl_status (rq_log (snd gq')) = 499)
      | NextAccount msg s r \<Rightarrow> pending gq gq' \<and> s \<noteq> 0 \<and> (st = 0 \<or> retryable st) \<and>
          (st \<noteq> 0 \<longrightarrow> s = st) \<and> (st = 0 \<longrightarrow> s = 400 \<or> s = 502))"

lemma add_attempt_frame [simp]:
  "keys_of (add_attempt a q) = keys_of q @ [at_key a]" "rq_wrote (add_attempt a q) = rq_wrote q"
  "rq_out (add_attempt a q) = rq_out q" "rq_reserved (add_attempt a q) = rq_reserved q"
  "rq_proto (add_attempt a q) = rq_proto q" "rq_api_type (add_attempt a q) = rq_api_type q"
  "rq_endpoint (add_attempt a q) = rq_endpoint q"
  by (simp_all add: add_attempt_def keys_of_def)

lemma keys_of_update [simp]:
  "keys_of (q\<lparr>rq_log := l\<rparr>) = keys_of q" "keys_of (q\<lparr>rq_wrote := w\<rparr>) = keys_of q" "keys_of (q\<lparr>rq_out := u\<rparr>) = keys_of q"
  "keys_of (q\<lparr>rq_retry_after := x\<rparr>) = keys_of q"
  by (simp_all add: keys_of_def)

lemma network_failed_outcome:
  assumes "network_failed cfg e up ptr a msg cls sent (g, q) = ((g', q'), v)"
  shows "gw_accounts g' = cm_release ptr (gw_accounts g) \<and> pools g' = pools g \<and>
    keys_of q' = keys_of q @ [at_key a] \<and> (at_status a = 0 \<longrightarrow> outcome (g, q) 0 (g', q') v)"
proof (cases "ae_client_gone e")
  case True
  let ?q1 = "add_attempt (a\<lparr>at_error := ''client disconnected'', at_usage := Some (networkFailureUsage cls sent)\<rparr>) q"
  let ?q2 = "?q1\<lparr>rq_wrote := True, rq_log := (rq_log ?q1)\<lparr>cl_result := ResClientError,
      cl_error := ''client disconnected'', cl_status := 499\<rparr>\<rparr>"
  have f: "finish (fc_zone cfg) (fc_pricer cfg) (ae_done e) (release_account ptr g, ?q2) = (g', q')" and v: "v = Finished"
    using assms True by (auto simp: network_failed_def Let_def split: prod.splits)
  have k: "at_key (a\<lparr>at_error := ''client disconnected'', at_usage := Some (networkFailureUsage cls sent)\<rparr>) = at_key a"
    by (simp add: at_key_def)
  show ?thesis
    using finish_frame [OF f] closed_finish [OF f, of g q StreamReply] v k
    by (simp add: outcome_def retryable_def)
next
  case False
  have k: "at_key (a\<lparr>at_error := msg, at_usage := Some (networkFailureUsage cls sent)\<rparr>) = at_key a"
    by (simp add: at_key_def)
  show ?thesis
    using assms False k by (auto simp: network_failed_def Let_def outcome_def pending_def)
qed

lemma http_failed_outcome:
  assumes "http_failed cfg e up p ptr m a st hdr body (g, q) = ((g', q'), v)" and "st \<noteq> 0"
  shows "gw_accounts g' = cm_release ptr (gw_accounts g) \<and> pools g' = pools g \<and>
    keys_of q' = keys_of q @ [at_key a] \<and> outcome (g, q) st (g', q') v"
proof -
  obtain msg raw where r: "readErrorBody cfg st body = (msg, raw)" by fastforce
  let ?a = "http_failure_attempt p st msg (fc_parse cfg raw) a"
  have k: "at_key ?a = at_key a" by (simp add: http_failure_attempt_def at_key_def Let_def split: prod.split)
  let ?q2 = "(add_attempt ?a q)\<lparr>rq_log := (rq_log (add_attempt ?a q))\<lparr>cl_upstream_latency :=
      cl_upstream_latency (rq_log (add_attempt ?a q)) + ae_latency e\<rparr>\<rparr>"
  let ?q3 = "?q2\<lparr>rq_log := note_upstream up m p (rq_log ?q2)\<rparr>"
  let ?g2 = "health_act (health_ok (up_id up)) (release_account ptr g)"
  show ?thesis
  proof (cases "retryable st")
    case True
    then show ?thesis
      using assms r k by (auto simp: http_failed_def Let_def outcome_def pending_def)
  next
    case False
    show ?thesis
    proof (cases "p = rq_proto q \<and> fc_parse cfg raw \<noteq> None")
      case True
      then have f: "finish (fc_zone cfg) (fc_pricer cfg) (ae_done e)
          (?g2, ?q3\<lparr>rq_wrote := True, rq_out := rq_out ?q3 @ [RawReply st raw],
             rq_log := (rq_log ?q3)\<lparr>cl_status := st, cl_error := msg, cl_result := ResClientError\<rparr>\<rparr>) = (g', q')"
        and v: "v = Finished"
        using assms r False by (auto simp: http_failed_def Let_def split: prod.splits)
      show ?thesis using finish_frame [OF f] closed_finish [OF f, of g q "RawReply st raw"] v k False assms(2)
        by (simp add: outcome_def)
    next
      case pn: False
      then have f: "fail_request (fc_zone cfg) (fc_pricer cfg) (ae_done e) (newErr st ''upstream_rejected'' msg) (?g2, ?q3) = (g', q')"
        and v: "v = Finished"
        using assms r False by (auto simp: http_failed_def Let_def split: prod.splits if_splits)
      show ?thesis using fail_request_frame [OF f] closed_fail [OF f, of g q] v k False assms(2)
        by (simp add: outcome_def)
    qed
  qed
qed

lemma answered_outcome:
  assumes "answered cfg e up p ptr m a st (g, q) = ((g', q'), v)"
  shows "gw_accounts g' = cm_release ptr (gw_accounts g) \<and> pools g' = pools g \<and>
    keys_of q' = keys_of q @ [at_key a] \<and> v = Finished \<and> closed (g, q) (g', q')"
proof -
  let ?q1 = "add_attempt (a\<lparr>at_usage := Some UsageUnknown\<rparr>) q"
  let ?q2 = "?q1\<lparr>rq_log := note_upstream up m p (rq_log ?q1)\<rparr>" and ?g1 = "health_act (health_ok (up_id up)) g"
  obtain g2 q3 where r: "relay cfg e p st (?g1, ?q2) = (g2, q3)" by fastforce
  have "at_key (a\<lparr>at_usage := Some UsageUnknown\<rparr>) = at_key a" by (simp add: at_key_def)
  moreover have "(g', q') = (release_account ptr g2, q3)" "v = Finished"
    using assms r by (auto simp: answered_def Let_def)
  ultimately show ?thesis using relay_frame [OF r] by (auto simp: closed_def given_back_def)
qed

lemma attempt_outcome:
  assumes "attempt cfg e up p ptr cand (g, q) = ((g', q'), v)" and env: "http_env e"
  shows "gw_accounts g' = cm_release ptr (gw_accounts g) \<and> pools g' = pools g \<and>
    (\<exists>st. keys_of q' = keys_of q @ [(up_id up, p, mapModel up cand, st)] \<and> outcome (g, q) st (g', q') v)"
proof -
  let ?m = "mapModel up cand"
  let ?a = "new_attempt up p ?m"
  have key: "at_key (?a\<lparr>at_latency := x\<rparr>) = (up_id up, p, ?m, 0)" "at_key (?a\<lparr>at_error := y\<rparr>) = (up_id up, p, ?m, 0)"
    "at_key (?a\<lparr>at_latency := x, at_status := z\<rparr>) = (up_id up, p, ?m, z)"
    "at_status (?a\<lparr>at_latency := x\<rparr>) = 0" for x y z
    by (simp_all add: at_key_def new_attempt_def)
  show ?thesis
  proof (cases "buildBody e q p ?m")
    case (Inl err)
    then show ?thesis
      using assms by (auto simp: attempt_def Let_def key outcome_def pending_def)
  next
    case (Inr b)
    obtain body du where b: "b = (body, du)" by fastforce
    obtain c du' where c: "effective_call cfg e du = (c, du')" by fastforce
    show ?thesis
    proof (cases c)
      case (CallErr msg cls sent)
      then have "network_failed cfg e up ptr (?a\<lparr>at_latency := ae_latency e\<rparr>) msg cls sent (g, q) = ((g', q'), v)"
        using assms Inr b c by (simp add: attempt_def Let_def)
      from network_failed_outcome [OF this] show ?thesis by (auto simp: key)
    next
      case (CallResp st hdr bd)
      let ?a2 = "?a\<lparr>at_latency := ae_latency e, at_status := st\<rparr>"
      show ?thesis
      proof (cases "st \<ge> 300")
        case True
        then have "http_failed cfg e up p ptr ?m ?a2 st hdr bd (g, q) = ((g', q'), v)"
          using assms Inr b c CallResp by (simp add: attempt_def Let_def)
        from http_failed_outcome [OF this] True show ?thesis by (auto simp: key)
      next
        case False
        then have "answered cfg e up p ptr ?m ?a2 st (g, q) = ((g', q'), v)"
          using assms Inr b c CallResp by (simp add: attempt_def Let_def)
        from answered_outcome [OF this] effective_call_http [OF env c] CallResp False show ?thesis
          by (auto simp: key outcome_def http_call_def retryable_def)
      qed
    qed
  qed
qed

section \<open>What the loop does\<close>

type_synonym attempt_key = "nat \<times> proto \<times> string \<times> int"

definition key_status :: "attempt_key \<Rightarrow> int" where
  "key_status x = snd (snd (snd x))"

definition failed_over :: "attempt_key \<Rightarrow> bool" where
  \<comment> \<open>an attempt after which the next account may be tried: it got no answer, or one that
     another account may not give\<close>
  "failed_over x \<longleftrightarrow> key_status x = 0 \<or> retryable (key_status x)"

definition carried :: "attempt_key list \<Rightarrow> int \<Rightarrow> int \<Rightarrow> bool" where
  \<comment> \<open>\<open>lastStatus\<close> after these attempts\<close>
  "carried ks s0 s \<longleftrightarrow>
     (if ks = [] then s = s0
      else s \<noteq> 0 \<and> (key_status (last ks) \<noteq> 0 \<longrightarrow> s = key_status (last ks)) \<and>
           (key_status (last ks) = 0 \<longrightarrow> s = 400 \<or> s = 502))"

definition tried :: "(attempt_key \<Rightarrow> bool) \<Rightarrow> progress \<Rightarrow> gw \<times> req \<Rightarrow> progress \<Rightarrow> gw \<times> req \<Rightarrow> bool \<Rightarrow> bool" where
  "tried P st gq st' gq' fin \<longleftrightarrow>
     cm_wf (gw_accounts (fst gq')) \<and> cm_count (gw_accounts (fst gq')) = cm_count (gw_accounts (fst gq)) \<and>
     pools (fst gq') = pools (fst gq) \<and>
     (\<exists>ks. keys_of (snd gq') = keys_of (snd gq) @ ks \<and> int (length ks) = pr_tries st' - pr_tries st \<and>
        (\<forall>x\<in>set ks. P x) \<and> (\<forall>x\<in>set (if fin then butlast ks else ks). failed_over x) \<and>
        (if fin then closed gq gq' \<and> ks \<noteq> [] \<and> (failed_over (last ks) \<longrightarrow> cl_status (rq_log (snd gq')) = 499)
         else pending gq gq' \<and> carried ks (pr_status st) (pr_status st')))"

lemma tried_refl: "cm_wf (gw_accounts (fst gq)) \<Longrightarrow> tried P st gq st gq False"
  by (auto simp: tried_def carried_def intro: exI [of _ "[]"])

lemma tried_trans:
  assumes "tried P st1 gq1 st2 gq2 False" and "tried P st2 gq2 st3 gq3 fin"
  shows "tried P st1 gq1 st3 gq3 fin"
proof -
  obtain ks where ks: "keys_of (snd gq2) = keys_of (snd gq1) @ ks" "int (length ks) = pr_tries st2 - pr_tries st1"
      "\<forall>x\<in>set ks. P x" "\<forall>x\<in>set ks. failed_over x" "pending gq1 gq2" "carried ks (pr_status st1) (pr_status st2)"
    using assms(1) by (auto simp: tried_def)
  obtain ls where ls: "keys_of (snd gq3) = keys_of (snd gq2) @ ls" "int (length ls) = pr_tries st3 - pr_tries st2"
      "\<forall>x\<in>set ls. P x" "\<forall>x\<in>set (if fin then butlast ls else ls). failed_over x"
      "if fin then closed gq2 gq3 \<and> ls \<noteq> [] \<and> (failed_over (last ls) \<longrightarrow> cl_status (rq_log (snd gq3)) = 499)
       else pending gq2 gq3 \<and> carried ls (pr_status st2) (pr_status st3)"
    using assms(2) by (auto simp: tried_def)
  have "keys_of (snd gq3) = keys_of (snd gq1) @ (ks @ ls)" "int (length (ks @ ls)) = pr_tries st3 - pr_tries st1"
    "\<forall>x\<in>set (ks @ ls). P x"
    using ks ls by auto
  moreover have "\<forall>x\<in>set (if fin then butlast (ks @ ls) else ks @ ls). failed_over x"
    using ks(4) ls(4) by (auto simp: butlast_append dest: in_set_butlastD split: if_splits)
  moreover have "if fin then closed gq1 gq3 \<and> ks @ ls \<noteq> [] \<and>
      (failed_over (last (ks @ ls)) \<longrightarrow> cl_status (rq_log (snd gq3)) = 499)
    else pending gq1 gq3 \<and> carried (ks @ ls) (pr_status st1) (pr_status st3)"
    using ks(5,6) ls(5) pending_trans pending_closed by (auto simp: carried_def split: if_splits)
  ultimately show ?thesis using assms unfolding tried_def by (intro conjI exI [of _ "ks @ ls"]) auto
qed

lemma select_skips:
  assumes "select cfg now up q g = (g1, None)" and "cm_wf (gw_accounts g)"
  shows "tried P st (g, q) st (g1, q) False"
proof -
  obtain cm ptr where c: "cm_get (up_id up) (gw_accounts g) = (cm, ptr)" by fastforce
  have "cm_wf cm" "cm_count cm = cm_count (gw_accounts g)"
    using cm_get_wf [OF assms(2), of "up_id up"] cm_count_get [OF assms(2) c] c by auto
  with assms c show ?thesis
    by (auto simp: select_def Let_def tried_def pending_def carried_def intro!: exI [of _ "[]"]
        split: prod.splits if_splits option.splits)
qed

lemma select_takes:
  assumes "select cfg now up q g = (g1, Some (p, ptr))" and wf: "cm_wf (gw_accounts g)"
  shows "pickProto up (rq_proto q) (fc_conversion cfg) = Some p \<and>
    (rq_endpoint q \<noteq> '''' \<longrightarrow> rq_endpoint q \<in> set (up_endpoints up)) \<and>
    cm_wf (gw_accounts g1) \<and> cm_wf (cm_release ptr (gw_accounts g1)) \<and>
    cm_count (cm_release ptr (gw_accounts g1)) = cm_count (gw_accounts g) \<and>
    (0 < up_max_concurrency up \<longrightarrow> cm_count (gw_accounts g1) (up_id up) \<le> up_max_concurrency up) \<and>
    pools g1 = pools g \<and> pending (g, q) (g1, q)"
proof -
  obtain cm ptr' where c: "cm_get (up_id up) (gw_accounts g) = (cm, ptr')" by fastforce
  have wf': "cm_wf cm" and same: "cm_count cm = cm_count (gw_accounts g)"
    using cm_get_wf [OF wf, of "up_id up"] cm_count_get [OF wf c] c by auto
  have at: "cm_map cm (up_id up) = Some ptr'" using cm_get_pointer [OF wf c] by simp
  obtain cm' where t: "cm_try (up_max_concurrency up) ptr' cm = Some cm'" "ptr' = ptr" "gw_accounts g1 = cm'"
    and rest: "pickProto up (rq_proto q) (fc_conversion cfg) = Some p"
      "rq_endpoint q \<noteq> '''' \<longrightarrow> rq_endpoint q \<in> set (up_endpoints up)" "pools g1 = pools g" "pending (g, q) (g1, q)"
    using assms(1) c by (auto simp: select_def Let_def pending_def split: prod.splits if_splits option.splits)
  note tk = cm_count_try [OF wf' at t(1)]
  have wf1: "cm_wf cm'" by (rule cm_try_wf [OF wf' t(1)])
  have "cm_map cm' (up_id up) = Some ptr" using tk(2) at t(2) by simp
  note rel = cm_count_release [OF wf1 this]
  have "cm_count (cm_release ptr cm') = cm_count (gw_accounts g)"
    using rel(1) tk(1) t(2) same by (auto simp: fun_eq_iff)
  with rest t wf1 cm_release_wf [OF wf1] tk(3) show ?thesis by auto
qed

definition from_account :: "forward_cfg \<Rightarrow> req \<Rightarrow> string \<Rightarrow> Upstream list \<Rightarrow> attempt_key \<Rightarrow> bool" where
  \<comment> \<open>the attempt went to one of these accounts, in a protocol and with a model it serves\<close>
  "from_account cfg q cand ups x \<longleftrightarrow>
     (\<exists>up\<in>set ups. \<exists>p s. x = (up_id up, p, mapModel up cand, s) \<and>
        pickProto up (rq_proto q) (fc_conversion cfg) = Some p \<and>
        (rq_endpoint q \<noteq> '''' \<longrightarrow> rq_endpoint q \<in> set (up_endpoints up)))"

lemma tried_mono:
  "tried P st gq st' gq' fin \<Longrightarrow> (\<And>x. P x \<Longrightarrow> Q x) \<Longrightarrow> tried Q st gq st' gq' fin"
  unfolding tried_def by (elim conjE exE) (intro conjI exI; auto)

lemma attempt_tried:
  assumes sel: "select cfg now up q g = (g1, Some (p, ptr))" and wf: "cm_wf (gw_accounts g)"
    and att: "attempt cfg e up p ptr cand (g1, q) = (gq2, v)" and up: "up \<in> set ups"
    and st': "pr_tries st' = pr_tries st + 1" and env: "http_env e"
    and v: "case v of Finished \<Rightarrow> fin | NextAccount msg s r \<Rightarrow> \<not> fin \<and> pr_status st' = s"
  shows "tried (from_account cfg q cand ups) st (g, q) st' gq2 fin"
proof -
  obtain g2 q2 where gq2: "gq2 = (g2, q2)" by fastforce
  note s = select_takes [OF sel wf]
  note a = attempt_outcome [OF att [unfolded gq2] env]
  obtain c where keys: "keys_of q2 = keys_of q @ [(up_id up, p, mapModel up cand, c)]"
    and out: "outcome (g1, q) c (g2, q2) v" using a by blast
  let ?x = "(up_id up, p, mapModel up cand, c)"
  have "from_account cfg q cand ups ?x" using s up by (auto simp: from_account_def)
  moreover have "if fin then closed (g, q) (g2, q2) \<and> (failed_over ?x \<longrightarrow> cl_status (rq_log q2) = 499)
     else pending (g, q) (g2, q2) \<and> carried [?x] (pr_status st) (pr_status st') \<and> failed_over ?x"
  proof (cases v)
    case Finished
    with v out s show ?thesis by (auto simp: outcome_def failed_over_def key_status_def intro: pending_closed)
  next
    case (NextAccount msg m r)
    with v out s show ?thesis
      by (auto simp: outcome_def carried_def failed_over_def key_status_def intro: pending_trans)
  qed
  ultimately show ?thesis
    using s a keys st' unfolding gq2 tried_def
    by (intro conjI exI [of _ "[?x]"]) (auto split: if_splits)
qed

lemma from_account_frame:
  "rq_proto q' = rq_proto q \<Longrightarrow> rq_endpoint q' = rq_endpoint q \<Longrightarrow> set ups \<subseteq> set ups' \<Longrightarrow>
     from_account cfg q' cand ups x \<Longrightarrow> from_account cfg q cand ups' x"
  by (auto simp: from_account_def)

lemma tried_pending: "tried P st gq st' gq' False \<Longrightarrow> pending gq gq' \<and> cm_wf (gw_accounts (fst gq'))"
  by (auto simp: tried_def)

lemma forward_ups_tried:
  "forward_ups cfg env cand ups k st gq = (k', st', gq', fin) \<Longrightarrow> cm_wf (gw_accounts (fst gq)) \<Longrightarrow>
     tried (from_account cfg (snd gq) cand ups) st gq st' gq' fin \<and>
     (pr_tries st \<le> fc_max_tries cfg \<longrightarrow> pr_tries st' \<le> fc_max_tries cfg)"
  if env: "\<And>j. http_env (env j)"
proof (induction ups arbitrary: k st gq)
  case Nil
  then show ?case by (auto intro: tried_refl)
next
  case (Cons up ups)
  let ?P = "from_account cfg (snd gq) cand (up # ups)"
  obtain g q where gq: "gq = (g, q)" by fastforce
  have wf: "cm_wf (gw_accounts g)" using Cons.prems(2) gq by simp
  show ?case
  proof (cases "fc_max_tries cfg \<le> pr_tries st")
    case True
    with Cons.prems show ?thesis by (auto intro: tried_refl)
  next
    case more: False
    obtain g1 r where sel: "select cfg (ae_now (env k)) up q g = (g1, r)" by fastforce
    have step: "tried ?P st gq st' gq' fin \<and> pr_tries st' \<le> fc_max_tries cfg"
      if t: "tried ?P st gq stb gqb False" and f: "forward_ups cfg env cand ups (Suc k) stb gqb = (k', st', gq', fin)"
        and le: "pr_tries stb \<le> fc_max_tries cfg" for stb gqb
    proof -
      note p = tried_pending [OF t]
      from Cons.IH [OF f] p le
      have "tried (from_account cfg (snd gqb) cand ups) stb gqb st' gq' fin" "pr_tries st' \<le> fc_max_tries cfg" by auto
      moreover from this(1) have "tried ?P stb gqb st' gq' fin"
        by (rule tried_mono) (rule from_account_frame [of "snd gqb"], use p in \<open>auto simp: pending_def\<close>)
      ultimately show ?thesis using tried_trans [OF t] by blast
    qed
    show ?thesis
    proof (cases r)
      case None
      with sel wf have "tried ?P st gq st (g1, q) False" by (auto simp: gq intro: select_skips)
      from step [OF this] None more Cons.prems(1) sel show ?thesis by (simp add: gq)
    next
      case (Some pp)
      obtain p ptr where pp: "pp = (p, ptr)" by fastforce
      let ?st1 = "st\<lparr>pr_tries := pr_tries st + 1\<rparr>"
      obtain gq2 v where att: "attempt cfg (env k) up p ptr cand (g1, q) = (gq2, v)" by fastforce
      note tr = attempt_tried [OF sel [unfolded Some pp] wf att list.set_intros(1) [of up ups]]
      show ?thesis
      proof (cases v)
        case Finished
        have "tried ?P st gq ?st1 gq2 True" unfolding gq snd_conv by (rule tr) (simp_all add: env Finished)
        with Cons.prems(1) more sel Some pp att Finished show ?thesis by (auto simp: gq)
      next
        case (NextAccount msg s d)
        let ?stb = "?st1\<lparr>pr_msg := msg, pr_status := s, pr_retry := (case d of None \<Rightarrow> pr_retry ?st1 | Some t \<Rightarrow> t)\<rparr>"
        have "tried ?P st gq ?stb gq2 False" unfolding gq snd_conv by (rule tr) (simp_all add: env NextAccount)
        from step [OF this] Cons.prems(1) more sel Some pp att NextAccount show ?thesis by (simp add: gq Let_def)
      qed
    qed
  qed
qed

definition from_candidates :: "forward_cfg \<Rightarrow> Snapshot \<Rightarrow> req \<Rightarrow> string list \<Rightarrow> attempt_key \<Rightarrow> bool" where
  "from_candidates cfg s q cands x \<longleftrightarrow>
     (\<exists>cand\<in>set cands. from_account cfg q cand (candidate_accounts s (rq_api_type q) cand) x)"

lemma set_orderUpstreams: "set (orderUpstreams draws ups) = set ups"
  by (simp add: orderUpstreams_def set_draw_tiers concat_tiers)

lemma forward_cands_tried:
  "forward_cands cfg env draws s cands k st gq = (k', st', gq', fin) \<Longrightarrow> cm_wf (gw_accounts (fst gq)) \<Longrightarrow>
     tried (from_candidates cfg s (snd gq) cands) st gq st' gq' fin \<and>
     (pr_tries st \<le> fc_max_tries cfg \<longrightarrow> pr_tries st' \<le> fc_max_tries cfg)"
  if env: "\<And>j. http_env (env j)"
proof (induction cands arbitrary: k st gq)
  case Nil
  then show ?case by (auto intro: tried_refl)
next
  case (Cons cand cands)
  let ?acc = "candidate_accounts s (rq_api_type (snd gq)) cand"
  obtain k1 st1 gq1 fin1 where f: "forward_ups cfg env cand (orderUpstreams (draws k) ?acc) k st gq = (k1, st1, gq1, fin1)"
    by (metis prod_cases4)
  note t = forward_ups_tried [OF env f Cons.prems(2)]
  have t1: "tried (from_candidates cfg s (snd gq) (cand # cands)) st gq st1 gq1 fin1"
    by (rule tried_mono [OF conjunct1 [OF t]]) (auto simp: from_candidates_def from_account_def set_orderUpstreams)
  show ?case
  proof (cases fin1)
    case True
    with Cons.prems(1) f t t1 show ?thesis by auto
  next
    case False
    then have fin: "fin1 = False" by simp
    note p = tried_pending [OF t1 [unfolded fin]]
    have f2: "forward_cands cfg env draws s cands k1 st1 gq1 = (k', st', gq', fin)"
      using Cons.prems(1) f False by simp
    from Cons.IH [OF f2] p
    have i: "tried (from_candidates cfg s (snd gq1) cands) st1 gq1 st' gq' fin"
      "pr_tries st1 \<le> fc_max_tries cfg \<longrightarrow> pr_tries st' \<le> fc_max_tries cfg" by auto
    have "tried (from_candidates cfg s (snd gq) (cand # cands)) st1 gq1 st' gq' fin"
      by (rule tried_mono [OF i(1)]) (use p in \<open>auto simp: from_candidates_def from_account_def pending_def\<close>)
    from tried_trans [OF t1 [unfolded fin] this] t i(2) show ?thesis by auto
  qed
qed

lemma forward_cfg_tries: "0 < fc_max_tries (forward_cfg_of pf conv zone pr parse texts)"
  by (simp add: forward_cfg_of_def)

text \<open>All of \<open>forward\<close> in one lemma; the properties are its parts.\<close>

definition exhausted_status :: "attempt_key list \<Rightarrow> int" where
  \<comment> \<open>the status of the reply when no attempt was answered\<close>
  "exhausted_status ks =
     (if ks = [] then 503
      else if key_status (last ks) = 429 then 429
      else if key_status (last ks) = 400 then 400
      else 502)"

definition forwarded :: "forward_cfg \<Rightarrow> Snapshot \<Rightarrow> string list \<Rightarrow> gw \<times> req \<Rightarrow> gw \<times> req \<Rightarrow> attempt_key list \<Rightarrow> bool" where
  "forwarded cfg s cands gq gq' ks \<longleftrightarrow>
     keys_of (snd gq') = keys_of (snd gq) @ ks \<and> int (length ks) \<le> fc_max_tries cfg \<and>
     (\<forall>x\<in>set ks. from_candidates cfg s (snd gq) cands x) \<and> (\<forall>x\<in>set (butlast ks). failed_over x) \<and>
     ((\<forall>x\<in>set ks. failed_over x) \<longrightarrow>
        cl_status (rq_log (snd gq')) = 499 \<or> cl_status (rq_log (snd gq')) = exhausted_status ks \<or>
        ks \<noteq> [] \<and> key_status (last ks) = 0 \<and> cl_status (rq_log (snd gq')) = 400)"

text \<open>All of \<open>forward\<close> in one lemma; the properties are its parts.\<close>

lemma forward_outcome:
  assumes env: "\<And>j. http_env (env j)" and wf: "cm_wf (gw_accounts (fst gq))" and mx: "0 \<le> fc_max_tries cfg"
    and f: "forward cfg env draws t s cands gq = gq'"
  shows "cm_wf (gw_accounts (fst gq')) \<and> cm_count (gw_accounts (fst gq')) = cm_count (gw_accounts (fst gq)) \<and>
    pools (fst gq') = pools (fst gq) \<and> closed gq gq' \<and> (\<exists>ks. forwarded cfg s cands gq gq' ks)"
proof -
  obtain g q where gq: "gq = (g, q)" by fastforce
  obtain g' q' where gq': "gq' = (g', q')" by fastforce
  obtain k st gq1 fin where c: "forward_cands cfg env draws s cands 0 no_progress gq = (k, st, gq1, fin)"
    by (metis prod_cases4)
  obtain g1 q1 where gq1: "gq1 = (g1, q1)" by fastforce
  note t = forward_cands_tried [OF env c wf]
  have np: "pr_status no_progress = 0" "pr_tries no_progress = 0" by (simp_all add: no_progress_def)
  obtain ks where ks: "keys_of (snd gq1) = keys_of (snd gq) @ ks" "int (length ks) = pr_tries st"
      "\<forall>x\<in>set ks. from_candidates cfg s (snd gq) cands x" "\<forall>x\<in>set (if fin then butlast ks else ks). failed_over x"
      "if fin then closed gq gq1 \<and> ks \<noteq> [] \<and> (failed_over (last ks) \<longrightarrow> cl_status (rq_log (snd gq1)) = 499)
       else pending gq gq1 \<and> carried ks 0 (pr_status st)"
    using conjunct1 [OF t, unfolded tried_def np] by (elim conjE exE) (rule that, simp_all)
  have le: "int (length ks) \<le> fc_max_tries cfg" using t ks(2) mx by (simp add: no_progress_def)
  have acc: "cm_wf (gw_accounts g1)" "cm_count (gw_accounts g1) = cm_count (gw_accounts g)" "pools g1 = pools g"
    using t by (auto simp: tried_def gq gq1)
  show ?thesis
  proof (cases fin)
    case True
    with f c have "gq' = gq1" by (auto simp: forward_def)
    moreover have "last ks \<in> set ks" using ks(5) True by simp
    ultimately show ?thesis using ks le acc True gq gq1 by (auto simp: forwarded_def)
  next
    case False
    define e where "e = (if pr_status st = 0 then ErrNoUpstream else upstream_failed st)"
    define q2 where "q2 = (if pr_status st \<noteq> 0 \<and> pr_status st = 429 \<and> pr_retry st > 0
        then q1\<lparr>rq_retry_after := Some (dec_nat (nat (pr_retry st div second)))\<rparr> else q1)"
    have fr: "fail_request (fc_zone cfg) (fc_pricer cfg) t e (g1, q2) = (g', q')"
      using f c False gq1 gq' by (auto simp: forward_def e_def q2_def Let_def)
    note ff = fail_request_frame [OF fr]
    have p: "pending gq (g1, q1)" and carr: "carried ks 0 (pr_status st)" using ks(5) False gq1 by auto
    have "closed (g1, q1) (g', q')" by (rule closed_fail [OF fr]) (simp_all add: q2_def)
    then have cl: "closed gq (g', q')" using p pending_closed by blast
    have st: "cl_status (rq_log q') = exhausted_status ks \<or> ks \<noteq> [] \<and> key_status (last ks) = 0 \<and> cl_status (rq_log q') = 400"
      using ff carr by (auto simp: e_def upstream_failed_def exhausted_status_def carried_def newErr_def ErrNoUpstream_def split: if_splits)
    have ka: "keys_of q' = keys_of q1" using ff by (simp add: q2_def)
    have "\<forall>x\<in>set (butlast ks). failed_over x" using ks(4) False by (auto dest: in_set_butlastD)
    then have "forwarded cfg s cands gq gq' ks"
      using ks(1,3) le st ka gq' gq1 by (auto simp: forwarded_def)
    then show ?thesis using ff acc cl gq gq' by auto
  qed
qed

section \<open>Properties of forwarding\<close>

text \<open>Forwarding takes and gives back account slots in pairs: whichever accounts are
  tried, skipped or fail, every account has as many requests in flight afterwards as before,
  and the gate, group and key counters are not touched.\<close>

lemma forward_conserves_slots:
  assumes "\<And>j. http_env (env j)" and "cm_wf (gw_accounts (fst gq))" and "0 \<le> fc_max_tries cfg"
  shows "cm_count (gw_accounts (fst (forward cfg env draws t s cands gq))) = cm_count (gw_accounts (fst gq)) \<and>
    gw_gate (fst (forward cfg env draws t s cands gq)) = gw_gate (fst gq) \<and>
    gw_groups (fst (forward cfg env draws t s cands gq)) = gw_groups (fst gq) \<and>
    gw_apikeys (fst (forward cfg env draws t s cands gq)) = gw_apikeys (fst gq)"
  using forward_outcome [OF assms refl] by (auto simp: pools_def)

text \<open>Forwarding closes the request exactly once: one log entry, the entry the request
  ends with, is written, the memory reserved for the body is given back, and the client gets
  exactly one reply, or none when it has disconnected (status 499).\<close>

lemma forward_closes_once:
  assumes "\<And>j. http_env (env j)" and "cm_wf (gw_accounts (fst gq))" and "0 \<le> fc_max_tries cfg"
    and "\<not> rq_wrote (snd gq)" and run: "forward cfg env draws t s cands gq = (g', q')"
  shows "gw_logs g' = gw_logs (fst gq) @ [rq_log q'] \<and>
    gw_budget g' = (if rq_reserved (snd gq) > 0 then budget_release (rq_reserved (snd gq)) (gw_budget (fst gq))
                    else gw_budget (fst gq)) \<and>
    ((\<exists>r. rq_out q' = rq_out (snd gq) @ [r]) \<or> (rq_out q' = rq_out (snd gq) \<and> cl_status (rq_log q') = 499))"
  using forward_outcome [OF assms(1-3) run] assms(4) by (auto simp: closed_def given_back_def)

text \<open>Property C15: at most the configured number of attempts is made; each goes to an account that
  serves the requested model or accepts any, in a protocol that account speaks, with the model name
  it maps to, and for a custom endpoint only to an account that declares it; and another
  attempt follows only one that got no answer or a retryable status, so an upstream that
  answered is never asked again.\<close>

theorem forward_retries_safely:
  assumes "\<And>j. http_env (env j)" and "cm_wf (gw_accounts (fst gq))" and "0 \<le> fc_max_tries cfg"
    and run: "forward cfg env draws t s cands gq = (g', q')"
  shows "\<exists>ks. map at_key (rq_attempts q') = map at_key (rq_attempts (snd gq)) @ ks \<and>
    int (length ks) \<le> fc_max_tries cfg \<and> (\<forall>x\<in>set (butlast ks). key_status x = 0 \<or> retryable (key_status x)) \<and>
    (\<forall>(i, p, m, st)\<in>set ks. \<exists>cand\<in>set cands. \<exists>up\<in>set (candidate_accounts s (rq_api_type (snd gq)) cand).
       i = up_id up \<and> HasProtocol up p \<and> (fc_conversion cfg \<or> p = rq_proto (snd gq)) \<and> m = mapModel up cand \<and>
       (rq_endpoint (snd gq) = '''' \<or> rq_endpoint (snd gq) \<in> set (up_endpoints up)))"
proof -
  obtain ks where ks: "forwarded cfg s cands gq (g', q') ks" using forward_outcome [OF assms(1-3) run] by blast
  have acc: "\<exists>cand\<in>set cands. \<exists>up\<in>set (candidate_accounts s (rq_api_type (snd gq)) cand).
       i = up_id up \<and> HasProtocol up p \<and> (fc_conversion cfg \<or> p = rq_proto (snd gq)) \<and> m = mapModel up cand \<and>
       (rq_endpoint (snd gq) = '''' \<or> rq_endpoint (snd gq) \<in> set (up_endpoints up))"
    if "from_candidates cfg s (snd gq) cands (i, p, m, st)" for i p m st
    using that pickProto_supported pickProto_native unfolding from_candidates_def from_account_def by blast
  have "\<forall>x\<in>set ks. from_candidates cfg s (snd gq) cands x" using ks by (simp add: forwarded_def)
  then have "\<forall>(i, p, m, st)\<in>set ks. \<exists>cand\<in>set cands. \<exists>up\<in>set (candidate_accounts s (rq_api_type (snd gq)) cand).
       i = up_id up \<and> HasProtocol up p \<and> (fc_conversion cfg \<or> p = rq_proto (snd gq)) \<and> m = mapModel up cand \<and>
       (rq_endpoint (snd gq) = '''' \<or> rq_endpoint (snd gq) \<in> set (up_endpoints up))"
    using acc by (intro ballI) (simp only: split_paired_all prod.case, blast)
  with ks show ?thesis
    unfolding forwarded_def keys_of_def failed_over_def by (intro exI [of _ ks]) simp
qed

text \<open>When every attempt failed over, the client learns why: 503 if no account could be
  tried at all, 429 if the last answer was a rate limit, 502 for any other failing status, and 400
  or 502 if the last attempt got no response (the request could not be converted, or the
  network failed), unless the client itself is gone.\<close>

lemma forward_exhausted:
  assumes "\<And>j. http_env (env j)" and "cm_wf (gw_accounts (fst gq))" and "0 \<le> fc_max_tries cfg"
    and run: "forward cfg env draws t s cands gq = (g', q')" and new: "rq_attempts (snd gq) = []"
    and failed: "\<forall>x\<in>set (map at_key (rq_attempts q')). key_status x = 0 \<or> retryable (key_status x)"
    and here: "cl_status (rq_log q') \<noteq> 499"
  shows "cl_status (rq_log q') =
      (if rq_attempts q' = [] then 503
       else if at_status (last (rq_attempts q')) = 429 then 429
       else if at_status (last (rq_attempts q')) = 0 \<and> cl_status (rq_log q') = 400 then 400
       else 502)"
proof -
  obtain ks where ks: "forwarded cfg s cands gq (g', q') ks" using forward_outcome [OF assms(1-3) run] by blast
  have eq: "map at_key (rq_attempts q') = ks" using ks new by (simp add: forwarded_def keys_of_def)
  have lst: "key_status (last ks) = at_status (last (rq_attempts q'))" if "ks \<noteq> []"
    using that unfolding eq [symmetric] by (simp add: last_map at_key_def key_status_def)
  have "\<forall>x\<in>set ks. failed_over x" using failed eq by (simp add: failed_over_def)
  with ks here have st: "cl_status (rq_log q') = exhausted_status ks \<or> ks \<noteq> [] \<and> key_status (last ks) = 0 \<and> cl_status (rq_log q') = 400"
    by (auto simp: forwarded_def)
  have "ks \<noteq> [] \<Longrightarrow> key_status (last ks) \<noteq> 400"
    using bspec [OF \<open>\<forall>x\<in>set ks. failed_over x\<close>, of "last ks"] by (auto simp: failed_over_def retryable_def)
  show ?thesis
  proof (cases "ks = []")
    case True
    then have "rq_attempts q' = []" using eq by simp
    with True ks here show ?thesis by (auto simp: forwarded_def exhausted_status_def split: if_splits)
  next
    case False
    then have "rq_attempts q' \<noteq> []" using eq by auto
    with st lst False \<open>ks \<noteq> [] \<Longrightarrow> key_status (last ks) \<noteq> 400\<close> show ?thesis
      by (auto simp: exhausted_status_def)
  qed
qed

section \<open>Sample\<close>

definition sample_env :: "call \<Rightarrow> attempt_env" where
  "sample_env c =
     \<lparr>ae_now = second, ae_convert = Inl ''no'', ae_form = Inl ''no'', ae_first = c, ae_second = c,
      ae_client_gone = False, ae_latency = 5, ae_sse = False, ae_stream_usage = zero_usage,
      ae_stream_known = False, ae_stream_end = StreamOk, ae_body = RelayBody ''{}'' (Inr ''{}''), ae_done = 2 * second\<rparr>"

definition sample_envs :: "nat \<Rightarrow> attempt_env" where
  "sample_envs k = sample_env (if k = 0 then CallResp 503 NoRetry ''busy'' else CallResp 200 NoRetry '''')"

definition sample_cfg :: forward_cfg where
  "sample_cfg = forward_cfg_of sample_perf True 0 None (\<lambda>_. None) (\<lambda>_. '''')"

definition sample_upstream :: "nat \<Rightarrow> Upstream" where
  "sample_upstream i =
     \<lparr>up_id = i, up_name = ''acct'', up_provider = ''openai'', up_type = TypeText, up_base_url = '''', up_key = ''k'',
      up_auth = '''', up_protocols = [ProtoOpenAIChat], up_mappings = Map.empty, up_priority = int i, up_weight = 1,
      up_max_concurrency = 1, up_passthrough = False, up_endpoints = []\<rparr>"

definition two_accounts :: Snapshot where
  "two_accounts =
     \<lparr>sn_accounts = [3 \<mapsto> sample_upstream 3, 5 \<mapsto> sample_upstream 5],
      byModel = [''demo'' \<mapsto> [sample_upstream 3, sample_upstream 5]], sn_models = [], modelType = Map.empty,
      lowerName = Map.empty, lowerDup = (\<lambda>_. False), passthrough = (\<lambda>_. []), sn_endpoints = [],
      sn_groups = Map.empty, DefaultGroup = None, ModelGroups = Map.empty, groupByName = Map.empty,
      VirtualModel = '''', sn_built = 0\<rparr>"

definition sample_request :: req where
  "sample_request = (newRequest ''r1'' ProtoOpenAIChat 0)\<lparr>rq_model := ''demo'', rq_reserved := 40\<rparr>"

definition sample_forwarded :: "(nat \<Rightarrow> attempt_env) \<Rightarrow> gw \<times> req" where
  "sample_forwarded env = forward sample_cfg env (\<lambda>_ _. 0) (3 * second) two_accounts [''demo''] (sample_gw, sample_request)"

lemma sample_envs_http: "http_env (sample_envs j)" "http_env (sample_env (CallResp 503 NoRetry ''busy''))"
  by (simp_all add: http_env_def http_call_def sample_envs_def sample_env_def)

lemma sample_gw_wf: "cm_wf (gw_accounts sample_gw)"
  by (simp add: sample_gw_def newCounterMap_def cm_wf_def)

lemma order_fair_witness:
  "mset (orderUpstreams (\<lambda>_. 0) (candidate_accounts two_accounts TypeText ''demo'')) =
     mset (candidate_accounts two_accounts TypeText ''demo'')"
proof -
  have "sorted (map up_priority (candidate_accounts two_accounts TypeText ''demo''))" by code_simp
  from order_fair [OF this] show ?thesis by blast
qed

lemma forward_conserves_slots_witness:
  "cm_count (gw_accounts (fst (sample_forwarded sample_envs))) 3 = 0 \<and> gw_gate (fst (sample_forwarded sample_envs)) = newGate 10 10"
proof -
  have "cm_count (gw_accounts sample_gw) 3 = 0" by code_simp
  moreover have "0 \<le> fc_max_tries sample_cfg" by code_simp
  ultimately show ?thesis
    using forward_conserves_slots [of sample_envs "(sample_gw, sample_request)" sample_cfg] sample_envs_http sample_gw_wf
    unfolding sample_forwarded_def by (simp add: sample_gw_def)
qed

lemma forward_closes_once_witness:
  "gw_logs (fst (sample_forwarded sample_envs)) = [rq_log (snd (sample_forwarded sample_envs))] \<and>
   gw_budget (fst (sample_forwarded sample_envs)) = budget_release 40 (newBudget 67108864)"
proof -
  obtain g' q' where run: "sample_forwarded sample_envs = (g', q')" by fastforce
  have "0 \<le> fc_max_tries sample_cfg" by code_simp
  from forward_closes_once [OF sample_envs_http(1) _ this _ run [unfolded sample_forwarded_def]] sample_gw_wf
  show ?thesis unfolding run by (simp add: sample_gw_def sample_request_def newRequest_def)
qed

lemma forward_retries_safely_witness:
  "length (rq_attempts (snd (sample_forwarded sample_envs))) \<le> 2"
proof -
  obtain g' q' where run: "sample_forwarded sample_envs = (g', q')" by fastforce
  have mx: "fc_max_tries sample_cfg = 2" by code_simp
  have "0 \<le> fc_max_tries sample_cfg" by (simp add: mx)
  from forward_retries_safely [OF sample_envs_http(1) _ this run [unfolded sample_forwarded_def]] sample_gw_wf
  obtain ks where ks: "map at_key (rq_attempts q') = map at_key (rq_attempts sample_request) @ ks" "int (length ks) \<le> 2"
    unfolding mx by auto
  have "map at_key (rq_attempts q') = ks" using ks(1) by (simp add: sample_request_def newRequest_def)
  then have "length (rq_attempts q') = length ks" by (metis length_map)
  with ks(2) show ?thesis unfolding run by simp
qed

lemma forward_exhausted_witness:
  "cl_status (rq_log (snd (forward sample_cfg sample_envs (\<lambda>_ _. 0) (3 * second) two_accounts [''none'']
     (sample_gw, sample_request)))) = 503"
proof -
  obtain g' q' where run: "forward sample_cfg sample_envs (\<lambda>_ _. 0) (3 * second) two_accounts [''none'']
      (sample_gw, sample_request) = (g', q')" by fastforce
  have "candidate_accounts two_accounts (rq_api_type sample_request) ''none'' = []"
    by (simp add: candidate_accounts_def UpstreamsFor_def two_accounts_def PassthroughFor_def)
  then have f: "fail_request (fc_zone sample_cfg) (fc_pricer sample_cfg) (3 * second) ErrNoUpstream (sample_gw, sample_request) = (g', q')"
    using run by (simp add: forward_def orderUpstreams_def no_progress_def)
  note fr = fail_request_frame [OF f]
  have none: "rq_attempts q' = []" using fr by (simp add: keys_of_def sample_request_def newRequest_def)
  have "0 \<le> fc_max_tries sample_cfg" by code_simp
  then show ?thesis
    using forward_exhausted [OF sample_envs_http(1) _ _ run] sample_gw_wf none fr
    unfolding run by (simp add: sample_request_def newRequest_def ErrNoUpstream_def newErr_def)
qed

end
