(* ===== verification/Aho_Corasick.thy ===== *)
theory Aho_Corasick
  imports GoBase "HOL-Library.Multiset"
begin

text \<open>
  \<open>internal/compliance/aho.go\<close>: the byte-level automaton behind the keyword rules. A node is
  its index in \<open>nodes\<close>; the maps \<open>next\<close> are association lists without duplicate
  keys, and the order in which Go iterates over such a map is the argument \<open>order\<close>. The
  walks along failure links have the number of nodes as fuel, which is enough: a link leads to
  a shorter string, and a string in the automaton is shorter than the number of nodes.
\<close>

section \<open>The automaton\<close>

record acNode =
  ac_next :: "(char \<times> nat) list"
  ac_fail :: nat
  ac_out :: "nat list"

definition new_node :: acNode where
  "new_node = \<lparr>ac_next = [], ac_fail = 0, ac_out = []\<rparr>"

definition next_of :: "acNode list \<Rightarrow> nat \<Rightarrow> char \<Rightarrow> nat option" where
  "next_of ns n b = map_of (ac_next (ns ! n)) b"

fun insert_bytes :: "acNode list \<Rightarrow> nat \<Rightarrow> string \<Rightarrow> acNode list \<times> nat" where
  "insert_bytes ns cur [] = (ns, cur)"
| "insert_bytes ns cur (b # bs) =
     (case next_of ns cur b of
        Some n \<Rightarrow> insert_bytes ns n bs
      | None \<Rightarrow>
          let n = length ns; ns1 = ns @ [new_node]
          in insert_bytes (ns1[cur := (ns1 ! cur)\<lparr>ac_next := (b, n) # ac_next (ns1 ! cur)\<rparr>]) n bs)"

definition insert_pattern :: "nat \<times> string \<Rightarrow> acNode list \<Rightarrow> acNode list" where
  "insert_pattern ip ns =
     (let (i, p) = ip
      in if p = '''' then ns
         else let (ns1, cur) = insert_bytes ns 0 p
              in ns1[cur := (ns1 ! cur)\<lparr>ac_out := ac_out (ns1 ! cur) @ [i]\<rparr>])"

definition build_trie :: "string list \<Rightarrow> acNode list" where
  "build_trie ps = fold insert_pattern (enumerate 0 ps) [new_node]"

fun fail_walk :: "acNode list \<Rightarrow> nat \<Rightarrow> char \<Rightarrow> nat \<Rightarrow> nat \<Rightarrow> nat" where
  \<comment> \<open>the loop that finds the failure link of \<open>child\<close>\<close>
  "fail_walk ns child b 0 f = f"
| "fail_walk ns child b (Suc k) f =
     (case next_of ns f b of
        Some n \<Rightarrow> if n \<noteq> child then n else if f = 0 then f else fail_walk ns child b k (ac_fail (ns ! f))
      | None \<Rightarrow> if f = 0 then f else fail_walk ns child b k (ac_fail (ns ! f)))"

definition link_child :: "nat \<Rightarrow> char \<times> nat \<Rightarrow> acNode list \<Rightarrow> acNode list" where
  \<comment> \<open>the body of the loop over the children of \<open>cur\<close>\<close>
  "link_child cur bc ns =
     (let (b, child) = bc;
          f = fail_walk ns child b (length ns) (ac_fail (ns ! cur));
          ns1 = ns[child := (ns ! child)\<lparr>ac_fail := f\<rparr>]
      in ns1[child := (ns1 ! child)\<lparr>ac_out := ac_out (ns1 ! child) @ ac_out (ns1 ! f)\<rparr>])"

type_synonym map_order = "nat \<Rightarrow> (char \<times> nat) list \<Rightarrow> (char \<times> nat) list"

fun bfs :: "map_order \<Rightarrow> nat \<Rightarrow> nat list \<Rightarrow> acNode list \<Rightarrow> acNode list" where
  "bfs order 0 queue ns = ns"
| "bfs order (Suc k) [] ns = ns"
| "bfs order (Suc k) (cur # queue) ns =
     (let children = order cur (ac_next (ns ! cur))
      in bfs order k (queue @ map snd children) (fold (link_child cur) children ns))"

definition root_children :: "map_order \<Rightarrow> acNode list \<Rightarrow> acNode list" where
  "root_children order ns = fold (\<lambda>(b, c) ns. ns[c := (ns ! c)\<lparr>ac_fail := 0\<rparr>]) (order 0 (ac_next (ns ! 0))) ns"

definition newMatcher :: "map_order \<Rightarrow> string list \<Rightarrow> acNode list" where
  "newMatcher order ps =
     (let ns = build_trie ps
      in bfs order (length ns) (map snd (order 0 (ac_next (ns ! 0)))) (root_children order ns))"

fun goto_walk :: "acNode list \<Rightarrow> char \<Rightarrow> nat \<Rightarrow> nat \<Rightarrow> nat" where
  "goto_walk ns b 0 cur = cur"
| "goto_walk ns b (Suc k) cur =
     (case next_of ns cur b of
        Some n \<Rightarrow> n
      | None \<Rightarrow> if cur = 0 then cur else goto_walk ns b k (ac_fail (ns ! cur)))"

fun match_loop :: "acNode list \<Rightarrow> nat \<Rightarrow> string \<Rightarrow> nat list \<Rightarrow> nat list" where
  \<comment> \<open>\<open>seen\<close> is the set of \<open>found\<close>\<close>
  "match_loop ns cur [] found = found"
| "match_loop ns cur (b # text) found =
     (let n = goto_walk ns b (length ns) cur
      in match_loop ns n text
           (fold (\<lambda>p found. if p \<in> set found then found else found @ [p]) (ac_out (ns ! n)) found))"

definition Match :: "acNode list \<Rightarrow> string \<Rightarrow> nat list" where
  "Match ns text = (if length ns \<le> 1 then [] else match_loop ns 0 text [])"

lemma sorted_blocks:
  "sorted (map f xs) \<Longrightarrow> (\<And>x. x \<in> set xs \<Longrightarrow> f x \<le> d) \<Longrightarrow> (\<And>y. y \<in> set ys \<Longrightarrow> f y = d) \<Longrightarrow> sorted (map f (xs @ ys))"
  for d :: nat
  by (auto simp: sorted_append intro: sorted_same)

section \<open>Longest suffixes\<close>

fun lsuf :: "string set \<Rightarrow> string \<Rightarrow> string" where
  \<comment> \<open>the longest suffix in the set\<close>
  "lsuf N [] = []"
| "lsuf N (x # xs) = (if x # xs \<in> N then x # xs else lsuf N xs)"

definition prefix_closed :: "string set \<Rightarrow> bool" where
  "prefix_closed N \<longleftrightarrow> [] \<in> N \<and> (\<forall>u b. u @ [b] \<in> N \<longrightarrow> u \<in> N)"

lemma lsuf_suffix: "suffix (lsuf N w) w"
  by (induction w) (auto simp: suffix_Cons)

lemma lsuf_mem: "[] \<in> N \<Longrightarrow> lsuf N w \<in> N"
  by (induction w) auto

lemma lsuf_longest: "suffix u w \<Longrightarrow> u \<in> N \<Longrightarrow> suffix u (lsuf N w)"
  by (induction w) (auto simp: suffix_Cons)

lemma lsuf_id: "w \<in> N \<Longrightarrow> lsuf N w = w"
  by (cases w) auto

lemma lsuf_length: "length (lsuf N w) \<le> length w"
  using lsuf_suffix suffix_length_le by blast

lemma lsuf_tl: "w \<notin> N \<Longrightarrow> w \<noteq> [] \<Longrightarrow> lsuf N (tl w) = lsuf N w"
  by (cases w) auto

lemma lsuf_snoc:
  assumes "prefix_closed N"
  shows "lsuf N (lsuf N w @ [b]) = lsuf N (w @ [b])"
proof (induction w)
  case (Cons x w)
  show ?case
  proof (cases "x # w \<in> N")
    case False
    then have "x # w @ [b] \<notin> N" using assms unfolding prefix_closed_def by (metis append_Cons)
    with False Cons show ?thesis by simp
  qed simp
qed simp

section \<open>The trie\<close>

definition trie :: "acNode list \<Rightarrow> (nat \<Rightarrow> string) \<Rightarrow> bool" where
  \<comment> \<open>\<open>P n\<close>: the string that leads to node \<open>n\<close>\<close>
  "trie ns P \<longleftrightarrow>
     0 < length ns \<and> P 0 = [] \<and> inj_on P {..<length ns} \<and>
     (\<forall>n < length ns. distinct (map fst (ac_next (ns ! n)))) \<and>
     (\<forall>n < length ns. \<forall>b m. next_of ns n b = Some m \<longleftrightarrow> m < length ns \<and> P m = P n @ [b]) \<and>
     (\<forall>n < length ns. n \<noteq> 0 \<longrightarrow> (\<exists>k < length ns. \<exists>b. P n = P k @ [b]))"

definition strings_of :: "acNode list \<Rightarrow> (nat \<Rightarrow> string) \<Rightarrow> string set" where
  "strings_of ns P = P ` {..<length ns}"

lemma trie_next:
  "trie ns P \<Longrightarrow> n < length ns \<Longrightarrow> next_of ns n b = Some m \<longleftrightarrow> m < length ns \<and> P m = P n @ [b]"
  by (simp add: trie_def)

lemma trie_next_None:
  "trie ns P \<Longrightarrow> n < length ns \<Longrightarrow> next_of ns n b = None \<longleftrightarrow> P n @ [b] \<notin> strings_of ns P"
proof -
  assume t: "trie ns P" and n: "n < length ns"
  have "next_of ns n b = None \<longleftrightarrow> (\<forall>m. next_of ns n b \<noteq> Some m)" by (cases "next_of ns n b") auto
  also have "\<dots> \<longleftrightarrow> P n @ [b] \<notin> strings_of ns P"
    unfolding trie_next [OF t n] strings_of_def by (metis (no_types, lifting) image_iff lessThan_iff)
  finally show ?thesis .
qed

lemma trie_root: "trie ns P \<Longrightarrow> n < length ns \<Longrightarrow> P n = [] \<longleftrightarrow> n = 0"
  by (auto simp: trie_def inj_on_def)

lemma trie_inj: "trie ns P \<Longrightarrow> n < length ns \<Longrightarrow> m < length ns \<Longrightarrow> P n = P m \<Longrightarrow> n = m"
  by (auto simp: trie_def inj_on_def)

lemma trie_prefix_closed: "trie ns P \<Longrightarrow> prefix_closed (strings_of ns P)"
proof -
  assume t: "trie ns P"
  have "u \<in> strings_of ns P" if m: "u @ [b] \<in> strings_of ns P" for u b
  proof -
    obtain n where n: "n < length ns" "P n = u @ [b]" using m by (auto simp: strings_of_def)
    have "P 0 = []" using t by (simp add: trie_def)
    with n(2) have "n \<noteq> 0" by (cases "n = 0") auto
    then obtain k c where "k < length ns" "P n = P k @ [c]" using t n(1) unfolding trie_def by blast
    with n(2) show ?thesis by (auto simp: strings_of_def)
  qed
  moreover have "[] \<in> strings_of ns P" using t by (auto simp: strings_of_def trie_def image_iff intro!: bexI [of _ 0])
  ultimately show ?thesis by (auto simp: prefix_closed_def)
qed

lemma trie_cong:
  "trie ns P \<Longrightarrow> length ns' = length ns \<Longrightarrow> (\<And>n. n < length ns \<Longrightarrow> ac_next (ns' ! n) = ac_next (ns ! n)) \<Longrightarrow> trie ns' P"
  unfolding trie_def next_of_def by auto

definition fresh_node :: "acNode list \<Rightarrow> nat \<Rightarrow> char \<Rightarrow> acNode list" where
  "fresh_node ns cur b =
     (ns @ [new_node])[cur := ((ns @ [new_node]) ! cur)\<lparr>ac_next := (b, length ns) # ac_next ((ns @ [new_node]) ! cur)\<rparr>]"

lemma fresh_node_trie:
  assumes t: "trie ns P" and cur: "cur < length ns" and new: "next_of ns cur b = None"
  shows "trie (fresh_node ns cur b) (P(length ns := P cur @ [b]))"
proof -
  let ?P = "P(length ns := P cur @ [b])" and ?ns = "fresh_node ns cur b"
  have len: "length ?ns = Suc (length ns)" by (simp add: fresh_node_def)
  have nx: "next_of ?ns n c =
      (if n = cur \<and> c = b then Some (length ns) else if n = length ns then None else next_of ns n c)"
    if "n < length ?ns" for n c
    using that cur by (auto simp: fresh_node_def next_of_def nth_list_update nth_append new_node_def len)
  have ni: "P cur @ [b] \<notin> strings_of ns P" using trie_next_None [OF t cur] new by simp
  have inj: "inj_on ?P {..<length ?ns}"
    using t ni unfolding len trie_def strings_of_def
    by (auto simp: inj_on_def less_Suc_eq image_iff; metis lessThan_iff)
  have dist: "distinct (map fst (ac_next (?ns ! n)))" if "n < length ?ns" for n
  proof (cases "n = cur")
    case True
    have "b \<notin> fst ` set (ac_next (ns ! cur))" using new by (simp add: next_of_def map_of_eq_None_iff)
    with True t cur show ?thesis by (simp add: fresh_node_def nth_append trie_def)
  next
    case False
    with that t show ?thesis
      by (cases "n = length ns") (auto simp: fresh_node_def nth_append trie_def new_node_def len less_Suc_eq)
  qed
  have nxt: "next_of ?ns n c = Some m \<longleftrightarrow> m < length ?ns \<and> ?P m = ?P n @ [c]" if n: "n < length ?ns" for n c m
  proof (cases "n = length ns")
    case True
    have "P m \<noteq> P cur @ [b, c]" if "m < length ns" for m
    proof
      assume "P m = P cur @ [b, c]"
      then have "(P cur @ [b]) @ [c] \<in> strings_of ns P" using that by (auto simp: strings_of_def image_iff) (metis lessThan_iff)
      with trie_prefix_closed [OF t] ni show False unfolding prefix_closed_def by blast
    qed
    with True cur show ?thesis unfolding nx [OF n] by (auto simp: len less_Suc_eq)
  next
    case False
    then have n': "n < length ns" using n len by simp
    show ?thesis
    proof (cases "n = cur \<and> c = b")
      case True
      then show ?thesis
        unfolding nx [OF n] using cur trie_next [OF t cur, of b] new
        by (auto simp: len less_Suc_eq)
    next
      case nc: False
      have "P cur @ [b] = P n @ [c] \<longleftrightarrow> False" using nc trie_inj [OF t cur n'] by auto
      with nc False n' show ?thesis unfolding nx [OF n] trie_next [OF t n'] by (auto simp: len less_Suc_eq trie_next [OF t n'])
    qed
  qed
  have par: "\<exists>k < length ?ns. \<exists>c. ?P n = ?P k @ [c]" if n: "n < length ?ns" "n \<noteq> 0" for n
  proof (cases "n = length ns")
    case True
    with cur show ?thesis by (intro exI [of _ cur]) (auto simp: len)
  next
    case False
    then obtain k c where "k < length ns" "P n = P k @ [c]" using t n len unfolding trie_def by (metis less_Suc_eq)
    with False show ?thesis by (intro exI [of _ k]) (auto simp: len)
  qed
  have "0 < length ns" "P 0 = []" using t by (auto simp: trie_def)
  then show ?thesis unfolding trie_def using inj dist nxt par len by auto
qed

definition extends :: "acNode list \<Rightarrow> (nat \<Rightarrow> string) \<Rightarrow> acNode list \<Rightarrow> (nat \<Rightarrow> string) \<Rightarrow> bool" where
  "extends ns P ns' P' \<longleftrightarrow>
     trie ns' P' \<and> length ns \<le> length ns' \<and> (\<forall>k < length ns. P' k = P k \<and> ac_out (ns' ! k) = ac_out (ns ! k)) \<and>
     (\<forall>k. length ns \<le> k \<longrightarrow> k < length ns' \<longrightarrow> ac_out (ns' ! k) = [])"

lemma extends_trans: "extends ns P ns1 P1 \<Longrightarrow> extends ns1 P1 ns2 P2 \<Longrightarrow> extends ns P ns2 P2"
  unfolding extends_def by (metis le_trans less_le_trans not_less)

lemma fresh_node_extends:
  "trie ns P \<Longrightarrow> cur < length ns \<Longrightarrow> next_of ns cur b = None \<Longrightarrow>
     extends ns P (fresh_node ns cur b) (P(length ns := P cur @ [b]))"
  using fresh_node_trie [of ns P cur b]
  by (auto simp: extends_def fresh_node_def nth_list_update nth_append new_node_def less_Suc_eq)

lemma insert_bytes_extends:
  assumes "trie ns P" and "cur < length ns" and "insert_bytes ns cur p = (ns', n)"
  shows "\<exists>P'. extends ns P ns' P' \<and> n < length ns' \<and> P' n = P cur @ p"
  using assms
proof (induction ns cur p arbitrary: P rule: insert_bytes.induct)
  case (1 ns cur)
  then show ?case by (intro exI [of _ P]) (auto simp: extends_def)
next
  case (2 ns cur b bs)
  show ?case
  proof (cases "next_of ns cur b")
    case (Some m)
    then have m: "m < length ns" "P m = P cur @ [b]" using trie_next [OF 2(3,4)] by auto
    from 2(2) [OF Some 2(3) m(1)] 2(5) Some obtain P' where "extends ns P ns' P' \<and> n < length ns' \<and> P' n = P m @ bs" by auto
    with m(2) show ?thesis by auto
  next
    case None
    let ?P = "P(length ns := P cur @ [b])"
    note fr = fresh_node_trie [OF 2(3,4) None] fresh_node_extends [OF 2(3,4) None]
    have len: "length ns < length (fresh_node ns cur b)" by (simp add: fresh_node_def)
    have ib: "insert_bytes (fresh_node ns cur b) (length ns) bs = (ns', n)"
      using 2(5) None by (simp add: Let_def fresh_node_def)
    from 2(1) [OF None refl refl, folded fresh_node_def, OF fr(1) len ib]
    obtain P' where "extends (fresh_node ns cur b) ?P ns' P'" "n < length ns'" "P' n = ?P (length ns) @ bs" by blast
    with extends_trans [OF fr(2)] show ?thesis by auto
  qed
qed

definition patterns_in :: "string list \<Rightarrow> acNode list \<Rightarrow> (nat \<Rightarrow> string) \<Rightarrow> bool" where
  "patterns_in ps ns P \<longleftrightarrow>
     trie ns P \<and> (\<forall>n < length ns. set (ac_out (ns ! n)) = {i. i < length ps \<and> ps ! i \<noteq> [] \<and> ps ! i = P n}) \<and>
     (\<forall>p\<in>set ps. p \<noteq> [] \<longrightarrow> p \<in> strings_of ns P)"

lemma snoc_indices:
  assumes "p \<noteq> ''''"
  shows "{i. i < length (ps @ [p]) \<and> (ps @ [p]) ! i \<noteq> [] \<and> (ps @ [p]) ! i = x} =
    {i. i < length ps \<and> ps ! i \<noteq> [] \<and> ps ! i = x} \<union> (if p = x then {length ps} else {})"
proof (rule set_eqI)
  fix i
  consider "i < length ps" | "i = length ps" | "length ps < i" by linarith
  then show "i \<in> {i. i < length (ps @ [p]) \<and> (ps @ [p]) ! i \<noteq> [] \<and> (ps @ [p]) ! i = x} \<longleftrightarrow>
      i \<in> {i. i < length ps \<and> ps ! i \<noteq> [] \<and> ps ! i = x} \<union> (if p = x then {length ps} else {})"
    using assms by cases (simp_all add: nth_append)
qed

lemma insert_pattern_in:
  assumes "patterns_in ps ns P"
  shows "\<exists>P'. patterns_in (ps @ [p]) (insert_pattern (length ps, p) ns) P'"
proof (cases "p = ''''")
  case True
  with assms show ?thesis
    by (intro exI [of _ P]) (auto simp: patterns_in_def insert_pattern_def nth_append less_Suc_eq)
next
  case False
  have t: "trie ns P" and l: "0 < length ns" and P0: "P 0 = []" using assms by (auto simp: patterns_in_def trie_def)
  obtain ns1 cur where ib: "insert_bytes ns 0 p = (ns1, cur)" by fastforce
  obtain P' where P': "extends ns P ns1 P'" "cur < length ns1" "P' cur = p"
    using insert_bytes_extends [OF t l ib] P0 by auto
  let ?ns = "ns1[cur := (ns1 ! cur)\<lparr>ac_out := ac_out (ns1 ! cur) @ [length ps]\<rparr>]"
  have t1: "trie ns1 P'" using P' by (simp add: extends_def)
  then have t2: "trie ?ns P'" by (rule trie_cong) (auto simp: nth_list_update P'(2))
  have old: "set (ac_out (ns1 ! n)) = {i. i < length ps \<and> ps ! i \<noteq> [] \<and> ps ! i = P' n}" if n: "n < length ns1" for n
  proof (cases "n < length ns")
    case True
    with P' assms show ?thesis by (auto simp: extends_def patterns_in_def)
  next
    case new: False
    have "ps ! i \<noteq> P' n" if i: "i < length ps" "ps ! i \<noteq> []" for i
    proof
      assume e: "ps ! i = P' n"
      obtain k where k: "k < length ns" "P k = ps ! i"
        using assms i by (auto simp: patterns_in_def strings_of_def image_iff)
      with P'(1) e have "P' k = P' n" "k < length ns1" by (auto simp: extends_def)
      with trie_inj [OF t1] n have "k = n" by blast
      with k new show False by simp
    qed
    with n new P'(1) show ?thesis by (auto simp: extends_def)
  qed
  have "set (ac_out (?ns ! n)) = {i. i < length (ps @ [p]) \<and> (ps @ [p]) ! i \<noteq> [] \<and> (ps @ [p]) ! i = P' n}"
    if n: "n < length ?ns" for n
  proof -
    have n1: "n < length ns1" using n by simp
    have here: "p = P' n \<longleftrightarrow> n = cur" using trie_inj [OF t1 n1 P'(2)] P'(3) by metis
    have "set (ac_out (?ns ! n)) = set (ac_out (ns1 ! n)) \<union> (if n = cur then {length ps} else {})"
      using P'(2) by (cases "n = cur") simp_all
    then show ?thesis unfolding snoc_indices [OF False] here old [OF n1] .
  qed
  moreover have "q \<in> strings_of ?ns P'" if q: "q \<in> set (ps @ [p])" "q \<noteq> []" for q
  proof (cases "q = p")
    case True
    with P' show ?thesis by (auto simp: strings_of_def)
  next
    case False
    with q assms have "q \<in> strings_of ns P" by (auto simp: patterns_in_def)
    then obtain k where "k < length ns" "P k = q" by (auto simp: strings_of_def)
    with P'(1) have "k < length ?ns" "P' k = q" by (auto simp: extends_def)
    then show ?thesis unfolding strings_of_def by blast
  qed
  ultimately have "patterns_in (ps @ [p]) ?ns P'" using t2 by (auto simp: patterns_in_def)
  with False ib show ?thesis by (auto simp: insert_pattern_def)
qed

lemma build_trie_in: "\<exists>P. patterns_in ps (build_trie ps) P"
proof (induction ps rule: rev_induct)
  case Nil
  show ?case
    by (intro exI [of _ "\<lambda>_. []"])
       (auto simp: patterns_in_def build_trie_def trie_def next_of_def new_node_def strings_of_def inj_on_def)
next
  case (snoc p ps)
  then obtain P where "patterns_in ps (build_trie ps) P" by blast
  moreover have "build_trie (ps @ [p]) = insert_pattern (length ps, p) (build_trie ps)"
    by (simp add: build_trie_def enumerate_append_eq)
  ultimately show ?case using insert_pattern_in by metis
qed

section \<open>Walking along failure links\<close>

lemma trie_depth: "trie ns P \<Longrightarrow> n < length ns \<Longrightarrow> length (P n) < length ns"
proof -
  assume t: "trie ns P" and n: "n < length ns"
  have fin: "finite (strings_of ns P)" by (simp add: strings_of_def)
  have pre: "take k (P n) \<in> strings_of ns P" for k
  proof (induction "length (P n) - k" arbitrary: k)
    case 0
    with n show ?case by (auto simp: strings_of_def)
  next
    case (Suc j)
    then have "take (Suc k) (P n) = take k (P n) @ [P n ! k]" by (simp add: take_Suc_conv_app_nth)
    with Suc.hyps(1) [of "Suc k"] Suc.hyps(2) show ?case
      using trie_prefix_closed [OF t] unfolding prefix_closed_def by (metis Suc_diff_Suc diff_Suc_Suc less_Suc_eq_le
          nat.inject not_less zero_less_Suc zero_less_diff)
  qed
  have "inj_on (\<lambda>k. take k (P n)) {..length (P n)}"
    by (rule inj_onI) (metis atMost_iff length_take min.absorb2)
  then have "card {..length (P n)} = card ((\<lambda>k. take k (P n)) ` {..length (P n)})" by (simp add: card_image)
  also have "\<dots> \<le> card (strings_of ns P)" using pre fin by (intro card_mono) auto
  also have "\<dots> \<le> length ns" unfolding strings_of_def using card_image_le [of "{..<length ns}" P] by simp
  finally show ?thesis by simp
qed

definition linked :: "acNode list \<Rightarrow> (nat \<Rightarrow> string) \<Rightarrow> nat \<Rightarrow> bool" where
  \<comment> \<open>the node's failure link leads to its longest proper suffix in the automaton\<close>
  "linked ns P n \<longleftrightarrow> ac_fail (ns ! n) < length ns \<and> P (ac_fail (ns ! n)) = lsuf (strings_of ns P) (tl (P n))"

lemma goto_walk_correct:
  assumes t: "trie ns P"
  shows "f < length ns \<Longrightarrow> length (P f) < k \<Longrightarrow> (\<And>n. n < length ns \<Longrightarrow> n \<noteq> 0 \<Longrightarrow> length (P n) \<le> length (P f) \<Longrightarrow> linked ns P n) \<Longrightarrow>
    goto_walk ns b k f < length ns \<and> P (goto_walk ns b k f) = lsuf (strings_of ns P) (P f @ [b])"
proof (induction k arbitrary: f)
  case (Suc k)
  let ?N = "strings_of ns P"
  show ?case
  proof (cases "next_of ns f b")
    case (Some n)
    then have n: "n < length ns" "P n = P f @ [b]" using trie_next [OF t Suc.prems(1)] by auto
    then have "P f @ [b] \<in> ?N" by (auto simp: strings_of_def image_iff) (metis lessThan_iff)
    with Some n show ?thesis by (simp add: lsuf_id)
  next
    case None
    then have ni: "P f @ [b] \<notin> ?N" using trie_next_None [OF t Suc.prems(1)] by simp
    show ?thesis
    proof (cases "f = 0")
      case True
      then have "P f = []" using t by (simp add: trie_def)
      with True None ni Suc.prems(1) show ?thesis by simp
    next
      case False
      let ?f = "ac_fail (ns ! f)"
      have Pf: "P f \<noteq> []" using trie_root [OF t Suc.prems(1)] False by simp
      have lk: "?f < length ns" "P ?f = lsuf ?N (tl (P f))"
        using Suc.prems(3) [OF Suc.prems(1) False] by (auto simp: linked_def)
      have sh: "length (P ?f) < length (P f)"
        using lk(2) lsuf_length [of ?N "tl (P f)"] Pf by (cases "P f") auto
      have "goto_walk ns b k ?f < length ns \<and> P (goto_walk ns b k ?f) = lsuf ?N (P ?f @ [b])"
        using Suc.prems sh by (intro Suc.IH lk) auto
      moreover have "lsuf ?N (P ?f @ [b]) = lsuf ?N (P f @ [b])"
        using lsuf_snoc [OF trie_prefix_closed [OF t], of "tl (P f)" b] lk(2) lsuf_tl [OF ni] Pf
        by (cases "P f") auto
      ultimately show ?thesis using None False by simp
    qed
  qed
qed simp

lemma fail_walk_goto:
  assumes t: "trie ns P" and child: "child < length ns"
  shows "f < length ns \<Longrightarrow> length (P f) < k \<Longrightarrow> Suc (length (P f)) < length (P child) \<Longrightarrow>
    (\<And>n. n < length ns \<Longrightarrow> n \<noteq> 0 \<Longrightarrow> length (P n) \<le> length (P f) \<Longrightarrow> linked ns P n) \<Longrightarrow>
    fail_walk ns child b k f = goto_walk ns b k f"
proof (induction k arbitrary: f)
  case (Suc k)
  have nc: "next_of ns f b \<noteq> Some child" using trie_next [OF t Suc.prems(1), of b child] Suc.prems(3) by auto
  show ?case
  proof (cases "f = 0")
    case False
    let ?f = "ac_fail (ns ! f)"
    have "P f \<noteq> []" using trie_root [OF t Suc.prems(1)] False by simp
    moreover have lk: "?f < length ns" "P ?f = lsuf (strings_of ns P) (tl (P f))"
      using Suc.prems(4) [OF Suc.prems(1) False] by (auto simp: linked_def)
    ultimately have sh: "length (P ?f) < length (P f)"
      using lsuf_length [of "strings_of ns P" "tl (P f)"] by (cases "P f") auto
    have "fail_walk ns child b k ?f = goto_walk ns b k ?f"
      using Suc.prems sh by (intro Suc.IH lk) auto
    with nc show ?thesis by (auto split: option.split)
  qed (use nc in \<open>auto split: option.split\<close>)
qed simp

section \<open>The breadth-first pass\<close>

definition own :: "string list \<Rightarrow> string \<Rightarrow> nat set" where
  "own ps w = {i. i < length ps \<and> ps ! i \<noteq> [] \<and> ps ! i = w}"

definition outs :: "string list \<Rightarrow> string \<Rightarrow> nat set" where
  \<comment> \<open>the patterns that end where \<open>w\<close> ends\<close>
  "outs ps w = {i. i < length ps \<and> ps ! i \<noteq> [] \<and> suffix (ps ! i) w}"

lemma outs_split:
  assumes "\<forall>p\<in>set ps. p \<noteq> [] \<longrightarrow> p \<in> N" and "w \<noteq> []"
  shows "outs ps w = own ps w \<union> outs ps (lsuf N (tl w))"
proof -
  have "suffix p w \<longleftrightarrow> p = w \<or> suffix p (lsuf N (tl w))" if "p \<in> N" for p
    using that assms(2) lsuf_longest [of p "tl w" N] lsuf_suffix [of N "tl w"] suffix_order.trans
    by (cases w) (auto simp: suffix_Cons)
  with assms(1) show ?thesis by (auto simp: outs_def own_def)
qed

definition settled :: "string list \<Rightarrow> (nat \<Rightarrow> string) \<Rightarrow> acNode list \<Rightarrow> nat \<Rightarrow> bool" where
  "settled ps P ns n \<longleftrightarrow> (n \<noteq> 0 \<longrightarrow> linked ns P n) \<and> set (ac_out (ns ! n)) = outs ps (P n)"

definition shallow_settled :: "string list \<Rightarrow> (nat \<Rightarrow> string) \<Rightarrow> acNode list \<Rightarrow> nat \<Rightarrow> bool" where
  "shallow_settled ps P ns cur \<longleftrightarrow>
     trie ns P \<and> (\<forall>p\<in>set ps. p \<noteq> [] \<longrightarrow> p \<in> strings_of ns P) \<and> cur < length ns \<and> cur \<noteq> 0 \<and>
     (\<forall>n < length ns. length (P n) \<le> length (P cur) \<longrightarrow> settled ps P ns n)"

definition only_changes :: "nat set \<Rightarrow> acNode list \<Rightarrow> acNode list \<Rightarrow> bool" where
  "only_changes C ns ns' \<longleftrightarrow>
     length ns' = length ns \<and> (\<forall>n < length ns. ac_next (ns' ! n) = ac_next (ns ! n) \<and> (n \<notin> C \<longrightarrow> ns' ! n = ns ! n))"

lemma only_changes_settled:
  "only_changes C ns ns' \<Longrightarrow> n < length ns \<Longrightarrow> n \<notin> C \<Longrightarrow> settled ps P ns' n \<longleftrightarrow> settled ps P ns n"
  by (simp add: only_changes_def settled_def linked_def strings_of_def)

lemma only_changes_trie: "only_changes C ns ns' \<Longrightarrow> trie ns P \<Longrightarrow> trie ns' P"
  by (rule trie_cong [of ns P ns']) (auto simp: only_changes_def)

lemma only_changes_next: "only_changes C ns ns' \<Longrightarrow> n < length ns \<Longrightarrow> next_of ns' n b = next_of ns n b"
  by (simp add: only_changes_def next_of_def)

lemma link_child_settles:
  assumes g: "shallow_settled ps P ns cur" and nx: "next_of ns cur b = Some c"
    and out: "set (ac_out (ns ! c)) = own ps (P c)"
  shows "only_changes {c} ns (link_child cur (b, c) ns) \<and> settled ps P (link_child cur (b, c) ns) c \<and>
    shallow_settled ps P (link_child cur (b, c) ns) cur"
proof -
  let ?N = "strings_of ns P" and ?f0 = "ac_fail (ns ! cur)" and ?ns = "link_child cur (b, c) ns"
  have t: "trie ns P" and cur: "cur < length ns" "cur \<noteq> 0"
    and pats: "\<forall>p\<in>set ps. p \<noteq> [] \<longrightarrow> p \<in> ?N" using g by (auto simp: shallow_settled_def)
  have c: "c < length ns" "P c = P cur @ [b]" using nx trie_next [OF t cur(1)] by auto
  have sh: "settled ps P ns n" if "n < length ns" "length (P n) \<le> length (P cur)" for n
    using g that by (simp add: shallow_settled_def)
  have lc: "linked ns P cur" using sh [OF cur(1)] cur(2) by (simp add: settled_def)
  have Pcur: "P cur \<noteq> []" using trie_root [OF t cur(1)] cur(2) by simp
  have f0: "?f0 < length ns" "P ?f0 = lsuf ?N (tl (P cur))" using lc by (auto simp: linked_def)
  have short: "length (P ?f0) < length (P cur)"
    using f0(2) lsuf_length [of ?N "tl (P cur)"] Pcur by (cases "P cur") auto
  have lk: "linked ns P n" if "n < length ns" "n \<noteq> 0" "length (P n) \<le> length (P ?f0)" for n
    using sh [OF that(1)] that short by (simp add: settled_def)
  define f where "f = fail_walk ns c b (length ns) ?f0"
  have "f = goto_walk ns b (length ns) ?f0"
    unfolding f_def using short c(2) lk
    by (intro fail_walk_goto [OF t c(1) f0(1) trie_depth [OF t f0(1)]]) auto
  then have f: "f < length ns" "P f = lsuf ?N (tl (P c))"
    using goto_walk_correct [OF t f0(1) trie_depth [OF t f0(1)] lk, of b] f0(2) c(2) Pcur
      lsuf_snoc [OF trie_prefix_closed [OF t], of "tl (P cur)" b]
    by (auto simp: tl_append split: list.split)
  have fc: "length (P f) \<le> length (P cur)" using f(2) c(2) Pcur lsuf_length [of ?N "tl (P c)"] by simp
  then have "f \<noteq> c" using c(2) by auto
  have ns': "?ns = ns[c := (ns ! c)\<lparr>ac_fail := f, ac_out := ac_out (ns ! c) @ ac_out (ns ! f)\<rparr>]"
    using c(1) \<open>f \<noteq> c\<close> by (simp add: link_child_def f_def Let_def)
  have ch: "only_changes {c} ns ?ns" unfolding only_changes_def ns' using c(1) by (simp add: nth_list_update)
  have "set (ac_out (?ns ! c)) = outs ps (P c)"
    using outs_split [OF pats, of "P c"] c out f sh [OF f(1) fc] unfolding ns' by (simp add: settled_def)
  then have sc: "settled ps P ?ns c"
    using f c(1) unfolding settled_def linked_def strings_of_def ns' by simp
  have "settled ps P ?ns n" if n: "n < length ?ns" "length (P n) \<le> length (P cur)" for n
  proof -
    have "n \<noteq> c" using n(2) c(2) by auto
    with n ch only_changes_settled [OF ch, of n] sh [of n] show ?thesis by (simp add: only_changes_def)
  qed
  then have "shallow_settled ps P ?ns cur"
    using only_changes_trie [OF ch t] pats cur unfolding shallow_settled_def strings_of_def ns' by simp
  with ch sc show ?thesis by blast
qed

lemma only_changes_trans:
  "only_changes C ns ns1 \<Longrightarrow> only_changes D ns1 ns2 \<Longrightarrow> only_changes (C \<union> D) ns ns2"
  by (simp add: only_changes_def)

lemma link_children_settle:
  assumes "shallow_settled ps P ns cur" and "distinct (map snd cs)"
    and "\<And>b c. (b, c) \<in> set cs \<Longrightarrow> next_of ns cur b = Some c \<and> set (ac_out (ns ! c)) = own ps (P c)"
  shows "only_changes (snd ` set cs) ns (fold (link_child cur) cs ns) \<and>
    (\<forall>c\<in>snd ` set cs. settled ps P (fold (link_child cur) cs ns) c)"
  using assms
proof (induction cs arbitrary: ns)
  case Nil
  then show ?case by (simp add: only_changes_def)
next
  case (Cons bc cs)
  obtain b c where bc: "bc = (b, c)" by fastforce
  let ?ns1 = "link_child cur (b, c) ns"
  have cur: "cur < length ns" using Cons.prems(1) by (simp add: shallow_settled_def)
  have t: "trie ns P" using Cons.prems(1) by (simp add: shallow_settled_def)
  note l = link_child_settles [OF Cons.prems(1), of b c]
  have l: "only_changes {c} ns ?ns1" "settled ps P ?ns1 c" "shallow_settled ps P ?ns1 cur"
    using l Cons.prems(3) [of b c] bc by auto
  have nc: "c \<notin> snd ` set cs" using Cons.prems(2) bc by auto
  have rest: "next_of ?ns1 cur b' = Some c' \<and> set (ac_out (?ns1 ! c')) = own ps (P c')" if "(b', c') \<in> set cs" for b' c'
  proof -
    have p: "next_of ns cur b' = Some c'" "set (ac_out (ns ! c')) = own ps (P c')" using Cons.prems(3) that by auto
    then have "c' < length ns" using trie_next [OF t cur] by auto
    moreover have "c' \<noteq> c" using nc that by force
    ultimately show ?thesis using p l(1) only_changes_next [OF l(1) cur] by (simp add: only_changes_def)
  qed
  note ih = Cons.IH [OF l(3) _ rest]
  have ih: "only_changes (snd ` set cs) ?ns1 (fold (link_child cur) cs ?ns1)"
    "\<forall>c\<in>snd ` set cs. settled ps P (fold (link_child cur) cs ?ns1) c"
    using ih Cons.prems(2) by auto
  have "c < length ?ns1" using Cons.prems(3) [of b c] bc trie_next [OF t cur] l(1) by (auto simp: only_changes_def)
  then have "settled ps P (fold (link_child cur) cs ?ns1) c"
    using only_changes_settled [OF ih(1) _ nc] l(2) by simp
  moreover have "only_changes (snd ` set (bc # cs)) ns (fold (link_child cur) (bc # cs) ns)"
    using only_changes_trans [OF l(1) ih(1)] by (simp add: bc)
  ultimately show ?case using ih(2) by (simp add: bc)
qed

definition bfs_inv :: "string list \<Rightarrow> (nat \<Rightarrow> string) \<Rightarrow> acNode list \<Rightarrow> nat list \<Rightarrow> nat list \<Rightarrow> bool" where
  \<comment> \<open>\<open>done\<close>: the nodes that have left the queue\<close>
  "bfs_inv ps P ns don queue \<longleftrightarrow>
     trie ns P \<and> (\<forall>p\<in>set ps. p \<noteq> [] \<longrightarrow> p \<in> strings_of ns P) \<and>
     distinct (don @ queue) \<and> set (don @ queue) \<subseteq> {1..<length ns} \<and>
     (\<forall>n < length ns. n \<noteq> 0 \<longrightarrow>
        (n \<in> set (don @ queue) \<longleftrightarrow> (\<exists>k b. (k = 0 \<or> k \<in> set don) \<and> next_of ns k b = Some n))) \<and>
     sorted (map (\<lambda>n. length (P n)) (don @ queue)) \<and>
     (\<forall>n < length ns. if n = 0 \<or> n \<in> set (don @ queue) then settled ps P ns n else set (ac_out (ns ! n)) = own ps (P n))"

lemma bfs_inv_parent:
  assumes "trie ns P" and "n < length ns" and "n \<noteq> 0"
  shows "\<exists>k b. k < length ns \<and> next_of ns k b = Some n \<and> P n = P k @ [b]"
proof -
  obtain k b where "k < length ns" "P n = P k @ [b]" using assms unfolding trie_def by blast
  with trie_next [OF assms(1), of k b n] assms(2) show ?thesis by blast
qed

lemma bfs_inv_level:
  assumes i: "bfs_inv ps P ns don (cur # queue)"
  shows "n < length ns \<Longrightarrow> n \<noteq> 0 \<Longrightarrow> length (P n) \<le> length (P cur) \<Longrightarrow> n \<in> set (don @ cur # queue)"
proof (induction "length (P n)" arbitrary: n rule: less_induct)
  case less
  have t: "trie ns P" using i by (simp add: bfs_inv_def)
  obtain k b where k: "k < length ns" "next_of ns k b = Some n" "P n = P k @ [b]"
    using bfs_inv_parent [OF t less.prems(1,2)] by blast
  have "k = 0 \<or> k \<in> set don"
  proof (rule ccontr)
    assume nk: "\<not> (k = 0 \<or> k \<in> set don)"
    have "k \<in> set (don @ cur # queue)" using less.hyps [of k] k nk less.prems(3) by auto
    with nk have "k \<in> set (cur # queue)" by auto
    moreover have "sorted (map (\<lambda>n. length (P n)) (cur # queue))" using i by (auto simp: bfs_inv_def sorted_append)
    ultimately have "length (P cur) \<le> length (P k)" by auto
    with k(3) less.prems(3) show False by simp
  qed
  with k(2) less.prems i show ?case unfolding bfs_inv_def by blast
qed

lemma bfs_inv_step:
  assumes i: "bfs_inv ps P ns don (cur # queue)" and ord: "mset (order cur (ac_next (ns ! cur))) = mset (ac_next (ns ! cur))"
  shows "bfs_inv ps P (fold (link_child cur) (order cur (ac_next (ns ! cur))) ns) (don @ [cur])
           (queue @ map snd (order cur (ac_next (ns ! cur))))"
proof -
  let ?cs = "order cur (ac_next (ns ! cur))" and ?ns = "fold (link_child cur) (order cur (ac_next (ns ! cur))) ns"
  have t: "trie ns P" and pats: "\<forall>p\<in>set ps. p \<noteq> [] \<longrightarrow> p \<in> strings_of ns P"
    and dist: "distinct (don @ cur # queue)" and sub: "set (don @ cur # queue) \<subseteq> {1..<length ns}"
    and srt: "sorted (map (\<lambda>n. length (P n)) (don @ cur # queue))"
    using i by (simp_all add: bfs_inv_def)
  have enq: "n \<in> set (don @ cur # queue) \<longleftrightarrow> (\<exists>k b. (k = 0 \<or> k \<in> set don) \<and> next_of ns k b = Some n)"
    if "n < length ns" "n \<noteq> 0" for n using i that unfolding bfs_inv_def by blast
  have st: "if n = 0 \<or> n \<in> set (don @ cur # queue) then settled ps P ns n else set (ac_out (ns ! n)) = own ps (P n)"
    if "n < length ns" for n using i that unfolding bfs_inv_def by blast
  have cur: "cur < length ns" "cur \<noteq> 0" using sub by auto
  have keys: "set ?cs = set (ac_next (ns ! cur))" using ord mset_eq_setD by blast
  have dk: "distinct (map fst (ac_next (ns ! cur)))" using t cur(1) by (simp add: trie_def)
  have child: "(b, c) \<in> set ?cs \<longleftrightarrow> next_of ns cur b = Some c" for b c
    using keys dk by (simp add: next_of_def)
  have cP: "c < length ns \<and> P c = P cur @ [b]" if "next_of ns cur b = Some c" for b c
    using that trie_next [OF t cur(1)] by auto
  have fr: "c \<notin> set (don @ cur # queue) \<and> c \<noteq> 0" if cc: "next_of ns cur b = Some c" for b c
  proof -
    have c0: "c \<noteq> 0" using cP [OF cc] trie_root [OF t, of c] by (metis snoc_eq_iff_butlast)
    have "c \<notin> set (don @ cur # queue)"
    proof
      assume "c \<in> set (don @ cur # queue)"
      then obtain k b' where k: "k = 0 \<or> k \<in> set don" "next_of ns k b' = Some c"
        using enq cP [OF cc] c0 by blast
      have kl: "k < length ns" using k(1) sub cur by auto
      have "P c = P k @ [b']" using k(2) trie_next [OF t kl] by auto
      then have "k = cur" using cP [OF cc] trie_inj [OF t kl cur(1)] by simp
      with k(1) dist cur show False by auto
    qed
    with c0 show ?thesis by simp
  qed
  have shallow: "shallow_settled ps P ns cur"
  proof -
    have "settled ps P ns n" if "n < length ns" "length (P n) \<le> length (P cur)" for n
      using st [OF that(1)] bfs_inv_level [OF i that(1) _ that(2)] by (cases "n = 0") auto
    with t pats cur show ?thesis by (simp add: shallow_settled_def)
  qed
  have dcs: "distinct (map snd ?cs)"
  proof -
    have "distinct ?cs" using dk ord by (metis distinct_map mset_eq_imp_distinct_iff)
    moreover have "inj_on snd (set ?cs)"
    proof (rule inj_onI)
      fix x y assume xy: "x \<in> set ?cs" "y \<in> set ?cs" "snd x = snd y"
      obtain b c b' where "x = (b, c)" "y = (b', c)" using xy(3) by (metis prod.collapse)
      with xy child cP have "P cur @ [b] = P cur @ [b']" by metis
      with \<open>x = (b, c)\<close> \<open>y = (b', c)\<close> show "x = y" by simp
    qed
    ultimately show ?thesis by (simp add: distinct_map)
  qed
  have own_c: "set (ac_out (ns ! c)) = own ps (P c)" if "next_of ns cur b = Some c" for b c
    using st [of c] cP [OF that] fr [OF that] by auto
  note l = link_children_settle [OF shallow dcs]
  have ch: "only_changes (snd ` set ?cs) ns ?ns" and sc: "\<forall>c\<in>snd ` set ?cs. settled ps P ?ns c"
    using l own_c child by blast+
  have len: "length ?ns = length ns" using ch by (simp add: only_changes_def)
  have mem: "c \<in> snd ` set ?cs \<longleftrightarrow> (\<exists>b. next_of ns cur b = Some c)" for c
    using child by (metis (no_types, lifting) imageE image_eqI prod.collapse snd_conv)
  have "distinct ((don @ [cur]) @ queue @ map snd ?cs)"
  proof -
    have "snd ` set ?cs \<inter> set (don @ cur # queue) = {}" using fr mem by blast
    then have "set (map snd ?cs) \<inter> set (don @ cur # queue) = {}" by (simp only: set_map)
    with dist dcs show ?thesis unfolding distinct_append set_append by (simp only: distinct.simps list.set) blast
  qed
  moreover have "set ((don @ [cur]) @ queue @ map snd ?cs) \<subseteq> {1..<length ?ns}"
  proof -
    have "c \<in> {1..<length ns}" if "c \<in> snd ` set ?cs" for c
      using that fr cP mem by (metis atLeastLessThan_iff less_one not_less)
    then have "set (map snd ?cs) \<subseteq> {1..<length ns}" by (simp only: set_map subsetI)
    with sub show ?thesis unfolding len set_append by (simp only: list.set) blast
  qed
  moreover have "n \<in> set ((don @ [cur]) @ queue @ map snd ?cs) \<longleftrightarrow>
      (\<exists>k b. (k = 0 \<or> k \<in> set (don @ [cur])) \<and> next_of ?ns k b = Some n)" if n: "n < length ?ns" "n \<noteq> 0" for n
  proof -
    have nx: "next_of ?ns k b = next_of ns k b" if "k = 0 \<or> k \<in> set (don @ [cur])" for k b
      using that sub cur by (intro only_changes_next [OF ch]) auto
    have "n \<in> set ((don @ [cur]) @ queue @ map snd ?cs) \<longleftrightarrow> n \<in> set (don @ cur # queue) \<or> n \<in> snd ` set ?cs" by auto
    also have "\<dots> \<longleftrightarrow> (\<exists>k b. (k = 0 \<or> k \<in> set don) \<and> next_of ns k b = Some n) \<or> (\<exists>b. next_of ns cur b = Some n)"
      using enq [of n] n unfolding len mem by simp
    also have "\<dots> \<longleftrightarrow> (\<exists>k b. (k = 0 \<or> k \<in> set (don @ [cur])) \<and> next_of ns k b = Some n)"
      unfolding set_append list.set by blast
    finally show ?thesis by (simp only: nx cong: conj_cong)
  qed
  moreover have "sorted (map (\<lambda>n. length (P n)) ((don @ [cur]) @ queue @ map snd ?cs))"
  proof -
    have ql: "length (P x) \<le> Suc (length (P cur))" if x: "x \<in> set (don @ cur # queue)" for x
    proof -
      have "x < length ns" "x \<noteq> 0" using x sub by auto
      then obtain k b where k: "k = 0 \<or> k \<in> set don" "next_of ns k b = Some x" using x enq by blast
      then have kl: "k < length ns" using sub cur by auto
      have "P x = P k @ [b]" using k(2) trie_next [OF t kl] by auto
      moreover have "length (P k) \<le> length (P cur)" using k(1) srt t by (auto simp: sorted_append trie_def)
      ultimately show ?thesis by simp
    qed
    have "length (P x) = Suc (length (P cur))" if "x \<in> set (map snd ?cs)" for x
      using that cP unfolding set_map mem by (metis length_append_singleton)
    then have "sorted (map (\<lambda>n. length (P n)) ((don @ cur # queue) @ map snd ?cs))"
      using ql by (intro sorted_blocks [OF srt]) blast+
    then show ?thesis by (simp only: append_assoc append_Cons append_Nil)
  qed
  moreover have "if n = 0 \<or> n \<in> set ((don @ [cur]) @ queue @ map snd ?cs) then settled ps P ?ns n
      else set (ac_out (?ns ! n)) = own ps (P n)" if n: "n < length ?ns" for n
  proof (cases "n \<in> snd ` set ?cs")
    case True
    with sc show ?thesis unfolding set_append set_map by auto
  next
    case False
    have nl: "n < length ns" using n len by simp
    have same: "?ns ! n = ns ! n" using ch nl False by (simp add: only_changes_def)
    have "n \<in> set ((don @ [cur]) @ queue @ map snd ?cs) \<longleftrightarrow> n \<in> set (don @ cur # queue)"
      using False unfolding set_append set_map list.set by blast
    then show ?thesis unfolding same using st [OF nl] only_changes_settled [OF ch nl False, of ps P] by simp
  qed
  ultimately show ?thesis
    using only_changes_trie [OF ch t] pats unfolding bfs_inv_def strings_of_def len by simp
qed

lemma bfs_settles:
  assumes ord: "\<And>n xs. mset (order n xs) = mset xs"
  shows "bfs_inv ps P ns don queue \<Longrightarrow> length ns \<le> k + length don + 1 \<Longrightarrow>
    \<exists>don'. bfs_inv ps P (bfs order k queue ns) don' [] \<and> length (bfs order k queue ns) = length ns"
proof (induction k arbitrary: queue ns don)
  case 0
  have "card (set (don @ queue)) \<le> card {1..<length ns}" using 0(1) by (intro card_mono) (auto simp: bfs_inv_def)
  moreover have "card (set (don @ queue)) = length (don @ queue)"
    using 0(1) by (intro distinct_card) (simp only: bfs_inv_def)
  ultimately have "queue = []" using 0(2) by (cases queue) auto
  with 0(1) show ?case by auto
next
  case (Suc k)
  show ?case
  proof (cases queue)
    case Nil
    with Suc.prems show ?thesis by auto
  next
    case (Cons cur queue')
    let ?cs = "order cur (ac_next (ns ! cur))" and ?ns = "fold (link_child cur) (order cur (ac_next (ns ! cur))) ns"
    have s: "bfs_inv ps P ?ns (don @ [cur]) (queue' @ map snd ?cs)"
      using bfs_inv_step [OF Suc.prems(1) [unfolded Cons]] ord by blast
    have len: "length ?ns = length ns" by (rule fold_frame) (simp add: link_child_def Let_def split: prod.split)
    from Suc.IH [OF s] Suc.prems(2) len show ?thesis by (simp add: Cons Let_def)
  qed
qed

lemma root_children_id:
  assumes "\<And>c. c \<in> snd ` set cs \<Longrightarrow> ac_fail (ns ! c) = 0"
  shows "fold (\<lambda>(b, c) ns. ns[c := (ns ! c)\<lparr>ac_fail := 0\<rparr>]) cs ns = ns"
  using assms
proof (induction cs)
  case (Cons bc cs)
  then have "ns[snd bc := (ns ! snd bc)\<lparr>ac_fail := 0\<rparr>] = ns"
    by (metis (no_types, lifting) acNode.surjective acNode.update_convs(2) image_eqI list.set_intros(1) list_update_id)
  with Cons show ?case by (simp add: case_prod_beta)
qed simp

lemma insert_bytes_fail:
  "insert_bytes ns cur p = (ns', m) \<Longrightarrow> cur < length ns \<Longrightarrow> (\<And>n. n < length ns \<Longrightarrow> ac_fail (ns ! n) = 0) \<Longrightarrow>
     trie ns P \<Longrightarrow> n < length ns' \<Longrightarrow> ac_fail (ns' ! n) = 0"
proof (induction ns cur p arbitrary: P rule: insert_bytes.induct)
  case (2 ns cur b bs)
  show ?case
  proof (cases "next_of ns cur b")
    case (Some k)
    then have "k < length ns" using trie_next [OF 2(6,4)] by auto
    with 2(2) [OF Some _ this 2(5,6,7)] 2(3) Some show ?thesis by simp
  next
    case None
    note fr = fresh_node_trie [OF 2(6,4) None]
    have ib: "insert_bytes (fresh_node ns cur b) (length ns) bs = (ns', m)"
      using 2(3) None by (simp add: Let_def fresh_node_def)
    have "ac_fail (fresh_node ns cur b ! k) = 0" if "k < length (fresh_node ns cur b)" for k
      using that 2(4,5) by (auto simp: fresh_node_def nth_list_update nth_append new_node_def less_Suc_eq)
    moreover have "length ns < length (fresh_node ns cur b)" by (simp add: fresh_node_def)
    ultimately show ?thesis
      using 2(1) [OF None refl refl, folded fresh_node_def, OF ib _ _ fr 2(7)] by blast
  qed
qed simp

lemma build_trie_fail: "n < length (build_trie ps) \<Longrightarrow> ac_fail (build_trie ps ! n) = 0"
proof (induction ps arbitrary: n rule: rev_induct)
  case Nil
  then show ?case by (simp add: build_trie_def new_node_def)
next
  case (snoc p ps)
  have step: "build_trie (ps @ [p]) = insert_pattern (length ps, p) (build_trie ps)"
    by (simp add: build_trie_def enumerate_append_eq)
  obtain P where "patterns_in ps (build_trie ps) P" using build_trie_in by blast
  then have t: "trie (build_trie ps) P" by (simp add: patterns_in_def)
  then have l: "0 < length (build_trie ps)" by (simp add: trie_def)
  obtain ns1 cur where ib: "insert_bytes (build_trie ps) 0 p = (ns1, cur)" by fastforce
  show ?case
    using snoc insert_bytes_fail [OF ib l snoc.IH t] ib
    by (cases "n = cur") (auto simp: step insert_pattern_def split: if_splits)
qed

definition complete :: "string list \<Rightarrow> acNode list \<Rightarrow> (nat \<Rightarrow> string) \<Rightarrow> bool" where
  "complete ps ns P \<longleftrightarrow>
     trie ns P \<and> (\<forall>p\<in>set ps. p \<noteq> [] \<longrightarrow> p \<in> strings_of ns P) \<and> (\<forall>n < length ns. settled ps P ns n)"

lemma bfs_inv_complete:
  assumes i: "bfs_inv ps P ns don []"
  shows "complete ps ns P"
proof -
  have t: "trie ns P" using i by (simp add: bfs_inv_def)
  have "n < length ns \<Longrightarrow> n \<noteq> 0 \<Longrightarrow> n \<in> set don" for n
  proof (induction "length (P n)" arbitrary: n rule: less_induct)
    case less
    obtain k b where k: "k < length ns" "next_of ns k b = Some n" "P n = P k @ [b]"
      using bfs_inv_parent [OF t less.prems] by blast
    have "k = 0 \<or> k \<in> set don" using less.hyps [of k] k by auto
    with k(2) less.prems i show ?case unfolding bfs_inv_def by auto
  qed
  then have "settled ps P ns n" if "n < length ns" for n
    using i that unfolding bfs_inv_def by (cases "n = 0") auto
  with i show ?thesis unfolding complete_def bfs_inv_def by blast
qed

lemma newMatcher_complete:
  assumes ord: "\<And>n xs. mset (order n xs) = mset xs"
  shows "\<exists>P. complete ps (newMatcher order ps) P"
proof -
  let ?ns = "build_trie ps"
  let ?cs = "order 0 (ac_next (?ns ! 0))"
  obtain P where "patterns_in ps ?ns P" using build_trie_in by blast
  then have t: "trie ?ns P" and own: "\<And>n. n < length ?ns \<Longrightarrow> set (ac_out (?ns ! n)) = own ps (P n)"
    and pats: "\<forall>p\<in>set ps. p \<noteq> [] \<longrightarrow> p \<in> strings_of ?ns P"
    by (auto simp: patterns_in_def own_def)
  have l: "0 < length ?ns" and P0: "P 0 = []" using t by (auto simp: trie_def)
  have dk: "distinct (map fst (ac_next (?ns ! 0)))" using t l by (simp add: trie_def)
  have child: "(b, c) \<in> set ?cs \<longleftrightarrow> next_of ?ns 0 b = Some c" for b c
    using mset_eq_setD [OF ord] dk by (simp add: next_of_def)
  have cP: "c < length ?ns \<and> P c = [b]" if "(b, c) \<in> set ?cs" for b c
    using that child trie_next [OF t l] P0 by auto
  have c0: "c \<noteq> 0" if "(b, c) \<in> set ?cs" for b c
    using cP [OF that] trie_root [OF t, of c] by (metis list.distinct(1))
  have "root_children order ?ns = ?ns"
    unfolding root_children_def using cP by (intro root_children_id build_trie_fail) auto
  moreover have "bfs_inv ps P ?ns [] (map snd ?cs)"
  proof -
    have "distinct ?cs" using dk ord by (metis distinct_map mset_eq_imp_distinct_iff)
    moreover have "inj_on snd (set ?cs)"
    proof (rule inj_onI)
      fix x y assume xy: "x \<in> set ?cs" "y \<in> set ?cs" "snd x = snd y"
      obtain b c b' where e: "x = (b, c)" "y = (b', c)" using xy(3) by (metis prod.collapse)
      with xy cP have "[b] = [b']" by metis
      with e show "x = y" by simp
    qed
    ultimately have "distinct (map snd ?cs)" by (simp add: distinct_map)
    moreover have "set (map snd ?cs) \<subseteq> {1..<length ?ns}" using cP c0 by (auto simp: Suc_le_eq)
    moreover have "n \<in> set (map snd ?cs) \<longleftrightarrow> (\<exists>b. next_of ?ns 0 b = Some n)" for n
      unfolding set_map using child by (metis (no_types, lifting) imageE image_eqI prod.collapse snd_conv)
    moreover have "sorted (map (\<lambda>n. length (P n)) (map snd ?cs))"
      using cP by (intro sorted_same [of _ _ 1]) auto
    moreover have "settled ps P ?ns n" if n: "n = 0 \<or> n \<in> set (map snd ?cs)" for n
    proof (cases "n = 0")
      case True
      with own l P0 show ?thesis by (auto simp: settled_def own_def outs_def)
    next
      case False
      then obtain b where b: "(b, n) \<in> set ?cs" using n by auto
      have "outs ps [b] = own ps [b]" by (auto simp: outs_def own_def suffix_Cons)
      with cP [OF b] own build_trie_fail l P0 show ?thesis by (auto simp: settled_def linked_def)
    qed
    ultimately show ?thesis using t pats own by (simp add: bfs_inv_def)
  qed
  ultimately obtain don where "bfs_inv ps P (newMatcher order ps) don []"
    using bfs_settles [of order, OF ord, of ps P ?ns "[]" "map snd ?cs" "length ?ns"] by (auto simp: newMatcher_def Let_def)
  then show ?thesis using bfs_inv_complete by blast
qed

section \<open>Matching\<close>

lemma outs_lsuf:
  "complete ps ns P \<Longrightarrow> outs ps (lsuf (strings_of ns P) w) = outs ps w"
  using lsuf_longest [of _ w "strings_of ns P"] lsuf_suffix [of "strings_of ns P" w] suffix_order.trans
  by (fastforce simp: outs_def complete_def)

lemma add_new:
  "set (fold (\<lambda>p found. if p \<in> set found then found else found @ [p]) ps found) = set found \<union> set ps"
  "distinct found \<Longrightarrow> distinct (fold (\<lambda>p found. if p \<in> set found then found else found @ [p]) ps found)"
  by (induction ps arbitrary: found) auto

lemma match_loop_found:
  assumes c: "complete ps ns P"
  shows "cur < length ns \<Longrightarrow> P cur = lsuf (strings_of ns P) seen \<Longrightarrow> distinct found \<Longrightarrow>
    set found = (\<Union>v\<in>{v. prefix v seen}. outs ps v) \<Longrightarrow>
    distinct (match_loop ns cur w found) \<and>
    set (match_loop ns cur w found) = (\<Union>v\<in>{v. prefix v (seen @ w)}. outs ps v)"
proof (induction w arbitrary: cur seen found)
  case (Cons b w)
  have t: "trie ns P" using c by (simp add: complete_def)
  let ?N = "strings_of ns P" and ?n = "goto_walk ns b (length ns) cur"
  have "linked ns P n" if "n < length ns" "n \<noteq> 0" for n using c that by (simp add: complete_def settled_def)
  then have n: "?n < length ns" "P ?n = lsuf ?N (P cur @ [b])"
    using goto_walk_correct [OF t Cons.prems(1) trie_depth [OF t Cons.prems(1)]] by auto
  have Pn: "P ?n = lsuf ?N (seen @ [b])"
    using n(2) lsuf_snoc [OF trie_prefix_closed [OF t]] Cons.prems(2) by simp
  have out: "set (ac_out (ns ! ?n)) = outs ps (seen @ [b])"
    using c n(1) outs_lsuf [OF c, of "seen @ [b]"] Pn by (simp add: complete_def settled_def)
  have "{v. prefix v (seen @ [b])} = insert (seen @ [b]) {v. prefix v seen}" by auto
  then have "set found \<union> set (ac_out (ns ! ?n)) = (\<Union>v\<in>{v. prefix v (seen @ [b])}. outs ps v)"
    using out Cons.prems(4) by auto
  with Cons.IH [OF n(1) Pn] Cons.prems(3) show ?case by (simp add: Let_def add_new)
qed simp

lemma sublist_ends: "sublist p w \<longleftrightarrow> (\<exists>v. prefix v w \<and> suffix p v)"
  by (auto simp: sublist_def prefix_def suffix_def) (metis append_assoc)+

lemma Match_finds:
  assumes "\<And>n xs. mset (order n xs) = mset xs"
  shows "distinct (Match (newMatcher order ps) text) \<and>
    set (Match (newMatcher order ps) text) = {i. i < length ps \<and> ps ! i \<noteq> '''' \<and> contains_str text (ps ! i)}"
proof -
  let ?ns = "newMatcher order ps"
  obtain P where c: "complete ps ?ns P" using newMatcher_complete [of order ps, OF assms] by blast
  have t: "trie ?ns P" using c by (simp add: complete_def)
  have spec: "(\<Union>v\<in>{v. prefix v text}. outs ps v) = {i. i < length ps \<and> ps ! i \<noteq> '''' \<and> contains_str text (ps ! i)}"
    by (auto simp: outs_def contains_str_iff sublist_ends)
  have l: "0 < length ?ns" "P 0 = []" using t by (auto simp: trie_def)
  have "outs ps [] = {}" by (auto simp: outs_def)
  then have loop: "distinct (match_loop ?ns 0 text []) \<and>
      set (match_loop ?ns 0 text []) = (\<Union>v\<in>{v. prefix v ([] @ text)}. outs ps v)"
    by (intro match_loop_found [OF c l(1)]) (use l in auto)
  show ?thesis
  proof (cases "length ?ns \<le> 1")
    case True
    with l have one: "strings_of ?ns P = {[]}" by (auto simp: strings_of_def le_Suc_eq less_Suc_eq lessThan_Suc)
    have "ps ! i = ''''" if "i < length ps" for i
      using c that one unfolding complete_def by (metis nth_mem singletonD)
    with True show ?thesis by (auto simp: Match_def)
  next
    case False
    with loop spec show ?thesis by (simp add: Match_def)
  qed
qed

text \<open>Property C16: whatever order Go's maps are iterated in, one pass of the automaton over a text
  reports exactly the patterns that occur in it, each once: the single-pass search is equivalent
  to searching for every (non-empty) pattern by itself.\<close>

theorem Match_finds_all:
  assumes "\<And>n xs. mset (order n xs) = mset xs"
  shows "distinct (Match (newMatcher order ps) text) \<and>
    set (Match (newMatcher order ps) text) = {i. i < length ps \<and> ps ! i \<noteq> '''' \<and> contains_str text (ps ! i)}"
  by (rule Match_finds [OF assms])

lemma Match_finds_all_witness:
  "set (Match (newMatcher (\<lambda>n xs. rev xs) [''he'', ''she'', '''', ''hers'', ''his'']) ''ushers'') = {0, 1, 3}"
proof -
  have "{i. i < length [''he'', ''she'', '''', ''hers'', ''his''] \<and> [''he'', ''she'', '''', ''hers'', ''his''] ! i \<noteq> '''' \<and>
      contains_str ''ushers'' ([''he'', ''she'', '''', ''hers'', ''his''] ! i)} = {0, 1, 3}"
    by (auto simp: less_Suc_eq has_prefix_def numeral_nat)
  then show ?thesis using Match_finds_all [of "\<lambda>n xs. rev xs" "[''he'', ''she'', '''', ''hers'', ''his'']" "''ushers''"] by simp
qed

end
