(* ===== verification/Compliance.thy ===== *)
theory Compliance
  imports Aho_Corasick Gateway_Errors Complex_Main
begin

text \<open>
  \<open>internal/compliance/compliance.go\<close>: the rule index, its reload, the check of a text and the
  building of sample vectors. Lower-casing, the embedding service, the dot product and the
  rounding of scores (floating point, here rational numbers), the identity of the embedding
  model and Go's map order are arguments; a database query that fails is \<open>None\<close>.
\<close>

section \<open>Rows and the index\<close>

record policy_row =
  pg_id :: nat
  pg_name :: string
  pg_action :: string
  pg_risk :: string
  pg_enabled :: bool

record word_row =
  sw_id :: nat
  sw_word :: string
  sw_group :: nat
  sw_enabled :: bool

type_synonym vec = "rat list"

record sample_row =
  as_id :: nat
  as_text :: string
  as_hash :: string
  as_group :: nat
  as_enabled :: bool
  as_vector :: vec
  as_model :: string
  as_token :: string

record policy =
  po_id :: nat
  po_name :: string
  po_action :: string
  po_risk :: string

record wordEntry =
  we_id :: nat
  we_word :: string
  we_policy :: policy

record sampleEntry =
  se_id :: nat
  se_text :: string
  se_vec :: vec
  se_policy :: policy

record index =
  ix_ac :: "acNode list option"
  ix_words :: "wordEntry list"
  ix_samples :: "sampleEntry list"
  ix_stale :: nat

definition empty_index :: index where
  "empty_index = \<lparr>ix_ac = None, ix_words = [], ix_samples = [], ix_stale = 0\<rparr>"

record engine =
  eg_idx :: index
  eg_loaded :: bool
  eg_err :: "string option"

definition unloaded :: engine where
  \<comment> \<open>\<open>New\<close> before its first reload\<close>
  "unloaded = \<lparr>eg_idx = empty_index, eg_loaded = False, eg_err = None\<rparr>"

definition Loaded :: "engine \<Rightarrow> bool \<times> string" where
  "Loaded e =
     (case eg_err e of
        Some m \<Rightarrow> if \<not> eg_loaded e then (False, m) else (eg_loaded e, '''')
      | None \<Rightarrow> (eg_loaded e, ''''))"

section \<open>Reload\<close>

type_synonym 'a query = "string + 'a list"

definition policy_of :: "policy_row \<Rightarrow> policy" where
  "policy_of g = \<lparr>po_id = pg_id g, po_name = pg_name g, po_action = pg_action g, po_risk = pg_risk g\<rparr>"

definition no_policy :: policy where
  "no_policy = \<lparr>po_id = 0, po_name = '''', po_action = '''', po_risk = ''''\<rparr>"

definition pol_lookup :: "policy_row list \<Rightarrow> nat \<Rightarrow> policy" where
  \<comment> \<open>\<open>pol[id]\<close>; a missing key is the zero value\<close>
  "pol_lookup gs i = (case map_of (rev (map (\<lambda>g. (pg_id g, policy_of g)) gs)) i of Some p \<Rightarrow> p | None \<Rightarrow> no_policy)"

definition word_pattern :: "(string \<Rightarrow> string) \<Rightarrow> word_row \<Rightarrow> string" where
  "word_pattern lower w = lower (trim_space (sw_word w))"

definition kept_words :: "(string \<Rightarrow> string) \<Rightarrow> word_row list \<Rightarrow> word_row list" where
  "kept_words lower ws = filter (\<lambda>w. word_pattern lower w \<noteq> '''') ws"

definition word_entry :: "policy_row list \<Rightarrow> word_row \<Rightarrow> wordEntry" where
  "word_entry gs w = \<lparr>we_id = sw_id w, we_word = sw_word w, we_policy = pol_lookup gs (sw_group w)\<rparr>"

definition foreign :: "string \<Rightarrow> sample_row \<Rightarrow> bool" where
  "foreign cur s \<longleftrightarrow> as_model s \<noteq> '''' \<and> cur \<noteq> '''' \<and> as_model s \<noteq> cur"

definition sample_entry :: "policy_row list \<Rightarrow> sample_row \<Rightarrow> sampleEntry" where
  "sample_entry gs s = \<lparr>se_id = as_id s, se_text = as_text s, se_vec = as_vector s, se_policy = pol_lookup gs (as_group s)\<rparr>"

definition load_index :: "(string \<Rightarrow> string) \<Rightarrow> map_order \<Rightarrow> string \<Rightarrow> policy_row list \<Rightarrow> word_row list \<Rightarrow> sample_row list \<Rightarrow> index" where
  "load_index lower order cur gs ws ss =
     (let kept = kept_words lower ws; vs = filter (\<lambda>s. as_vector s \<noteq> []) ss
      in \<lparr>ix_ac = Some (newMatcher order (map (word_pattern lower) kept)),
          ix_words = map (word_entry gs) kept,
          ix_samples = map (sample_entry gs) (filter (\<lambda>s. \<not> foreign cur s) vs),
          ix_stale = length (filter (foreign cur) vs)\<rparr>)"

record tables =
  tb_groups :: "policy_row query"
  tb_words :: "word_row query"
  tb_samples :: "sample_row query"

definition reload :: "(string \<Rightarrow> string) \<Rightarrow> map_order \<Rightarrow> string \<Rightarrow> tables \<Rightarrow> string + index" where
  \<comment> \<open>the queries select and order by id\<close>
  "reload lower order cur t =
     (case tb_groups t of
        Inl e \<Rightarrow> Inl e
      | Inr gs0 \<Rightarrow>
          let gs = filter pg_enabled gs0; ids = map pg_id gs
          in if ids = [] then Inr empty_index
             else case tb_words t of
                    Inl e \<Rightarrow> Inl e
                  | Inr ws0 \<Rightarrow>
                      (case tb_samples t of
                         Inl e \<Rightarrow> Inl e
                       | Inr ss0 \<Rightarrow>
                           Inr (load_index lower order cur gs
                                  (sort_key sw_id (filter (\<lambda>w. sw_enabled w \<and> sw_group w \<in> set ids) ws0))
                                  (sort_key as_id (filter (\<lambda>s. as_enabled s \<and> as_group s \<in> set ids \<and> as_vector s \<noteq> []) ss0)))))"

definition Reload :: "(string \<Rightarrow> string) \<Rightarrow> map_order \<Rightarrow> string \<Rightarrow> tables \<Rightarrow> engine \<Rightarrow> engine \<times> string option" where
  "Reload lower order cur t e =
     (case reload lower order cur t of
        Inl msg \<Rightarrow> (e\<lparr>eg_err := Some msg\<rparr>, Some msg)
      | Inr ix \<Rightarrow> (e\<lparr>eg_idx := ix, eg_loaded := True, eg_err := None\<rparr>, None))"

section \<open>Verdicts\<close>

record HitEntry =
  h_method :: string
  h_group :: string
  h_group_id :: nat
  h_evidence :: string
  h_score :: rat
  h_action :: string
  h_risk :: string

record Verdict =
  v_hit :: bool
  v_block :: bool
  v_action :: string
  v_risk :: string
  v_method :: string
  v_group :: string
  v_group_id :: nat
  v_evidence :: string
  v_score :: rat
  v_hits :: "HitEntry list"
  v_degraded :: bool
  v_reason :: string

definition zero_verdict :: Verdict where
  "zero_verdict = \<lparr>v_hit = False, v_block = False, v_action = '''', v_risk = '''', v_method = '''', v_group = '''',
     v_group_id = 0, v_evidence = '''', v_score = 0, v_hits = [], v_degraded = False, v_reason = ''''\<rparr>"

definition riskRank :: "(string \<Rightarrow> string) \<Rightarrow> string \<Rightarrow> nat" where
  "riskRank lower r =
     (if lower r = ''high'' then 3 else if lower r = ''medium'' then 2 else if lower r = ''low'' then 1 else 0)"

definition blocking :: "HitEntry \<Rightarrow> bool" where
  "blocking h \<longleftrightarrow> h_action h = ''block''"

definition hit_before :: "(string \<Rightarrow> string) \<Rightarrow> HitEntry \<Rightarrow> HitEntry \<Rightarrow> bool" where
  \<comment> \<open>the comparison of the sort\<close>
  "hit_before lower a b =
     (if blocking a \<noteq> blocking b then blocking a
      else if riskRank lower (h_risk a) \<noteq> riskRank lower (h_risk b)
        then riskRank lower (h_risk a) > riskRank lower (h_risk b)
      else h_score a > h_score b)"

fun insert_stable :: "('a \<Rightarrow> 'a \<Rightarrow> bool) \<Rightarrow> 'a \<Rightarrow> 'a list \<Rightarrow> 'a list" where
  "insert_stable before x [] = [x]"
| "insert_stable before x (y # ys) = (if before y x then y # insert_stable before x ys else x # y # ys)"

definition sort_stable :: "('a \<Rightarrow> 'a \<Rightarrow> bool) \<Rightarrow> 'a list \<Rightarrow> 'a list" where
  \<comment> \<open>\<open>sort.SliceStable\<close>\<close>
  "sort_stable before xs = foldr (insert_stable before) xs []"

definition aggregate :: "(string \<Rightarrow> string) \<Rightarrow> HitEntry list \<Rightarrow> Verdict" where
  "aggregate lower hits =
     (case sort_stable (hit_before lower) hits of
        [] \<Rightarrow> zero_verdict
      | p # _ \<Rightarrow>
          \<lparr>v_hit = True, v_block = blocking p, v_action = h_action p, v_risk = h_risk p, v_method = h_method p,
           v_group = h_group p, v_group_id = h_group_id p, v_evidence = h_evidence p, v_score = h_score p,
           v_hits = hits, v_degraded = False, v_reason = ''''\<rparr>)"

definition degrade :: "string \<Rightarrow> Verdict \<Rightarrow> Verdict" where
  "degrade reason v = v\<lparr>v_degraded := True, v_reason := reason\<rparr>"

definition word_hit :: "wordEntry \<Rightarrow> HitEntry" where
  "word_hit w = \<lparr>h_method = ''keyword'', h_group = po_name (we_policy w), h_group_id = po_id (we_policy w),
     h_evidence = we_word w, h_score = 1, h_action = po_action (we_policy w), h_risk = po_risk (we_policy w)\<rparr>"

record embedding =
  \<comment> \<open>the service and the arithmetic\<close>
  em_embed :: "(string \<Rightarrow> string + vec list) option"
  em_dot :: "vec \<Rightarrow> vec \<Rightarrow> rat"
  em_round4 :: "rat \<Rightarrow> rat"
  em_runes :: "string \<Rightarrow> nat \<Rightarrow> string" \<comment> \<open>\<open>truncateRunes\<close>\<close>

definition sample_hit :: "embedding \<Rightarrow> rat \<Rightarrow> sampleEntry \<Rightarrow> HitEntry" where
  "sample_hit em sc s = \<lparr>h_method = ''semantic'', h_group = po_name (se_policy s), h_group_id = po_id (se_policy s),
     h_evidence = em_runes em (se_text s) 200, h_score = em_round4 em sc, h_action = po_action (se_policy s),
     h_risk = po_risk (se_policy s)\<rparr>"

definition keyword_hits :: "(string \<Rightarrow> string) \<Rightarrow> index \<Rightarrow> string \<Rightarrow> HitEntry list" where
  "keyword_hits lower ix text =
     (case ix_ac ix of
        None \<Rightarrow> []
      | Some ac \<Rightarrow> if ix_words ix = [] then [] else map (\<lambda>pi. word_hit (ix_words ix ! pi)) (Match ac (lower text)))"

definition comparable :: "vec \<Rightarrow> sampleEntry \<Rightarrow> bool" where
  "comparable q s \<longleftrightarrow> length (se_vec s) = length q"

definition semantic_hits :: "embedding \<Rightarrow> rat \<Rightarrow> vec \<Rightarrow> sampleEntry list \<Rightarrow> HitEntry list" where
  "semantic_hits em thr q ss =
     map (\<lambda>s. sample_hit em (em_dot em q (se_vec s)) s)
       (filter (\<lambda>s. comparable q s \<and> em_dot em q (se_vec s) \<ge> thr) ss)"

definition stale_reason :: "nat \<Rightarrow> string" where
  "stale_reason n = dec_nat n @ '' audit samples were built with a different embedding model; rebuild vectors''"

definition dimension_reason :: "nat \<Rightarrow> string" where
  "dimension_reason n = ''no audit sample matches the query vector dimension ('' @ dec_nat n @ ''); rebuild vectors''"

definition semantic_pass :: "(string \<Rightarrow> string) \<Rightarrow> embedding \<Rightarrow> rat \<Rightarrow> index \<Rightarrow> string \<Rightarrow> HitEntry list \<Rightarrow> Verdict" where
  "semantic_pass lower em threshold ix text hits =
     (if ix_samples ix = [] \<and> ix_stale ix > 0 then degrade (stale_reason (ix_stale ix)) (aggregate lower hits)
      else if ix_samples ix = [] then aggregate lower hits
      else case em_embed em of
             None \<Rightarrow> aggregate lower hits
           | Some emb \<Rightarrow>
               let thr = (if threshold \<le> 0 then 85 / 100 else threshold)
               in case emb text of
                    Inl err \<Rightarrow> degrade err (aggregate lower hits)
                  | Inr vecs \<Rightarrow>
                      if length vecs \<noteq> 1 \<or> hd vecs = [] then degrade ''embedding returned no vector'' (aggregate lower hits)
                      else let q = hd vecs; hits1 = hits @ semantic_hits em thr q (ix_samples ix)
                           in if filter (comparable q) (ix_samples ix) = []
                              then degrade (dimension_reason (length q)) (aggregate lower hits1)
                              else aggregate lower hits1)"

definition unavailable :: "string \<Rightarrow> Verdict" where
  "unavailable err = zero_verdict\<lparr>v_hit := True, v_block := True, v_action := ''block'', v_risk := ''high'',
     v_method := ''unavailable'', v_evidence := ''compliance rules not loaded'', v_degraded := True,
     v_reason := ''compliance rules not loaded: '' @ err\<rparr>"

definition check :: "(string \<Rightarrow> string) \<Rightarrow> embedding \<Rightarrow> rat \<Rightarrow> engine \<Rightarrow> string \<Rightarrow> Verdict" where
  "check lower em threshold e text =
     (case Loaded e of
        (False, err) \<Rightarrow> unavailable err
      | (True, _) \<Rightarrow>
          if trim_space text = '''' then zero_verdict
          else semantic_pass lower em threshold (eg_idx e) text (keyword_hits lower (eg_idx e) text))"

definition Check :: "(string \<Rightarrow> string) \<Rightarrow> embedding \<Rightarrow> bool \<Rightarrow> rat \<Rightarrow> engine \<Rightarrow> string \<Rightarrow> Verdict" where
  "Check lower em enabled threshold e text =
     (if \<not> enabled then zero_verdict else check lower em threshold e text)"

section \<open>What a verdict means\<close>

lemma insert_stable_set: "set (insert_stable before x ys) = insert x (set ys)"
  by (induction ys) auto

lemma sort_stable_set: "set (sort_stable before xs) = set xs"
  by (induction xs) (auto simp: sort_stable_def insert_stable_set)

lemma sort_stable_Nil [simp]: "sort_stable before xs = [] \<longleftrightarrow> xs = []"
  using sort_stable_set [of before xs] by (cases xs; cases "sort_stable before xs") auto

locale weak_order =
  fixes before :: "'a \<Rightarrow> 'a \<Rightarrow> bool"
  assumes asym: "before x y \<Longrightarrow> \<not> before y x"
    and neg_trans: "\<not> before x y \<Longrightarrow> \<not> before y z \<Longrightarrow> \<not> before x z"
begin

lemma insert_head:
  "(\<And>y. y \<in> set (tl ys) \<Longrightarrow> \<not> before y (hd ys)) \<Longrightarrow> z \<in> set (insert_stable before x ys) \<Longrightarrow>
     \<not> before z (hd (insert_stable before x ys))"
  by (cases ys) (auto simp: insert_stable_set, (metis asym neg_trans)+)

lemma sort_head: "z \<in> set (sort_stable before xs) \<Longrightarrow> \<not> before z (hd (sort_stable before xs))"
proof (induction xs arbitrary: z)
  case (Cons x xs)
  have "\<not> before y (hd (sort_stable before xs))" if "y \<in> set (tl (sort_stable before xs))" for y
    using Cons.IH [of y] that by (cases "sort_stable before xs") auto
  from insert_head [OF this] Cons.prems show ?case by (simp add: sort_stable_def)
qed (simp add: sort_stable_def)

end

interpretation hits: weak_order "hit_before lower"
  by unfold_locales (auto simp: hit_before_def split: if_splits)

lemma aggregate_primary:
  assumes "hits \<noteq> []"
  shows "\<exists>p\<in>set hits. aggregate lower hits =
      \<lparr>v_hit = True, v_block = blocking p, v_action = h_action p, v_risk = h_risk p, v_method = h_method p,
       v_group = h_group p, v_group_id = h_group_id p, v_evidence = h_evidence p, v_score = h_score p,
       v_hits = hits, v_degraded = False, v_reason = ''''\<rparr> \<and> (\<forall>h\<in>set hits. \<not> hit_before lower h p)"
proof -
  obtain p ps where s: "sort_stable (hit_before lower) hits = p # ps"
    using assms by (cases "sort_stable (hit_before lower) hits") auto
  have set: "set hits = set (p # ps)" using sort_stable_set [of "hit_before lower" hits] s by simp
  have "\<not> hit_before lower h p" if "h \<in> set hits" for h
    using hits.sort_head [of h lower hits] that set unfolding s by simp
  with s set show ?thesis by (intro bexI [of _ p]) (auto simp: aggregate_def)
qed

lemma aggregate_Nil [simp]: "aggregate lower [] = zero_verdict"
  by (simp add: aggregate_def sort_stable_def)

lemma aggregate_block: "v_block (aggregate lower hits) \<longleftrightarrow> (\<exists>h\<in>set hits. blocking h)"
proof (cases "hits = []")
  case False
  from aggregate_primary [OF this, of lower] show ?thesis by (auto simp: hit_before_def split: if_splits)
qed (simp add: zero_verdict_def)

text \<open>The verdict blocks exactly when some hit belongs to a blocking policy, and the hit
  it names is a blocking one if there is any, of the highest risk among those, and of the highest
  score among these.\<close>

lemma verdict_names_worst:
  assumes "hits \<noteq> []"
  shows "(v_block (aggregate lower hits) \<longleftrightarrow> (\<exists>h\<in>set hits. h_action h = ''block'')) \<and>
    v_hits (aggregate lower hits) = hits \<and>
    (\<exists>p\<in>set hits. v_evidence (aggregate lower hits) = h_evidence p \<and> v_action (aggregate lower hits) = h_action p \<and>
       v_score (aggregate lower hits) = h_score p \<and>
       (\<forall>h\<in>set hits. blocking h = blocking p \<longrightarrow>
          riskRank lower (h_risk h) < riskRank lower (h_risk p) \<or>
          (riskRank lower (h_risk h) = riskRank lower (h_risk p) \<and> h_score h \<le> h_score p)))"
proof -
  obtain p where p: "p \<in> set hits" "\<forall>h\<in>set hits. \<not> hit_before lower h p"
    and a: "v_evidence (aggregate lower hits) = h_evidence p" "v_action (aggregate lower hits) = h_action p"
      "v_score (aggregate lower hits) = h_score p" "v_hits (aggregate lower hits) = hits"
    using aggregate_primary [OF assms, of lower] by auto
  have "riskRank lower (h_risk h) < riskRank lower (h_risk p) \<or>
      (riskRank lower (h_risk h) = riskRank lower (h_risk p) \<and> h_score h \<le> h_score p)"
    if "h \<in> set hits" "blocking h = blocking p" for h
    using p(2) that by (auto simp: hit_before_def split: if_splits)
  with p(1) a aggregate_block [of lower hits] show ?thesis
    unfolding blocking_def [symmetric] by (intro conjI bexI [of _ p]) auto
qed

lemma verdict_names_worst_witness:
  "v_block (aggregate ascii_lower
     [sample_hit \<lparr>em_embed = None, em_dot = (\<lambda>_ _. 0), em_round4 = (\<lambda>x. x), em_runes = (\<lambda>s _. s)\<rparr> 1
        \<lparr>se_id = 1, se_text = ''x'', se_vec = [1], se_policy = \<lparr>po_id = 1, po_name = ''a'', po_action = ''audit'', po_risk = ''high''\<rparr>\<rparr>,
      word_hit \<lparr>we_id = 2, we_word = ''bomb'', we_policy = \<lparr>po_id = 2, po_name = ''b'', po_action = ''block'', po_risk = ''low''\<rparr>\<rparr>])"
  using verdict_names_worst [of "[sample_hit \<lparr>em_embed = None, em_dot = (\<lambda>_ _. 0), em_round4 = (\<lambda>x. x), em_runes = (\<lambda>s _. s)\<rparr> 1
        \<lparr>se_id = 1, se_text = ''x'', se_vec = [1], se_policy = \<lparr>po_id = 1, po_name = ''a'', po_action = ''audit'', po_risk = ''high''\<rparr>\<rparr>,
      word_hit \<lparr>we_id = 2, we_word = ''bomb'', we_policy = \<lparr>po_id = 2, po_name = ''b'', po_action = ''block'', po_risk = ''low''\<rparr>\<rparr>]" ascii_lower]
  by (simp add: sample_hit_def word_hit_def)

section \<open>Which texts are blocked\<close>

definition order_ok :: "map_order \<Rightarrow> bool" where
  "order_ok order \<longleftrightarrow> (\<forall>n xs. mset (order n xs) = mset xs)"

definition keyword_blocks :: "(string \<Rightarrow> string) \<Rightarrow> policy_row list \<Rightarrow> word_row list \<Rightarrow> string \<Rightarrow> bool" where
  \<comment> \<open>an enabled word of an enabled blocking policy occurs in the text, regardless of case\<close>
  "keyword_blocks lower gs ws text \<longleftrightarrow>
     (\<exists>w\<in>set ws. sw_enabled w \<and> (\<exists>g\<in>set gs. pg_enabled g \<and> pg_id g = sw_group w \<and> pg_action g = ''block'') \<and>
        word_pattern lower w \<noteq> '''' \<and> contains_str (lower text) (word_pattern lower w))"

lemma load_keyword_hits:
  assumes ord: "order_ok order" and ix: "ix = load_index lower order cur gs ws ss"
  shows "h \<in> set (keyword_hits lower ix text) \<longleftrightarrow>
    (\<exists>w\<in>set ws. word_pattern lower w \<noteq> '''' \<and> contains_str (lower text) (word_pattern lower w) \<and> h = word_hit (word_entry gs w))"
proof -
  let ?k = "kept_words lower ws" and ?ps = "map (word_pattern lower) (kept_words lower ws)"
  have m: "set (Match (newMatcher order ?ps) (lower text)) =
      {i. i < length ?ps \<and> ?ps ! i \<noteq> '''' \<and> contains_str (lower text) (?ps ! i)}"
    using Match_finds [of order ?ps "lower text"] ord by (simp add: order_ok_def)
  have "set (keyword_hits lower ix text) = (\<lambda>i. word_hit (word_entry gs (?k ! i))) `
      {i. i < length ?k \<and> word_pattern lower (?k ! i) \<noteq> '''' \<and> contains_str (lower text) (word_pattern lower (?k ! i))}"
  proof (cases "?k = []")
    case True
    then show ?thesis by (simp add: keyword_hits_def ix load_index_def Let_def)
  next
    case False
    have "set (keyword_hits lower ix text) =
        (\<lambda>i. word_hit (map (word_entry gs) ?k ! i)) ` set (Match (newMatcher order ?ps) (lower text))"
      using False by (simp add: keyword_hits_def ix load_index_def Let_def)
    also have "\<dots> = (\<lambda>i. word_hit (word_entry gs (?k ! i))) `
        {i. i < length ?k \<and> word_pattern lower (?k ! i) \<noteq> '''' \<and> contains_str (lower text) (word_pattern lower (?k ! i))}"
      unfolding m by (rule image_cong) auto
    finally show ?thesis .
  qed
  also have "\<dots> = (\<lambda>w. word_hit (word_entry gs w)) `
      {w \<in> set ?k. word_pattern lower w \<noteq> '''' \<and> contains_str (lower text) (word_pattern lower w)}"
    by (auto simp: image_iff in_set_conv_nth)
  finally show ?thesis by (auto simp: kept_words_def)
qed

lemma load_keyword_any:
  assumes "order_ok order" and "ix = load_index lower order cur gs ws ss"
  shows "(\<exists>h\<in>set (keyword_hits lower ix text). Q h) \<longleftrightarrow>
    (\<exists>w\<in>set ws. word_pattern lower w \<noteq> '''' \<and> contains_str (lower text) (word_pattern lower w) \<and> Q (word_hit (word_entry gs w)))"
  unfolding Bex_def load_keyword_hits [OF assms] by blast

lemma pol_lookup_unique:
  "distinct (map pg_id gs) \<Longrightarrow> g \<in> set gs \<Longrightarrow> pol_lookup gs (pg_id g) = policy_of g"
proof -
  assume "distinct (map pg_id gs)" and "g \<in> set gs"
  then have "map_of (rev (map (\<lambda>g. (pg_id g, policy_of g)) gs)) (pg_id g) = Some (policy_of g)"
    by (intro map_of_is_SomeI) (auto simp: comp_def simp flip: rev_map)
  then show ?thesis by (simp add: pol_lookup_def)
qed

text \<open>The index after a reload of these tables.\<close>

definition loaded_from :: "(string \<Rightarrow> string) \<Rightarrow> map_order \<Rightarrow> string \<Rightarrow> policy_row list \<Rightarrow> word_row list \<Rightarrow> sample_row list \<Rightarrow> engine \<Rightarrow> engine" where
  "loaded_from lower order cur gs ws ss e =
     fst (Reload lower order cur \<lparr>tb_groups = Inr gs, tb_words = Inr ws, tb_samples = Inr ss\<rparr> e)"

lemma regroup:
  "(\<And>w. A w \<and> d w \<longleftrightarrow> B w) \<Longrightarrow> (\<exists>w. A w \<and> p w \<and> c w \<and> d w) \<longleftrightarrow> (\<exists>w. B w \<and> p w \<and> c w)"
  by blast

lemma loaded_from_keyword:
  assumes ord: "order_ok order" and ids: "distinct (map pg_id gs)"
  shows "(\<exists>h\<in>set (keyword_hits lower (eg_idx (loaded_from lower order cur gs ws ss e)) text). blocking h) \<longleftrightarrow>
    keyword_blocks lower gs ws text"
proof -
  let ?gs = "filter pg_enabled gs"
  have dist: "distinct (map pg_id ?gs)" using ids by (simp add: distinct_map_filter)
  show ?thesis
  proof (cases "?gs = []")
    case True
    then have "keyword_hits lower (eg_idx (loaded_from lower order cur gs ws ss e)) text = []"
      by (simp add: loaded_from_def Reload_def reload_def empty_index_def keyword_hits_def Let_def)
    with True show ?thesis by (auto simp: keyword_blocks_def filter_empty_conv)
  next
    case False
    let ?ws = "sort_key sw_id (filter (\<lambda>w. sw_enabled w \<and> sw_group w \<in> pg_id ` set ?gs) ws)"
    let ?ss = "sort_key as_id (filter (\<lambda>s. as_enabled s \<and> as_group s \<in> pg_id ` set ?gs \<and> as_vector s \<noteq> []) ss)"
    have ix: "eg_idx (loaded_from lower order cur gs ws ss e) = load_index lower order cur ?gs ?ws ?ss"
      using False by (simp add: loaded_from_def Reload_def reload_def Let_def)
    have act: "h_action (word_hit (word_entry ?gs w)) = ''block'' \<longleftrightarrow> (\<exists>g\<in>set ?gs. pg_id g = sw_group w \<and> pg_action g = ''block'')"
      if "sw_group w \<in> pg_id ` set ?gs" for w
    proof -
      obtain g where g: "g \<in> set ?gs" "pg_id g = sw_group w" using \<open>sw_group w \<in> pg_id ` set ?gs\<close> by (metis imageE)
      have "h_action (word_hit (word_entry ?gs w)) = pg_action g"
        using pol_lookup_unique [OF dist g(1)] by (simp add: word_hit_def word_entry_def policy_of_def g(2))
      moreover have "g' = g" if "g' \<in> set ?gs" "pg_id g' = pg_id g" for g'
        using dist g(1) that by (metis (no_types, lifting) distinct_map inj_onD)
      ultimately show ?thesis using g by metis
    qed
    have "(\<exists>h\<in>set (keyword_hits lower (eg_idx (loaded_from lower order cur gs ws ss e)) text). blocking h) \<longleftrightarrow>
        (\<exists>w\<in>set ?ws. word_pattern lower w \<noteq> '''' \<and> contains_str (lower text) (word_pattern lower w) \<and>
           h_action (word_hit (word_entry ?gs w)) = ''block'')"
      unfolding ix load_keyword_any [OF ord refl] blocking_def ..
    also have "\<dots> \<longleftrightarrow> keyword_blocks lower gs ws text"
    proof -
      have "w \<in> set ?ws \<and> h_action (word_hit (word_entry ?gs w)) = ''block'' \<longleftrightarrow>
          w \<in> set ws \<and> sw_enabled w \<and> (\<exists>g\<in>set gs. pg_enabled g \<and> pg_id g = sw_group w \<and> pg_action g = ''block'')" for w
      proof (cases "sw_group w \<in> pg_id ` set ?gs")
        case True
        from act [OF this] True show ?thesis by auto
      next
        case False
        then have "\<not> (\<exists>g\<in>set gs. pg_enabled g \<and> pg_id g = sw_group w \<and> pg_action g = ''block'')" by force
        with False show ?thesis by simp
      qed
      from regroup [OF this] show ?thesis unfolding keyword_blocks_def Bex_def conj_assoc .
    qed
    finally show ?thesis .
  qed
qed

lemma semantic_hits_block:
  "(\<exists>h\<in>set (semantic_hits em t q ss). blocking h) \<longleftrightarrow>
     (\<exists>s\<in>set ss. comparable q s \<and> em_dot em q (se_vec s) \<ge> t \<and> po_action (se_policy s) = ''block'')"
  by (auto simp: semantic_hits_def blocking_def sample_hit_def)

lemma semantic_pass_block:
  "v_block (semantic_pass lower em thr ix text hits) \<longleftrightarrow>
     (\<exists>h\<in>set hits. blocking h) \<or>
     (\<exists>emb q s. em_embed em = Some emb \<and> emb text = Inr [q] \<and> q \<noteq> [] \<and> s \<in> set (ix_samples ix) \<and> comparable q s \<and>
        em_dot em q (se_vec s) \<ge> (if thr \<le> 0 then 85 / 100 else thr) \<and> po_action (se_policy s) = ''block'')"
proof (cases "ix_samples ix = [] \<or> em_embed em = None")
  case True
  then show ?thesis by (auto simp: semantic_pass_def degrade_def aggregate_block)
next
  case False
  then obtain emb where emb: "em_embed em = Some emb" "ix_samples ix \<noteq> []" by auto
  show ?thesis
  proof (cases "\<exists>q. emb text = Inr [q] \<and> q \<noteq> []")
    case True
    then obtain q where "emb text = Inr [q]" "q \<noteq> []" by blast
    moreover from this emb have "v_block (semantic_pass lower em thr ix text hits) \<longleftrightarrow>
        (\<exists>h\<in>set hits. blocking h) \<or>
        (\<exists>h\<in>set (semantic_hits em (if thr \<le> 0 then 85 / 100 else thr) q (ix_samples ix)). blocking h)"
      by (simp add: semantic_pass_def degrade_def aggregate_block Let_def bex_Un)
    ultimately show ?thesis using emb(1) unfolding semantic_hits_block by auto
  next
    case none: False
    have "v_block (semantic_pass lower em thr ix text hits) \<longleftrightarrow> v_block (aggregate lower hits)"
    proof (cases "emb text")
      case (Inr vecs)
      with none have "length vecs \<noteq> 1 \<or> hd vecs = []" by (cases vecs) auto
      with emb Inr show ?thesis by (simp add: semantic_pass_def degrade_def Let_def)
    qed (use emb in \<open>simp add: semantic_pass_def degrade_def Let_def\<close>)
    with none emb show ?thesis by (auto simp: aggregate_block)
  qed
qed

text \<open>Property C17: once the rules have been read from the database, a non-empty text is blocked exactly
  when an enabled word of an enabled blocking policy occurs in it, whatever the case, or the
  embedding service finds it similar enough to an audit sample of a blocking policy with a vector
  of the same model and length.\<close>

theorem check_blocks_iff:
  assumes "order_ok order" and "distinct (map pg_id gs)" and "trim_space text \<noteq> ''''"
  shows "v_block (check lower em thr (loaded_from lower order cur gs ws ss e) text) \<longleftrightarrow>
    keyword_blocks lower gs ws text \<or>
    (\<exists>emb q s. em_embed em = Some emb \<and> emb text = Inr [q] \<and> q \<noteq> [] \<and>
       s \<in> set (ix_samples (eg_idx (loaded_from lower order cur gs ws ss e))) \<and> length (se_vec s) = length q \<and>
       em_dot em q (se_vec s) \<ge> (if thr \<le> 0 then 85 / 100 else thr) \<and> po_action (se_policy s) = ''block'')"
proof -
  have ld: "Loaded (loaded_from lower order cur gs ws ss e) = (True, '''')"
    by (auto simp: loaded_from_def Reload_def reload_def Loaded_def Let_def)
  show ?thesis
    using assms(3) loaded_from_keyword [OF assms(1,2), of lower cur ws ss e "text"]
    by (simp add: check_def ld semantic_pass_block comparable_def)
qed

definition sample_tables :: "policy_row list \<times> word_row list" where
  "sample_tables =
     ([\<lparr>pg_id = 2, pg_name = ''weapons'', pg_action = ''block'', pg_risk = ''high'', pg_enabled = True\<rparr>],
      [\<lparr>sw_id = 7, sw_word = '' Bomb '', sw_group = 2, sw_enabled = True\<rparr>])"

definition keywords_only :: embedding where
  "keywords_only = \<lparr>em_embed = None, em_dot = (\<lambda>_ _. 0), em_round4 = (\<lambda>x. x), em_runes = (\<lambda>s _. s)\<rparr>"

lemma check_blocks_iff_witness:
  "v_block (check ascii_lower keywords_only 0
     (loaded_from ascii_lower (\<lambda>_ xs. xs) '''' (fst sample_tables) (snd sample_tables) [] unloaded) ''a BOMB'')"
proof -
  have b: "keyword_blocks ascii_lower (fst sample_tables) (snd sample_tables) ''a BOMB''"
    unfolding keyword_blocks_def by code_simp
  have "trim_space ''a BOMB'' \<noteq> ''''" by code_simp
  moreover have "order_ok (\<lambda>_ xs. xs)" "distinct (map pg_id (fst sample_tables))"
    by (simp_all add: order_ok_def sample_tables_def)
  ultimately show ?thesis
    using check_blocks_iff [of "\<lambda>_ xs. xs" "fst sample_tables" "''a BOMB''" ascii_lower keywords_only 0 "''''"
        "snd sample_tables" "[]" unloaded] b by simp
qed

text \<open>While compliance is enabled the engine fails closed until its rules have been read
  once: every text is blocked, and after that a failing reload changes neither the rules nor any
  verdict.\<close>

lemma fails_closed:
  shows "(\<not> eg_loaded e \<longrightarrow> v_block (Check lower em True thr e text)) \<and>
    (eg_loaded e \<longrightarrow> Reload lower order cur t e = (e', Some err) \<longrightarrow>
       Check lower em True thr e' text = Check lower em True thr e text)"
proof (intro conjI impI)
  assume "\<not> eg_loaded e"
  then show "v_block (Check lower em True thr e text)"
    by (simp add: Check_def check_def Loaded_def unavailable_def split: option.split)
next
  assume "eg_loaded e" and "Reload lower order cur t e = (e', Some err)"
  then have "eg_idx e' = eg_idx e" "eg_loaded e'" by (auto simp: Reload_def split: sum.splits)
  with \<open>eg_loaded e\<close> show "Check lower em True thr e' text = Check lower em True thr e text"
    by (simp add: Check_def check_def Loaded_def split: option.split)
qed

lemma fails_closed_witness:
  "v_block (Check ascii_lower keywords_only True 0
     (fst (Reload ascii_lower (\<lambda>_ xs. xs) '''' \<lparr>tb_groups = Inl ''locked'', tb_words = Inr [], tb_samples = Inr []\<rparr> unloaded)) ''hello'')"
  using fails_closed [of "fst (Reload ascii_lower (\<lambda>_ xs. xs) '''' \<lparr>tb_groups = Inl ''locked'', tb_words = Inr [], tb_samples = Inr []\<rparr> unloaded)"
      ascii_lower keywords_only 0 "''hello''" "\<lambda>_ xs. xs" "''''"
      "\<lparr>tb_groups = Inl ''locked'', tb_words = Inr [], tb_samples = Inr []\<rparr>" unloaded "''locked''"]
  by (simp add: Reload_def reload_def unloaded_def)

section \<open>Building the vectors\<close>

text \<open>
  What other builds and edits do to the table before each of this build's database operations is
  the argument \<open>others\<close>, indexed by the operation; \<open>embed\<close> answers a batch with an error or
  with the vectors and the identity of the model that made them.
\<close>

record build_env =
  be_token :: string
  be_ids :: "nat list option"
  be_embed :: "(nat \<Rightarrow> string list \<Rightarrow> string + vec list \<times> string) option"
  be_others :: "nat \<Rightarrow> sample_row list \<Rightarrow> sample_row list"
  be_claim_error :: "string option"
  be_read_error :: "string option"
  be_write_fails :: "nat \<Rightarrow> bool"
  be_reload_error :: "string option"

record build_state =
  bs_table :: "sample_row list"
  bs_op :: nat
  bs_built :: nat
  bs_failed :: nat

definition selected :: "build_env \<Rightarrow> sample_row \<Rightarrow> bool" where
  "selected e r \<longleftrightarrow> (case be_ids e of None \<Rightarrow> True | Some ids \<Rightarrow> as_id r \<in> set ids)"

definition claimed_row :: "build_env \<Rightarrow> sample_row \<Rightarrow> bool" where
  "claimed_row e r \<longleftrightarrow> as_token r = be_token e \<and> selected e r"

definition embed_input :: "sample_row \<Rightarrow> string" where
  "embed_input r = (let s = trim_space (as_text r) in if s = '''' then '' '' else s)"

definition store_vector :: "build_env \<Rightarrow> string \<Rightarrow> sample_row \<times> vec \<Rightarrow> build_state \<Rightarrow> build_state" where
  "store_vector e stamp rv st =
     (let (r, v) = rv
      in if v = [] then st\<lparr>bs_failed := bs_failed st + 1\<rparr>
         else
           let t = be_others e (bs_op st) (bs_table st);
               hit = (\<lambda>x. as_id x = as_id r \<and> as_hash x = as_hash r \<and> as_token x = be_token e);
               st1 = st\<lparr>bs_op := bs_op st + 1\<rparr>
           in if be_write_fails e (bs_op st) then st1\<lparr>bs_table := t, bs_failed := bs_failed st + 1\<rparr>
              else
                let st2 = st1\<lparr>bs_table := map (\<lambda>x. if hit x then x\<lparr>as_vector := v, as_model := stamp\<rparr> else x) t\<rparr>
                in if length (filter hit t) \<noteq> 1 then st2\<lparr>bs_failed := bs_failed st + 1\<rparr>
                   else st2\<lparr>bs_built := bs_built st + 1\<rparr>)"

fun chunks :: "nat \<Rightarrow> sample_row list \<Rightarrow> sample_row list list" where
  \<comment> \<open>\<open>rows[i:end]\<close> with \<open>BuildBatchSize\<close> 16; the number of rows is enough fuel\<close>
  "chunks 0 rows = []"
| "chunks (Suc k) rows = (if rows = [] then [] else take 16 rows # chunks k (drop 16 rows))"

fun build_loop :: "build_env \<Rightarrow> (nat \<Rightarrow> string list \<Rightarrow> string + vec list \<times> string) \<Rightarrow> nat \<Rightarrow> sample_row list list \<Rightarrow>
    build_state \<Rightarrow> build_state \<times> string list" where
  "build_loop e emb k [] st = (st, [])"
| "build_loop e emb k (b # bs) st =
     (case emb k (map embed_input b) of
        Inl err \<Rightarrow> (st\<lparr>bs_failed := bs_failed st + length b\<rparr>, [err])
      | Inr (vecs, stamp) \<Rightarrow>
          if length vecs \<noteq> length b
          then (st\<lparr>bs_failed := bs_failed st + length b\<rparr>, [''embedding returned wrong number of vectors''])
          else build_loop e emb (Suc k) bs (fold (store_vector e stamp) (zip b vecs) st))"

record build_result =
  br_table :: "sample_row list"
  br_claimed :: nat
  br_built :: nat
  br_failed :: nat
  br_errors :: "string list"

definition conserve :: "nat \<Rightarrow> nat \<Rightarrow> nat \<Rightarrow> nat" where
  \<comment> \<open>the first deferred function: whatever was claimed and not built has failed\<close>
  "conserve claimed built failed = (if claimed > built + failed then failed + (claimed - built - failed) else failed)"

definition BuildVectors :: "build_env \<Rightarrow> sample_row list \<Rightarrow> build_result" where
  "BuildVectors e t0 =
     (case be_embed e of
        None \<Rightarrow> \<lparr>br_table = t0, br_claimed = 0, br_built = 0, br_failed = 0, br_errors = [''vector service is not configured'']\<rparr>
      | Some emb \<Rightarrow>
          let t = be_others e 0 t0
          in case be_claim_error e of
               Some err \<Rightarrow> \<lparr>br_table = t, br_claimed = 0, br_built = 0, br_failed = 0, br_errors = [err]\<rparr>
             | None \<Rightarrow>
                 let claimed = length (filter (selected e) t);
                     t1 = map (\<lambda>r. if selected e r then r\<lparr>as_token := be_token e\<rparr> else r) t;
                     t2 = be_others e 1 t1
                 in case be_read_error e of
                      Some err \<Rightarrow> \<lparr>br_table = t2, br_claimed = claimed, br_built = 0, br_failed = conserve claimed 0 0, br_errors = [err]\<rparr>
                    | None \<Rightarrow>
                        let rows = sort_key as_id (filter (claimed_row e) t2);
                            st = \<lparr>bs_table = t2, bs_op = 2, bs_built = 0, bs_failed = claimed - length rows\<rparr>;
                            (st', errs) = build_loop e emb 0 (chunks (length rows) rows) st
                        in \<lparr>br_table = bs_table st', br_claimed = claimed, br_built = bs_built st',
                            br_failed = conserve claimed (bs_built st') (bs_failed st'),
                            br_errors = errs @ (case be_reload_error e of None \<Rightarrow> [] | Some x \<Rightarrow> [x])\<rparr>)"

lemma store_vector_counts:
  "bs_built (store_vector e stamp rv st) + bs_failed (store_vector e stamp rv st) = Suc (bs_built st + bs_failed st)"
  by (simp add: store_vector_def Let_def split: prod.split)

lemma store_fold_counts:
  "bs_built (fold (store_vector e stamp) rvs st) + bs_failed (fold (store_vector e stamp) rvs st) =
     bs_built st + bs_failed st + length rvs"
  by (induction rvs arbitrary: st) (simp_all add: store_vector_counts)

lemma build_loop_counts:
  "build_loop e emb k bs st = (st', errs) \<Longrightarrow>
     bs_built st' + bs_failed st' \<le> bs_built st + bs_failed st + length (concat bs) \<and>
     (errs = [] \<longrightarrow> bs_built st' + bs_failed st' = bs_built st + bs_failed st + length (concat bs))"
proof (induction e emb k bs st rule: build_loop.induct)
  case (2 e emb k b bs st)
  show ?case
  proof (cases "emb k (map embed_input b)")
    case (Inl err)
    with 2(2) show ?thesis by auto
  next
    case (Inr r)
    obtain vecs stamp where r: "r = (vecs, stamp)" by fastforce
    show ?thesis
    proof (cases "length vecs = length b")
      case True
      then have "build_loop e emb (Suc k) bs (fold (store_vector e stamp) (zip b vecs) st) = (st', errs)"
        using 2(2) Inr r by simp
      from 2(1) [OF Inr r [symmetric] _ this] True show ?thesis by (simp add: store_fold_counts)
    qed (use 2(2) Inr r in auto)
  qed
qed simp

lemma concat_chunks: "length rows \<le> 16 * k \<Longrightarrow> concat (chunks k rows) = rows"
  by (induction k arbitrary: rows) auto

lemma claim_count:
  "length (filter (claimed_row e) (map (\<lambda>r. if selected e r then r\<lparr>as_token := be_token e\<rparr> else r) t)) \<le>
     length (filter (selected e) t)"
  by (induction t) (auto simp: claimed_row_def selected_def split: option.splits)

text \<open>Property C18: a build accounts for every row it claims: built plus failed is the number of rows
  claimed, on every return, whatever the embedding service answers and whatever other builds and
  edits do to the table meanwhile, as long as nobody else uses this build's token.\<close>

theorem build_conserves:
  assumes "\<And>n t. length (filter (claimed_row e) (be_others e n t)) \<le> length (filter (claimed_row e) t)"
    and "r = BuildVectors e t"
  shows "br_built r + br_failed r = br_claimed r"
proof (cases "be_embed e")
  case None
  with assms(2) show ?thesis by (simp add: BuildVectors_def)
next
  case (Some emb)
  show ?thesis
  proof (cases "be_claim_error e \<noteq> None \<or> be_read_error e \<noteq> None")
    case True
    with assms(2) Some show ?thesis
      by (auto simp: BuildVectors_def conserve_def Let_def split: option.splits)
  next
    case False
    let ?t = "be_others e 0 t"
    let ?n = "length (filter (selected e) ?t)"
    let ?t2 = "be_others e 1 (map (\<lambda>r. if selected e r then r\<lparr>as_token := be_token e\<rparr> else r) ?t)"
    let ?rows = "sort_key as_id (filter (claimed_row e) ?t2)"
    let ?st = "\<lparr>bs_table = ?t2, bs_op = 2, bs_built = 0, bs_failed = ?n - length ?rows\<rparr>"
    obtain st' errs where l: "build_loop e emb 0 (chunks (length ?rows) ?rows) ?st = (st', errs)" by fastforce
    have le: "length ?rows \<le> ?n" unfolding length_sort by (rule le_trans [OF assms(1) claim_count])
    have "length (concat (chunks (length ?rows) ?rows)) = length ?rows" by (simp add: concat_chunks)
    with build_loop_counts [OF l] le have "bs_built st' + bs_failed st' \<le> ?n" by simp
    with assms(2) Some False l show ?thesis
      by (auto simp: BuildVectors_def conserve_def Let_def)
  qed
qed

definition sample_build :: "build_env" where
  "sample_build = \<lparr>be_token = ''t1'', be_ids = None, be_embed = Some (\<lambda>k ss. if k = 0 then Inr (map (\<lambda>_. [1]) ss, ''m'') else Inl ''down''),
     be_others = (\<lambda>_ t. t), be_claim_error = None, be_read_error = None, be_write_fails = (\<lambda>_. False), be_reload_error = None\<rparr>"

definition sample_rows :: "sample_row list" where
  "sample_rows = map (\<lambda>i. \<lparr>as_id = i, as_text = ''x'', as_hash = ''h'', as_group = 1, as_enabled = True,
     as_vector = [], as_model = '''', as_token = ''''\<rparr>) [1..<4]"

lemma build_conserves_witness:
  "br_built (BuildVectors sample_build sample_rows) + br_failed (BuildVectors sample_build sample_rows) = 3"
proof -
  have "br_claimed (BuildVectors sample_build sample_rows) = 3"
    by (simp add: BuildVectors_def sample_build_def Let_def selected_def sample_rows_def split: prod.split)
  then show ?thesis
    using build_conserves [of sample_build "BuildVectors sample_build sample_rows" sample_rows]
    by (simp add: sample_build_def)
qed

end
