(* ===== verification/Request_Text.thy ===== *)
theory Request_Text
  imports Admission
begin

text \<open>
  What of a request's body is read for compliance and routing: \<open>extractText\<close> and
  \<open>extractSystem\<close> of \<open>internal/gateway/handler.go\<close>, for the four text protocols. The
  code decodes leniently: it ignores the error of \<open>json.Unmarshal\<close>, which leaves a field of
  the wrong type at its zero value and goes on; what is not an array decodes to no elements.
\<close>

section \<open>Lenient decoding\<close>

definition raw_string :: "json option \<Rightarrow> string option" where
  \<comment> \<open>\<open>json.Unmarshal\<close> of a \<open>RawMessage\<close> into a string; a missing key is an error\<close>
  "raw_string v = (case v of None \<Rightarrow> None | Some j \<Rightarrow> dec_str j)"

definition elements :: "json option \<Rightarrow> json list" where
  "elements v = (case v of Some (JArr vs) \<Rightarrow> vs | _ \<Rightarrow> [])"

definition members :: "json \<Rightarrow> (string \<times> json) list" where
  "members v = (case v of JObj fs \<Rightarrow> fs | _ \<Rightarrow> [])"

definition str_field :: "string \<Rightarrow> (string \<times> json) list \<Rightarrow> string" where
  "str_field k fs = (case jfield k fs of JStr s \<Rightarrow> s | _ \<Rightarrow> '''')"

definition raw_member :: "string \<Rightarrow> (string \<times> json) list \<Rightarrow> json option" where
  \<comment> \<open>a \<open>json.RawMessage\<close> field, which keeps a \<open>null\<close>\<close>
  "raw_member k fs = map_option snd (List.find (\<lambda>(k', v). same_key k k') (rev fs))"

definition newline :: string where
  "newline = [CHR 0x0A]"

section \<open>Texts\<close>

definition part_text :: "string list \<Rightarrow> json \<Rightarrow> string" where
  \<comment> \<open>a content part of one of the types\<close>
  "part_text tys v =
     (let fs = members v in if str_field ''type'' fs \<in> set tys then str_field ''text'' fs @ newline else '''')"

definition parts_text :: "string list \<Rightarrow> json option \<Rightarrow> string" where
  "parts_text tys v = concat (map (part_text tys) (elements v))"

definition gemini_parts :: "(string \<times> json) list \<Rightarrow> string" where
  "gemini_parts fs =
     concat (map (\<lambda>v. let t = str_field ''text'' (members v) in if t = '''' then '''' else t @ newline)
       (elements (raw_member ''parts'' fs)))"

definition gemini_text :: "json \<Rightarrow> string option" where
  "gemini_text v =
     (let fs = members v; t = gemini_parts fs
      in if str_field ''role'' fs = ''model'' \<or> t = '''' then None else Some (trim_space t))"

definition user_text :: "string list \<Rightarrow> json \<Rightarrow> string option" where
  \<comment> \<open>the text of one message, if it is the user's and has any\<close>
  "user_text tys v =
     (let fs = members v
      in if str_field ''role'' fs \<noteq> ''user'' then None
         else case raw_string (raw_member ''content'' fs) of
                Some s \<Rightarrow> Some s
              | None \<Rightarrow>
                  let t = parts_text tys (raw_member ''content'' fs)
                  in if t = '''' then None else Some (trim_space t))"

fun last_text :: "(json \<Rightarrow> string option) \<Rightarrow> json list \<Rightarrow> string" where
  \<comment> \<open>the loop from the last message down; the list is already reversed\<close>
  "last_text f [] = ''''"
| "last_text f (v # vs) = (case f v of Some t \<Rightarrow> t | None \<Rightarrow> last_text f vs)"

definition messages_text :: "(json \<Rightarrow> string option) \<Rightarrow> json option \<Rightarrow> string \<times> nat" where
  "messages_text f v = (let vs = elements v in (last_text f (rev vs), length vs))"

definition extractText :: "proto \<Rightarrow> (string \<times> json) list \<Rightarrow> string \<times> nat" where
  "extractText p raw =
     (case p of
        ProtoGemini \<Rightarrow> messages_text gemini_text (raw_field ''contents'' raw)
      | ProtoAnthropicMessages \<Rightarrow> messages_text (user_text [''text'']) (raw_field ''messages'' raw)
      | ProtoOpenAIResponses \<Rightarrow>
          (case raw_string (raw_field ''input'' raw) of
             Some s \<Rightarrow> (s, 1)
           | None \<Rightarrow> messages_text (user_text [''input_text'', ''text'']) (raw_field ''input'' raw))
      | _ \<Rightarrow> messages_text (user_text [''text'']) (raw_field ''messages'' raw))"

definition system_message :: "json \<Rightarrow> string" where
  "system_message v =
     (let fs = members v
      in if str_field ''role'' fs = ''system'' \<or> str_field ''role'' fs = ''developer''
         then (case raw_string (raw_member ''content'' fs) of
                 Some s \<Rightarrow> s
               | None \<Rightarrow>
                   concat (map (\<lambda>v. let ps = members v in if str_field ''type'' ps = ''text'' then str_field ''text'' ps else '''')
                     (elements (raw_member ''content'' fs)))) @ newline
         else '''')"

definition extractSystem :: "proto \<Rightarrow> (string \<times> json) list \<Rightarrow> string" where
  "extractSystem p raw =
     (case p of
        ProtoGemini \<Rightarrow>
          trim_space (gemini_parts (case raw_field ''systemInstruction'' raw of None \<Rightarrow> [] | Some v \<Rightarrow> members v))
      | ProtoAnthropicMessages \<Rightarrow>
          (case raw_string (raw_field ''system'' raw) of
             Some s \<Rightarrow> s
           | None \<Rightarrow> trim_space (parts_text [''text''] (raw_field ''system'' raw)))
      | ProtoOpenAIResponses \<Rightarrow> str_or_empty (raw_field ''instructions'' raw)
      | _ \<Rightarrow> trim_space (concat (map system_message (elements (raw_field ''messages'' raw)))))"

section \<open>Lemmas\<close>

lemma last_text_skips: "\<forall>v\<in>set vs. f v = None \<Longrightarrow> last_text f (vs @ ws) = last_text f ws"
  by (induction vs) auto

lemma last_text_none: "\<forall>v\<in>set vs. f v = None \<Longrightarrow> last_text f vs = ''''"
  by (induction vs) auto

text \<open>The text is that of the last message that has one, whatever comes before it.\<close>

lemma messages_text_last:
  assumes "\<forall>v\<in>set after. f v = None" and "f v = Some t"
  shows "messages_text f (Some (JArr (before @ v # after))) = (t, length before + length after + 1)"
  using last_text_skips [of "rev after" f] assms by (simp add: messages_text_def elements_def)

lemma messages_text_none: "\<forall>v\<in>set vs. f v = None \<Longrightarrow> messages_text f (Some (JArr vs)) = ('''', length vs)"
  using last_text_none [of "rev vs" f] by (simp add: messages_text_def elements_def)

end
