(* ===== verification/Handlers.thy ===== *)
theory Handlers
  imports Request_Text Forwarding Compliance
begin

text \<open>
  The handlers of \<open>internal/gateway/handler.go\<close> and \<open>internal/gateway/gemini.go\<close>: how
  the stages of the pipeline are put together, which requests go where, the compliance stage
  with its audit entries, and the model lists. Everything a request meets on its way is in one
  environment: the rows behind the caches, the snapshot, what other requests do while it waits,
  the router, the compliance engine and the upstreams.
\<close>

section \<open>The compliance stage\<close>

record audit_entry =
  ad_action :: string
  ad_risk :: string
  ad_method :: string
  ad_evidence :: string
  ad_status :: int

record audit =
  \<comment> \<open>the audit log and the metrics the stage keeps\<close>
  ad_entries :: "audit_entry list"
  ad_degraded :: nat
  ad_blocked :: nat
  ad_last :: int \<comment> \<open>\<open>lastDegradedLog\<close>, in seconds\<close>

record guard =
  \<comment> \<open>the compliance settings and the engine, \<open>None\<close> before \<open>SetChecker\<close>\<close>
  gd_checker :: "(string \<Rightarrow> Verdict) option"
  gd_enabled :: bool
  gd_system :: bool
  gd_on_failure :: string
  gd_now :: int
  gd_logger :: bool \<comment> \<open>an audit logger is installed\<close>

definition checked_text :: "guard \<Rightarrow> req \<Rightarrow> string" where
  "checked_text c q =
     (let user = fst (extractText (rq_proto q) (rq_raw q)); sys = extractSystem (rq_proto q) (rq_raw q);
          t = (if gd_system c \<and> sys \<noteq> '''' then sys @ newline @ user else user);
          t = (if t = '''' then [CHR 0x00] else t)
      in trim_space (trim_right_set [CHR 0x00] (dropWhile (\<lambda>x. x = CHR 0x00) t)))"

definition audit_degraded :: "guard \<Rightarrow> Verdict \<Rightarrow> audit \<Rightarrow> audit" where
  \<comment> \<open>a degradation is logged at most once every ten seconds\<close>
  "audit_degraded c v a =
     (let a1 = a\<lparr>ad_degraded := ad_degraded a + 1\<rparr>
      in if gd_now c - ad_last a \<ge> 10
         then let a2 = a1\<lparr>ad_last := gd_now c\<rparr>
              in if gd_logger c
                 then a2\<lparr>ad_entries := ad_entries a2 @ [\<lparr>ad_action = ''audit'', ad_risk = ''low'', ad_method = ''degraded'',
                        ad_evidence = truncate_str (v_reason v) 500, ad_status = 200\<rparr>]\<rparr>
                 else a2
         else a1)"

definition audit_hit :: "guard \<Rightarrow> Verdict \<Rightarrow> audit \<Rightarrow> audit" where
  "audit_hit c v a =
     (if gd_logger c
      then a\<lparr>ad_entries := ad_entries a @ [\<lparr>ad_action = v_action v, ad_risk = v_risk v, ad_method = v_method v,
             ad_evidence = truncate_str (v_evidence v) 500,
             ad_status = (if v_block v then gstatus ErrContentBlocked else 200)\<rparr>]\<rparr>
      else a)"

definition comply :: "guard \<Rightarrow> req \<Rightarrow> audit \<Rightarrow> audit \<times> gateway_error option" where
  \<comment> \<open>the stage in \<open>handleTextWith\<close>\<close>
  "comply c q a =
     (case gd_checker c of
        None \<Rightarrow> (a, None)
      | Some chk \<Rightarrow>
          if \<not> gd_enabled c then (a, None)
          else
            let v = chk (checked_text c q);
                a1 = (if v_degraded v then audit_degraded c v a else a)
            in if v_degraded v \<and> gd_on_failure c = ''block'' \<and> \<not> v_block v then (a1, Some ErrComplianceDown)
               else if v_hit v then
                 let a2 = audit_hit c v a1
                 in if v_block v then (a2\<lparr>ad_blocked := ad_blocked a2 + 1\<rparr>, Some ErrContentBlocked) else (a2, None)
               else (a1, None))"

section \<open>The handlers\<close>

record route_env =
  rt_simple :: nat \<comment> \<open>\<open>SmartRoute.SimpleGroupID\<close>\<close>
  rt_router :: "(string \<Rightarrow> nat \<Rightarrow> string \<times> nat) option" \<comment> \<open>text and number of messages to label and group\<close>
  rt_groups :: "model_group list"

record request_env =
  re_lower :: "string \<Rightarrow> string"
  re_keys :: "string list"
  re_look :: "string \<Rightarrow> Principal option"
  re_snap :: Snapshot
  re_perf :: perf
  re_others :: "budget \<Rightarrow> budget" \<comment> \<open>while waiting for memory\<close>
  re_queue :: "gate \<Rightarrow> gate" \<comment> \<open>while queued at the gate\<close>
  re_now :: time
  re_end :: time
  re_in :: incoming
  re_guard :: guard
  re_route :: route_env
  re_cfg :: forward_cfg
  re_attempts :: "nat \<Rightarrow> attempt_env"
  re_draws :: "nat \<Rightarrow> nat \<Rightarrow> int"

definition reject :: "request_env \<Rightarrow> gateway_error \<Rightarrow> gw \<times> req \<Rightarrow> gw \<times> req" where
  "reject e err gq = fail_request (fc_zone (re_cfg e)) (fc_pricer (re_cfg e)) (re_end e) err gq"

definition prepare_in :: "request_env \<Rightarrow> gw \<times> req \<Rightarrow> (gw \<times> req) \<times> gateway_error option" where
  "prepare_in e gq = prepare (re_lower e) (re_keys e) (re_look e) (re_snap e) (re_perf e) (re_others e) (re_now e) (re_in e) gq"

definition candidates_in :: "request_env \<Rightarrow> req \<Rightarrow> req \<times> (gateway_error + string list)" where
  "candidates_in e q =
     (let (txt, n) = extractText (rq_proto q) (rq_raw q)
      in candidates (rt_simple (re_route e)) (map_option (\<lambda>f. f txt n) (rt_router (re_route e))) (rt_groups (re_route e)) (re_snap e) q)"

definition acquire_in :: "request_env \<Rightarrow> gw \<times> req \<Rightarrow> gw \<times> (gateway_error + slots)" where
  \<comment> \<open>after \<open>prepare\<close> the group and the principal are set (lemma \<open>prepare_identifies\<close>)\<close>
  "acquire_in e gq =
     (let (g, q) = gq
      in case (rq_group q, rq_principal q) of
           (Some grp, Some p) \<Rightarrow> acquire (re_queue e) grp p g
         | _ \<Rightarrow> (g, Inl ErrGroupDisabled))"

definition forward_in :: "request_env \<Rightarrow> string list \<Rightarrow> gw \<times> req \<Rightarrow> gw \<times> req" where
  "forward_in e cands gq = forward (re_cfg e) (re_attempts e) (re_draws e) (re_end e) (re_snap e) cands gq"

definition released :: "slots \<Rightarrow> gw \<times> req \<Rightarrow> gw \<times> req" where
  "released sl gq = (release_slots sl (fst gq), snd gq)"

definition handleTextWith :: "request_env \<Rightarrow> (req \<Rightarrow> req) \<Rightarrow> proto \<Rightarrow> string \<Rightarrow> gw \<Rightarrow> audit \<Rightarrow> (gw \<times> req) \<times> audit" where
  "handleTextWith e setup p i g a =
     (case prepare_in e (g, setup (newRequest i p (re_now e))) of
        (gq, Some err) \<Rightarrow> (reject e err gq, a)
      | ((g1, q1), None) \<Rightarrow>
          (case acquire_in e (g1, q1) of
             (g2, Inl err) \<Rightarrow> (reject e err (g2, q1), a)
           | (g2, Inr sl) \<Rightarrow>
               (case comply (re_guard e) q1 a of
                  (a1, Some err) \<Rightarrow> (released sl (reject e err (g2, q1)), a1)
                | (a1, None) \<Rightarrow>
                    (case candidates_in e q1 of
                       (q2, Inl err) \<Rightarrow> (released sl (reject e err (g2, q2)), a1)
                     | (q2, Inr cands) \<Rightarrow> (released sl (forward_in e cands (g2, q2)), a1)))))"

definition handleText :: "request_env \<Rightarrow> proto \<Rightarrow> string \<Rightarrow> gw \<Rightarrow> audit \<Rightarrow> (gw \<times> req) \<times> audit" where
  "handleText e p i g a = handleTextWith e (\<lambda>q. q) p i g a"

definition runSimple :: "request_env \<Rightarrow> gw \<times> req \<Rightarrow> gw \<times> req" where
  "runSimple e gq =
     (let (g, q) = gq
      in case candidates_in e (q\<lparr>rq_stream := False\<rparr>) of
           (q1, Inl err) \<Rightarrow> reject e err (g, q1)
         | (q1, Inr cands) \<Rightarrow>
             (case acquire_in e (g, q1) of
                (g1, Inl err) \<Rightarrow> reject e err (g1, q1)
              | (g1, Inr sl) \<Rightarrow> released sl (forward_in e cands (g1, q1))))"

definition handleSimple :: "request_env \<Rightarrow> proto \<Rightarrow> string \<Rightarrow> gw \<Rightarrow> gw \<times> req" where
  "handleSimple e p i g =
     (case prepare_in e (g, newRequest i p (re_now e)) of
        (gq, Some err) \<Rightarrow> reject e err gq
      | (gq, None) \<Rightarrow> runSimple e gq)"

definition HandleCustom :: "request_env \<Rightarrow> string \<Rightarrow> string \<Rightarrow> gw \<Rightarrow> gw \<times> req" where
  "HandleCustom e path i g =
     (let q = (newRequest i ProtoCustomJSON (re_now e))\<lparr>rq_endpoint := CustomEndpointPath path\<rparr>
      in if rq_endpoint q = '''' \<or> IsReservedEndpoint (rq_endpoint q) then reject e ErrEndpointNotFound (g, q)
         else case prepareCustom (re_lower e) (re_keys e) (re_look e) (re_snap e) (re_perf e) (re_others e) (re_now e) (re_in e) (g, q) of
                (gq, Some err) \<Rightarrow> reject e err gq
              | (gq, None) \<Rightarrow> runSimple e gq)"

text \<open>The endpoints; the path of an image request only selects the upstream's URL.\<close>

definition HandleChat :: "request_env \<Rightarrow> string \<Rightarrow> gw \<Rightarrow> audit \<Rightarrow> (gw \<times> req) \<times> audit" where
  "HandleChat e = handleText e ProtoOpenAIChat"

definition HandleResponses :: "request_env \<Rightarrow> string \<Rightarrow> gw \<Rightarrow> audit \<Rightarrow> (gw \<times> req) \<times> audit" where
  "HandleResponses e = handleText e ProtoOpenAIResponses"

definition HandleMessages :: "request_env \<Rightarrow> string \<Rightarrow> gw \<Rightarrow> audit \<Rightarrow> (gw \<times> req) \<times> audit" where
  "HandleMessages e = handleText e ProtoAnthropicMessages"

definition HandleEmbeddings :: "request_env \<Rightarrow> string \<Rightarrow> gw \<Rightarrow> gw \<times> req" where
  "HandleEmbeddings e = handleSimple e ProtoOpenAIEmbeddings"

definition handleImages :: "request_env \<Rightarrow> string \<Rightarrow> gw \<Rightarrow> gw \<times> req" where
  "handleImages e = handleSimple e ProtoOpenAIImages"

section \<open>What every stage keeps\<close>

definition memory_back :: "request_env \<Rightarrow> gw \<Rightarrow> budget set" where
  "memory_back e g = {gw_budget g, budget_decided (re_others e) (reservation (re_perf e) (in_length (re_in e))) (gw_budget g)}"

definition underway :: "request_env \<Rightarrow> gw \<Rightarrow> gw \<times> req \<Rightarrow> bool" where
  \<comment> \<open>a request that holds no slots and has neither been answered nor forwarded\<close>
  "underway e g gq \<longleftrightarrow>
     gw_gate (fst gq) \<in> {gw_gate g, gate_decided (re_queue e) (gw_gate g)} \<and>
     cm_count (gw_groups (fst gq)) = cm_count (gw_groups g) \<and>
     cm_count (gw_apikeys (fst gq)) = cm_count (gw_apikeys g) \<and>
     gw_accounts (fst gq) = gw_accounts g \<and> gw_logs (fst gq) = gw_logs g \<and>
     given_back (fst gq) (snd gq) \<in> memory_back e g \<and>
     \<not> rq_wrote (snd gq) \<and> rq_out (snd gq) = [] \<and> rq_attempts (snd gq) = []"

definition answered_once :: "request_env \<Rightarrow> gw \<Rightarrow> gw \<times> req \<Rightarrow> bool" where
  "answered_once e g gq \<longleftrightarrow>
     gw_gate (fst gq) \<in> {gw_gate g, gate_decided (re_queue e) (gw_gate g)} \<and>
     cm_count (gw_groups (fst gq)) = cm_count (gw_groups g) \<and>
     cm_count (gw_apikeys (fst gq)) = cm_count (gw_apikeys g) \<and>
     cm_count (gw_accounts (fst gq)) = cm_count (gw_accounts g) \<and>
     gw_budget (fst gq) \<in> memory_back e g \<and> gw_logs (fst gq) = gw_logs g @ [rq_log (snd gq)] \<and>
     ((\<exists>r. rq_out (snd gq) = [r]) \<or> rq_out (snd gq) = [] \<and> cl_status (rq_log (snd gq)) = 499)"

definition fresh_request :: "req \<Rightarrow> bool" where
  "fresh_request q \<longleftrightarrow> rq_attempts q = [] \<and> rq_out q = [] \<and> \<not> rq_wrote q \<and> rq_reserved q = 0"

lemma fresh_newRequest [simp]: "fresh_request (newRequest i p t)"
  by (simp add: fresh_request_def newRequest_def)

lemma fresh_update [simp]:
  "fresh_request (q\<lparr>rq_endpoint := x\<rparr>) = fresh_request q" "fresh_request (q\<lparr>rq_path_model := x\<rparr>) = fresh_request q"
  "fresh_request (q\<lparr>rq_path_stream := b\<rparr>) = fresh_request q"
  by (simp_all add: fresh_request_def)

definition memory_sane :: "request_env \<Rightarrow> gw \<Rightarrow> bool" where
  "memory_sane e g \<longleftrightarrow> 0 \<le> b_used (budget_decided (re_others e) (reservation (re_perf e) (in_length (re_in e))) (gw_budget g))"

lemma underway_start: "fresh_request q \<Longrightarrow> underway e g (g, q)"
  by (simp add: underway_def fresh_request_def given_back_def memory_back_def)

lemma prepare_underway:
  assumes prep: "prepare_in e (g, q) = ((g1, q1), r)" and new: "fresh_request q" and pos: "memory_sane e g"
  shows "underway e g (g1, q1)" and "gw_groups g1 = gw_groups g" and "gw_apikeys g1 = gw_apikeys g"
    and "gw_gate g1 = gw_gate g"
proof -
  note fr = prepare_frame [OF prep [unfolded prepare_in_def], unfolded Let_def]
  obtain b rt where g1: "g1 = g\<lparr>gw_budget := b, gw_rates := rt\<rparr>" using fr by (auto simp: same_but_rates_def)
  have "given_back g1 q1 \<in> memory_back e g"
    using fr new pos reservation_pos [of "re_perf e" "in_length (re_in e)"]
    by (auto simp: given_back_def memory_back_def fresh_request_def budget_release_def memory_sane_def Let_def)
  with fr new g1 show "underway e g (g1, q1)"
    by (auto simp: underway_def untouched_def fresh_request_def)
  show "gw_groups g1 = gw_groups g" "gw_apikeys g1 = gw_apikeys g" "gw_gate g1 = gw_gate g" using g1 by simp_all
qed

lemma underway_log [simp]:
  "underway e g (g1, q\<lparr>rq_log := l\<rparr>) = underway e g (g1, q)" "underway e g (g1, q\<lparr>rq_stream := b\<rparr>) = underway e g (g1, q)"
  by (simp_all add: underway_def given_back_def)

lemma candidates_log: "candidates simple routed mgs s q = (q', r) \<Longrightarrow> \<exists>l. q' = q\<lparr>rq_log := l\<rparr>"
proof -
  assume c: "candidates simple routed mgs s q = (q', r)"
  have same: "\<exists>l. q = q\<lparr>rq_log := l\<rparr>" by (intro exI [of _ "rq_log q"]) simp
  from c show ?thesis
    by (auto simp: candidates_def Let_def same split: if_splits option.splits prod.splits)
qed

lemma candidates_underway: "candidates_in e q = (q', r) \<Longrightarrow> underway e g (g1, q') = underway e g (g1, q)"
  using candidates_log by (fastforce simp: candidates_in_def split: prod.splits)

lemma release_slots_frame [simp]:
  "gw_accounts (release_slots sl g) = gw_accounts g" "gw_logs (release_slots sl g) = gw_logs g"
  "gw_budget (release_slots sl g) = gw_budget g"
  by (simp_all add: release_slots_def)

lemma released_pools:
  "pools g' = pools g \<Longrightarrow> gw_gate (release_slots sl g') = gw_gate (release_slots sl g) \<and>
     gw_groups (release_slots sl g') = gw_groups (release_slots sl g) \<and>
     gw_apikeys (release_slots sl g') = gw_apikeys (release_slots sl g)"
  by (simp add: pools_def release_slots_def)

lemma underway_answered:
  assumes "underway e g (g1, q1)" and "Forwarding.closed (g1, q1) (g', q')" and "pools g' = pools g1"
    and "cm_count (gw_accounts g') = cm_count (gw_accounts g1)"
  shows "answered_once e g (g', q')"
  using assms by (auto simp: underway_def answered_once_def Forwarding.closed_def pools_def)

lemma underway_released:
  assumes u: "underway e g (released sl (g1, q1))" and c: "Forwarding.closed (g1, q1) (g', q')" and p: "pools g' = pools g1"
    and a: "cm_count (gw_accounts g') = cm_count (gw_accounts g1)"
  shows "answered_once e g (released sl (g', q'))"
proof -
  have b: "given_back (release_slots sl g1) q1 = given_back g1 q1" by (simp add: given_back_def)
  show ?thesis
    using u c a released_pools [OF p, of sl] unfolding underway_def answered_once_def Forwarding.closed_def released_def fst_conv snd_conv b
    by auto
qed

lemma reject_closed:
  assumes "reject e err (g1, q1) = (g', q')"
  shows "Forwarding.closed (g1, q1) (g', q')" and "pools g' = pools g1" and "gw_accounts g' = gw_accounts g1"
    and "keys_of q' = keys_of q1" and "cl_status (rq_log q') = gstatus err"
  using closed_fail [OF assms [unfolded reject_def] refl refl refl] fail_request_frame [OF assms [unfolded reject_def]]
  by auto

lemma reject_answered: "underway e g gq \<Longrightarrow> answered_once e g (reject e err gq)"
  by (metis prod.collapse reject_closed(1-3) underway_answered)

lemma reject_released: "underway e g (released sl gq) \<Longrightarrow> answered_once e g (released sl (reject e err gq))"
  by (metis prod.collapse reject_closed(1-3) underway_released)

lemma acquire_frame:
  assumes "acquire waited grp p g = (g', r)"
  shows "gw_accounts g' = gw_accounts g \<and> gw_logs g' = gw_logs g \<and> gw_budget g' = gw_budget g"
  using assms by (auto simp: acquire_def Let_def split: prod.splits option.splits)

lemma acquire_underway:
  assumes acq: "acquire_in e (g1, q1) = (g2, r)" and u: "underway e g (g1, q1)" and same: "gw_gate g1 = gw_gate g"
    and wf: "cm_wf (gw_groups g1)" "cm_wf (gw_apikeys g1)"
  shows "case r of Inl err \<Rightarrow> underway e g (g2, q1) | Inr sl \<Rightarrow> underway e g (released sl (g2, q1))"
proof (cases "(rq_group q1, rq_principal q1)")
  case (Pair og op)
  show ?thesis
  proof (cases og)
    case None
    with acq Pair u show ?thesis by (auto simp: acquire_in_def)
  next
    case (Some grp)
    show ?thesis
    proof (cases op)
      case None
      with acq Pair Some u show ?thesis by (auto simp: acquire_in_def)
    next
      case p: (Some p)
      have a: "acquire (re_queue e) grp p g1 = (g2, r)" using acq Pair Some p by (simp add: acquire_in_def)
      note out = acquire_outcome [OF wf a] and fr = acquire_frame [OF a]
      have gb: "given_back g2 q1 = given_back g1 q1" using fr by (simp add: given_back_def)
      show ?thesis
      proof (cases r)
        case (Inl err)
        with out fr u same gb show ?thesis by (auto simp: underway_def)
      next
        case (Inr sl)
        have gb2: "given_back (release_slots sl g2) q1 = given_back g1 q1" using fr by (simp add: given_back_def)
        from Inr out fr u same gb2 show ?thesis by (auto simp: underway_def released_def)
      qed
    qed
  qed
qed

definition sane :: "request_env \<Rightarrow> gw \<Rightarrow> bool" where
  "sane e g \<longleftrightarrow> (\<forall>j. http_env (re_attempts e j)) \<and> 0 \<le> fc_max_tries (re_cfg e) \<and> cm_wf (gw_groups g) \<and>
     cm_wf (gw_apikeys g) \<and> cm_wf (gw_accounts g) \<and> memory_sane e g"

lemma forward_released:
  assumes u: "underway e g (released sl gq)" and ok: "sane e g"
  shows "answered_once e g (released sl (forward_in e cands gq))"
proof -
  obtain g1 q1 where gq: "gq = (g1, q1)" by fastforce
  obtain g' q' where f: "forward_in e cands (g1, q1) = (g', q')" by fastforce
  have acc: "gw_accounts g1 = gw_accounts g" using u gq by (simp add: underway_def released_def)
  have wf: "cm_wf (gw_accounts (fst (g1, q1)))" using ok acc by (simp add: sane_def)
  have "\<And>j. http_env (re_attempts e j)" "0 \<le> fc_max_tries (re_cfg e)" using ok by (auto simp: sane_def)
  note out = forward_outcome [OF this(1) wf this(2) f [unfolded forward_in_def]]
  show ?thesis unfolding gq f
    by (rule underway_released [OF u [unfolded gq]]) (use out in simp_all)
qed

section \<open>Every request is closed\<close>

lemma text_answered:
  assumes ok: "sane e g" and new: "fresh_request (setup (newRequest i p (re_now e)))"
    and run: "handleTextWith e setup p i g a = (gq', a')"
  shows "answered_once e g gq'"
proof -
  let ?q = "setup (newRequest i p (re_now e))"
  have ms: "memory_sane e g" and wf: "cm_wf (gw_groups g)" "cm_wf (gw_apikeys g)" using ok by (auto simp: sane_def)
  obtain g1 q1 r where p: "prepare_in e (g, ?q) = ((g1, q1), r)" by (metis prod.collapse)
  note u = prepare_underway [OF p new ms]
  show ?thesis
  proof (cases r)
    case (Some err)
    with run p reject_answered [OF u(1)] show ?thesis by (auto simp: handleTextWith_def)
  next
    case None
    obtain g2 s where a: "acquire_in e (g1, q1) = (g2, s)" by fastforce
    note ua = acquire_underway [OF a u(1) u(4), unfolded u(2,3), OF wf]
    show ?thesis
    proof (cases s)
      case (Inl err)
      with run p None a ua show ?thesis by (auto simp: handleTextWith_def intro: reject_answered)
    next
      case (Inr sl)
      with ua have us: "underway e g (released sl (g2, q1))" by simp
      obtain a1 c where c: "comply (re_guard e) q1 a = (a1, c)" by fastforce
      obtain q2 k where k: "candidates_in e q1 = (q2, k)" by fastforce
      have uk: "underway e g (released sl (g2, q2))"
        using us candidates_underway [OF k] by (simp add: released_def)
      from run p None a Inr c k us uk show ?thesis
        by (auto simp: handleTextWith_def intro: reject_released forward_released [OF _ ok] split: option.splits sum.splits)
    qed
  qed
qed

lemma simple_answered:
  assumes ok: "sane e g" and u: "underway e g (g1, q1)"
    and same: "gw_gate g1 = gw_gate g" "gw_groups g1 = gw_groups g" "gw_apikeys g1 = gw_apikeys g"
  shows "answered_once e g (runSimple e (g1, q1))"
proof -
  have wf: "cm_wf (gw_groups g1)" "cm_wf (gw_apikeys g1)" using ok same by (auto simp: sane_def)
  obtain q2 k where k: "candidates_in e (q1\<lparr>rq_stream := False\<rparr>) = (q2, k)" by fastforce
  have uk: "underway e g (g1, q2)" using u candidates_underway [OF k] by simp
  obtain g2 s where a: "acquire_in e (g1, q2) = (g2, s)" by fastforce
  note ua = acquire_underway [OF a uk same(1) wf]
  show ?thesis
    using k a ua uk
    by (auto simp: runSimple_def intro: reject_answered forward_released [OF _ ok] split: sum.splits)
qed

lemma handleSimple_answered:
  assumes ok: "sane e g"
  shows "answered_once e g (handleSimple e p i g)"
proof -
  obtain g1 q1 r where p: "prepare_in e (g, newRequest i p (re_now e)) = ((g1, q1), r)" by (metis prod.collapse)
  have ms: "memory_sane e g" using ok by (auto simp: sane_def)
  note u = prepare_underway [OF p fresh_newRequest ms]
  show ?thesis
    using p simple_answered [OF ok u(1,4,2,3)] reject_answered [OF u(1)]
    by (auto simp: handleSimple_def split: option.splits)
qed

lemma HandleCustom_answered:
  assumes ok: "sane e g"
  shows "answered_once e g (HandleCustom e path i g)"
proof -
  let ?q = "(newRequest i ProtoCustomJSON (re_now e))\<lparr>rq_endpoint := CustomEndpointPath path\<rparr>"
  have ms: "memory_sane e g" using ok by (auto simp: sane_def)
  have start: "answered_once e g (reject e err (g, ?q))" for err
    by (intro reject_answered underway_start) simp
  obtain g1 q1 r where p: "prepare_in e (g, ?q) = ((g1, q1), r)" by (metis prod.collapse)
  have new: "fresh_request ?q" by simp
  note u = prepare_underway [OF p new ms]
  show ?thesis
    using p start simple_answered [OF ok u(1,4,2,3)] reject_answered [OF u(1)]
    by (auto simp: HandleCustom_def prepareCustom_def Let_def prepare_in_def split: option.splits sum.splits)
qed

text \<open>Property C19: whatever the endpoint and whatever happens on the way, a request is closed exactly
  once and leaves no trace in the shared counters: the gate is left as the request found it, the
  group, key and account counters are what they were, the memory reserved for the body is given
  back, the log gets one entry, the one the request ends with, and the client one reply, or none
  when it has disconnected.\<close>

theorem request_closes_once:
  assumes "sane e g" and "fresh_request (setup (newRequest i p (re_now e)))"
    and "gq' \<in> {fst (handleTextWith e setup p i g a), handleSimple e p i g, HandleCustom e path i g}"
  shows "gw_gate (fst gq') \<in> {gw_gate g, gate_decided (re_queue e) (gw_gate g)} \<and>
    cm_count (gw_groups (fst gq')) = cm_count (gw_groups g) \<and>
    cm_count (gw_apikeys (fst gq')) = cm_count (gw_apikeys g) \<and>
    cm_count (gw_accounts (fst gq')) = cm_count (gw_accounts g) \<and>
    gw_budget (fst gq') \<in> {gw_budget g, budget_decided (re_others e) (reservation (re_perf e) (in_length (re_in e))) (gw_budget g)} \<and>
    gw_logs (fst gq') = gw_logs g @ [rq_log (snd gq')] \<and>
    ((\<exists>r. rq_out (snd gq') = [r]) \<or> rq_out (snd gq') = [] \<and> cl_status (rq_log (snd gq')) = 499)"
proof -
  obtain gq1 a1 where run: "handleTextWith e setup p i g a = (gq1, a1)" by fastforce
  have "answered_once e g gq'"
    using assms(3) run text_answered [OF assms(1,2) run] handleSimple_answered [OF assms(1)]
      HandleCustom_answered [OF assms(1)] by auto
  then show ?thesis by (simp add: answered_once_def memory_back_def)
qed

section \<open>Blocked content\<close>

definition stops :: "guard \<Rightarrow> Verdict \<Rightarrow> bool" where
  "stops c v \<longleftrightarrow> v_hit v \<and> v_block v \<or> v_degraded v \<and> gd_on_failure c = ''block'' \<and> \<not> v_block v"

lemma comply_stops:
  "gd_checker c = Some chk \<Longrightarrow> gd_enabled c \<Longrightarrow>
     (stops c (chk (checked_text c q)) \<longleftrightarrow> snd (comply c q a) \<noteq> None) \<and>
     (stops c (chk (checked_text c q)) \<longrightarrow>
        snd (comply c q a) = Some (if v_block (chk (checked_text c q)) then ErrContentBlocked else ErrComplianceDown))"
  by (auto simp: comply_def stops_def Let_def)

lemma reject_underway:
  assumes "reject e err (g1, q1) = (g', q')" and "underway e g (g0, q1)"
  shows "rq_attempts q' = [] \<and> rq_out q' = [case writeErrorProto (rq_proto q1) err of (st, b) \<Rightarrow> ErrorReply st b] \<and>
    cl_status (rq_log q') = gstatus err"
proof -
  have "keys_of q' = []" using reject_closed(4) [OF assms(1)] assms(2) by (simp add: underway_def keys_of_def)
  then show ?thesis
    using fail_request_frame [OF assms(1) [unfolded reject_def]] assms(2) by (simp add: keys_of_def underway_def)
qed

text \<open>Property C20: a text request is stopped before any upstream is asked when the compliance engine
  blocks its text, or could not check it and failures block: no attempt is made, and the client
  gets exactly one reply, the error of the stage, or that of the queue when the request did not
  even get a slot.\<close>

theorem blocked_never_forwarded:
  assumes prep: "prepare_in e (g, setup (newRequest i p (re_now e))) = ((g1, q1), None)"
    and new: "fresh_request (setup (newRequest i p (re_now e)))" and "memory_sane e g"
    and chk: "gd_checker (re_guard e) = Some chk" "gd_enabled (re_guard e)"
    and stop: "stops (re_guard e) (chk (checked_text (re_guard e) q1))"
    and run: "handleTextWith e setup p i g a = ((g', q'), a')"
  shows "rq_attempts q' = [] \<and>
    (\<exists>err. rq_out q' = [case writeErrorProto (rq_proto q1) err of (st, b) \<Rightarrow> ErrorReply st b] \<and>
       cl_status (rq_log q') = gstatus err \<and>
       (case acquire_in e (g1, q1) of
          (_, Inl busy) \<Rightarrow> err = busy
        | (_, Inr _) \<Rightarrow> err = (if v_block (chk (checked_text (re_guard e) q1)) then ErrContentBlocked else ErrComplianceDown)))"
proof -
  note u = prepare_underway(1) [OF prep new assms(3)]
  obtain g2 s where acq: "acquire_in e (g1, q1) = (g2, s)" by fastforce
  obtain a1 c where c: "comply (re_guard e) q1 a = (a1, c)" by fastforce
  have cc: "c = Some (if v_block (chk (checked_text (re_guard e) q1)) then ErrContentBlocked else ErrComplianceDown)"
    using comply_stops [OF chk, of q1 a] stop c by auto
  show ?thesis
  proof (cases s)
    case (Inl busy)
    then have "reject e busy (g2, q1) = (g', q')" using run prep acq by (simp add: handleTextWith_def)
    from reject_underway [OF this u] Inl acq show ?thesis by auto
  next
    case (Inr sl)
    obtain g3 q3 where r: "reject e (the c) (g2, q1) = (g3, q3)" by fastforce
    have "q' = q3" using run prep acq Inr c cc r by (simp add: handleTextWith_def released_def)
    with reject_underway [OF r u] Inr acq cc show ?thesis by auto
  qed
qed

end
