(* ===== verification/Compat.thy ===== *)
theory Compat
  imports Handlers
begin

text \<open>
  The endpoints beside the pipeline: the model lists and the lookup of one model in the OpenAI
  and the Gemini shape, the dispatch of the Gemini surface, and the two token counters
  (\<open>internal/gateway/compat.go\<close>, \<open>internal/gateway/gemini.go\<close> and \<open>HandleModels\<close>
  of \<open>internal/gateway/handler.go\<close>).
\<close>

section \<open>Which models a caller sees\<close>

definition listing_group :: "Snapshot \<Rightarrow> Principal \<Rightarrow> GroupView option" where
  \<comment> \<open>the group of the lists: unlike \<open>prepare\<close>, a disabled default group is used\<close>
  "listing_group s p =
     (case sn_groups s (GroupID p) of
        None \<Rightarrow> DefaultGroup s
      | Some gv \<Rightarrow> if gv_enabled gv then Some gv else DefaultGroup s)"

definition in_names :: "string \<Rightarrow> string list option \<Rightarrow> bool" where
  \<comment> \<open>a lookup in a map that may be nil\<close>
  "in_names n ns = (case ns of None \<Rightarrow> False | Some xs \<Rightarrow> n \<in> set xs)"

definition listed_to :: "GroupView option \<Rightarrow> ModelInfo \<Rightarrow> bool" where
  "listed_to grp mi =
     (case grp of
        None \<Rightarrow> True
      | Some gv \<Rightarrow> gv_allowed gv = None \<or> in_names (mi_name mi) (gv_allowed gv) \<or>
          mi_kind mi = KindGroup \<and> in_names (mi_name mi) (gv_group_names gv))"

definition HandleModels :: "(string \<Rightarrow> string) \<Rightarrow> (string \<Rightarrow> Principal option) \<Rightarrow> Snapshot \<Rightarrow> credentials \<Rightarrow> gateway_error + ModelInfo list" where
  "HandleModels lower look s cr =
     (case authenticate lower look cr of
        Inl err \<Rightarrow> Inl err
      | Inr p \<Rightarrow> Inr (filter (listed_to (listing_group s p)) (sn_models s)))"

definition hidden :: "GroupView option \<Rightarrow> string \<Rightarrow> bool" where
  "hidden grp n =
     (case grp of
        None \<Rightarrow> False
      | Some gv \<Rightarrow> gv_allowed gv \<noteq> None \<and> \<not> in_names n (gv_allowed gv) \<and> \<not> in_names n (gv_group_names gv))"

definition lookup_model :: "(string \<Rightarrow> string) \<Rightarrow> string list \<Rightarrow> Snapshot \<Rightarrow> Principal \<Rightarrow> string \<Rightarrow> gateway_error \<Rightarrow> gateway_error + string \<times> api_type option" where
  \<comment> \<open>what both single-model handlers do after authentication\<close>
  "lookup_model lower keys s p n ambiguous =
     (case ResolveDetail lower keys s n None of
        ResolveAmbiguous \<Rightarrow> Inl ambiguous
      | ResolveUnknown \<Rightarrow> Inl ErrModelNotFound
      | ResolveFound c t \<Rightarrow> if hidden (listing_group s p) c then Inl ErrModelNotFound else Inr (c, t))"

definition several_models :: "string \<Rightarrow> gateway_error" where
  "several_models n = newErr 400 ''model_ambiguous'' (''Model '' @ quoted n @ '' matches more than one configured model'')"

definition HandleModel :: "(string \<Rightarrow> string) \<Rightarrow> string list \<Rightarrow> (string \<Rightarrow> Principal option) \<Rightarrow> Snapshot \<Rightarrow> credentials \<Rightarrow> string \<Rightarrow>
    gateway_error + ModelInfo + string \<times> api_type option" where
  \<comment> \<open>the listed entry, or the name and type of a pass-through model\<close>
  "HandleModel lower keys look s cr path =
     (case authenticate lower look cr of
        Inl err \<Rightarrow> Inl err
      | Inr p \<Rightarrow>
          let n = trim_prefix path ''/v1/models/''
          in case lookup_model lower keys s p n (several_models n) of
               Inl err \<Rightarrow> Inl err
             | Inr (c, t) \<Rightarrow>
                 (case List.find (\<lambda>mi. mi_name mi = c) (sn_models s) of
                    Some mi \<Rightarrow> Inr (Inl mi)
                  | None \<Rightarrow> Inr (Inr (c, t))))"

section \<open>The Gemini surface\<close>

record gemini_entry =
  ge_name :: string
  ge_display :: string
  ge_methods :: "string list"

definition geminiModelEntry :: "string \<Rightarrow> api_type option \<Rightarrow> gemini_entry" where
  \<comment> \<open>the constant fields are left out\<close>
  "geminiModelEntry n t =
     \<lparr>ge_name = ''models/'' @ n, ge_display = n,
      ge_methods = (if t = Some TypeEmbedding then [''embedContent'']
                    else [''generateContent'', ''streamGenerateContent'', ''countTokens''])\<rparr>"

definition handleGeminiModels :: "(string \<Rightarrow> string) \<Rightarrow> (string \<Rightarrow> Principal option) \<Rightarrow> Snapshot \<Rightarrow> credentials \<Rightarrow> gateway_error + gemini_entry list" where
  "handleGeminiModels lower look s cr =
     (case authenticate lower look cr of
        Inl err \<Rightarrow> Inl err
      | Inr p \<Rightarrow>
          Inr (map (\<lambda>mi. geminiModelEntry (mi_name mi) (Some (mi_type mi)))
                (filter (\<lambda>mi. listed_to (listing_group s p) mi \<and> mi_type mi \<in> {TypeText, TypeEmbedding}) (sn_models s))))"

definition handleGeminiModel :: "(string \<Rightarrow> string) \<Rightarrow> string list \<Rightarrow> (string \<Rightarrow> Principal option) \<Rightarrow> Snapshot \<Rightarrow> credentials \<Rightarrow> string \<Rightarrow>
    gateway_error + gemini_entry" where
  "handleGeminiModel lower keys look s cr n =
     (case authenticate lower look cr of
        Inl err \<Rightarrow> Inl err
      | Inr p \<Rightarrow>
          (case lookup_model lower keys s p n (several_models n) of
             Inl err \<Rightarrow> Inl err
           | Inr (c, t) \<Rightarrow> Inr (geminiModelEntry c t)))"

definition raw_size :: "(json \<Rightarrow> nat) \<Rightarrow> string \<Rightarrow> req \<Rightarrow> nat" where
  \<comment> \<open>the length of the raw bytes of a field; \<open>rawlen\<close>: that of a value\<close>
  "raw_size rawlen k q = (case raw_field k (rq_raw q) of None \<Rightarrow> 0 | Some v \<Rightarrow> rawlen v)"

definition give_back :: "gw \<times> req \<Rightarrow> gw" where
  \<comment> \<open>the deferred release of the memory reservation\<close>
  "give_back gq = (fst gq)\<lparr>gw_budget := given_back (fst gq) (snd gq)\<rparr>"

definition handleGeminiCountTokens :: "request_env \<Rightarrow> (json \<Rightarrow> nat) \<Rightarrow> string \<Rightarrow> string \<Rightarrow> gw \<Rightarrow> gw \<times> (gateway_error + nat)" where
  "handleGeminiCountTokens e rawlen n i g =
     (case prepare_in e (g, (newRequest i ProtoGemini (re_now e))\<lparr>rq_path_model := n\<rparr>) of
        (gq, Some err) \<Rightarrow> (give_back gq, Inl err)
      | (gq, None) \<Rightarrow>
          (give_back gq,
           Inr ((raw_size rawlen ''contents'' (snd gq) + raw_size rawlen ''systemInstruction'' (snd gq) +
                 raw_size rawlen ''generateContentRequest'' (snd gq) + 3) div 4)))"

datatype gemini_call =
    GeminiModels
  | GeminiModel string
  | GeminiGenerate string bool
  | GeminiCount string
  | GeminiNotFound string

definition cut_colon :: "string \<Rightarrow> string \<times> string" where
  \<comment> \<open>\<open>strings.Cut(s, ":")\<close>\<close>
  "cut_colon s = (takeWhile (\<lambda>c. c \<noteq> CHR '':'') s, tl (dropWhile (\<lambda>c. c \<noteq> CHR '':'') s))"

definition gemini_path :: "string \<Rightarrow> string" where
  "gemini_path p =
     (let p1 = (if has_prefix p ''/v1beta/'' then drop 8 p else if has_prefix p ''/v1/'' then drop 4 p else p)
      in if has_suffix p1 ''/'' then butlast p1 else p1)"

definition gemini_dispatch :: "bool \<Rightarrow> bool \<Rightarrow> string \<Rightarrow> gemini_call" where
  \<comment> \<open>the switches of \<open>HandleGemini\<close>; the method is GET, POST or another\<close>
  "gemini_dispatch get post p =
     (let path = gemini_path p; unknown = GeminiNotFound (''Unknown Gemini endpoint '' @ quoted p)
      in if path = ''models'' then (if get then GeminiModels else GeminiNotFound ''Unknown Gemini endpoint'')
         else if has_prefix path ''models/'' then
           let (n0, action) = cut_colon (drop 7 path); n = trim_prefix n0 ''models/''
           in if action = '''' \<and> get then GeminiModel n
              else if action = ''generateContent'' \<and> post then GeminiGenerate n False
              else if action = ''streamGenerateContent'' \<and> post then GeminiGenerate n True
              else if action = ''countTokens'' \<and> post then GeminiCount n
              else unknown
         else unknown)"

datatype gemini_answer =
    AnswerError gateway_error
  | AnswerModels "gemini_entry list"
  | AnswerModel gemini_entry
  | AnswerTokens nat
  | AnswerRequest req \<comment> \<open>answered by the pipeline\<close>

definition answer_of :: "('a \<Rightarrow> gemini_answer) \<Rightarrow> gateway_error + 'a \<Rightarrow> gemini_answer" where
  "answer_of f r = (case r of Inl err \<Rightarrow> AnswerError err | Inr x \<Rightarrow> f x)"

definition name_required :: gateway_error where
  "name_required = newErr 400 ''missing_model'' ''The model name is required in the URL''"

definition handleGeminiGenerate :: "request_env \<Rightarrow> string \<Rightarrow> bool \<Rightarrow> string \<Rightarrow> gw \<Rightarrow> audit \<Rightarrow> (gw \<times> audit) \<times> gemini_answer" where
  "handleGeminiGenerate e n stream i g a =
     (if n = '''' then ((g, a), AnswerError name_required)
      else let ((g1, q1), a1) = handleTextWith e (\<lambda>q. q\<lparr>rq_path_model := n, rq_path_stream := stream\<rparr>) ProtoGemini i g a
           in ((g1, a1), AnswerRequest q1))"

definition HandleGemini :: "request_env \<Rightarrow> (json \<Rightarrow> nat) \<Rightarrow> bool \<Rightarrow> bool \<Rightarrow> string \<Rightarrow> string \<Rightarrow> gw \<Rightarrow> audit \<Rightarrow> (gw \<times> audit) \<times> gemini_answer" where
  "HandleGemini e rawlen get post path i g a =
     (let cr = in_credentials (re_in e)
      in case gemini_dispatch get post path of
           GeminiModels \<Rightarrow> ((g, a), answer_of AnswerModels (handleGeminiModels (re_lower e) (re_look e) (re_snap e) cr))
         | GeminiModel n \<Rightarrow> ((g, a), answer_of AnswerModel (handleGeminiModel (re_lower e) (re_keys e) (re_look e) (re_snap e) cr n))
         | GeminiGenerate n stream \<Rightarrow> handleGeminiGenerate e n stream i g a
         | GeminiCount n \<Rightarrow> (let (g1, r) = handleGeminiCountTokens e rawlen n i g in ((g1, a), answer_of AnswerTokens r))
         | GeminiNotFound msg \<Rightarrow> ((g, a), AnswerError (newErr 404 ''not_found'' msg)))"

section \<open>Counting tokens upstream\<close>

datatype count_call =
    CountFailed \<comment> \<open>no response, or its body could not be read\<close>
  | CountAnswered int string

definition proxyCountTokens :: "count_call \<Rightarrow> (int \<times> string) option" where
  \<comment> \<open>what is passed on to the client; None: the next account is tried\<close>
  "proxyCountTokens c =
     (case c of
        CountFailed \<Rightarrow> None
      | CountAnswered st body \<Rightarrow> if st \<ge> 500 \<or> st = 404 then None else Some (st, body))"

definition count_skips :: "Upstream \<Rightarrow> time \<Rightarrow> gw \<Rightarrow> gw \<times> nat option" where
  \<comment> \<open>the guards; the counter taken, or the account is skipped\<close>
  "count_skips up now g =
     (if \<not> HasProtocol up ProtoAnthropicMessages then (g, None)
      else
        let (h, ok) = available (up_id up) now (gw_health g); g1 = g\<lparr>gw_health := h\<rparr>
        in if \<not> ok then (g1, None)
           else let (cm, ptr) = cm_get (up_id up) (gw_accounts g1)
                in case cm_try (up_max_concurrency up) ptr cm of
                     None \<Rightarrow> (g1\<lparr>gw_accounts := cm\<rparr>, None)
                   | Some cm' \<Rightarrow> (g1\<lparr>gw_accounts := cm'\<rparr>, Some ptr))"

fun count_ups :: "(nat \<Rightarrow> time \<times> count_call) \<Rightarrow> Upstream list \<Rightarrow> nat \<Rightarrow> gw \<Rightarrow> nat \<times> gw \<times> (int \<times> string) option" where
  "count_ups env [] k g = (k, g, None)"
| "count_ups env (up # ups) k g =
     (let (now, c) = env k
      in case count_skips up now g of
           (g1, None) \<Rightarrow> count_ups env ups (Suc k) g1
         | (g1, Some ptr) \<Rightarrow>
             (let g2 = release_account ptr g1
              in case proxyCountTokens c of
                   Some r \<Rightarrow> (Suc k, g2, Some r)
                 | None \<Rightarrow> count_ups env ups (Suc k) g2))"

datatype count_reply =
    CountError gateway_error
  | CountProxied int string
  | CountEstimate nat

definition count_accounts :: "Snapshot \<Rightarrow> req \<Rightarrow> Upstream list" where
  \<comment> \<open>the accounts of all candidates, in the order of the two loops\<close>
  "count_accounts s q =
     concat (map (candidate_accounts s TypeText)
       (case groupByName s (rq_model q) of Some mg \<Rightarrow> mg_models mg | None \<Rightarrow> [rq_model q]))"

definition HandleCountTokens :: "request_env \<Rightarrow> (nat \<Rightarrow> time \<times> count_call) \<Rightarrow> string \<Rightarrow> gw \<Rightarrow> gw \<times> count_reply" where
  "HandleCountTokens e env i g =
     (case prepare_in e (g, newRequest i ProtoAnthropicMessages (re_now e)) of
        (gq, Some err) \<Rightarrow> (give_back gq, CountError err)
      | ((g1, q1), None) \<Rightarrow>
          (case acquire_in e (g1, q1) of
             (g2, Inl err) \<Rightarrow> (give_back (g2, q1), CountError err)
           | (g2, Inr sl) \<Rightarrow>
               (let (k, g3, r) = count_ups env (count_accounts (re_snap e) q1) 0 g2
                in (give_back (released sl (g3, q1)),
                    case r of Some (st, body) \<Rightarrow> CountProxied st body
                    | None \<Rightarrow> CountEstimate (length (rq_body q1) div 4)))))"

section \<open>What the lists show\<close>

definition kinds_ok :: "Snapshot \<Rightarrow> bool" where
  \<comment> \<open>the entries of kind group are the model groups that can be requested by name\<close>
  "kinds_ok s \<longleftrightarrow>
     (\<forall>mi\<in>set (sn_models s). modelType s (mi_name mi) \<noteq> None \<and>
        (mi_kind mi = KindGroup \<longleftrightarrow> groupByName s (mi_name mi) \<noteq> None)) \<and>
     (\<forall>n mg. groupByName s n = Some mg \<longrightarrow> mg_name mg = n)"

lemma kinds_ok_base:
  assumes "set order \<subseteq> dom (sc_type sc)"
  shows "kinds_ok (add_virtual e vm (base_snapshot lower order now sc))"
proof -
  have "sc_type sc m \<noteq> None" if "m \<in> set order" for m using assms that by blast
  then show ?thesis
    by (auto simp: kinds_ok_def add_virtual_def base_snapshot_def model_info_def split: prod.splits)
qed

lemma kinds_ok_group: "kinds_ok s \<Longrightarrow> kinds_ok (add_model_group mg s)"
  by (auto simp: kinds_ok_def add_model_group_def Let_def)

lemma kinds_ok_build:
  assumes "set order \<subseteq> dom (sc_type sc)"
  shows "kinds_ok (build lower order now e vm sc mgs ugs)"
proof -
  have grp: "kinds_ok (fold add_model_group mgs s)" if "kinds_ok s" for s
    using that by (induction mgs arbitrary: s) (simp_all add: kinds_ok_group)
  have usr: "kinds_ok (fold add_user_group ugs s) = kinds_ok s" for s
    by (induction ugs arbitrary: s) (simp_all add: kinds_ok_def add_user_group_def Let_def)
  show ?thesis unfolding build_def usr by (intro grp kinds_ok_base assms)
qed

lemma listing_effective: "effective_group s p = Some grp \<Longrightarrow> listing_group s p = Some grp"
  by (auto simp: effective_group_def listing_group_def split: option.splits if_splits)

lemma listed_allowed:
  assumes "kinds_ok s" and "mi \<in> set (sn_models s)"
  shows "listed_to (Some grp) mi \<longleftrightarrow> model_allowed s grp (mi_name mi)"
proof -
  have k: "mi_kind mi = KindGroup \<longleftrightarrow> groupByName s (mi_name mi) \<noteq> None"
    and n: "\<And>mg. groupByName s (mi_name mi) = Some mg \<Longrightarrow> mg_name mg = mi_name mi"
    using assms by (auto simp: kinds_ok_def)
  show ?thesis
    using k n by (auto simp: listed_to_def model_allowed_def in_names_def split: option.splits)
qed

text \<open>For a caller whose requests can be authorised at all, the model list shows exactly
  the models of the snapshot its group may request: what \<open>prepare\<close> checks for a request, by
  the model's name or the name of a granted model group, is what the list shows.\<close>

lemma models_listed_iff_allowed:
  assumes "set order = dom (sc_by_model (scan_accounts decrypt auth_header accts))"
    and s: "s = build lower order now e vm (scan_accounts decrypt auth_header accts) mgs ugs"
    and "authenticate lower look cr = Inr p" and "effective_group s p = Some grp"
  shows "\<exists>ms. HandleModels lower look s cr = Inr ms \<and>
    (\<forall>mi. mi \<in> set ms \<longleftrightarrow> mi \<in> set (sn_models s) \<and> model_allowed s grp (mi_name mi))"
proof -
  have "kinds_ok s" unfolding s by (rule kinds_ok_build) (simp add: assms(1) scan_typed)
  then show ?thesis
    using assms(3,4) listed_allowed by (auto simp: HandleModels_def listing_effective)
qed

section \<open>What counting tokens leaves behind\<close>

lemma count_skips_frame:
  assumes wf: "cm_wf (gw_accounts g)" and s: "count_skips up now g = (g1, r)"
  shows "gw_gate g1 = gw_gate g \<and> gw_groups g1 = gw_groups g \<and> gw_apikeys g1 = gw_apikeys g \<and> gw_logs g1 = gw_logs g \<and>
    gw_budget g1 = gw_budget g \<and>
    (case r of
       None \<Rightarrow> cm_wf (gw_accounts g1) \<and> cm_count (gw_accounts g1) = cm_count (gw_accounts g)
     | Some ptr \<Rightarrow> cm_wf (cm_release ptr (gw_accounts g1)) \<and>
         cm_count (cm_release ptr (gw_accounts g1)) = cm_count (gw_accounts g))"
proof (cases "cm_get (up_id up) (gw_accounts g)")
  case (Pair cm ptr)
  have cwf: "cm_wf cm" "cm_map cm (up_id up) = Some ptr"
    using cm_get_wf [OF wf, of "up_id up"] cm_get_pointer [OF wf Pair] Pair by auto
  have cc: "cm_count cm = cm_count (gw_accounts g)" by (rule ext) (rule cm_count_get [OF wf Pair])
  have taken: "cm_wf (cm_release ptr cm') \<and> cm_count (cm_release ptr cm') = cm_count (gw_accounts g)"
    if t: "cm_try (up_max_concurrency up) ptr cm = Some cm'" for cm'
  proof -
    have w: "cm_wf cm'" using cm_try_wf [OF cwf(1) t] .
    have "cm_map cm' (up_id up) = Some ptr" using cm_count_try(2) [OF cwf t] cwf(2) by simp
    from cm_count_release(1) [OF w this] cm_count_try(1) [OF cwf t] cc
    have "cm_count (cm_release ptr cm') j = cm_count (gw_accounts g) j" for j by simp
    then show ?thesis using cm_release_wf [OF w] by (simp add: fun_eq_iff)
  qed
  show ?thesis
    using s Pair cwf cc taken wf by (auto simp: count_skips_def Let_def split: if_splits prod.splits option.splits)
qed

lemma count_ups_frame:
  assumes "cm_wf (gw_accounts g)" and "count_ups env ups k g = (k', g', r)"
  shows "pools g' = pools g \<and> gw_logs g' = gw_logs g \<and> gw_budget g' = gw_budget g \<and>
    cm_wf (gw_accounts g') \<and> cm_count (gw_accounts g') = cm_count (gw_accounts g)"
  using assms
proof (induction ups arbitrary: k g)
  case Nil
  then show ?case by simp
next
  case (Cons up ups)
  obtain now c where e: "env k = (now, c)" by fastforce
  obtain g1 s where sk: "count_skips up now g = (g1, s)" by fastforce
  note f = count_skips_frame [OF Cons.prems(1) sk]
  show ?case
  proof (cases s)
    case None
    with f Cons.prems e sk Cons.IH [of g1 "Suc k"] show ?thesis by (simp add: pools_def)
  next
    case (Some ptr)
    let ?g2 = "release_account ptr g1"
    have p: "pools ?g2 = pools g \<and> gw_logs ?g2 = gw_logs g \<and> gw_budget ?g2 = gw_budget g \<and>
        cm_wf (gw_accounts ?g2) \<and> cm_count (gw_accounts ?g2) = cm_count (gw_accounts g)"
      using f Some by (simp add: pools_def release_account_def)
    with Cons.prems e sk Some Cons.IH [of ?g2 "Suc k"] show ?thesis
      by (cases "proxyCountTokens c") (auto simp: Let_def)
  qed
qed

lemma give_back_frame:
  "gw_gate (give_back gq) = gw_gate (fst gq)" "gw_groups (give_back gq) = gw_groups (fst gq)"
  "gw_apikeys (give_back gq) = gw_apikeys (fst gq)" "gw_accounts (give_back gq) = gw_accounts (fst gq)"
  "gw_logs (give_back gq) = gw_logs (fst gq)" "gw_budget (give_back gq) = given_back (fst gq) (snd gq)"
  by (simp_all add: give_back_def)

definition no_trace :: "request_env \<Rightarrow> gw \<Rightarrow> gw \<Rightarrow> bool" where
  "no_trace e g g' \<longleftrightarrow>
     gw_gate g' \<in> {gw_gate g, gate_decided (re_queue e) (gw_gate g)} \<and>
     cm_count (gw_groups g') = cm_count (gw_groups g) \<and> cm_count (gw_apikeys g') = cm_count (gw_apikeys g) \<and>
     cm_count (gw_accounts g') = cm_count (gw_accounts g) \<and> gw_budget g' \<in> memory_back e g \<and> gw_logs g' = gw_logs g"

lemma underway_no_trace: "underway e g gq \<Longrightarrow> no_trace e g (give_back gq)"
  by (simp add: underway_def no_trace_def give_back_frame)

lemma gemini_count_no_trace:
  assumes "memory_sane e g" and run: "handleGeminiCountTokens e rawlen n i g = (g', r)"
  shows "no_trace e g g'"
proof -
  let ?q = "(newRequest i ProtoGemini (re_now e))\<lparr>rq_path_model := n\<rparr>"
  obtain g1 q1 s where p: "prepare_in e (g, ?q) = ((g1, q1), s)" by (metis prod.collapse)
  have new: "fresh_request ?q" by simp
  from underway_no_trace [OF prepare_underway(1) [OF p new assms(1)]] run p show ?thesis
    by (auto simp: handleGeminiCountTokens_def split: option.splits)
qed

text \<open>Counting tokens is bounded by the same limits as a request and gives everything
  back: a slot at the gate, for the group, for the key and for every account asked is held while
  it runs, and afterwards all counters, the memory budget and the log are as before.\<close>

lemma count_tokens_no_trace:
  assumes wf: "cm_wf (gw_groups g)" "cm_wf (gw_apikeys g)" "cm_wf (gw_accounts g)" and ms: "memory_sane e g"
    and run: "HandleCountTokens e env i g = (g', r)"
  shows "gw_gate g' \<in> {gw_gate g, gate_decided (re_queue e) (gw_gate g)} \<and>
    cm_count (gw_groups g') = cm_count (gw_groups g) \<and> cm_count (gw_apikeys g') = cm_count (gw_apikeys g) \<and>
    cm_count (gw_accounts g') = cm_count (gw_accounts g) \<and> gw_budget g' \<in> memory_back e g \<and> gw_logs g' = gw_logs g"
proof -
  let ?q = "newRequest i ProtoAnthropicMessages (re_now e)"
  obtain g1 q1 s where p: "prepare_in e (g, ?q) = ((g1, q1), s)" by (metis prod.collapse)
  note u = prepare_underway [OF p fresh_newRequest ms]
  have "no_trace e g g'"
  proof (cases s)
    case (Some err)
    with run p underway_no_trace [OF u(1)] show ?thesis by (simp add: HandleCountTokens_def)
  next
    case None
    obtain g2 t where a: "acquire_in e (g1, q1) = (g2, t)" by fastforce
    note ua = acquire_underway [OF a u(1) u(4), unfolded u(2,3), OF wf(1,2)]
    show ?thesis
    proof (cases t)
      case (Inl err)
      with ua have "no_trace e g (give_back (g2, q1))" by (simp add: underway_no_trace)
      with run p None a Inl show ?thesis by (simp add: HandleCountTokens_def)
    next
      case (Inr sl)
      with ua have us: "underway e g (released sl (g2, q1))" by simp
      obtain k g3 x where c: "count_ups env (count_accounts (re_snap e) q1) 0 g2 = (k, g3, x)" by (metis prod_cases3)
      have "cm_wf (gw_accounts g2)" using us wf(3) by (simp add: underway_def released_def)
      note f = count_ups_frame [OF this c]
      have "no_trace e g (give_back (released sl (g3, q1)))"
        using us f released_pools [of g3 g2 sl]
        by (auto simp: underway_def no_trace_def give_back_frame released_def given_back_def split: if_splits)
      with run p None a Inr c show ?thesis by (simp add: HandleCountTokens_def)
    qed
  qed
  then show ?thesis by (simp add: no_trace_def)
qed

text \<open>
  A count asks \<open>available\<close> like a request, and so takes the half-open probe of an account
  whose cooldown has just ended; but it never reports how the call went.
\<close>

text \<open>When a count is the first to reach an account after its cooldown, the account
  stays unavailable to every request for the whole probe timeout, although it has just answered.\<close>

lemma count_uses_up_probe:
  assumes "gw_health g (up_id up) = Some s" and "failures s \<noteq> 0" and "now \<ge> cooldownUntil s"
    and "count_skips up now g = (g1, Some ptr)" and "env k = (now, CountAnswered 200 body)"
  shows "\<exists>g'. count_ups env (up # ups) k g = (Suc k, g', Some (200, body)) \<and>
    (\<forall>t. now \<le> t \<longrightarrow> t < now + probeTimeout \<longrightarrow> \<not> snd (available (up_id up) t (gw_health g')))"
proof -
  have h: "gw_health g1 (up_id up) = Some (s\<lparr>probing := True, probeSince := now\<rparr>)"
    using assms(1-4) by (auto simp: count_skips_def available_def Let_def split: if_splits prod.splits option.splits)
  then show ?thesis
    using assms(2,4,5) by (auto simp: proxyCountTokens_def release_account_def available_def)
qed

section \<open>Sample\<close>

definition sample_guard :: guard where
  "sample_guard = \<lparr>gd_checker = Some (\<lambda>_. unavailable ''down''), gd_enabled = True, gd_system = False,
     gd_on_failure = ''pass'', gd_now = 100, gd_logger = True\<rparr>"

definition sample_route :: route_env where
  "sample_route = \<lparr>rt_simple = 0, rt_router = None, rt_groups = []\<rparr>"

definition sample_in :: request_env where
  "sample_in = \<lparr>re_lower = ascii_lower, re_keys = [''demo''], re_look = sample_look, re_snap = sample_snapshot,
     re_perf = sample_perf, re_others = (\<lambda>b. b), re_queue = (\<lambda>g. g), re_now = second, re_end = 5 * second,
     re_in = sample_incoming ''demo'', re_guard = sample_guard, re_route = sample_route, re_cfg = sample_cfg,
     re_attempts = sample_envs, re_draws = (\<lambda>_ _. 0)\<rparr>"

lemma sample_memory: "memory_sane sample_in sample_gw"
  unfolding memory_sane_def by code_simp

lemma sample_wf: "cm_wf (gw_groups sample_gw)" "cm_wf (gw_apikeys sample_gw)" "cm_wf (gw_accounts sample_gw)"
  by (simp_all add: sample_gw_def newCounterMap_def cm_wf_def)

lemma sample_sane: "sane sample_in sample_gw"
proof -
  have "0 \<le> fc_max_tries sample_cfg" by code_simp
  then show ?thesis
    using sample_envs_http(1) sample_wf sample_memory by (simp add: sane_def sample_in_def)
qed

lemma request_closes_once_witness:
  "length (gw_logs (fst (handleSimple sample_in ProtoOpenAIEmbeddings ''r1'' sample_gw))) = 1"
  using request_closes_once [OF sample_sane, of "\<lambda>q. q" "''r1''" ProtoOpenAIEmbeddings
      "handleSimple sample_in ProtoOpenAIEmbeddings ''r1'' sample_gw"]
  by (simp add: sample_gw_def)

lemma count_tokens_no_trace_witness:
  "gw_logs (fst (HandleCountTokens sample_in (\<lambda>_. (second, CountFailed)) ''r1'' sample_gw)) = []"
proof -
  obtain g' r where run: "HandleCountTokens sample_in (\<lambda>_. (second, CountFailed)) ''r1'' sample_gw = (g', r)" by fastforce
  from count_tokens_no_trace [OF sample_wf sample_memory run] show ?thesis
    unfolding run by (simp add: sample_gw_def)
qed

definition sample_audit :: audit where
  "sample_audit = \<lparr>ad_entries = [], ad_degraded = 0, ad_blocked = 0, ad_last = 0\<rparr>"

lemma blocked_never_forwarded_witness:
  "rq_attempts (snd (fst (handleText sample_in ProtoOpenAIChat ''r1'' sample_gw sample_audit))) = []"
proof -
  obtain gq r where p: "prepare_in sample_in (sample_gw, newRequest ''r1'' ProtoOpenAIChat second) = (gq, r)" by fastforce
  have "snd (prepare_in sample_in (sample_gw, newRequest ''r1'' ProtoOpenAIChat second)) = None" by code_simp
  with p have r: "r = None" by simp
  obtain g1 q1 where gq: "gq = (g1, q1)" by fastforce
  have prep: "prepare_in sample_in (sample_gw, (\<lambda>q. q) (newRequest ''r1'' ProtoOpenAIChat (re_now sample_in))) = ((g1, q1), None)"
    using p r gq by (simp add: sample_in_def)
  obtain g' q' a' where run: "handleTextWith sample_in (\<lambda>q. q) ProtoOpenAIChat ''r1'' sample_gw sample_audit = ((g', q'), a')"
    by (metis prod.collapse)
  have chk: "gd_checker (re_guard sample_in) = Some (\<lambda>_. unavailable ''down'')" "gd_enabled (re_guard sample_in)"
    by (simp_all add: sample_in_def sample_guard_def)
  have stop: "stops (re_guard sample_in) ((\<lambda>_. unavailable ''down'') (checked_text (re_guard sample_in) q1))"
    by (simp add: stops_def unavailable_def)
  from blocked_never_forwarded [OF prep _ sample_memory chk stop run] run show ?thesis
    by (simp add: handleText_def)
qed

lemma models_listed_iff_allowed_witness:
  "\<exists>ms. HandleModels ascii_lower sample_look sample_snapshot (in_credentials (sample_incoming ''demo'')) = Inr ms \<and>
     (\<forall>mi. mi \<in> set ms \<longleftrightarrow> mi \<in> set (sn_models sample_snapshot) \<and> model_allowed sample_snapshot (group_view sample_group) (mi_name mi))"
proof -
  have "set [''demo''] = dom (sc_by_model (scan_accounts Some (\<lambda>_. '''') [sample_account 3 ''demo'' TypeText False]))"
    by (auto simp: scan_accounts_def scan_account_def sample_account_def upstream_of_def
        scan_init_def Let_def split: if_splits)
  moreover have "sample_snapshot = build ascii_lower [''demo''] 0 False ''''
      (scan_accounts Some (\<lambda>_. '''') [sample_account 3 ''demo'' TypeText False]) [] [sample_group]"
    by (simp add: sample_snapshot_def sample_scan_def)
  moreover have "authenticate ascii_lower sample_look (in_credentials (sample_incoming ''demo'')) = Inr sample_principal"
    by code_simp
  moreover have "effective_group sample_snapshot sample_principal = Some (group_view sample_group)"
    by code_simp
  ultimately show ?thesis by (rule models_listed_iff_allowed)
qed

lemma count_uses_up_probe_witness:
  "\<exists>g'. count_ups (\<lambda>_. (100 * second, CountAnswered 200 ''{}''))
       [(sample_upstream 3)\<lparr>up_protocols := [ProtoAnthropicMessages]\<rparr>] 0
       (sample_gw\<lparr>gw_health := [3 \<mapsto> newAccountHealth\<lparr>failures := 1, cooldownUntil := 50 * second\<rparr>]\<rparr>) =
       (1, g', Some (200, ''{}'')) \<and> \<not> snd (available 3 (120 * second) (gw_health g'))"
proof -
  let ?up = "(sample_upstream 3)\<lparr>up_protocols := [ProtoAnthropicMessages]\<rparr>"
  let ?g = "sample_gw\<lparr>gw_health := [3 \<mapsto> newAccountHealth\<lparr>failures := 1, cooldownUntil := 50 * second\<rparr>]\<rparr>"
  obtain g1 r where s: "count_skips ?up (100 * second) ?g = (g1, r)" by fastforce
  have "snd (count_skips ?up (100 * second) ?g) \<noteq> None" by code_simp
  then obtain ptr where ptr: "r = Some ptr" using s by auto
  have h: "gw_health ?g (up_id ?up) = Some (newAccountHealth\<lparr>failures := 1, cooldownUntil := 50 * second\<rparr>)"
    by (simp add: sample_upstream_def)
  from count_uses_up_probe [OF h _ _ s [unfolded ptr], of "\<lambda>_. (100 * second, CountAnswered 200 ''{}'')" 0 "''{}''" "[]"]
  obtain g' where g': "count_ups (\<lambda>_. (100 * second, CountAnswered 200 ''{}'')) [?up] 0 ?g = (Suc 0, g', Some (200, ''{}''))"
      "\<forall>t. 100 * second \<le> t \<longrightarrow> t < 100 * second + probeTimeout \<longrightarrow> \<not> snd (available (up_id ?up) t (gw_health g'))"
    by (auto simp: second_def)
  have "up_id ?up = 3" by (simp add: sample_upstream_def)
  with g' show ?thesis by (intro exI [of _ g']) (auto simp: probeTimeout_def second_def)
qed

end
