(* ===== verification/Rollup.thy ===== *)
theory Rollup
  imports Forwarding
begin

text \<open>
  The accounting half of \<open>internal/logstore/logstore.go\<close>: the hourly rollup of call logs, its
  live update and its rebuild, the correction of legacy rows and the reconciliation. A row of the
  rollup is a vector of counters; an attempts column that does not parse counts as empty, and the
  counters are mathematical integers.
\<close>

section \<open>Tables of counters\<close>

datatype metric =
    Requests | Attempts | Successes | Failures | PromptCount | CompletionCount | TotalCount
  | CachedCount | UnknownUsage | LatencySum | CostSum | CostUnverified

type_synonym counters = "metric \<Rightarrow> int"

record dimKey =
  dk_hour :: time
  dk_user :: nat
  dk_group :: nat
  dk_key :: nat
  dk_account :: nat
  dk_provider :: string
  dk_model :: string
  dk_model_group :: string
  dk_type :: api_type

type_synonym rollup = "(dimKey \<times> counters) list"

definition plus_counters :: "counters \<Rightarrow> counters \<Rightarrow> counters" where
  "plus_counters c d = (\<lambda>m. c m + d m)"

definition counting :: "(metric \<times> int) list \<Rightarrow> counters" where
  "counting ns = (\<lambda>m. \<Sum>(m', n)\<leftarrow>ns. if m' = m then n else 0)"

fun upsert :: "dimKey \<Rightarrow> counters \<Rightarrow> rollup \<Rightarrow> rollup" where
  \<comment> \<open>the row of the key, created when missing, with the counters added\<close>
  "upsert k c [] = [(k, c)]"
| "upsert k c ((k', c') # t) = (if k' = k then (k', plus_counters c' c) # t else (k', c') # upsert k c t)"

definition summed :: "(dimKey \<Rightarrow> bool) \<Rightarrow> metric \<Rightarrow> rollup \<Rightarrow> int" where
  \<comment> \<open>\<open>SUM\<close> over the rows that satisfy a condition\<close>
  "summed P m t = (\<Sum>(k, c)\<leftarrow>t. if P k then c m else 0)"

text \<open>
  Both the aggregation and the database table are tables one adds to; what the proofs need of
  either is this law.
\<close>

locale tally =
  fixes total_of :: "('k \<Rightarrow> bool) \<Rightarrow> 'm \<Rightarrow> 't \<Rightarrow> int"
    and add :: "'k \<Rightarrow> ('m \<Rightarrow> int) \<Rightarrow> 't \<Rightarrow> 't"
  assumes total_add: "total_of P m (add k c t) = total_of P m t + (if P k then c m else 0)"
begin

lemma total_fold:
  "total_of P m (fold (\<lambda>(k, c). add k c) bs t) = total_of P m t + (\<Sum>(k, c)\<leftarrow>bs. if P k then c m else 0)"
  by (induction bs arbitrary: t) (auto simp: total_add)

lemma total_order:
  assumes "mset bs = mset bs'"
  shows "total_of P m (fold (\<lambda>(k, c). add k c) bs t) = total_of P m (fold (\<lambda>(k, c). add k c) bs' t)"
proof -
  have "mset (map (\<lambda>(k, c). if P k then c m else 0) bs) = mset (map (\<lambda>(k, c). if P k then c m else 0) bs')"
    using assms by simp
  then show ?thesis unfolding total_fold by (simp flip: sum_mset_sum_list)
qed

end

lemma summed_upsert: "summed P m (upsert k c t) = summed P m t + (if P k then c m else 0)"
  by (induction k c t rule: upsert.induct) (auto simp: summed_def plus_counters_def)

interpretation rows: tally summed upsert
  by unfold_locales (rule summed_upsert)

lemma counting_simps [simp]:
  "counting [] m = 0" "counting ((m', n) # ns) m = (if m' = m then n else 0) + counting ns m"
  by (simp_all add: counting_def)

lemma summed_simps [simp]:
  "summed P m [] = 0" "summed P m ((k, c) # t) = (if P k then c m else 0) + summed P m t"
  "summed P m (t @ t') = summed P m t + summed P m t'"
  by (simp_all add: summed_def)

section \<open>Aggregate\<close>

definition hour :: duration where
  "hour = 60 * minute"

definition truncate_hour :: "time \<Rightarrow> time" where
  \<comment> \<open>\<open>t.Truncate(time.Hour)\<close>\<close>
  "truncate_hour t = t div hour * hour"

definition row_key :: "call_log \<Rightarrow> nat \<Rightarrow> string \<Rightarrow> dimKey" where
  "row_key l account provider =
     \<lparr>dk_hour = truncate_hour (cl_created l), dk_user = cl_user l, dk_group = cl_group l, dk_key = cl_key l,
      dk_account = account, dk_provider = provider, dk_model = cl_request_model l,
      dk_model_group = cl_model_group l, dk_type = cl_api_type l\<rparr>"

definition reported :: "attemptRecord \<Rightarrow> bool" where
  "reported a \<longleftrightarrow> at_usage a = Some UsageConfirmed \<or> at_usage a = Some UsagePartial"

definition cost_verified :: "call_log \<Rightarrow> bool" where
  "cost_verified l \<longleftrightarrow> cl_cost_ledger l \<noteq> ''unverified''"

definition request_booking :: "call_log \<Rightarrow> dimKey \<times> counters" where
  "request_booking l =
     (row_key l (cl_account l) (cl_provider l),
      counting [(Requests, 1), (if cl_result l = ResSuccess then Successes else Failures, 1),
        (CachedCount, cl_cached l), (LatencySum, cl_latency l),
        (UnknownUsage, if cl_usage l = Some UsagePartial \<or> cl_usage l = Some UsageUnknown then 1 else 0),
        (CostUnverified, if cost_verified l then 0 else 1)])"

definition attempt_booking :: "call_log \<Rightarrow> attemptRecord \<Rightarrow> dimKey \<times> counters" where
  "attempt_booking l a =
     (row_key l (at_account a) (at_provider a),
      counting ((Attempts, 1) #
        (if reported a
         then [(PromptCount, at_prompt a), (CompletionCount, at_completion a), (TotalCount, at_prompt a + at_completion a),
               (CostSum, if cost_verified l then at_cost a else 0)]
         else [])))"

definition attempt_sum :: "(attemptRecord \<Rightarrow> int) \<Rightarrow> call_log \<Rightarrow> int" where
  "attempt_sum f l = (\<Sum>a\<leftarrow>filter reported (cl_attempts l). f a)"

definition remainder_booking :: "call_log \<Rightarrow> dimKey \<times> counters" where
  \<comment> \<open>what the request knows beyond its attempts stays on the answering account\<close>
  "remainder_booking l =
     (let ap = attempt_sum at_prompt l; ac = attempt_sum at_completion l;
          rcost = cl_cost l - attempt_sum at_cost l;
          rp = max (cl_prompt l - ap) 0; rc = max (cl_completion l - ac) 0;
          rt = max (cl_total l - (ap + ac) - rp - rc) 0
      in (row_key l (cl_account l) (cl_provider l),
          counting [(CostSum, if cost_verified l \<and> rcost > 0 then rcost else 0),
            (PromptCount, rp), (CompletionCount, rc), (TotalCount, rp + rc + rt)]))"

definition bookings :: "call_log \<Rightarrow> (dimKey \<times> counters) list" where
  "bookings l = request_booking l # map (attempt_booking l) (cl_attempts l) @ [remainder_booking l]"

definition add_all :: "(dimKey \<times> counters) list \<Rightarrow> rollup \<Rightarrow> rollup" where
  "add_all bs t = fold (\<lambda>(k, c). upsert k c) bs t"

definition Aggregate :: "call_log list \<Rightarrow> rollup" where
  "Aggregate batch = add_all (concat (map bookings batch)) []"

definition applyRollup :: "call_log list \<Rightarrow> rollup \<Rightarrow> rollup" where
  "applyRollup batch t = add_all (Aggregate batch) t"

section \<open>Legacy rows\<close>

record legacy_fold =
  lf_unknown :: bool
  lf_partial :: bool
  lf_confirmed :: bool
  lf_evidence :: bool
  lf_prompt :: int
  lf_completion :: int

fun fold_legacy :: "attemptRecord list \<Rightarrow> legacy_fold \<Rightarrow> legacy_fold" where
  "fold_legacy [] f = f"
| "fold_legacy (a # as) f =
     fold_legacy as
       (case at_usage a of
          None \<Rightarrow> f
        | Some UsageConfirmed \<Rightarrow> f\<lparr>lf_confirmed := True, lf_evidence := True,
             lf_prompt := lf_prompt f + at_prompt a, lf_completion := lf_completion f + at_completion a\<rparr>
        | Some UsagePartial \<Rightarrow> f\<lparr>lf_partial := True, lf_evidence := True,
             lf_prompt := lf_prompt f + at_prompt a, lf_completion := lf_completion f + at_completion a\<rparr>
        | Some UsageUnknown \<Rightarrow> f\<lparr>lf_evidence := True, lf_unknown := True\<rparr>
        | Some UsageNone \<Rightarrow> f\<lparr>lf_evidence := True\<rparr>)"

definition no_evidence :: legacy_fold where
  "no_evidence = \<lparr>lf_unknown = False, lf_partial = False, lf_confirmed = False, lf_evidence = False,
     lf_prompt = 0, lf_completion = 0\<rparr>"

definition legacy_status :: "legacy_fold \<Rightarrow> usage_status" where
  "legacy_status f =
     (if lf_unknown f then UsageUnknown else if lf_partial f then UsagePartial
      else if lf_confirmed f then UsageConfirmed else UsageNone)"

definition normalizeLegacyUsage :: "call_log \<Rightarrow> call_log \<times> bool" where
  "normalizeLegacyUsage l =
     (if cl_attempts l = [] then (l, False)
      else
        let f = fold_legacy (cl_attempts l) no_evidence; p = lf_prompt f; c = lf_completion f; st = legacy_status f
        in if \<not> lf_evidence f then (l, False)
           else if p + c = cl_prompt l + cl_completion l \<and> cl_usage l = Some st then (l, False)
           else if p + c < cl_prompt l + cl_completion l then (l, False)
           else
             let extra = max (cl_total l - cl_prompt l - cl_completion l) 0
             in (l\<lparr>cl_prompt := p, cl_completion := c, cl_total := p + c + extra, cl_usage := Some st,
                    cl_tokens_known := (st = UsageConfirmed), cl_corrected := True\<rparr>, True))"

section \<open>Rebuild, cleanup and reconciliation\<close>

text \<open>
  The database as far as metering is concerned. Calendar arithmetic in the server's time zone is
  the argument \<open>add_days\<close>.
\<close>

record metering_db =
  mdb_logs :: "call_log list"
  mdb_rollup :: rollup
  mdb_purged :: "time option" \<comment> \<open>the persisted purge boundary\<close>

definition setPurgedBefore :: "time \<Rightarrow> metering_db \<Rightarrow> metering_db" where
  "setPurgedBefore t db =
     (case mdb_purged db of
        Some cur \<Rightarrow> if t \<le> cur then db else db\<lparr>mdb_purged := Some t\<rparr>
      | None \<Rightarrow> db\<lparr>mdb_purged := Some t\<rparr>)"

definition purgeBoundaryAllows :: "time \<Rightarrow> metering_db \<Rightarrow> bool" where
  "purgeBoundaryAllows from db =
     (case mdb_purged db of
        None \<Rightarrow> True
      | Some pb \<Rightarrow> \<not> truncate_hour from < truncate_hour (pb + hour))"

definition RebuildAllowed :: "(int \<Rightarrow> time \<Rightarrow> time) \<Rightarrow> time \<Rightarrow> int \<Rightarrow> time \<Rightarrow> bool" where
  "RebuildAllowed add_days from days now =
     (let days = (if days \<le> 0 then 30 else days); oldest = add_days (- days) now + hour
      in \<not> truncate_hour from < truncate_hour oldest)"

definition hours_between :: "time \<Rightarrow> time \<Rightarrow> time list" where
  \<comment> \<open>the loop over the hours; both ends are whole hours\<close>
  "hours_between from til = map (\<lambda>i. from + int i * hour) [0..<nat ((til - from) div hour)]"

definition in_hour :: "time \<Rightarrow> call_log \<Rightarrow> bool" where
  "in_hour h l \<longleftrightarrow> h \<le> cl_created l \<and> cl_created l < h + hour"

definition rebuild_hour :: "time \<Rightarrow> metering_db \<times> nat \<times> nat \<Rightarrow> metering_db \<times> nat \<times> nat" where
  "rebuild_hour h st =
     (let (db, hours, rows) = st; ls = filter (in_hour h) (mdb_logs db)
      in if ls = [] then st
         else
           let agg = Aggregate (map (\<lambda>l. fst (normalizeLegacyUsage l)) ls)
           in (db\<lparr>mdb_logs := map (\<lambda>l. if in_hour h l then fst (normalizeLegacyUsage l) else l) (mdb_logs db),
                  mdb_rollup := mdb_rollup db @ agg\<rparr>, hours + 1, rows + length agg))"

definition Rebuild :: "(int \<Rightarrow> time \<Rightarrow> time) \<Rightarrow> time \<Rightarrow> time \<Rightarrow> int \<Rightarrow> time \<Rightarrow> metering_db \<Rightarrow> (metering_db \<times> nat \<times> nat) option" where
  \<comment> \<open>None: \<open>ErrRebuildOutsideRetention\<close>, with nothing changed\<close>
  "Rebuild add_days from til days now db =
     (if \<not> RebuildAllowed add_days from days now then None
      else
        let f = truncate_hour from; u = truncate_hour til + hour
        in if \<not> purgeBoundaryAllows f db then None
           else Some (fold rebuild_hour (hours_between f u)
                  (db\<lparr>mdb_rollup := filter (\<lambda>(k, c). \<not> (f \<le> dk_hour k \<and> dk_hour k < u)) (mdb_rollup db)\<rparr>, 0, 0)))"

definition cleanup :: "(int \<Rightarrow> time \<Rightarrow> time) \<Rightarrow> time \<Rightarrow> (call_log \<Rightarrow> bool) \<Rightarrow> metering_db \<Rightarrow> metering_db" where
  \<comment> \<open>\<open>gone\<close>: which of the old rows the bounded batches reach this time\<close>
  "cleanup add_days cutoff gone db =
     (let db1 = setPurgedBefore cutoff db
      in db1\<lparr>mdb_logs := filter (\<lambda>l. \<not> (cl_created l < cutoff \<and> gone l)) (mdb_logs db1),
             mdb_rollup := filter (\<lambda>(k, c). \<not> dk_hour k < add_days (- 365) cutoff) (mdb_rollup db1)\<rparr>)"

definition commit_rows :: "call_log list \<Rightarrow> metering_db \<Rightarrow> metering_db" where
  \<comment> \<open>the insert and the rollup of one transaction\<close>
  "commit_rows fresh db = db\<lparr>mdb_logs := mdb_logs db @ fresh, mdb_rollup := applyRollup fresh (mdb_rollup db)\<rparr>"

record hourSum =
  hs_requests :: int
  hs_tokens :: int
  hs_cost :: int
  hs_unverified :: int

definition log_sums :: "call_log list \<Rightarrow> hourSum" where
  "log_sums ls =
     \<lparr>hs_requests = int (length ls), hs_tokens = (\<Sum>l\<leftarrow>ls. cl_total l),
      hs_cost = (\<Sum>l\<leftarrow>filter cost_verified ls. cl_cost l),
      hs_unverified = int (length (filter (\<lambda>l. \<not> cost_verified l) ls))\<rparr>"

definition roll_sums :: "time \<Rightarrow> rollup \<Rightarrow> hourSum" where
  "roll_sums h t =
     (let s = (\<lambda>m. summed (\<lambda>k. dk_hour k = h) m t)
      in \<lparr>hs_requests = s Requests, hs_tokens = s TotalCount, hs_cost = s CostSum, hs_unverified = s CostUnverified\<rparr>)"

definition no_sums :: hourSum where
  "no_sums = \<lparr>hs_requests = 0, hs_tokens = 0, hs_cost = 0, hs_unverified = 0\<rparr>"

definition Reconcile :: "time \<Rightarrow> time \<Rightarrow> metering_db \<Rightarrow> (time \<times> hourSum \<times> hourSum) list" where
  \<comment> \<open>the hours whose logs and rollup differ\<close>
  "Reconcile from til db =
     (let f = truncate_hour from; u = truncate_hour til + hour;
          ls = filter (\<lambda>l. f \<le> cl_created l \<and> cl_created l < u) (mdb_logs db);
          logged = remdups (map (\<lambda>l. truncate_hour (cl_created l)) ls);
          rolled = remdups (filter (\<lambda>h. f \<le> h \<and> h < u) (map (dk_hour \<circ> fst) (mdb_rollup db)));
          sums = (\<lambda>h. log_sums (filter (\<lambda>l. truncate_hour (cl_created l) = h) ls))
      in map (\<lambda>h. (h, sums h, roll_sums h (mdb_rollup db))) (filter (\<lambda>h. sums h \<noteq> roll_sums h (mdb_rollup db)) logged) @
         map (\<lambda>h. (h, no_sums, roll_sums h (mdb_rollup db)))
           (filter (\<lambda>h. h \<notin> set logged \<and> roll_sums h (mdb_rollup db) \<noteq> no_sums) rolled))"

section \<open>What is booked\<close>

definition booked :: "(dimKey \<Rightarrow> bool) \<Rightarrow> metric \<Rightarrow> call_log \<Rightarrow> int" where
  "booked P m l = (\<Sum>(k, c)\<leftarrow>bookings l. if P k then c m else 0)"

lemma sum_list_concat_map: "(\<Sum>x\<leftarrow>concat (map f xs). g x) = (\<Sum>x\<leftarrow>xs. \<Sum>y\<leftarrow>f x. (g y :: int))"
  by (induction xs) auto

lemma summed_Aggregate: "summed P m (Aggregate batch) = (\<Sum>l\<leftarrow>batch. booked P m l)"
  by (simp add: Aggregate_def add_all_def rows.total_fold booked_def sum_list_concat_map)

lemma summed_applyRollup: "summed P m (applyRollup batch t) = summed P m t + summed P m (Aggregate batch)"
  by (simp add: applyRollup_def add_all_def rows.total_fold summed_def [of P m "Aggregate batch"])

definition request_scope :: "(dimKey \<Rightarrow> bool) \<Rightarrow> bool" where
  \<comment> \<open>conditions on the hour, the user, the group, the key and the model, not on the account\<close>
  "request_scope P \<longleftrightarrow> (\<forall>k a p. P (k\<lparr>dk_account := a, dk_provider := p\<rparr>) = P k)"

definition own_key :: "call_log \<Rightarrow> dimKey" where
  "own_key l = row_key l (cl_account l) (cl_provider l)"

lemma scope_row_key: "request_scope P \<Longrightarrow> P (row_key l a p) = P (own_key l)"
proof -
  assume "request_scope P"
  moreover have "row_key l a p = (own_key l)\<lparr>dk_account := a, dk_provider := p\<rparr>"
    by (simp add: own_key_def row_key_def)
  ultimately show ?thesis unfolding request_scope_def by metis
qed

lemma bookings_keys: "(k, c) \<in> set (bookings l) \<Longrightarrow> \<exists>a p. k = row_key l a p"
  by (auto simp: bookings_def request_booking_def attempt_booking_def remainder_booking_def Let_def)

lemma booked_scope:
  assumes "request_scope P"
  shows "booked P m l = (if P (own_key l) then booked (\<lambda>_. True) m l else 0)"
proof -
  have "P k = P (own_key l)" if "(k, c) \<in> set (bookings l)" for k c
    using bookings_keys [OF that] scope_row_key [OF assms] by auto
  then have "booked P m l = (\<Sum>(k, c)\<leftarrow>bookings l. if P (own_key l) then c m else 0)"
    unfolding booked_def by (intro arg_cong [where f = sum_list] map_cong) auto
  then show ?thesis by (simp add: booked_def split_def)
qed

definition consistent :: "call_log \<Rightarrow> bool" where
  \<comment> \<open>the request knows at least what its attempts report\<close>
  "consistent l \<longleftrightarrow>
     attempt_sum at_prompt l \<le> cl_prompt l \<and> attempt_sum at_completion l \<le> cl_completion l \<and>
     cl_prompt l + cl_completion l \<le> cl_total l \<and> (cost_verified l \<longrightarrow> attempt_sum at_cost l \<le> cl_cost l)"

lemma attempts_booked:
  "(\<Sum>(k, c)\<leftarrow>map (attempt_booking l) as. c Requests) = 0"
  "(\<Sum>(k, c)\<leftarrow>map (attempt_booking l) as. c Successes) = 0"
  "(\<Sum>(k, c)\<leftarrow>map (attempt_booking l) as. c Failures) = 0"
  "(\<Sum>(k, c)\<leftarrow>map (attempt_booking l) as. c CostUnverified) = 0"
  "(\<Sum>(k, c)\<leftarrow>map (attempt_booking l) as. c Attempts) = int (length as)"
  "(\<Sum>(k, c)\<leftarrow>map (attempt_booking l) as. c TotalCount) =
     (\<Sum>a\<leftarrow>filter reported as. at_prompt a) + (\<Sum>a\<leftarrow>filter reported as. at_completion a)"
  "(\<Sum>(k, c)\<leftarrow>map (attempt_booking l) as. c PromptCount) = (\<Sum>a\<leftarrow>filter reported as. at_prompt a)"
  "(\<Sum>(k, c)\<leftarrow>map (attempt_booking l) as. c CompletionCount) = (\<Sum>a\<leftarrow>filter reported as. at_completion a)"
  "(\<Sum>(k, c)\<leftarrow>map (attempt_booking l) as. c CostSum) =
     (if cost_verified l then \<Sum>a\<leftarrow>filter reported as. at_cost a else 0)"
  by (induction as) (auto simp: attempt_booking_def)

lemma booked_all:
  "booked (\<lambda>_. True) Requests l = 1"
  "booked (\<lambda>_. True) Successes l + booked (\<lambda>_. True) Failures l = 1"
  "booked (\<lambda>_. True) Attempts l = int (length (cl_attempts l))"
  "booked (\<lambda>_. True) CostUnverified l = (if cost_verified l then 0 else 1)"
  "booked (\<lambda>_. True) TotalCount l =
     max (cl_total l) (max (cl_prompt l) (attempt_sum at_prompt l) + max (cl_completion l) (attempt_sum at_completion l))"
  "booked (\<lambda>_. True) CostSum l = (if cost_verified l then max (cl_cost l) (attempt_sum at_cost l) else 0)"
  using attempts_booked [of l "cl_attempts l"]
  by (auto simp: booked_def bookings_def request_booking_def remainder_booking_def attempt_sum_def Let_def)

lemma booked_consistent:
  assumes "consistent l"
  shows "booked (\<lambda>_. True) TotalCount l = cl_total l"
    and "booked (\<lambda>_. True) CostSum l = (if cost_verified l then cl_cost l else 0)"
  using assms by (auto simp: booked_all consistent_def)

lemma summed_scope:
  "request_scope P \<Longrightarrow> summed P m (Aggregate batch) = (\<Sum>l\<leftarrow>filter (\<lambda>l. P (own_key l)) batch. booked (\<lambda>_. True) m l)"
  unfolding summed_Aggregate by (induction batch) (auto simp: booked_scope [of P])

text \<open>Property C37: the rollup neither loses nor invents usage. Over any set of hours, users, groups,
  keys or models it counts every request once, as a success or a failure, every attempt once, and,
  for requests that know at least what their attempts report, exactly the request's total tokens
  and, unless its currency is unverified, its cost.\<close>

theorem rollup_conserves:
  assumes P: "request_scope P" and ok: "\<forall>l\<in>set batch. consistent l"
  shows "summed P Requests (Aggregate batch) = int (length (filter (\<lambda>l. P (own_key l)) batch)) \<and>
    summed P Successes (Aggregate batch) + summed P Failures (Aggregate batch) = summed P Requests (Aggregate batch) \<and>
    summed P Attempts (Aggregate batch) = (\<Sum>l\<leftarrow>filter (\<lambda>l. P (own_key l)) batch. int (length (cl_attempts l))) \<and>
    summed P TotalCount (Aggregate batch) = (\<Sum>l\<leftarrow>filter (\<lambda>l. P (own_key l)) batch. cl_total l) \<and>
    summed P CostSum (Aggregate batch) = (\<Sum>l\<leftarrow>filter (\<lambda>l. P (own_key l) \<and> cost_verified l) batch. cl_cost l)"
proof -
  have "(\<Sum>l\<leftarrow>filter (\<lambda>l. P (own_key l)) batch. booked (\<lambda>_. True) Requests l) = int (length (filter (\<lambda>l. P (own_key l)) batch))"
    by (simp add: booked_all sum_list_triv)
  moreover have "(\<Sum>l\<leftarrow>ls. booked (\<lambda>_. True) Successes l) + (\<Sum>l\<leftarrow>ls. booked (\<lambda>_. True) Failures l) =
      (\<Sum>l\<leftarrow>ls. booked (\<lambda>_. True) Requests l)" for ls
    by (induction ls) (use booked_all(1,2) in \<open>auto simp: algebra_simps\<close>)
  moreover have "(\<Sum>l\<leftarrow>filter (\<lambda>l. P (own_key l)) batch. booked (\<lambda>_. True) TotalCount l) =
      (\<Sum>l\<leftarrow>filter (\<lambda>l. P (own_key l)) batch. cl_total l)"
    using ok by (intro arg_cong [where f = sum_list] map_cong) (auto simp: booked_consistent)
  moreover have "(\<Sum>l\<leftarrow>filter (\<lambda>l. P (own_key l)) batch. booked (\<lambda>_. True) CostSum l) =
      (\<Sum>l\<leftarrow>filter (\<lambda>l. P (own_key l) \<and> cost_verified l) batch. cl_cost l)"
    using ok by (induction batch) (auto simp: booked_consistent)
  ultimately show ?thesis
    unfolding summed_scope [OF P] booked_all(3) by simp
qed

section \<open>Legacy rows\<close>

lemma fold_legacy_fold:
  assumes "lf_unknown f = af_unknown g" "lf_partial f = af_partial g" "lf_confirmed f = af_confirmed g"
    "lf_prompt f = af_prompt g" "lf_completion f = af_completion g"
  shows "lf_unknown (fold_legacy as f) = af_unknown (fold_attempts as g) \<and>
    lf_partial (fold_legacy as f) = af_partial (fold_attempts as g) \<and>
    lf_confirmed (fold_legacy as f) = af_confirmed (fold_attempts as g) \<and>
    lf_prompt (fold_legacy as f) = af_prompt (fold_attempts as g) \<and>
    lf_completion (fold_legacy as f) = af_completion (fold_attempts as g)"
  using assms
proof (induction as arbitrary: f g)
  case (Cons a as)
  show ?case unfolding fold_legacy.simps fold_attempts.simps
    by (rule Cons.IH) (use Cons.prems in \<open>simp_all split: option.split usage_status.split\<close>)
qed simp

lemma fold_legacy_evidence:
  "lf_evidence (fold_legacy as f) \<longleftrightarrow> lf_evidence f \<or> (\<exists>a\<in>set as. at_usage a \<noteq> None)"
  by (induction as arbitrary: f) (auto split: option.splits usage_status.splits)

lemma legacy_fold_usage:
  "usageFromAttempts as =
     (let f = fold_legacy as no_evidence in (legacy_status f, lf_prompt f, lf_completion f))"
  using fold_legacy_fold [of no_evidence no_attempts as]
  by (simp add: usageFromAttempts_def legacy_status_def status_of_fold_def no_evidence_def no_attempts_def Let_def)

lemma normalize_eq:
  assumes "usageFromAttempts (cl_attempts l) = (st, p, c)"
  shows "normalizeLegacyUsage l =
    (if (\<forall>a\<in>set (cl_attempts l). at_usage a = None) \<or> p + c = cl_prompt l + cl_completion l \<and> cl_usage l = Some st \<or>
        p + c < cl_prompt l + cl_completion l
     then (l, False)
     else (l\<lparr>cl_prompt := p, cl_completion := c,
              cl_total := p + c + max (cl_total l - cl_prompt l - cl_completion l) 0, cl_usage := Some st,
              cl_tokens_known := (st = UsageConfirmed), cl_corrected := True\<rparr>, True))"
  using assms by (auto simp: normalizeLegacyUsage_def legacy_fold_usage fold_legacy_evidence Let_def no_evidence_def)

text \<open>Property C38: the correction of a legacy row applies the fold the gateway applies to live requests:
  a corrected row carries the usage its attempts add up to, plus what its total had beyond prompt
  and completion, tokens are never dropped, nothing else of the row changes, and a second
  correction changes nothing.\<close>

theorem normalize_is_live_fold:
  assumes u: "usageFromAttempts (cl_attempts l) = (st, p, c)" and n: "normalizeLegacyUsage l = (l', changed)"
  shows "(changed \<longrightarrow> cl_prompt l' = p \<and> cl_completion l' = c \<and> cl_usage l' = Some st \<and>
      cl_tokens_known l' = (st = UsageConfirmed) \<and>
      cl_total l' - cl_prompt l' - cl_completion l' = max (cl_total l - cl_prompt l - cl_completion l) 0) \<and>
    (\<not> changed \<longrightarrow> l' = l) \<and> cl_total l \<le> cl_total l' \<and> cl_prompt l + cl_completion l \<le> cl_prompt l' + cl_completion l' \<and>
    l'\<lparr>cl_prompt := cl_prompt l, cl_completion := cl_completion l, cl_total := cl_total l, cl_usage := cl_usage l,
       cl_tokens_known := cl_tokens_known l, cl_corrected := cl_corrected l\<rparr> = l \<and>
    normalizeLegacyUsage l' = (l', False)"
proof (cases changed)
  case False
  then show ?thesis using n normalize_eq [OF u] by (auto split: if_splits)
next
  case True
  then have cond: "\<not> (\<forall>a\<in>set (cl_attempts l). at_usage a = None)" "\<not> p + c < cl_prompt l + cl_completion l"
    and l': "l' = l\<lparr>cl_prompt := p, cl_completion := c,
              cl_total := p + c + max (cl_total l - cl_prompt l - cl_completion l) 0, cl_usage := Some st,
              cl_tokens_known := (st = UsageConfirmed), cl_corrected := True\<rparr>"
    using n normalize_eq [OF u] by (auto split: if_splits)
  have "usageFromAttempts (cl_attempts l') = (st, p, c)" using u by (simp add: l')
  from normalize_eq [OF this] have "normalizeLegacyUsage l' = (l', False)" by (simp add: l')
  then show ?thesis using True cond by (simp add: l')
qed

text \<open>
  A row may escape the correction although its split disagrees with its attempts, when the sums
  happen to agree; the rollup then books more than the request's total.
\<close>

text \<open>The rollup of a request is not always its total: with 5 prompt and 10 completion
  tokens on the request and 10 and 5 on its attempt, the row is left alone as agreeing, and 20
  tokens are booked for a request of 15.\<close>

lemma rollup_can_exceed_request:
  assumes "cl_attempts l = [a]" and "at_usage a = Some UsageConfirmed" and "at_prompt a = 10" and "at_completion a = 5"
    and "cl_prompt l = 5" and "cl_completion l = 10" and "cl_total l = 15" and "cl_usage l = Some UsageConfirmed"
  shows "normalizeLegacyUsage l = (l, False) \<and> summed (\<lambda>_. True) TotalCount (Aggregate [l]) = 20"
proof -
  have "usageFromAttempts (cl_attempts l) = (UsageConfirmed, 10, 5)"
    using assms by (simp add: usageFromAttempts_def no_attempts_def status_of_fold_def)
  from normalize_eq [OF this] have "normalizeLegacyUsage l = (l, False)" using assms by simp
  moreover have "attempt_sum at_prompt l = 10" "attempt_sum at_completion l = 5"
    using assms by (simp_all add: attempt_sum_def reported_def)
  ultimately show ?thesis using assms by (simp add: summed_Aggregate booked_all)
qed

section \<open>The rollup agrees with the logs\<close>

lemma hour_pos: "0 < hour"
  by (simp add: hour_def minute_def second_def)

lemma truncate_hour_le: "truncate_hour t \<le> t" "t < truncate_hour t + hour"
  using hour_pos pos_mod_bound [of hour t] pos_mod_sign [of hour t]
  by (simp_all add: truncate_hour_def flip: minus_mod_eq_div_mult)

lemma truncate_hour_mono: "s \<le> t \<Longrightarrow> truncate_hour s \<le> truncate_hour t"
  using hour_pos by (simp add: truncate_hour_def zdiv_mono1)

lemma truncate_hour_idem [simp]: "truncate_hour (truncate_hour t) = truncate_hour t"
  using hour_pos by (simp add: truncate_hour_def)

lemma truncate_unique:
  assumes "truncate_hour h = h" and "h \<le> t" and "t < h + hour"
  shows "truncate_hour t = h"
proof -
  have "t = h div hour * hour + (t - h)" using assms(1) by (simp add: truncate_hour_def)
  then have "t div hour = h div hour + (t - h) div hour" using hour_pos by (metis div_mult_self3 less_irrefl)
  also have "(t - h) div hour = 0" using assms(2,3) by (simp add: div_pos_pos_trivial)
  finally have "t div hour = h div hour" by simp
  then show ?thesis using assms(1) by (simp add: truncate_hour_def)
qed

lemma truncate_hour_plus [simp]: "truncate_hour (t + hour) = truncate_hour t + hour"
proof -
  have "(t + hour) div hour = t div hour + 1" using hour_pos div_add_self2 [of hour t] by simp
  then show ?thesis unfolding truncate_hour_def by (simp add: distrib_right)
qed

lemma in_hour_iff: "truncate_hour h = h \<Longrightarrow> in_hour h l \<longleftrightarrow> truncate_hour (cl_created l) = h"
  using truncate_unique [of h "cl_created l"] truncate_hour_le [of "cl_created l"] by (auto simp: in_hour_def)

definition recent :: "metering_db \<Rightarrow> time \<Rightarrow> bool" where
  \<comment> \<open>hours whose raw logs are complete\<close>
  "recent db h \<longleftrightarrow> (case mdb_purged db of None \<Rightarrow> True | Some pb \<Rightarrow> truncate_hour (pb + hour) \<le> h)"

definition live :: "metering_db \<Rightarrow> bool" where
  "live db \<longleftrightarrow>
     (\<forall>P m. (\<forall>k. P k \<longrightarrow> recent db (dk_hour k)) \<longrightarrow> summed P m (mdb_rollup db) = summed P m (Aggregate (mdb_logs db)))"

lemma Aggregate_append: "summed P m (Aggregate (xs @ ys)) = summed P m (Aggregate xs) + summed P m (Aggregate ys)"
  by (simp add: summed_Aggregate)

lemma live_commit: "live db \<Longrightarrow> live (commit_rows fresh db)"
  by (simp add: live_def commit_rows_def recent_def summed_applyRollup Aggregate_append)

lemma sum_list_zero: "\<forall>x\<in>set xs. f x = (0 :: int) \<Longrightarrow> (\<Sum>x\<leftarrow>xs. f x) = 0"
  by (induction xs) auto

lemma booked_other_hour:
  assumes "\<And>k. P k \<Longrightarrow> dk_hour k \<noteq> truncate_hour (cl_created l)"
  shows "booked P m l = 0"
proof -
  have "\<not> P k" if "(k, c) \<in> set (bookings l)" for k c
    using bookings_keys [OF that] assms [of k] by (auto simp: row_key_def)
  then have "\<forall>x\<in>set (bookings l). (case x of (k, c) \<Rightarrow> if P k then c m else 0) = 0" by auto
  then show ?thesis unfolding booked_def by (rule sum_list_zero)
qed

lemma booked_cong:
  assumes "\<And>k. dk_hour k = truncate_hour (cl_created l) \<Longrightarrow> P k = Q k"
  shows "booked P m l = booked Q m l"
proof -
  have "P k = Q k" if "(k, c) \<in> set (bookings l)" for k c
    using bookings_keys [OF that] assms [of k] by (auto simp: row_key_def)
  then show ?thesis unfolding booked_def by (intro arg_cong [where f = sum_list] map_cong) auto
qed

lemma summed_filter: "summed P m (filter (\<lambda>(k, c). Q k) t) = summed (\<lambda>k. P k \<and> Q k) m t"
  by (induction t) auto

lemma setPurgedBefore_purged: "\<exists>pb. mdb_purged (setPurgedBefore t db) = Some pb \<and> t \<le> pb \<and>
    (\<forall>h. recent (setPurgedBefore t db) h \<longrightarrow> recent db h)"
proof (cases "mdb_purged db")
  case (Some cur)
  show ?thesis
  proof (cases "t \<le> cur")
    case False
    then have "truncate_hour (cur + hour) \<le> truncate_hour (t + hour)" by (intro truncate_hour_mono) simp
    with Some False show ?thesis by (auto simp: setPurgedBefore_def recent_def)
  qed (use Some in \<open>auto simp: setPurgedBefore_def recent_def\<close>)
qed (auto simp: setPurgedBefore_def recent_def)

lemma setPurgedBefore_frame [simp]:
  "mdb_logs (setPurgedBefore t db) = mdb_logs db" "mdb_rollup (setPurgedBefore t db) = mdb_rollup db"
  by (simp_all add: setPurgedBefore_def split: option.split)

lemma live_purge: "live db \<Longrightarrow> live (setPurgedBefore t db)"
  using setPurgedBefore_purged [of t db] by (auto simp: live_def)

lemma live_cleanup:
  assumes ok: "live db" and cal: "add_days (- 365) cutoff \<le> cutoff"
  shows "live (cleanup add_days cutoff gone db)"
  unfolding live_def
proof (intro allI impI)
  fix P :: "dimKey \<Rightarrow> bool" and m
  let ?db1 = "setPurgedBefore cutoff db" and ?db2 = "cleanup add_days cutoff gone db"
  assume P: "\<forall>k. P k \<longrightarrow> recent ?db2 (dk_hour k)"
  obtain pb where pb: "mdb_purged ?db1 = Some pb" "cutoff \<le> pb" using setPurgedBefore_purged by blast
  have rec: "recent ?db2 = recent ?db1" by (rule ext) (simp add: cleanup_def recent_def Let_def)
  have late: "cutoff < dk_hour k" if "P k" for k
    using P that pb truncate_hour_le(2) [of "pb"] by (auto simp: rec recent_def)
  have "summed P m (mdb_rollup ?db2) = summed P m (mdb_rollup db)"
  proof -
    have "(\<lambda>k. P k \<and> \<not> dk_hour k < add_days (- 365) cutoff) = P"
    proof (rule ext)
      fix k show "(P k \<and> \<not> dk_hour k < add_days (- 365) cutoff) = P k" using late [of k] cal by auto
    qed
    then show ?thesis by (simp add: cleanup_def Let_def summed_filter)
  qed
  also have "\<dots> = summed P m (Aggregate (mdb_logs db))"
    using live_purge [OF ok, of cutoff] P by (simp add: live_def rec)
  also have "\<dots> = summed P m (Aggregate (mdb_logs ?db2))"
  proof -
    have zero: "booked P m l = 0" if "cl_created l < cutoff" for l
    proof (rule booked_other_hour)
      fix k assume "P k"
      from late [OF this] show "dk_hour k \<noteq> truncate_hour (cl_created l)"
        using truncate_hour_le(1) [of "cl_created l"] that by auto
    qed
    have "(\<Sum>l\<leftarrow>filter (\<lambda>l. \<not> (cl_created l < cutoff \<and> gone l)) ls. booked P m l) = (\<Sum>l\<leftarrow>ls. booked P m l)" for ls
      by (induction ls) (auto simp: zero)
    then show ?thesis by (simp add: summed_Aggregate cleanup_def Let_def)
  qed
  finally show "summed P m (mdb_rollup ?db2) = summed P m (Aggregate (mdb_logs ?db2))" .
qed

section \<open>Rebuilding\<close>

definition normal :: "call_log \<Rightarrow> call_log" where
  "normal l = fst (normalizeLegacyUsage l)"

lemma normal_created [simp]: "cl_created (normal l) = cl_created l" "in_hour h (normal l) = in_hour h l"
  by (simp_all add: normal_def normalizeLegacyUsage_def in_hour_def Let_def)

lemma rebuild_hour_db:
  "fst (rebuild_hour h st) =
     (fst st)\<lparr>mdb_logs := map (\<lambda>l. if in_hour h l then normal l else l) (mdb_logs (fst st)),
        mdb_rollup := mdb_rollup (fst st) @ Aggregate (map normal (filter (in_hour h) (mdb_logs (fst st))))\<rparr>"
proof -
  obtain db a b where st: "st = (db, a, b)" by (metis prod.collapse)
  show ?thesis
  proof (cases "filter (in_hour h) (mdb_logs db) = []")
    case True
    then have "map (\<lambda>l. if in_hour h l then normal l else l) (mdb_logs db) = mdb_logs db"
      by (intro map_idI) (auto simp: filter_empty_conv)
    with True show ?thesis by (simp add: st rebuild_hour_def Aggregate_def add_all_def)
  qed (simp add: st rebuild_hour_def Let_def normal_def [abs_def])
qed

definition hours_apart :: "time list \<Rightarrow> bool" where
  "hours_apart hs \<longleftrightarrow> distinct hs \<and> (\<forall>h\<in>set hs. truncate_hour h = h)"

definition within :: "time list \<Rightarrow> call_log \<Rightarrow> bool" where
  "within hs l \<longleftrightarrow> truncate_hour (cl_created l) \<in> set hs"

lemma rebuild_hours_db:
  assumes "hours_apart hs"
  shows "fst (fold rebuild_hour hs st) =
    (fst st)\<lparr>mdb_logs := map (\<lambda>l. if within hs l then normal l else l) (mdb_logs (fst st)),
       mdb_rollup := mdb_rollup (fst st) @
         concat (map (\<lambda>h. Aggregate (map normal (filter (in_hour h) (mdb_logs (fst st))))) hs)\<rparr>"
  using assms
proof (induction hs arbitrary: st)
  case Nil
  show ?case by (simp add: within_def)
next
  case (Cons h hs)
  have hs: "hours_apart hs" "truncate_hour h = h" "h \<notin> set hs" "\<And>h'. h' \<in> set hs \<Longrightarrow> truncate_hour h' = h'"
    using Cons.prems by (auto simp: hours_apart_def)
  let ?L = "mdb_logs (fst st)" and ?f = "\<lambda>l. if in_hour h l then normal l else l"
  have other: "filter (in_hour h') (map ?f ?L) = filter (in_hour h') ?L" if "h' \<in> set hs" for h'
  proof -
    have "\<not> (in_hour h' l \<and> in_hour h l)" for l
      using hs(2,3) hs(4) [OF that] that by (auto simp: in_hour_iff)
    then have "map ?f (filter (in_hour h') ?L) = filter (in_hour h') ?L" by (intro map_idI) auto
    moreover have "filter (in_hour h') (map ?f ?L) = map ?f (filter (in_hour h') ?L)"
      by (induction ?L rule: list.induct) (auto simp: filter_map comp_def intro!: arg_cong [where f = "map _"] filter_cong)
    ultimately show ?thesis by simp
  qed
  have w: "within hs (?f l) = within hs l" for l by (simp add: within_def)
  have twice: "(if within hs l then normal (?f l) else ?f l) = (if within (h # hs) l then normal l else l)" for l
    using hs(2,3) by (auto simp: within_def in_hour_iff)
  have "map (\<lambda>h'. Aggregate (map normal (filter (in_hour h') (map ?f ?L)))) hs =
      map (\<lambda>h'. Aggregate (map normal (filter (in_hour h') ?L))) hs"
    using other by simp
  then show ?case
    using Cons.IH [OF hs(1), of "rebuild_hour h st"] twice
    by (simp add: rebuild_hour_db w comp_def cong: map_cong)
qed

lemma hours_between_apart:
  assumes "truncate_hour f = f"
  shows "hours_apart (hours_between f u)"
proof -
  have "truncate_hour (f + int i * hour) = f + int i * hour" for i
  proof -
    have "f div hour * hour = f" using assms by (simp add: truncate_hour_def)
    then have "(f + int i * hour) div hour = f div hour + int i" using hour_pos by simp
    then show ?thesis using \<open>f div hour * hour = f\<close> by (simp add: truncate_hour_def distrib_right)
  qed
  then show ?thesis
    using hour_pos by (auto simp: hours_apart_def hours_between_def distinct_map inj_on_def)
qed

lemma mem_hours_between:
  assumes f: "truncate_hour f = f" and u: "truncate_hour u = u" and h: "truncate_hour h = h"
  shows "h \<in> set (hours_between f u) \<longleftrightarrow> f \<le> h \<and> h < u"
proof -
  obtain a b c where abc: "f = a * hour" "u = b * hour" "h = c * hour"
    using f u h by (metis truncate_hour_def)
  have eq: "c * hour = a * hour + int i * hour \<longleftrightarrow> c = a + int i" for i
    using hour_pos by (metis distrib_right less_irrefl mult_right_cancel)
  have "(b * hour - a * hour) div hour = b - a" using hour_pos by (simp flip: left_diff_distrib)
  then have "h \<in> set (hours_between f u) \<longleftrightarrow> (\<exists>i < nat (b - a). c * hour = a * hour + int i * hour)"
    unfolding hours_between_def abc by auto
  also have "\<dots> \<longleftrightarrow> (\<exists>i < nat (b - a). c = a + int i)" by (simp only: eq)
  finally have "h \<in> set (hours_between f u) \<longleftrightarrow> (\<exists>i < nat (b - a). c = a + int i)" .
  also have "\<dots> \<longleftrightarrow> a \<le> c \<and> c < b"
  proof
    assume "a \<le> c \<and> c < b"
    then show "\<exists>i < nat (b - a). c = a + int i" by (intro exI [of _ "nat (c - a)"]) auto
  qed auto
  also have "\<dots> \<longleftrightarrow> f \<le> h \<and> h < u" using hour_pos by (simp add: abc)
  finally show ?thesis .
qed

lemma sum_over_hours:
  fixes g :: "call_log \<Rightarrow> int"
  assumes "hours_apart hs"
  shows "(\<Sum>h\<leftarrow>hs. \<Sum>l\<leftarrow>filter (in_hour h) ls. g l) = (\<Sum>l\<leftarrow>ls. if within hs l then g l else 0)"
  using assms
proof (induction hs)
  case Nil
  show ?case by (simp add: within_def sum_list_zero)
next
  case (Cons h hs)
  have hs: "hours_apart hs" "truncate_hour h = h" "h \<notin> set hs" using Cons.prems by (auto simp: hours_apart_def)
  have "(\<Sum>l\<leftarrow>filter (in_hour h) ls. g l) + (\<Sum>l\<leftarrow>ls. if within hs l then g l else 0) =
      (\<Sum>l\<leftarrow>ls. if within (h # hs) l then g l else 0)"
    using hs(2,3) by (induction ls) (auto simp: within_def in_hour_iff)
  then show ?case using Cons.IH [OF hs(1)] by simp
qed

lemma summed_concat: "summed P m (concat ts) = (\<Sum>t\<leftarrow>ts. summed P m t)"
  by (induction ts) auto

lemma Rebuild_some:
  assumes "Rebuild add_days from til days now db = Some (db', hours, rows)"
  defines "f \<equiv> truncate_hour from" and "u \<equiv> truncate_hour til + hour"
  shows "purgeBoundaryAllows f db"
    and "mdb_purged db' = mdb_purged db"
    and "mdb_logs db' = map (\<lambda>l. if within (hours_between f u) l then normal l else l) (mdb_logs db)"
    and "mdb_rollup db' = filter (\<lambda>(k, c). \<not> (f \<le> dk_hour k \<and> dk_hour k < u)) (mdb_rollup db) @
      concat (map (\<lambda>h. Aggregate (map normal (filter (in_hour h) (mdb_logs db)))) (hours_between f u))"
proof -
  let ?st = "(db\<lparr>mdb_rollup := filter (\<lambda>(k, c). \<not> (f \<le> dk_hour k \<and> dk_hour k < u)) (mdb_rollup db)\<rparr>, 0, 0)"
  have "hours_apart (hours_between f u)" by (rule hours_between_apart) (simp add: f_def)
  note db = rebuild_hours_db [OF this, of ?st]
  have r: "purgeBoundaryAllows f db" "fold rebuild_hour (hours_between f u) ?st = (db', hours, rows)"
    using assms(1) by (auto simp: Rebuild_def Let_def f_def u_def split: if_splits)
  show "purgeBoundaryAllows f db" by (rule r)
  show "mdb_purged db' = mdb_purged db"
    "mdb_logs db' = map (\<lambda>l. if within (hours_between f u) l then normal l else l) (mdb_logs db)"
    "mdb_rollup db' = filter (\<lambda>(k, c). \<not> (f \<le> dk_hour k \<and> dk_hour k < u)) (mdb_rollup db) @
      concat (map (\<lambda>h. Aggregate (map normal (filter (in_hour h) (mdb_logs db)))) (hours_between f u))"
    using db r(2) by simp_all
qed

lemma rebuild_sums:
  assumes "Rebuild add_days from til days now db = Some (db', hours, rows)"
  defines "f \<equiv> truncate_hour from" and "u \<equiv> truncate_hour til + hour"
  shows "summed P m (mdb_rollup db') =
    summed (\<lambda>k. P k \<and> \<not> (f \<le> dk_hour k \<and> dk_hour k < u)) m (mdb_rollup db) +
    (\<Sum>l\<leftarrow>mdb_logs db. if within (hours_between f u) l then booked P m (normal l) else 0)"
proof -
  have apart: "hours_apart (hours_between f u)" by (rule hours_between_apart) (simp add: f_def)
  have "summed P m (concat (map (\<lambda>h. Aggregate (map normal (filter (in_hour h) (mdb_logs db)))) (hours_between f u))) =
      (\<Sum>h\<leftarrow>hours_between f u. \<Sum>l\<leftarrow>filter (in_hour h) (mdb_logs db). booked P m (normal l))"
    by (simp add: summed_concat summed_Aggregate comp_def)
  with Rebuild_some(4) [OF assms(1)] show ?thesis
    unfolding f_def [symmetric] u_def [symmetric] by (simp add: summed_filter sum_over_hours [OF apart])
qed

lemma sum_split:
  fixes g :: "call_log \<Rightarrow> int"
  shows "(\<Sum>l\<leftarrow>ls. if w l then 0 else g l) + (\<Sum>l\<leftarrow>ls. if w l then g (n l) else 0) = (\<Sum>l\<leftarrow>ls. g (if w l then n l else l))"
  by (induction ls) auto

lemma live_rebuild:
  assumes ok: "live db" and run: "Rebuild add_days from til days now db = Some (db', hours, rows)"
  shows "live db'"
  unfolding live_def
proof (intro allI impI)
  fix P :: "dimKey \<Rightarrow> bool" and m
  let ?f = "truncate_hour from" and ?u = "truncate_hour til + hour"
  let ?w = "within (hours_between ?f ?u)" and ?out = "\<lambda>k. P k \<and> \<not> (?f \<le> dk_hour k \<and> dk_hour k < ?u)"
  assume "\<forall>k. P k \<longrightarrow> recent db' (dk_hour k)"
  then have P: "\<forall>k. ?out k \<longrightarrow> recent db (dk_hour k)"
    using Rebuild_some(2) [OF run] by (simp add: recent_def)
  have u: "truncate_hour ?u = ?u" by simp
  have w: "?w l \<longleftrightarrow> ?f \<le> truncate_hour (cl_created l) \<and> truncate_hour (cl_created l) < ?u" for l
    unfolding within_def by (rule mem_hours_between) (simp_all add: u)
  have out: "booked ?out m l = (if ?w l then 0 else booked P m l)" for l
  proof (cases "?w l")
    case True
    then have "booked ?out m l = 0" by (intro booked_other_hour) (auto simp: w)
    with True show ?thesis by simp
  next
    case False
    then have "booked ?out m l = booked P m l" by (intro booked_cong) (auto simp: w)
    with False show ?thesis by simp
  qed
  have "summed P m (mdb_rollup db') =
      (\<Sum>l\<leftarrow>mdb_logs db. if ?w l then 0 else booked P m l) + (\<Sum>l\<leftarrow>mdb_logs db. if ?w l then booked P m (normal l) else 0)"
  proof -
    have "summed ?out m (mdb_rollup db) = (\<Sum>l\<leftarrow>mdb_logs db. booked ?out m l)"
      by (rule ok [unfolded live_def summed_Aggregate, THEN spec, THEN spec, THEN mp, OF P])
    then show ?thesis by (simp only: rebuild_sums [OF run] out)
  qed
  also have "\<dots> = (\<Sum>l\<leftarrow>mdb_logs db. booked P m (if ?w l then normal l else l))"
    by (rule sum_split)
  also have "\<dots> = summed P m (Aggregate (mdb_logs db'))"
    by (simp add: Rebuild_some(3) [OF run] summed_Aggregate comp_def)
  finally show "summed P m (mdb_rollup db') = summed P m (Aggregate (mdb_logs db'))" .
qed

lemma in_window:
  "truncate_hour from \<le> cl_created l \<and> cl_created l < truncate_hour til + hour \<longleftrightarrow>
     truncate_hour from \<le> truncate_hour (cl_created l) \<and> truncate_hour (cl_created l) < truncate_hour til + hour"
proof -
  have a: "truncate_hour from \<le> cl_created l \<Longrightarrow> truncate_hour from \<le> truncate_hour (cl_created l)"
    using truncate_hour_mono [of "truncate_hour from" "cl_created l"] by simp
  have b: "truncate_hour til + hour \<le> cl_created l \<Longrightarrow> truncate_hour til + hour \<le> truncate_hour (cl_created l)"
    using truncate_hour_mono [of "truncate_hour til + hour" "cl_created l"] by simp
  show ?thesis using a b truncate_hour_le(1) [of "cl_created l"] by fastforce
qed

text \<open>Property C39: a rebuild repairs. Whatever the rollup held before, afterwards it agrees with the logs
  over the rebuilt hours, in every metric and over any part of their keys; the logs of these hours are
  corrected where they are legacy rows, nothing else in the logs or in the rollup of other hours
  changes, and only hours whose logs are complete are rebuilt. So if the books agreed over all
  complete hours, they still do.\<close>

theorem rebuild_repairs:
  fixes start til :: time
  assumes run: "Rebuild add_days start til days now db = Some (db', hours, rows)"
  defines "f \<equiv> truncate_hour start" and "u \<equiv> truncate_hour til + hour"
  shows "(\<forall>P m. (\<forall>k. P k \<longrightarrow> f \<le> dk_hour k \<and> dk_hour k < u) \<longrightarrow>
       summed P m (mdb_rollup db') = summed P m (Aggregate (mdb_logs db'))) \<and>
    (\<forall>P m. (\<forall>k. P k \<longrightarrow> \<not> (f \<le> dk_hour k \<and> dk_hour k < u)) \<longrightarrow>
       summed P m (mdb_rollup db') = summed P m (mdb_rollup db)) \<and>
    mdb_logs db' = map (\<lambda>l. if f \<le> cl_created l \<and> cl_created l < u then fst (normalizeLegacyUsage l) else l) (mdb_logs db) \<and>
    (\<forall>h\<ge>f. recent db h) \<and> (live db \<longrightarrow> live db')"
proof (intro conjI allI impI)
  let ?w = "within (hours_between f u)"
  have w: "?w l \<longleftrightarrow> f \<le> truncate_hour (cl_created l) \<and> truncate_hour (cl_created l) < u" for l
    unfolding within_def by (rule mem_hours_between) (simp_all add: f_def u_def)
  have logs: "mdb_logs db' = map (\<lambda>l. if ?w l then normal l else l) (mdb_logs db)"
    using Rebuild_some(3) [OF run] by (simp add: f_def u_def)
  note sums = rebuild_sums [OF run, folded f_def u_def]
  {
    fix P :: "dimKey \<Rightarrow> bool" and m
    assume P: "\<forall>k. P k \<longrightarrow> f \<le> dk_hour k \<and> dk_hour k < u"
    have "booked P m l = 0" if "\<not> ?w l" for l by (rule booked_other_hour) (use P that w in fastforce)
    then have each: "booked P m (if ?w l then normal l else l) = (if ?w l then booked P m (normal l) else 0)" for l by simp
    have "(\<lambda>k. P k \<and> \<not> (f \<le> dk_hour k \<and> dk_hour k < u)) = (\<lambda>_. False)" using P by (intro ext) blast
    then have none: "summed (\<lambda>k. P k \<and> \<not> (f \<le> dk_hour k \<and> dk_hour k < u)) m (mdb_rollup db) = 0"
      by (simp add: summed_def sum_list_zero)
    show "summed P m (mdb_rollup db') = summed P m (Aggregate (mdb_logs db'))"
      unfolding sums none summed_Aggregate logs map_map comp_def each by simp
  }
  {
    fix P :: "dimKey \<Rightarrow> bool" and m
    assume P: "\<forall>k. P k \<longrightarrow> \<not> (f \<le> dk_hour k \<and> dk_hour k < u)"
    have "booked P m (normal l) = 0" if "?w l" for l
      by (rule booked_other_hour) (use P that w in fastforce)
    then have "(\<Sum>l\<leftarrow>mdb_logs db. if ?w l then booked P m (normal l) else 0) = 0" by (simp add: sum_list_zero)
    moreover have "(\<lambda>k. P k \<and> \<not> (f \<le> dk_hour k \<and> dk_hour k < u)) = P" by (rule ext) (use P in fastforce)
    ultimately show "summed P m (mdb_rollup db') = summed P m (mdb_rollup db)" unfolding sums by simp
  }
  show "mdb_logs db' = map (\<lambda>l. if f \<le> cl_created l \<and> cl_created l < u then fst (normalizeLegacyUsage l) else l) (mdb_logs db)"
    unfolding logs w normal_def by (simp only: f_def u_def in_window [of start _ til])
  show "live db'" if "live db" by (rule live_rebuild [OF that run])
  show "recent db h" if "f \<le> h" for h
    using Rebuild_some(1) [OF run] that by (auto simp: recent_def purgeBoundaryAllows_def f_def split: option.splits)
qed

section \<open>Reconciliation\<close>

lemma usage_sums:
  "\<exists>st. usageFromAttempts (cl_attempts l) = (st, attempt_sum at_prompt l, attempt_sum at_completion l)"
proof -
  have "(\<Sum>a\<leftarrow>as. if at_usage a \<in> {Some UsageConfirmed, Some UsagePartial} then f a else 0) = (\<Sum>a\<leftarrow>filter reported as. f a)"
    for as and f :: "attemptRecord \<Rightarrow> int"
    by (induction as) (auto simp: reported_def)
  then show ?thesis
    unfolding usageFromAttempts_def Let_def fold_attempts_eq by (simp add: no_attempts_def attempt_sum_def)
qed

lemma consistent_normal: "consistent l \<Longrightarrow> consistent (normal l)"
proof -
  assume l: "consistent l"
  obtain st where u: "usageFromAttempts (cl_attempts l) = (st, attempt_sum at_prompt l, attempt_sum at_completion l)"
    using usage_sums by blast
  show ?thesis
    using l unfolding normal_def normalize_eq [OF u]
    by (auto simp: consistent_def attempt_sum_def cost_verified_def)
qed

inductive metering_step :: "(int \<Rightarrow> time \<Rightarrow> time) \<Rightarrow> metering_db \<Rightarrow> metering_db \<Rightarrow> bool" for add_days where
  step_commit: "\<forall>l\<in>set fresh. consistent l \<Longrightarrow> metering_step add_days db (commit_rows fresh db)"
| step_rebuild: "Rebuild add_days from til days now db = Some (db', hours, rows) \<Longrightarrow> metering_step add_days db db'"
| step_clean: "add_days (- 365) cutoff \<le> cutoff \<Longrightarrow> metering_step add_days db (cleanup add_days cutoff gone db)"
| step_mark: "metering_step add_days db (setPurgedBefore t db)"

definition empty_metering :: metering_db where
  "empty_metering = \<lparr>mdb_logs = [], mdb_rollup = [], mdb_purged = None\<rparr>"

definition sound_metering :: "metering_db \<Rightarrow> bool" where
  "sound_metering db \<longleftrightarrow> live db \<and> (\<forall>l\<in>set (mdb_logs db). consistent l)"

lemma metering_logs:
  "mdb_logs (commit_rows fresh db) = mdb_logs db @ fresh"
  "set (mdb_logs (cleanup add_days cutoff gone db)) \<subseteq> set (mdb_logs db)"
  "l \<in> set (mdb_logs (cleanup add_days cutoff gone db)) \<Longrightarrow> l \<in> set (mdb_logs db)"
  by (auto simp: commit_rows_def cleanup_def Let_def)

lemma sound_step: "metering_step add_days db db' \<Longrightarrow> sound_metering db \<Longrightarrow> sound_metering db'"
proof (induction rule: metering_step.induct)
  case (step_rebuild f til days now db db' hours rows)
  then show ?case
    using live_rebuild [of db] by (auto simp: sound_metering_def Rebuild_some(3) [OF step_rebuild(1)] consistent_normal)
qed (auto simp: sound_metering_def live_commit live_cleanup live_purge metering_logs)

lemma sound_reachable: "(metering_step add_days)\<^sup>*\<^sup>* empty_metering db \<Longrightarrow> sound_metering db"
proof (induction rule: rtranclp_induct)
  case base
  show ?case by (simp add: sound_metering_def empty_metering_def live_def Aggregate_def add_all_def)
qed (rule sound_step)

lemma log_sums_booked:
  assumes "\<forall>l\<in>set ls. consistent l"
  shows "log_sums ls =
    \<lparr>hs_requests = (\<Sum>l\<leftarrow>ls. booked (\<lambda>_. True) Requests l), hs_tokens = (\<Sum>l\<leftarrow>ls. booked (\<lambda>_. True) TotalCount l),
     hs_cost = (\<Sum>l\<leftarrow>ls. booked (\<lambda>_. True) CostSum l), hs_unverified = (\<Sum>l\<leftarrow>ls. booked (\<lambda>_. True) CostUnverified l)\<rparr>"
  using assms
  by (induction ls) (simp_all add: log_sums_def booked_all(1,4) booked_consistent)

lemma hour_sums:
  assumes "sound_metering db" and "recent db h"
  shows "roll_sums h (mdb_rollup db) = log_sums (filter (\<lambda>l. truncate_hour (cl_created l) = h) (mdb_logs db))"
proof -
  let ?P = "\<lambda>k. dk_hour k = h"
  have "summed ?P m (mdb_rollup db) = summed ?P m (Aggregate (mdb_logs db))" for m
    using assms by (auto simp: sound_metering_def live_def)
  moreover have "request_scope ?P" by (simp add: request_scope_def)
  moreover have "?P (own_key l) \<longleftrightarrow> truncate_hour (cl_created l) = h" for l by (simp add: own_key_def row_key_def)
  ultimately have "summed ?P m (mdb_rollup db) =
      (\<Sum>l\<leftarrow>filter (\<lambda>l. truncate_hour (cl_created l) = h) (mdb_logs db). booked (\<lambda>_. True) m l)" for m
    by (simp add: summed_scope)
  moreover have "\<forall>l\<in>set (filter (\<lambda>l. truncate_hour (cl_created l) = h) (mdb_logs db)). consistent l"
    using assms(1) by (simp add: sound_metering_def)
  ultimately show ?thesis by (simp add: roll_sums_def log_sums_booked Let_def)
qed

text \<open>Property C36: metering reconciles. However commits, rebuilds, purges and boundary updates follow
  each other, the comparison of logs and rollup reports no difference over any hours whose logs
  are still complete, as long as the requests committed know what their attempts report.\<close>

theorem metering_reconciles:
  assumes "(metering_step add_days)\<^sup>*\<^sup>* empty_metering db" and "recent db (truncate_hour from)"
  shows "Reconcile from til db = []"
proof -
  let ?f = "truncate_hour from" and ?u = "truncate_hour til + hour"
  let ?ls = "filter (\<lambda>l. ?f \<le> cl_created l \<and> cl_created l < ?u) (mdb_logs db)"
  note sound = sound_reachable [OF assms(1)]
  have later: "recent db h" if "?f \<le> h" for h
    using assms(2) that by (auto simp: recent_def split: option.splits)
  have same: "log_sums (filter (\<lambda>l. truncate_hour (cl_created l) = h) ?ls) = roll_sums h (mdb_rollup db)"
    if "?f \<le> h \<and> h < ?u" for h
  proof -
    have "filter (\<lambda>l. truncate_hour (cl_created l) = h) ?ls = filter (\<lambda>l. truncate_hour (cl_created l) = h) (mdb_logs db)"
      unfolding filter_filter using that by (intro filter_cong) (auto simp: in_window)
    then show ?thesis using hour_sums [OF sound later] that by simp
  qed
  have logged: "?f \<le> h \<and> h < ?u" if "h \<in> set (map (\<lambda>l. truncate_hour (cl_created l)) ?ls)" for h
    using that by (auto simp: in_window)
  have none: "roll_sums h (mdb_rollup db) = no_sums"
    if "?f \<le> h \<and> h < ?u" and "h \<notin> set (map (\<lambda>l. truncate_hour (cl_created l)) ?ls)" for h
  proof -
    have "filter (\<lambda>l. truncate_hour (cl_created l) = h) ?ls = []" using that(2) by (auto simp: filter_empty_conv)
    then show ?thesis using same [OF that(1)] by (simp add: log_sums_def no_sums_def)
  qed
  have 1: "filter (\<lambda>h. log_sums (filter (\<lambda>l. truncate_hour (cl_created l) = h) ?ls) \<noteq> roll_sums h (mdb_rollup db))
      (remdups (map (\<lambda>l. truncate_hour (cl_created l)) ?ls)) = []"
    using same [OF logged] unfolding filter_empty_conv set_remdups by blast
  have 2: "filter (\<lambda>h. h \<notin> set (remdups (map (\<lambda>l. truncate_hour (cl_created l)) ?ls)) \<and> roll_sums h (mdb_rollup db) \<noteq> no_sums)
      (remdups (filter (\<lambda>h. ?f \<le> h \<and> h < ?u) (map (dk_hour \<circ> fst) (mdb_rollup db)))) = []"
    using none unfolding filter_empty_conv set_remdups set_filter by blast
  show ?thesis unfolding Reconcile_def Let_def 1 2 by simp
qed

section \<open>From the gateway to the rollup\<close>

definition consumption :: "attemptRecord \<Rightarrow> nat \<times> bool \<times> int \<times> int" where
  "consumption a = (at_account a, reported a, at_prompt a, at_completion a)"

definition tokens_on :: "(nat \<Rightarrow> bool) \<Rightarrow> attemptRecord list \<Rightarrow> int" where
  \<comment> \<open>what the attempts on the given accounts reported\<close>
  "tokens_on A as = (\<Sum>a\<leftarrow>as. if reported a \<and> A (at_account a) then at_prompt a + at_completion a else 0)"

lemma price_loop_consumption:
  "price_loop cost l lst i as known sm = (as', k, t) \<Longrightarrow> map consumption as' = map consumption as"
  by (induction as arbitrary: i known sm as' k t)
    (auto simp: Let_def consumption_def reported_def split: if_splits prod.splits)

lemma priceAttempts_consumption: "priceAttempts pr (as, l) = (as', l') \<Longrightarrow> map consumption as' = map consumption as"
  by (auto simp: priceAttempts_def Let_def dest: price_loop_consumption split: option.splits if_splits prod.splits)

lemma tokens_on_cong: "map consumption as' = map consumption as \<Longrightarrow> tokens_on A as' = tokens_on A as"
proof -
  have "tokens_on A as = (\<Sum>(i, r, p, c)\<leftarrow>map consumption as. if r \<and> A i then p + c else 0)" for as
    by (simp add: tokens_on_def consumption_def comp_def)
  then show "map consumption as' = map consumption as \<Longrightarrow> ?thesis" by (simp only:)
qed

lemma tokens_on_all: "tokens_on (\<lambda>_. True) (cl_attempts l) = attempt_sum at_prompt l + attempt_sum at_completion l"
proof -
  have "tokens_on (\<lambda>_. True) as = (\<Sum>a\<leftarrow>filter reported as. at_prompt a) + (\<Sum>a\<leftarrow>filter reported as. at_completion a)" for as
    by (induction as) (simp_all add: tokens_on_def)
  then show ?thesis by (simp add: attempt_sum_def)
qed

lemma booked_by_account:
  assumes "cl_prompt l = attempt_sum at_prompt l" and "cl_completion l = attempt_sum at_completion l"
    and "cl_total l = cl_prompt l + cl_completion l"
  shows "booked (\<lambda>k. A (dk_account k)) TotalCount l = tokens_on A (cl_attempts l)"
proof -
  have "(\<Sum>(k, c)\<leftarrow>map (attempt_booking l) as. if A (dk_account k) then c TotalCount else 0) = tokens_on A as" for as
    by (induction as) (auto simp: tokens_on_def attempt_booking_def row_key_def)
  then show ?thesis
    using assms by (simp add: booked_def bookings_def request_booking_def remainder_booking_def)
qed

text \<open>Property C40: what the gateway meters is what is billed. The log entry \<open>finish\<close> writes for a
  request with attempts carries exactly the tokens its attempts reported; the rollup books them
  once, each on the account that consumed them; and their total, when it is positive, is charged
  once to the quota of the request's group and once to the token rates of the group and of the
  key, and to nothing else.\<close>

theorem metered_is_booked:
  assumes run: "finish zone pr now (g, q) = (g', q')" and "rq_attempts q \<noteq> []"
  defines "n \<equiv> tokens_on (\<lambda>_. True) (rq_attempts q)"
  shows "gw_logs g' = gw_logs g @ [rq_log q'] \<and> cl_total (rq_log q') = n \<and>
    cl_prompt (rq_log q') = (\<Sum>a\<leftarrow>filter reported (rq_attempts q). at_prompt a) \<and>
    cl_completion (rq_log q') = (\<Sum>a\<leftarrow>filter reported (rq_attempts q). at_completion a) \<and>
    (\<forall>A. summed (\<lambda>k. A (dk_account k)) TotalCount (Aggregate [rq_log q']) = tokens_on A (rq_attempts q)) \<and>
    gw_quota g' = (case rq_group q of
        Some gv \<Rightarrow> if n > 0 then quota_add zone (gv_id gv) n now (gw_quota g) else gw_quota g
      | None \<Rightarrow> gw_quota g) \<and>
    gw_rates g' = fold (\<lambda>subject. addTokens subject n now)
      (if n > 0 then (case rq_group q of Some gv \<Rightarrow> [group_subject (gv_id gv)] | None \<Rightarrow> []) @
                     (case rq_principal q of Some p \<Rightarrow> [key_subject (KeyID p)] | None \<Rightarrow> []) else []) (gw_rates g)"
proof -
  let ?q1 = "if rq_reserved q > 0 then q\<lparr>rq_reserved := 0\<rparr> else q"
  let ?g1 = "if rq_reserved q > 0 then g\<lparr>gw_budget := budget_release (rq_reserved q) (gw_budget g)\<rparr> else g"
  define q2 where "q2 = account_usage (?q1\<lparr>rq_log := (rq_log ?q1)\<lparr>cl_latency := (now - rq_start ?q1) div 1000000\<rparr>\<rparr>)"
  obtain st p c where u: "usageFromAttempts (rq_attempts q) = (st, p, c)" by (metis prod_cases3)
  have q2: "rq_attempts q2 = rq_attempts q" "cl_prompt (rq_log q2) = p" "cl_completion (rq_log q2) = c"
    "cl_total (rq_log q2) = p + c" "rq_group q2 = rq_group q" "rq_principal q2 = rq_principal q"
    using u by (auto simp: q2_def account_usage_def Let_def)
  obtain as l where pa: "priceAttempts pr (rq_attempts q2, rq_log q2) = (as, l)" by fastforce
  have l: "cl_prompt l = p" "cl_completion l = c" "cl_total l = p + c"
    using pa q2 by (auto simp: priceAttempts_def Let_def split: option.splits if_splits prod.splits)
  have ne: "as \<noteq> []" using priceAttempts_keys [OF pa] q2(1) assms(2) by auto
  define l2 where "l2 = identify q2 (l\<lparr>cl_attempts := as\<rparr>)"
  have id: "cl_prompt l2 = p" "cl_completion l2 = c" "cl_total l2 = p + c" "cl_attempts l2 = as"
    using l by (auto simp: l2_def identify_def Let_def split: option.split)
  have tot: "cl_total l2 = cl_total l" using l id by simp
  have q': "q' = q2\<lparr>rq_attempts := as, rq_log := l2\<rparr>"
    and g': "g' = (book_tokens zone now q' (cl_total l2) ?g1)\<lparr>gw_logs := gw_logs (book_tokens zone now q' (cl_total l2) ?g1) @ [l2]\<rparr>"
    using run pa ne tot by (auto simp: finish_def q2_def [symmetric] l2_def [symmetric] Let_def simp del: account_usage_frame)
  have s: "attempt_sum at_prompt l2 = p" "attempt_sum at_completion l2 = c"
    using usage_sums [of l2] priceAttempts_usage [OF pa] q2(1) u id(4) by auto
  have reported_q: "(\<Sum>a\<leftarrow>filter reported (rq_attempts q). at_prompt a) = p" "(\<Sum>a\<leftarrow>filter reported (rq_attempts q). at_completion a) = c"
    using usage_sums [of "l\<lparr>cl_attempts := rq_attempts q\<rparr>"] u by (auto simp: attempt_sum_def)
  have on: "tokens_on A (rq_attempts q) = tokens_on A as" for A
    using tokens_on_cong [OF priceAttempts_consumption [OF pa]] q2(1) by simp
  have n: "n = p + c" unfolding n_def on using tokens_on_all [of l2] id(4) s by simp
  have acc: "summed (\<lambda>k. A (dk_account k)) TotalCount (Aggregate [l2]) = tokens_on A (rq_attempts q)" for A
    using booked_by_account [of l2 A] s id by (simp add: summed_Aggregate on)
  have "gw_quota ?g1 = gw_quota g" "gw_rates ?g1 = gw_rates g" by simp_all
  then show ?thesis
    unfolding g' using id n acc reported_q q2(5,6)
    by (auto simp: q' book_tokens_def Let_def split: option.splits)
qed

section \<open>Sample\<close>

definition sample_logged :: call_log where
  "sample_logged = (new_log ''r1'' TypeText (7200 * second))\<lparr>cl_attempts := [sample_attempt (Some UsageConfirmed) 7 2],
     cl_prompt := 7, cl_completion := 2, cl_total := 9, cl_result := ResSuccess, cl_usage := Some UsageConfirmed\<rparr>"

lemma sample_consistent: "consistent sample_logged"
  by (simp add: consistent_def sample_logged_def attempt_sum_def reported_def new_log_def sample_attempt_def)

lemma rollup_conserves_witness:
  "summed (\<lambda>_. True) TotalCount (Aggregate [sample_logged, sample_logged]) = 18"
proof -
  have P: "request_scope (\<lambda>_. True)" by (simp add: request_scope_def)
  have ok: "\<forall>l\<in>set [sample_logged, sample_logged]. consistent l" by (simp add: sample_consistent)
  show ?thesis using rollup_conserves [OF P ok] by (simp add: sample_logged_def)
qed

lemma normalize_is_live_fold_witness:
  "normalizeLegacyUsage (fst (normalizeLegacyUsage (sample_logged\<lparr>cl_prompt := 0, cl_completion := 2\<rparr>))) =
     (fst (normalizeLegacyUsage (sample_logged\<lparr>cl_prompt := 0, cl_completion := 2\<rparr>)), False)"
proof -
  let ?l = "sample_logged\<lparr>cl_prompt := 0, cl_completion := 2\<rparr>"
  obtain l' ch where n: "normalizeLegacyUsage ?l = (l', ch)" by fastforce
  have u: "usageFromAttempts (cl_attempts ?l) = (UsageConfirmed, 7, 2)"
    by (simp add: sample_logged_def usageFromAttempts_def no_attempts_def status_of_fold_def sample_attempt_def)
  from normalize_is_live_fold [OF u n] show ?thesis unfolding n by simp
qed

lemma rollup_can_exceed_request_witness:
  "summed (\<lambda>_. True) TotalCount (Aggregate [sample_logged\<lparr>cl_attempts := [sample_attempt (Some UsageConfirmed) 10 5],
     cl_prompt := 5, cl_completion := 10, cl_total := 15\<rparr>]) = 20"
  using rollup_can_exceed_request [of "sample_logged\<lparr>cl_attempts := [sample_attempt (Some UsageConfirmed) 10 5],
     cl_prompt := 5, cl_completion := 10, cl_total := 15\<rparr>" "sample_attempt (Some UsageConfirmed) 10 5"]
  by (simp add: sample_logged_def sample_attempt_def)

definition sample_days :: "int \<Rightarrow> time \<Rightarrow> time" where
  "sample_days n t = t + n * 24 * hour"

lemma sample_reached: "(metering_step sample_days)\<^sup>*\<^sup>* empty_metering (commit_rows [sample_logged] empty_metering)"
  by (intro r_into_rtranclp step_commit) (simp add: sample_consistent)

lemma metering_reconciles_witness:
  "Reconcile 0 (9000 * second) (commit_rows [sample_logged] empty_metering) = []"
  by (rule metering_reconciles [OF sample_reached]) (simp add: recent_def commit_rows_def empty_metering_def)

lemma rebuild_repairs_witness:
  "\<exists>db' hours rows. Rebuild sample_days (7200 * second) (7200 * second) 30 (9000 * second)
        ((commit_rows [sample_logged] empty_metering)\<lparr>mdb_rollup := []\<rparr>) = Some (db', hours, rows) \<and>
      summed (\<lambda>k. dk_hour k = 7200 * second) TotalCount (mdb_rollup db') =
        summed (\<lambda>k. dk_hour k = 7200 * second) TotalCount (Aggregate (mdb_logs db'))"
proof -
  let ?db = "(commit_rows [sample_logged] empty_metering)\<lparr>mdb_rollup := []\<rparr>"
  have "Rebuild sample_days (7200 * second) (7200 * second) 30 (9000 * second) ?db \<noteq> None"
    by (simp add: Rebuild_def RebuildAllowed_def purgeBoundaryAllows_def commit_rows_def empty_metering_def sample_days_def
        truncate_hour_def hour_def minute_def second_def Let_def)
  then obtain db' hours rows where r: "Rebuild sample_days (7200 * second) (7200 * second) 30 (9000 * second) ?db = Some (db', hours, rows)"
    by (metis not_Some_eq prod_cases3)
  have at: "truncate_hour (7200 * second) = 7200 * second"
    by (simp add: truncate_hour_def hour_def minute_def second_def)
  have "summed (\<lambda>k. dk_hour k = 7200 * second) TotalCount (mdb_rollup db') =
      summed (\<lambda>k. dk_hour k = 7200 * second) TotalCount (Aggregate (mdb_logs db'))"
    using rebuild_repairs [OF r] hour_pos unfolding at by auto
  with r show ?thesis by blast
qed

lemma metered_is_booked_witness:
  "summed (\<lambda>k. dk_account k = at_account (sample_attempt (Some UsageConfirmed) 7 2)) TotalCount (Aggregate [rq_log (snd (finish 0 None second
     (sample_gw, sample_request\<lparr>rq_attempts := [sample_attempt (Some UsageConfirmed) 7 2]\<rparr>)))]) = 9"
proof -
  let ?q = "sample_request\<lparr>rq_attempts := [sample_attempt (Some UsageConfirmed) 7 2]\<rparr>"
  obtain g' q' where r: "finish 0 None second (sample_gw, ?q) = (g', q')" by fastforce
  have ne: "rq_attempts ?q \<noteq> []" by simp
  let ?a = "sample_attempt (Some UsageConfirmed) 7 2"
  have "summed (\<lambda>k. dk_account k = at_account ?a) TotalCount (Aggregate [rq_log q']) = tokens_on (\<lambda>i. i = at_account ?a) (rq_attempts ?q)"
    using metered_is_booked [OF r ne] by (elim conjE) (erule spec)
  also have "\<dots> = 9" by (simp add: tokens_on_def reported_def sample_attempt_def)
  finally show ?thesis unfolding r by simp
qed

end
