(* ===== verification/Lines.thy ===== *)
theory Lines
  imports GoBase
begin

text \<open>
  Reading byte streams line by line, as \<open>bufio.Reader\<close> does for the journal and for event streams,
  and the strings \<open>strings.TrimSpace\<close> leaves alone.
\<close>

definition read_line :: "string \<Rightarrow> (string \<times> string) option" where
  \<comment> \<open>\<open>ReadBytes('\n')\<close>: the line with its newline and the rest; None is end of file before one\<close>
  "read_line s =
     (case dropWhile (\<lambda>c. c \<noteq> newline) s of
        [] \<Rightarrow> None
      | c # rest \<Rightarrow> Some (takeWhile (\<lambda>c. c \<noteq> newline) s @ [c], rest))"

lemma read_line_split: "read_line s = Some (ln, rest) \<Longrightarrow> s = ln @ rest \<and> ln \<noteq> []"
proof -
  assume "read_line s = Some (ln, rest)"
  then obtain c where d: "dropWhile (\<lambda>c. c \<noteq> newline) s = c # rest"
    and ln: "ln = takeWhile (\<lambda>c. c \<noteq> newline) s @ [c]"
    by (auto simp: read_line_def split: list.splits)
  have "s = takeWhile (\<lambda>c. c \<noteq> newline) s @ c # rest"
    unfolding d [symmetric] by simp
  then show ?thesis unfolding ln by simp
qed

lemma read_line_first: "newline \<notin> set xs \<Longrightarrow> read_line (xs @ newline # rest) = Some (xs @ [newline], rest)"
proof -
  assume "newline \<notin> set xs"
  then have "\<forall>c\<in>set xs. c \<noteq> newline" by auto
  then show ?thesis by (simp add: read_line_def takeWhile_append2 dropWhile_append2)
qed

lemma read_line_none: "newline \<notin> set xs \<Longrightarrow> read_line xs = None"
proof -
  assume "newline \<notin> set xs"
  then have d: "dropWhile (\<lambda>c. c \<noteq> newline) xs = []" by auto
  show ?thesis unfolding read_line_def d by simp
qed

text \<open>Visible ASCII, which no trimming touches.\<close>

definition visible :: "char \<Rightarrow> bool" where
  "visible c \<longleftrightarrow> 33 \<le> (of_char c :: nat) \<and> (of_char c :: nat) \<le> 126"

lemma strip_none: "\<forall>q\<in>set qs. \<not> has_prefix s q \<Longrightarrow> strip_seqs qs n s = s"
  by (cases n) (auto simp: find_None_iff split: option.splits dest: find_Some_iff [THEN iffD1])

lemma visible_not_space:
  assumes "visible c"
  shows "\<forall>q\<in>set space_seqs. \<not> has_prefix (c # cs) q" and "\<forall>q\<in>set (map rev space_seqs). \<not> has_prefix (c # cs) q"
proof -
  have "\<forall>d\<in>set [CHR 0x09, CHR 0x0A, CHR 0x0B, CHR 0x0C, CHR 0x0D, CHR 0x20, CHR 0xC2, CHR 0xE1, CHR 0xE2, CHR 0xE3,
      CHR 0x80, CHR 0x81, CHR 0x82, CHR 0x83, CHR 0x84, CHR 0x85, CHR 0x86, CHR 0x87, CHR 0x88, CHR 0x89, CHR 0x8A,
      CHR 0xA0, CHR 0xA8, CHR 0xA9, CHR 0xAF, CHR 0x9F]. c \<noteq> d"
    using assms by (auto simp: visible_def)
  then show "\<forall>q\<in>set space_seqs. \<not> has_prefix (c # cs) q" "\<forall>q\<in>set (map rev space_seqs). \<not> has_prefix (c # cs) q"
    by (simp_all add: space_seqs_def has_prefix_def)
qed

lemma trim_left_visible: "\<forall>c\<in>set s. visible c \<Longrightarrow> strip_seqs space_seqs n s = s"
  and trim_right_visible: "\<forall>c\<in>set s. visible c \<Longrightarrow> strip_seqs (map rev space_seqs) n (rev s) = rev s"
proof -
  assume v: "\<forall>c\<in>set s. visible c"
  have e: "strip_seqs qs n [] = []" if "[] \<notin> set qs" for qs
    using that by (intro strip_none) (auto simp: has_prefix_def)
  show "strip_seqs space_seqs n s = s"
  proof (cases s)
    case Nil
    then show ?thesis using e [of space_seqs] by (simp add: space_seqs_def)
  next
    case (Cons c cs)
    then show ?thesis using v by (intro strip_none) (metis list.set_intros(1) visible_not_space(1))
  qed
  show "strip_seqs (map rev space_seqs) n (rev s) = rev s"
  proof (cases "rev s")
    case Nil
    then show ?thesis using e [of "map rev space_seqs"] by (simp add: space_seqs_def)
  next
    case (Cons c cs)
    then have "visible c" using v by (metis list.set_intros(1) set_rev)
    then show ?thesis unfolding Cons by (intro strip_none visible_not_space(2))
  qed
qed

lemma trim_visible: "\<forall>c\<in>set s. visible c \<Longrightarrow> trim_space s = s"
  by (simp add: trim_space_def trim_left_space_def trim_right_space_def trim_left_visible trim_right_visible)

lemma trim_blank_visible:
  assumes "\<forall>c\<in>set s. visible c"
  shows "trim_space (CHR 0x20 # s) = s"
proof -
  have "List.find (\<lambda>q. has_prefix (CHR 0x20 # s) q) space_seqs = Some [CHR 0x20]"
    by (simp add: space_seqs_def has_prefix_def)
  then have "trim_left_space (CHR 0x20 # s) = s"
    by (simp add: trim_left_space_def trim_left_visible [OF assms])
  then show ?thesis using assms by (simp add: trim_space_def trim_right_space_def trim_right_visible)
qed

end
