(* ===== verification/Journal.thy ===== *)
theory Journal
  imports Rollup Lines
begin

text \<open>
  The durable half of the log store (\<open>src/internal/logstore/logstore.go\<close>): the journal
  \<open>calls.jsonl\<close> records are appended to, its checkpoint file, the committed boundary in the
  settings table, the writer that moves records into the database, rotation, and the start of the
  store after a crash. A file is its contents, a database is \<open>metering_db\<close> with the settings
  row. The JSON encoding and decoding of a record and the cost fixer are arguments. A failed read of
  the journal leaves the state alone like a failed commit; a settings table that cannot be read makes
  the start fail as a whole (\<open>PurgedBefore\<close>); the counters that only serve the
  statistics (except the dropped records), fsync and the writer's timing are not modelled.
\<close>

section \<open>Numbers as strconv writes and reads them\<close>

definition FormatInt :: "int \<Rightarrow> string" where
  "FormatInt n = (if n < 0 then CHR ''-'' # dec_nat (nat (- n)) else dec_nat (nat n))"

fun digits_value :: "nat \<Rightarrow> string \<Rightarrow> nat option" where
  "digits_value acc [] = Some acc"
| "digits_value acc (c # cs) =
     (if digit c then digits_value (acc * 10 + (of_char c - 48)) cs else None)"

definition in_int64 :: "int \<Rightarrow> bool" where
  "in_int64 n \<longleftrightarrow> - (2 ^ 63) \<le> n \<and> n < 2 ^ 63"

definition ParseInt :: "string \<Rightarrow> int option" where
  \<comment> \<open>\<open>strconv.ParseInt(s, 10, 64)\<close>; None is a syntax or range error\<close>
  "ParseInt s =
     (let (neg, ds) =
        (case s of [] \<Rightarrow> (False, [])
         | c # cs \<Rightarrow> if c = CHR ''-'' then (True, cs) else if c = CHR ''+'' then (False, cs) else (False, s))
      in if ds = [] then None
         else case digits_value 0 ds of
                None \<Rightarrow> None
              | Some n \<Rightarrow> let v = (if neg then - int n else int n) in if in_int64 v then Some v else None)"

lemma digit_digit_char: "d < 10 \<Longrightarrow> digit (digit_char d)"
  by (simp add: digit_def digit_char_def less_eq_char_def of_char_of take_bit_eq_mod)

lemma digit_char_value: "d < 10 \<Longrightarrow> of_char (digit_char d) - 48 = d"
  by (simp add: digit_char_def of_char_of take_bit_eq_mod)

lemma digits_value_append:
  "digits_value a (xs @ ys) = (case digits_value a xs of None \<Rightarrow> None | Some b \<Rightarrow> digits_value b ys)"
  by (induction xs arbitrary: a) auto

lemma digits_value_dec: "digits_value 0 (dec_nat n) = Some n"
proof (induction n rule: less_induct)
  case (less n)
  show ?case
  proof (cases "n < 10")
    case True
    then show ?thesis by (subst dec_nat.simps) (simp add: digit_digit_char digit_char_value)
  next
    case False
    then have "digits_value 0 (dec_nat (n div 10)) = Some (n div 10)" by (intro less.IH) simp
    with False show ?thesis
      by (subst dec_nat.simps) (simp add: digits_value_append digit_digit_char digit_char_value)
  qed
qed

lemma dec_nat_digits: "c \<in> set (dec_nat n) \<Longrightarrow> digit c"
proof (induction n arbitrary: c rule: less_induct)
  case (less n)
  show ?case
  proof (cases "n < 10")
    case True
    with less.prems show ?thesis by (subst (asm) dec_nat.simps) (simp add: digit_digit_char)
  next
    case False
    then have "dec_nat n = dec_nat (n div 10) @ [digit_char (n mod 10)]" by (subst dec_nat.simps) simp
    moreover from False have "n div 10 < n" by simp
    ultimately show ?thesis using less by (auto simp: digit_digit_char)
  qed
qed

lemma not_digits: "\<not> digit (CHR ''-'')" "\<not> digit (CHR ''+'')" "\<not> digit (CHR '':'')"
  by (simp_all add: digit_def less_eq_char_def)

lemma Parse_Format: "in_int64 n \<Longrightarrow> ParseInt (FormatInt n) = Some n"
proof -
  assume n: "in_int64 n"
  have plain: "ParseInt (dec_nat k) = Some (int k)" if "in_int64 (int k)" for k
  proof -
    obtain c cs where d: "dec_nat k = c # cs" using dec_nat_nonempty by (metis list.exhaust)
    then have "digit c" using dec_nat_digits [of c k] by simp
    then have "c \<noteq> CHR ''-''" "c \<noteq> CHR ''+''" using not_digits by auto
    then show ?thesis using that digits_value_dec [of k] unfolding ParseInt_def d by simp
  qed
  show ?thesis
  proof (cases "n < 0")
    case True
    have "ParseInt (CHR ''-'' # dec_nat (nat (- n))) = Some n"
      using n True dec_nat_nonempty by (simp add: ParseInt_def digits_value_dec)
    with True show ?thesis by (simp add: FormatInt_def)
  next
    case False
    with n plain [of "nat n"] show ?thesis by (simp add: FormatInt_def)
  qed
qed

section \<open>The committed boundary in the settings table\<close>

record journal_db =
  jd_metering :: metering_db
  jd_state :: "string option" \<comment> \<open>the row \<open>journal_state\<close>\<close>

fun cut_colon :: "string \<Rightarrow> (string \<times> string) option" where
  \<comment> \<open>\<open>strings.Cut(s, ":")\<close>\<close>
  "cut_colon [] = None"
| "cut_colon (c # cs) =
     (if c = CHR '':'' then Some ([], cs) else map_option (\<lambda>(a, b). (c # a, b)) (cut_colon cs))"

datatype boundary = NoBoundary | Malformed | Boundary int int

definition JournalState :: "journal_db \<Rightarrow> boundary" where
  "JournalState db =
     (case jd_state db of
        None \<Rightarrow> NoBoundary
      | Some v \<Rightarrow>
          (case cut_colon v of
             None \<Rightarrow> Malformed
           | Some (g, o') \<Rightarrow>
               (case ParseInt g of
                  None \<Rightarrow> Malformed
                | Some gen \<Rightarrow>
                    (case ParseInt o' of
                       None \<Rightarrow> Malformed
                     | Some off \<Rightarrow> if off < 0 then Malformed else Boundary gen off))))"

definition saveJournalState :: "int \<Rightarrow> int \<Rightarrow> journal_db \<Rightarrow> journal_db" where
  "saveJournalState gen off db = db\<lparr>jd_state := Some (FormatInt gen @ '':'' @ FormatInt off)\<rparr>"

lemma cut_colon_first: "CHR '':'' \<notin> set a \<Longrightarrow> cut_colon (a @ CHR '':'' # b) = Some (a, b)"
  by (induction a) auto

lemma no_colon_Format: "CHR '':'' \<notin> set (FormatInt n)"
  using dec_nat_digits not_digits(3) by (auto simp: FormatInt_def)

lemma state_read_back:
  "in_int64 g \<Longrightarrow> in_int64 k \<Longrightarrow> 0 \<le> k \<Longrightarrow> JournalState (saveJournalState g k db) = Boundary g k"
  using cut_colon_first [OF no_colon_Format]
  by (simp add: JournalState_def saveJournalState_def Parse_Format)

section \<open>The store\<close>

text \<open>What survives a crash of the process is the journal file, the checkpoint file and the
  database; the rest is memory. The phase says how far the writer goroutine is in one round of
  \<open>drain\<close>: requests go on recording between its steps.\<close>

datatype phase =
  Idle
| ReadPhase "call_log list" nat \<comment> \<open>\<open>readBatch\<close> has returned: the batch and the next checkpoint\<close>
| TakenPhase "call_log list" nat nat \<comment> \<open>overflow records are copied in: how many\<close>
| CommittedPhase nat nat \<comment> \<open>\<open>commitAt\<close> has succeeded\<close>

record store =
  st_open :: bool
  st_file :: string
  st_size :: nat
  st_overflow :: "call_log list"
  st_ckpt :: nat
  st_ckpt_file :: "string option"
  st_gen :: int
  st_dropped :: nat
  st_phase :: phase
  st_db :: journal_db

definition rotateAfter :: nat where "rotateAfter = 32 * 2 ^ 20"
definition batchMax :: nat where "batchMax = 500"
definition overflowMax :: nat where "overflowMax = 32768"

subsection \<open>Recording\<close>

definition overwrite :: "nat \<Rightarrow> string \<Rightarrow> string \<Rightarrow> string" where
  \<comment> \<open>a write at an offset within the file\<close>
  "overwrite off data file = take off file @ data @ drop (off + length data) file"

datatype write_outcome =
  Wrote
| ShortWrite nat bool \<comment> \<open>the bytes written before the error; whether the torn line could be cut off\<close>

definition keep_overflow :: "call_log \<Rightarrow> store \<Rightarrow> store" where
  "keep_overflow l s =
     (if length (st_overflow s) < overflowMax then s\<lparr>st_overflow := st_overflow s @ [l]\<rparr>
      else s\<lparr>st_dropped := st_dropped s + 1\<rparr>)"

definition Record :: "(call_log \<Rightarrow> string option) \<Rightarrow> call_log \<Rightarrow> write_outcome \<Rightarrow> store \<Rightarrow> store" where
  "Record enc l w s =
     (case enc l of
        None \<Rightarrow> s\<lparr>st_dropped := st_dropped s + 1\<rparr>
      | Some js \<Rightarrow>
          let b = js @ [GoBase.newline]
          in if \<not> st_open s then keep_overflow l s
             else (case w of
                    Wrote \<Rightarrow> s\<lparr>st_file := overwrite (st_size s) b (st_file s), st_size := st_size s + length b\<rparr>
                  | ShortWrite n trunc \<Rightarrow>
                      let torn = overwrite (st_size s) (take n b) (st_file s)
                      in keep_overflow l (s\<lparr>st_file := (if n > 0 \<and> trunc then take (st_size s) torn else torn)\<rparr>)))"

subsection \<open>One round of the writer\<close>

function scan :: "(string \<Rightarrow> call_log option) \<Rightarrow> nat \<Rightarrow> string \<Rightarrow> call_log list \<times> nat" where
  \<comment> \<open>the loop of \<open>readBatch\<close>: the records, and the bytes consumed\<close>
  "scan dec room s =
     (if room = 0 then ([], 0)
      else case read_line s of
             None \<Rightarrow> ([], 0)
           | Some (ln, rest) \<Rightarrow>
               (case dec ln of
                  Some l \<Rightarrow>
                    if cl_request_id l = '''' then (let (ls, n) = scan dec room rest in (ls, length ln + n))
                    else (let (ls, n) = scan dec (room - 1) rest in (l # ls, length ln + n))
                | None \<Rightarrow> (let (ls, n) = scan dec room rest in (ls, length ln + n))))"
  by pat_completeness auto

termination scan
  by (relation "measure (\<lambda>(dec, room, s). length s)") (auto dest!: read_line_split)

declare scan.simps [simp del]

definition readBatch :: "(string \<Rightarrow> call_log option) \<Rightarrow> store \<Rightarrow> call_log list \<times> nat" where
  "readBatch dec s =
     (let limit = st_size s; start = st_ckpt s
      in if start \<ge> limit then ([], start)
         else let (batch, n) = scan dec batchMax (take (limit - start) (drop start (st_file s)))
              in (batch, start + n))"

fun pick_fresh :: "string list \<Rightarrow> call_log list \<Rightarrow> call_log list" where
  "pick_fresh skip [] = []"
| "pick_fresh skip (l # ls) =
     (if cl_request_id l \<in> set skip then pick_fresh skip ls
      else l # pick_fresh (cl_request_id l # skip) ls)"

definition commitAt :: "(call_log \<Rightarrow> call_log) \<Rightarrow> int \<Rightarrow> call_log list \<Rightarrow> nat \<Rightarrow> journal_db \<Rightarrow> journal_db" where
  \<comment> \<open>the transaction; \<open>fixCost\<close> is the identity when none is installed\<close>
  "commitAt fixCost gen batch next db =
     (let db1 = saveJournalState gen (int next) db;
          existing = map cl_request_id (mdb_logs (jd_metering db));
          fresh = pick_fresh existing batch
      in if fresh = [] then db1
         else db1\<lparr>jd_metering := commit_rows (map (\<lambda>l. fixCost (fst (normalizeLegacyUsage l))) fresh) (jd_metering db1)\<rparr>)"

datatype commit_outcome =
  CommitOk
| CommitFailed
| CommitUnsure \<comment> \<open>the transaction took effect, its answer was lost\<close>

datatype file_outcome =
  FileWritten
| FileEmptied \<comment> \<open>truncated, the write failed or the process died\<close>
| FileUntouched

definition write_file :: "file_outcome \<Rightarrow> string \<Rightarrow> string option \<Rightarrow> string option" where
  \<comment> \<open>\<open>os.WriteFile\<close>, whose error is ignored\<close>
  "write_file out new old = (case out of FileWritten \<Rightarrow> Some new | FileEmptied \<Rightarrow> Some [] | FileUntouched \<Rightarrow> old)"

definition drain_read :: "(string \<Rightarrow> call_log option) \<Rightarrow> store \<Rightarrow> store" where
  "drain_read dec s = (let (batch, next) = readBatch dec s in s\<lparr>st_phase := ReadPhase batch next\<rparr>)"

definition drain_take :: "store \<Rightarrow> store" where
  \<comment> \<open>the overflow records are copied into the batch; they stay until the commit\<close>
  "drain_take s =
     (case st_phase s of
        ReadPhase batch next \<Rightarrow>
          let took = (if length batch < batchMax then min (batchMax - length batch) (length (st_overflow s)) else 0)
          in s\<lparr>st_phase := TakenPhase (batch @ take took (st_overflow s)) next took\<rparr>
      | _ \<Rightarrow> s)"

definition drain_commit :: "(call_log \<Rightarrow> call_log) \<Rightarrow> commit_outcome \<Rightarrow> store \<Rightarrow> store" where
  "drain_commit fixCost out s =
     (case st_phase s of
        TakenPhase batch next took \<Rightarrow>
          (case out of
             CommitOk \<Rightarrow> s\<lparr>st_db := commitAt fixCost (st_gen s) batch next (st_db s), st_phase := CommittedPhase next took\<rparr>
           | CommitFailed \<Rightarrow> s\<lparr>st_phase := Idle\<rparr>
           | CommitUnsure \<Rightarrow> s\<lparr>st_db := commitAt fixCost (st_gen s) batch next (st_db s), st_phase := Idle\<rparr>)
      | _ \<Rightarrow> s)"

definition drain_settle :: "file_outcome \<Rightarrow> store \<Rightarrow> store" where
  "drain_settle out s =
     (case st_phase s of
        CommittedPhase next took \<Rightarrow>
          s\<lparr>st_overflow := drop took (st_overflow s), st_ckpt := next,
            st_ckpt_file := write_file out (FormatInt (int next)) (st_ckpt_file s), st_phase := Idle\<rparr>
      | _ \<Rightarrow> s)"

subsection \<open>Rotation, drain, start and close\<close>

datatype rotation =
  RotateOk
| RotateUnsaved \<comment> \<open>the new generation could not be recorded\<close>
| RotateUncut bool \<comment> \<open>the truncation failed; whether the old boundary could be put back\<close>

definition maybeRotate :: "rotation \<Rightarrow> file_outcome \<Rightarrow> store \<Rightarrow> store" where
  "maybeRotate r out s =
     (if \<not> st_open s \<or> st_size s < rotateAfter \<or> st_ckpt s \<noteq> st_size s then s
      else let db1 = saveJournalState (st_gen s + 1) 0 (st_db s)
           in (case r of
                 RotateUnsaved \<Rightarrow> s
               | RotateUncut back \<Rightarrow>
                   s\<lparr>st_db := (if back then saveJournalState (st_gen s) (int (st_size s)) db1 else db1)\<rparr>
               | RotateOk \<Rightarrow>
                   s\<lparr>st_db := db1, st_file := [], st_gen := st_gen s + 1, st_size := 0, st_ckpt := 0,
                     st_ckpt_file := write_file out ''0'' (st_ckpt_file s)\<rparr>))"

definition round_batch :: "store \<Rightarrow> call_log list" where
  "round_batch s = (case st_phase s of TakenPhase batch nxt took \<Rightarrow> batch | _ \<Rightarrow> [])"

lemma scan_bounds:
  "scan dec room s = (ls, n) \<Longrightarrow> n \<le> length s \<and> (ls \<noteq> [] \<longrightarrow> 0 < n)"
proof (induction dec room s arbitrary: ls n rule: scan.induct)
  case (1 dec room s)
  show ?case
  proof (cases "room = 0 \<or> read_line s = None")
    case True
    then show ?thesis using "1.prems" by (subst (asm) scan.simps) (auto split: if_splits)
  next
    case False
    then obtain ln rest where r: "read_line s = Some (ln, rest)" and room: "room \<noteq> 0" by auto
    have len: "length s = length ln + length rest" "0 < length ln" using read_line_split [OF r] by auto
    have "scan dec room s = (ls, n) \<Longrightarrow> ?thesis" using room len
      by (subst (asm) scan.simps)
        (auto simp: r split: option.splits if_splits prod.splits dest: "1.IH" [OF room r refl])
    then show ?thesis using "1.prems" .
  qed
qed

lemma readBatch_bounds:
  assumes "readBatch dec s = (batch, nxt)" and "st_ckpt s \<le> st_size s"
  shows "st_ckpt s \<le> nxt \<and> nxt \<le> st_size s \<and> (batch \<noteq> [] \<longrightarrow> st_ckpt s < nxt)"
  using assms scan_bounds [of dec batchMax "take (st_size s - st_ckpt s) (drop (st_ckpt s) (st_file s))"]
  by (fastforce simp: readBatch_def Let_def split: if_splits prod.splits)

function drain :: "(string \<Rightarrow> call_log option) \<Rightarrow> (call_log \<Rightarrow> call_log) \<Rightarrow> bool \<Rightarrow> rotation \<Rightarrow> file_outcome \<Rightarrow>
     store \<Rightarrow> store \<times> bool" where
  \<comment> \<open>without requests in between; \<open>up\<close>: the database takes the transactions\<close>
  "drain dec fixCost up r out s =
     (let s1 = drain_take (drain_read dec s)
      in if round_batch s1 = [] then (maybeRotate r out (s1\<lparr>st_phase := Idle\<rparr>), True)
         else if \<not> up then (drain_commit fixCost CommitFailed s1, False)
         else drain dec fixCost up r out (drain_settle out (drain_commit fixCost CommitOk s1)))"
  by pat_completeness auto

lemma round_result:
  assumes "s' = drain_settle out (drain_commit fixCost CommitOk (drain_take (drain_read dec s)))"
  shows "\<exists>batch nxt took. readBatch dec s = (batch, nxt) \<and>
     took = (if length batch < batchMax then min (batchMax - length batch) (length (st_overflow s)) else 0) \<and>
     s' = s\<lparr>st_db := commitAt fixCost (st_gen s) (batch @ take took (st_overflow s)) nxt (st_db s),
            st_overflow := drop took (st_overflow s), st_ckpt := nxt,
            st_ckpt_file := write_file out (FormatInt (int nxt)) (st_ckpt_file s), st_phase := Idle\<rparr>"
  unfolding assms by (cases "readBatch dec s")
    (simp add: drain_read_def drain_take_def drain_commit_def drain_settle_def Let_def)

lemma readBatch_done: "st_size s \<le> st_ckpt s \<Longrightarrow> readBatch dec s = ([], st_ckpt s)"
  by (simp add: readBatch_def)

termination drain
proof (relation "measure (\<lambda>(dec, fixCost, up, r, out, s). st_size s - st_ckpt s + length (st_overflow s))")
  fix dec fixCost up r out s x
  assume x: "x = drain_take (drain_read dec s)" and b: "round_batch x \<noteq> []"
  obtain batch nxt took where rb: "readBatch dec s = (batch, nxt)" and
    took: "took = (if length batch < batchMax then min (batchMax - length batch) (length (st_overflow s)) else 0)" and
    s': "drain_settle out (drain_commit fixCost CommitOk x) =
      s\<lparr>st_db := commitAt fixCost (st_gen s) (batch @ take took (st_overflow s)) nxt (st_db s),
        st_overflow := drop took (st_overflow s), st_ckpt := nxt,
        st_ckpt_file := write_file out (FormatInt (int nxt)) (st_ckpt_file s), st_phase := Idle\<rparr>"
    using round_result [OF refl] unfolding x by blast
  have "batch @ take took (st_overflow s) \<noteq> []"
    using b by (simp add: x round_batch_def drain_read_def drain_take_def rb took Let_def batchMax_def split: if_splits)
  moreover have "st_size s - nxt \<le> st_size s - st_ckpt s" "batch \<noteq> [] \<Longrightarrow> st_size s - nxt < st_size s - st_ckpt s"
    using readBatch_bounds [OF rb] readBatch_done [of s dec] rb by (cases "st_ckpt s \<le> st_size s"; force)+
  ultimately show "((dec, fixCost, up, r, out, drain_settle out (drain_commit fixCost CommitOk x)), dec, fixCost, up, r, out, s)
      \<in> measure (\<lambda>(dec, fixCost, up, r, out, s). st_size s - st_ckpt s + length (st_overflow s))"
    by (cases "batch = []"; cases "st_overflow s") (auto simp: s')
qed simp

declare drain.simps [simp del]

definition line_end :: "string \<Rightarrow> nat" where
  \<comment> \<open>the size without a partially written last line; only the last MiB is searched\<close>
  "line_end file =
     (let fsize = length file; buf = drop (fsize - min fsize (2 ^ 20)) file
      in if fsize = 0 then 0
         else if last buf \<noteq> GoBase.newline then
           (case last_index GoBase.newline buf of
              Some i \<Rightarrow> fsize - length buf + i + 1
            | None \<Rightarrow> 0)
         else fsize)"

definition read_ckpt :: "string option \<Rightarrow> nat \<Rightarrow> nat" where
  "read_ckpt f fsize =
     (case f of
        None \<Rightarrow> 0
      | Some b \<Rightarrow>
          (case ParseInt (trim_space b) of
             None \<Rightarrow> 0
           | Some v \<Rightarrow> if 0 \<le> v \<and> v \<le> int fsize then nat v else 0))"

definition openJournal :: "bool \<Rightarrow> store \<Rightarrow> store" where
  \<comment> \<open>the new process: memory is empty, the files and the database are those of \<open>s\<close>;
     \<open>trunc\<close>: the torn line could be cut off\<close>
  "openJournal trunc s =
     (let fsize = line_end (st_file s)
      in \<lparr>st_open = True, st_file = (if trunc then take fsize (st_file s) else st_file s), st_size = fsize,
          st_overflow = [], st_ckpt = read_ckpt (st_ckpt_file s) fsize, st_ckpt_file = st_ckpt_file s,
          st_gen = 0, st_dropped = 0, st_phase = Idle, st_db = st_db s\<rparr>)"

definition lineBoundary :: "int \<Rightarrow> store \<Rightarrow> bool" where
  "lineBoundary off s \<longleftrightarrow>
     0 \<le> off \<and> off \<le> int (st_size s) \<and> (off = 0 \<or> st_file s ! (nat off - 1) = GoBase.newline)"

definition reconcile_ckpt :: "file_outcome \<Rightarrow> bool \<Rightarrow> store \<Rightarrow> store" where
  \<comment> \<open>the two checkpoints at the start; \<open>saved\<close>: the database took the boundary\<close>
  "reconcile_ckpt out saved s =
     (let save = (\<lambda>s. if saved then s\<lparr>st_db := saveJournalState (st_gen s) (int (st_ckpt s)) (st_db s)\<rparr> else s)
      in case JournalState (st_db s) of
           Malformed \<Rightarrow> s
         | NoBoundary \<Rightarrow> save s
         | Boundary gen off \<Rightarrow>
             let s1 = s\<lparr>st_gen := gen\<rparr>
             in if off > int (st_ckpt s1) \<and> lineBoundary off s1 then
                  save (s1\<lparr>st_ckpt := nat off, st_ckpt_file := write_file out (FormatInt off) (st_ckpt_file s1)\<rparr>)
                else save s1)"

definition start_store :: "bool \<Rightarrow> file_outcome \<Rightarrow> bool \<Rightarrow> store \<Rightarrow> store" where
  \<comment> \<open>\<open>New\<close> up to the replay\<close>
  "start_store trunc out saved s = reconcile_ckpt out saved (openJournal trunc s)"

definition New :: "(string \<Rightarrow> call_log option) \<Rightarrow> (call_log \<Rightarrow> call_log) \<Rightarrow> time \<Rightarrow> store \<Rightarrow> store" where
  \<comment> \<open>with a database and a disk that work; \<open>upgradeUsageRollup\<close>, which then rewrites the
     rollup of databases from before the token dimensions, is left out\<close>
  "New dec fixCost cutoff s =
     (let (s1, ok) = drain dec fixCost True RotateOk FileWritten (start_store True FileWritten True s);
          m = jd_metering (st_db s1)
      in case mdb_purged m of
           Some b \<Rightarrow> s1
         | None \<Rightarrow> s1\<lparr>st_db := (st_db s1)\<lparr>jd_metering := setPurgedBefore cutoff m\<rparr>\<rparr>)"

definition Close_store :: "store \<Rightarrow> store" where
  "Close_store s = s\<lparr>st_open := False\<rparr>"

section \<open>What the journal file holds\<close>

text \<open>A record as it is on disk: encoded without a line break, so that the decoder finds it
  again.\<close>

definition storable :: "(call_log \<Rightarrow> string option) \<Rightarrow> (string \<Rightarrow> call_log option) \<Rightarrow> call_log \<Rightarrow> bool" where
  "storable enc dec l \<longleftrightarrow>
     (case enc l of
        None \<Rightarrow> False
      | Some js \<Rightarrow> GoBase.newline \<notin> set js \<and> dec (js @ [GoBase.newline]) = Some l \<and>
          cl_request_id l \<noteq> '''')"

definition line_of :: "(call_log \<Rightarrow> string option) \<Rightarrow> call_log \<Rightarrow> string" where
  "line_of enc l = the (enc l) @ [GoBase.newline]"

definition lines_of :: "(call_log \<Rightarrow> string option) \<Rightarrow> call_log list \<Rightarrow> string" where
  "lines_of enc ls = concat (map (line_of enc) ls)"

definition offset_of :: "(call_log \<Rightarrow> string option) \<Rightarrow> call_log list \<Rightarrow> nat \<Rightarrow> nat" where
  "offset_of enc ls k = length (lines_of enc (take k ls))"

definition waiting :: "(string \<Rightarrow> call_log option) \<Rightarrow> store \<Rightarrow> call_log list" where
  \<comment> \<open>the records behind the checkpoint\<close>
  "waiting dec s = fst (scan dec (st_size s) (take (st_size s - st_ckpt s) (drop (st_ckpt s) (st_file s))))"

lemma lines_of_simps [simp]:
  "lines_of enc [] = []" "lines_of enc (l # ls) = line_of enc l @ lines_of enc ls"
  "lines_of enc (xs @ ys) = lines_of enc xs @ lines_of enc ys"
  by (simp_all add: lines_of_def)

lemma line_of_nonempty [simp]: "line_of enc l \<noteq> []" "0 < length (line_of enc l)"
  by (simp_all add: line_of_def)

lemma read_line_line:
  assumes "storable enc dec l"
  shows "read_line (line_of enc l @ rest) = Some (line_of enc l, rest)"
  using assms read_line_first by (auto simp: storable_def line_of_def split: option.splits)

lemma dec_line: "storable enc dec l \<Longrightarrow> dec (line_of enc l) = Some l \<and> cl_request_id l \<noteq> ''''"
  by (auto simp: storable_def line_of_def split: option.splits)

lemma scan_lines:
  assumes "\<forall>l\<in>set ls. storable enc dec l"
  shows "scan dec room (lines_of enc ls) = (take room ls, length (lines_of enc (take room ls)))"
  using assms
proof (induction ls arbitrary: room)
  case Nil
  then show ?case by (subst scan.simps) (simp add: read_line_def)
next
  case (Cons l ls)
  then have r: "read_line (lines_of enc (l # ls)) = Some (line_of enc l, lines_of enc ls)"
    and d: "dec (line_of enc l) = Some l" "cl_request_id l \<noteq> ''''"
    using read_line_line dec_line by auto
  show ?case
  proof (cases room)
    case 0
    then show ?thesis by (subst scan.simps) simp
  next
    case (Suc n)
    with Cons show ?thesis by (subst scan.simps) (simp only: r, simp add: d)
  qed
qed

lemma take_offset: "take (offset_of enc ls k) (lines_of enc ls) = lines_of enc (take k ls)"
  and drop_offset: "drop (offset_of enc ls k) (lines_of enc ls) = lines_of enc (drop k ls)"
proof -
  have "lines_of enc ls = lines_of enc (take k ls) @ lines_of enc (drop k ls)"
    by (metis append_take_drop_id lines_of_simps(3))
  then show "take (offset_of enc ls k) (lines_of enc ls) = lines_of enc (take k ls)"
    and "drop (offset_of enc ls k) (lines_of enc ls) = lines_of enc (drop k ls)"
    by (simp_all add: offset_of_def)
qed

lemma offset_le: "offset_of enc ls k \<le> length (lines_of enc ls)"
proof -
  have "lines_of enc ls = lines_of enc (take k ls) @ lines_of enc (drop k ls)"
    by (metis append_take_drop_id lines_of_simps(3))
  then show ?thesis by (simp add: offset_of_def)
qed

lemma offset_full: "offset_of enc ls k = length (lines_of enc ls) \<Longrightarrow> drop k ls = []"
  using drop_offset [of enc ls k] by (cases "drop k ls") simp_all

lemma offset_mono: "j \<le> k \<Longrightarrow> offset_of enc ls j \<le> offset_of enc ls k"
proof -
  assume "j \<le> k"
  then have "take k ls = take j ls @ take (k - j) (drop j ls)" by (metis le_add_diff_inverse take_add)
  then show ?thesis by (simp add: offset_of_def)
qed

lemma offset_snoc: "k \<le> length ls \<Longrightarrow> offset_of enc (ls @ [l]) k = offset_of enc ls k"
  by (simp add: offset_of_def)

lemma last_lines: "ls \<noteq> [] \<Longrightarrow> last (lines_of enc ls) = GoBase.newline"
  by (induction ls rule: rev_induct) (simp_all add: line_of_def)

lemma lines_empty [simp]: "lines_of enc ls = [] \<longleftrightarrow> ls = []"
  by (cases ls) simp_all

lemma last_index_append: "c \<notin> set ys \<Longrightarrow> last_index c (xs @ c # ys) = Some (length xs)"
proof (induction xs)
  case Nil
  have "last_index c ys = None" if "c \<notin> set ys" for ys
    using that by (induction ys) auto
  with Nil show ?case by simp
qed simp

text \<open>A tail without a line break, shorter than the MiB searched, is cut off at the start.\<close>

lemma line_end_torn:
  assumes "GoBase.newline \<notin> set g" and "length g < 2 ^ 20"
  shows "line_end (lines_of enc ls @ g) = length (lines_of enc ls)"
proof (cases "ls = []")
  case True
  have "last_index GoBase.newline g = None" using assms(1) by (induction g) auto
  moreover have "g \<noteq> [] \<Longrightarrow> last g \<noteq> GoBase.newline" using assms(1) last_in_set by metis
  ultimately show ?thesis using assms(2) by (simp add: line_end_def True Let_def)
next
  case False
  let ?p = "lines_of enc ls"
  define n where "n = length (?p @ g) - min (length (?p @ g)) (2 ^ 20)"
  have n: "n < length ?p" using assms(2) False by (auto simp: n_def min_def)
  define q where "q = drop n ?p"
  have q: "q \<noteq> []" "last q = GoBase.newline" "length q = length ?p - n"
    using n last_lines [OF False, of enc] by (simp_all add: q_def)
  then have qs: "q = butlast q @ [GoBase.newline]" by (metis append_butlast_last_id)
  have buf: "drop n (?p @ g) = q @ g" using n by (simp add: q_def)
  have le: "line_end (?p @ g) =
      (if length (?p @ g) = 0 then 0
       else if last (q @ g) \<noteq> GoBase.newline then
         (case last_index GoBase.newline (q @ g) of
            Some i \<Rightarrow> length (?p @ g) - length (q @ g) + i + 1 | None \<Rightarrow> 0)
       else length (?p @ g))"
    by (simp only: line_end_def Let_def n_def [symmetric] buf)
  show ?thesis
  proof (cases "g = []")
    case True
    then show ?thesis using q(2) False by (subst le) simp
  next
    case g: False
    then have "last g \<noteq> GoBase.newline" using assms(1) last_in_set by metis
    moreover have "last_index GoBase.newline (q @ g) = Some (length q - 1)"
      using last_index_append [OF assms(1), of "butlast q"] by (subst qs) simp
    moreover have "0 < length q" using q(1) by simp
    ultimately show ?thesis using q(3) g n False by (simp add: le)
  qed
qed

lemma trim_Format: "trim_space (FormatInt n) = FormatInt n"
proof (rule trim_visible, rule ballI)
  fix c assume "c \<in> set (FormatInt n)"
  then have "digit c \<or> c = CHR ''-''" using dec_nat_digits by (auto simp: FormatInt_def split: if_splits)
  then show "visible c" by (auto simp: visible_def digit_def less_eq_char_def)
qed

section \<open>Runs of the store\<close>

text \<open>A run is the store with what it has been asked to record, what reached the journal, and the
  rows it has inserted into the database so far (purged ones included). The two flags are ghosts:
  a rotation has emptied the journal and its checkpoint file still holds the offset of the old one;
  and one of the failures the store cannot make good has happened.\<close>

record run =
  rn_store :: store
  rn_recorded :: "call_log list"
  rn_written :: "call_log list"
  rn_booked :: "call_log list"
  rn_stale :: bool
  rn_lossy :: bool

definition rows :: "store \<Rightarrow> call_log list" where
  "rows s = mdb_logs (jd_metering (st_db s))"

definition ids :: "call_log list \<Rightarrow> string set" where
  "ids ls = cl_request_id ` set ls"

definition booked_row :: "(call_log \<Rightarrow> call_log) \<Rightarrow> call_log \<Rightarrow> call_log" where
  "booked_row fixCost l = fixCost (fst (normalizeLegacyUsage l))"

definition tear :: "string \<Rightarrow> store \<Rightarrow> store" where
  \<comment> \<open>the process dies after it wrote part of a line\<close>
  "tear b s = s\<lparr>st_file := overwrite (st_size s) b (st_file s)\<rparr>"

definition torn_part :: "(call_log \<Rightarrow> string option) \<Rightarrow> (string \<Rightarrow> call_log option) \<Rightarrow> string \<Rightarrow> bool" where
  "torn_part enc dec b \<longleftrightarrow> b = [] \<or> (\<exists>l n. storable enc dec l \<and> n < length (line_of enc l) \<and> b = take n (line_of enc l))"

definition rotates :: "store \<Rightarrow> bool" where
  "rotates s \<longleftrightarrow> st_open s \<and> rotateAfter \<le> st_size s \<and> st_ckpt s = st_size s"

definition file_value :: "string option \<Rightarrow> nat" where
  "file_value f =
     (case f of
        None \<Rightarrow> 0
      | Some b \<Rightarrow> (case ParseInt (trim_space b) of None \<Rightarrow> 0 | Some v \<Rightarrow> if 0 \<le> v then nat v else 0))"

text \<open>The failures the store cannot make good. A start is exposed when a torn line of a MiB or more
  ends the journal, or when the checkpoint file still holds the offset of the journal before the
  last rotation and the new one has grown past it. A rotation is unlucky when it records the new
  generation, does not cut the file (an error it cannot undo, or a crash) and the checkpoint file is
  not up to date either.\<close>

definition exposed :: "bool \<Rightarrow> store \<Rightarrow> bool" where
  "exposed stale s \<longleftrightarrow>
     2 ^ 20 \<le> length (st_file s) - st_size s \<or>
     stale \<and> 0 < file_value (st_ckpt_file s) \<and> file_value (st_ckpt_file s) \<le> st_size s"

definition unlucky :: "bool \<Rightarrow> rotation \<Rightarrow> store \<Rightarrow> bool" where
  "unlucky stale rot s \<longleftrightarrow>
     rotates s \<and> rot = RotateUncut False \<and> (stale \<or> file_value (st_ckpt_file s) \<noteq> st_ckpt s)"

definition stale_after :: "rotation \<Rightarrow> file_outcome \<Rightarrow> store \<Rightarrow> bool \<Rightarrow> bool" where
  "stale_after rot out s stale = (if rotates s \<and> rot = RotateOk then out = FileUntouched else stale)"

text \<open>What can happen: requests record, with writes that succeed or not; the writer goes through its
  rounds, with transactions that succeed, fail, or succeed unnoticed; the journal is rotated, and
  each of the three steps of that may fail; old rows are purged, but none whose record is still
  behind the checkpoint; the process dies at any point, in the middle of a write or of a rotation
  (a rotation interrupted before the truncation is \<open>RotateUncut False\<close>, before the checkpoint
  file is written \<open>FileUntouched\<close>, in the middle of that \<open>FileEmptied\<close>, each followed by
  the crash), and starts again. Request ids are fresh, and offsets and generations fit in an
  \<open>int64\<close>.\<close>

inductive journal_step :: "(call_log \<Rightarrow> string option) \<Rightarrow> (string \<Rightarrow> call_log option) \<Rightarrow> (call_log \<Rightarrow> call_log) \<Rightarrow>
    (int \<Rightarrow> time \<Rightarrow> time) \<Rightarrow> run \<Rightarrow> run \<Rightarrow> bool" for enc dec fixCost add_days where
  js_record: "storable enc dec l \<Longrightarrow> cl_request_id l \<notin> ids (rn_recorded r) \<Longrightarrow>
     in_int64 (int (st_size (rn_store r) + length (line_of enc l))) \<Longrightarrow>
     (\<forall>n trunc. w = ShortWrite n trunc \<longrightarrow> n < length (line_of enc l)) \<Longrightarrow>
     journal_step enc dec fixCost add_days r
       (r\<lparr>rn_store := Record enc l w (rn_store r), rn_recorded := rn_recorded r @ [l],
          rn_written := (if st_open (rn_store r) \<and> w = Wrote then rn_written r @ [l] else rn_written r)\<rparr>)"
| js_unencodable: "enc l = None \<Longrightarrow> journal_step enc dec fixCost add_days r (r\<lparr>rn_store := Record enc l w (rn_store r)\<rparr>)"
| js_read: "st_phase (rn_store r) = Idle \<Longrightarrow> journal_step enc dec fixCost add_days r (r\<lparr>rn_store := drain_read dec (rn_store r)\<rparr>)"
| js_take: "st_phase (rn_store r) = ReadPhase batch nxt \<Longrightarrow>
     journal_step enc dec fixCost add_days r (r\<lparr>rn_store := drain_take (rn_store r)\<rparr>)"
| js_rotate: "st_phase (rn_store r) = TakenPhase [] nxt took \<Longrightarrow> in_int64 (st_gen (rn_store r) + 1) \<Longrightarrow>
     journal_step enc dec fixCost add_days r
       (r\<lparr>rn_store := maybeRotate rot out ((rn_store r)\<lparr>st_phase := Idle\<rparr>),
          rn_stale := stale_after rot out (rn_store r) (rn_stale r),
          rn_lossy := rn_lossy r \<or> unlucky (rn_stale r) rot (rn_store r)\<rparr>)"
| js_commit: "st_phase (rn_store r) = TakenPhase batch nxt took \<Longrightarrow> batch \<noteq> [] \<Longrightarrow>
     s' = drain_commit fixCost cout (rn_store r) \<Longrightarrow>
     journal_step enc dec fixCost add_days r
       (r\<lparr>rn_store := s', rn_booked := rn_booked r @ drop (length (rows (rn_store r))) (rows s')\<rparr>)"
| js_settle: "st_phase (rn_store r) = CommittedPhase nxt took \<Longrightarrow>
     journal_step enc dec fixCost add_days r
       (r\<lparr>rn_store := drain_settle out (rn_store r), rn_stale := rn_stale r \<and> out = FileUntouched\<rparr>)"
| js_purge: "s = rn_store r \<Longrightarrow> m' = cleanup add_days cutoff gone (jd_metering (st_db s)) \<Longrightarrow>
     (\<forall>l\<in>set (rows s). cl_created l < cutoff \<longrightarrow> cl_request_id l \<notin> ids (waiting dec s @ st_overflow s)) \<Longrightarrow>
     journal_step enc dec fixCost add_days r (r\<lparr>rn_store := s\<lparr>st_db := (st_db s)\<lparr>jd_metering := m'\<rparr>\<rparr>\<rparr>)"
| js_close: "journal_step enc dec fixCost add_days r (r\<lparr>rn_store := Close_store (rn_store r)\<rparr>)"
| js_crash: "torn_part enc dec b \<Longrightarrow> t = tear b (rn_store r) \<Longrightarrow> s' = start_store trunc out saved t \<Longrightarrow>
     journal_step enc dec fixCost add_days r
       (r\<lparr>rn_store := s', rn_stale := rn_stale r \<and> st_ckpt_file s' = st_ckpt_file t,
          rn_lossy := rn_lossy r \<or> exposed (rn_stale r) t\<rparr>)"

inductive_cases journal_stepE: "journal_step enc dec fixCost add_days r r'"

definition empty_disk :: store where
  \<comment> \<open>before the first start\<close>
  "empty_disk = \<lparr>st_open = False, st_file = [], st_size = 0, st_overflow = [], st_ckpt = 0, st_ckpt_file = None,
     st_gen = 0, st_dropped = 0, st_phase = Idle, st_db = \<lparr>jd_metering = empty_metering, jd_state = None\<rparr>\<rparr>"

definition new_run :: run where
  "new_run = \<lparr>rn_store = empty_disk, rn_recorded = [], rn_written = [], rn_booked = [],
     rn_stale = False, rn_lossy = False\<rparr>"

subsection \<open>The invariant\<close>

text \<open>\<open>ls\<close> are the records in the current journal file, the first \<open>km\<close> of them are before the
  checkpoint in memory, the first \<open>kr\<close> before the one a restart would find.\<close>

definition db_offset :: "journal_db \<Rightarrow> int" where
  "db_offset db = (case JournalState db of Boundary g k \<Rightarrow> k | _ \<Rightarrow> 0)"

text \<open>A restart would find the offset \<open>k\<close>: in the database or in the checkpoint file, neither of
  them ahead of it, unless the file is stale.\<close>

definition recovers :: "bool \<Rightarrow> store \<Rightarrow> nat \<Rightarrow> bool" where
  "recovers stale s k \<longleftrightarrow> JournalState (st_db s) \<noteq> Malformed \<and> db_offset (st_db s) \<le> int k \<and>
     (db_offset (st_db s) = int k \<or> \<not> stale \<and> file_value (st_ckpt_file s) = k) \<and>
     (stale \<or> file_value (st_ckpt_file s) \<le> k)"

definition disk_inv :: "bool \<Rightarrow> (call_log \<Rightarrow> string option) \<Rightarrow> (string \<Rightarrow> call_log option) \<Rightarrow> call_log list \<Rightarrow> nat \<Rightarrow> store \<Rightarrow> bool" where
  "disk_inv stale enc dec ls kr s \<longleftrightarrow>
     st_size s = length (lines_of enc ls) \<and> in_int64 (int (length (lines_of enc ls))) \<and> (\<forall>l\<in>set ls. storable enc dec l) \<and>
     (\<exists>g. st_file s = lines_of enc ls @ g \<and> GoBase.newline \<notin> set g) \<and>
     kr \<le> length ls \<and> recovers stale s (offset_of enc ls kr)"

definition book_inv :: "(call_log \<Rightarrow> call_log) \<Rightarrow> call_log list \<Rightarrow> nat \<Rightarrow> run \<Rightarrow> bool" where
  "book_inv fixCost ls kr r \<longleftrightarrow>
     distinct (map cl_request_id (rn_booked r)) \<and> (\<forall>row\<in>set (rn_booked r). \<exists>l\<in>set (rn_recorded r). row = booked_row fixCost l) \<and>
     ids (take kr ls) \<subseteq> ids (rn_booked r) \<and> ids (drop kr ls) \<inter> ids (rn_booked r) = {} \<and>
     (\<forall>l\<in>set (rn_written r). cl_request_id l \<in> ids (rn_booked r) \<or> l \<in> set (drop kr ls)) \<and>
     ids (rows (rn_store r)) \<subseteq> ids (rn_booked r) \<and> set ls \<subseteq> set (rn_recorded r)"

definition phase_inv :: "(call_log \<Rightarrow> string option) \<Rightarrow> call_log list \<Rightarrow> nat \<Rightarrow> nat \<Rightarrow> store \<Rightarrow> bool" where
  "phase_inv enc ls km kr s \<longleftrightarrow>
     (case st_phase s of
        Idle \<Rightarrow> True
      | ReadPhase batch nxt \<Rightarrow>
          \<exists>n. km + n \<le> length ls \<and> n \<le> batchMax \<and> kr \<le> km + n \<and> batch = take n (drop km ls) \<and> nxt = offset_of enc ls (km + n)
      | TakenPhase batch nxt took \<Rightarrow>
          took \<le> length (st_overflow s) \<and>
          (\<exists>n. km + n \<le> length ls \<and> n \<le> batchMax \<and> kr \<le> km + n \<and>
             batch = take n (drop km ls) @ take took (st_overflow s) \<and> nxt = offset_of enc ls (km + n))
      | CommittedPhase nxt took \<Rightarrow> nxt = offset_of enc ls kr \<and> db_offset (st_db s) = int nxt)"

definition mem_inv :: "(call_log \<Rightarrow> string option) \<Rightarrow> call_log list \<Rightarrow> nat \<Rightarrow> nat \<Rightarrow> run \<Rightarrow> bool" where
  "mem_inv enc ls km kr r \<longleftrightarrow>
     (let s = rn_store r
      in in_int64 (st_gen s) \<and> km \<le> kr \<and> kr \<le> km + batchMax \<and> st_ckpt s = offset_of enc ls km \<and>
         ids (drop km (take kr ls)) \<subseteq> ids (rows s) \<and> ids (st_overflow s) \<inter> ids (rn_booked r) \<subseteq> ids (rows s) \<and>
         set (st_overflow s) \<subseteq> set (rn_recorded r) \<and> distinct (map cl_request_id (ls @ st_overflow s)) \<and>
         phase_inv enc ls km kr s)"

definition journal_inv :: "(call_log \<Rightarrow> string option) \<Rightarrow> (string \<Rightarrow> call_log option) \<Rightarrow> (call_log \<Rightarrow> call_log) \<Rightarrow> run \<Rightarrow> bool" where
  "journal_inv enc dec fixCost r \<longleftrightarrow>
     (\<exists>ls km kr. disk_inv (rn_stale r) enc dec ls kr (rn_store r) \<and> book_inv fixCost ls kr r \<and> mem_inv enc ls km kr r)"

subsection \<open>The disk\<close>

lemma offset_bound: "disk_inv st enc dec ls kr s \<Longrightarrow> offset_of enc ls k \<le> st_size s"
  using offset_le [of enc ls k] by (simp add: disk_inv_def)

lemma int64_down: "in_int64 (int n) \<Longrightarrow> m \<le> n \<Longrightarrow> in_int64 (int m)"
  by (simp add: in_int64_def)

lemma storable_line:
  assumes "storable enc dec l" and "n < length (line_of enc l)"
  shows "GoBase.newline \<notin> set (take n (line_of enc l))"
proof -
  from assms(1) obtain js where js: "enc l = Some js" "GoBase.newline \<notin> set js"
    by (auto simp: storable_def split: option.splits)
  then have "take n (line_of enc l) = take n js" using assms(2) by (simp add: line_of_def)
  then show "GoBase.newline \<notin> set (take n (line_of enc l))" using js(2) by (auto dest: in_set_takeD)
qed

lemma disk_append:
  assumes "disk_inv st enc dec ls kr s" and "storable enc dec l" and "in_int64 (int (st_size s + length (line_of enc l)))"
  shows "disk_inv st enc dec (ls @ [l]) kr
    (s\<lparr>st_file := overwrite (st_size s) (line_of enc l) (st_file s), st_size := st_size s + length (line_of enc l)\<rparr>)"
proof -
  from assms(1) obtain g where g: "st_file s = lines_of enc ls @ g" "GoBase.newline \<notin> set g"
    and k: "kr \<le> length ls" by (auto simp: disk_inv_def)
  have "overwrite (st_size s) (line_of enc l) (st_file s) = lines_of enc (ls @ [l]) @ drop (length (line_of enc l)) g"
    using assms(1) by (simp add: overwrite_def g(1) disk_inv_def)
  moreover have "GoBase.newline \<notin> set (drop (length (line_of enc l)) g)" using g(2) by (auto dest: in_set_dropD)
  ultimately show ?thesis using assms k
    by (auto simp: disk_inv_def recovers_def offset_snoc intro!: exI [of _ "drop (length (line_of enc l)) g"])
qed

lemma disk_torn:
  assumes "disk_inv st enc dec ls kr s" and "storable enc dec l" and "n < length (line_of enc l)"
  shows "disk_inv st enc dec ls kr (s\<lparr>st_file := overwrite (st_size s) (take n (line_of enc l)) (st_file s)\<rparr>)"
proof -
  from assms(1) obtain g where g: "st_file s = lines_of enc ls @ g" "GoBase.newline \<notin> set g"
    by (auto simp: disk_inv_def)
  let ?g = "take n (line_of enc l) @ drop n g"
  have "overwrite (st_size s) (take n (line_of enc l)) (st_file s) = lines_of enc ls @ ?g"
    using assms(1,3) by (simp add: overwrite_def g(1) disk_inv_def)
  moreover have "GoBase.newline \<notin> set ?g" using g(2) storable_line [OF assms(2,3)] by (auto dest: in_set_dropD)
  ultimately show ?thesis using assms(1) by (auto simp: disk_inv_def recovers_def intro!: exI [of _ ?g])
qed

lemma disk_tear: "disk_inv st enc dec ls kr s \<Longrightarrow> torn_part enc dec b \<Longrightarrow> disk_inv st enc dec ls kr (tear b s)"
  unfolding torn_part_def tear_def by (elim disjE exE conjE) (simp_all add: disk_torn, simp add: overwrite_def)

lemma disk_cut: "disk_inv st enc dec ls kr s \<Longrightarrow> disk_inv st enc dec ls kr (s\<lparr>st_file := take (st_size s) (st_file s)\<rparr>)"
  by (auto simp: disk_inv_def recovers_def)

lemma disk_memory [simp]:
  "disk_inv st enc dec ls kr (s\<lparr>st_overflow := x\<rparr>) = disk_inv st enc dec ls kr s"
  "disk_inv st enc dec ls kr (s\<lparr>st_dropped := d\<rparr>) = disk_inv st enc dec ls kr s"
  "disk_inv st enc dec ls kr (s\<lparr>st_ckpt := c\<rparr>) = disk_inv st enc dec ls kr s"
  "disk_inv st enc dec ls kr (s\<lparr>st_phase := p\<rparr>) = disk_inv st enc dec ls kr s"
  "disk_inv st enc dec ls kr (s\<lparr>st_open := b\<rparr>) = disk_inv st enc dec ls kr s"
  "disk_inv st enc dec ls kr (s\<lparr>st_gen := i\<rparr>) = disk_inv st enc dec ls kr s"
  by (simp_all add: disk_inv_def recovers_def)

lemma disk_state:
  "disk_inv st enc dec ls kr s \<Longrightarrow> k \<le> length ls \<Longrightarrow> recovers st' s' (offset_of enc ls k) \<Longrightarrow>
   st_file s' = st_file s \<Longrightarrow> st_size s' = st_size s \<Longrightarrow> disk_inv st' enc dec ls k s'"
  by (auto simp: disk_inv_def)

lemma trim_empty: "ParseInt (trim_space []) = None"
  by (simp add: trim_space_def trim_left_space_def trim_right_space_def ParseInt_def)

lemma file_value_write:
  "in_int64 (int k) \<Longrightarrow> file_value (write_file out (FormatInt (int k)) old) \<in> {k, 0, file_value old}"
  using trim_empty
  by (cases out) (simp_all add: write_file_def file_value_def trim_Format Parse_Format)

lemma written_value:
  "in_int64 (int k) \<Longrightarrow> out \<noteq> FileUntouched \<Longrightarrow> file_value (write_file out (FormatInt (int k)) old) \<le> k"
  using trim_empty
  by (cases out) (simp_all add: write_file_def file_value_def trim_Format Parse_Format)

lemma saved_offset: "in_int64 g \<Longrightarrow> in_int64 (int k) \<Longrightarrow> JournalState (saveJournalState g (int k) db) = Boundary g (int k)"
  by (simp add: state_read_back)

lemma Parse_range: "ParseInt s = Some v \<Longrightarrow> in_int64 v"
  by (auto simp: ParseInt_def Let_def split: prod.splits option.splits if_splits)

lemma state_gen: "JournalState db = Boundary g k \<Longrightarrow> in_int64 g \<and> 0 \<le> k"
  by (auto simp: JournalState_def dest: Parse_range split: option.splits if_splits prod.splits)

text \<open>A restart finds the journal without the torn line and the checkpoint of the invariant.\<close>

lemma boundary_found:
  assumes d: "disk_inv st enc dec ls kr s" and s1: "st_size s1 = st_size s" "st_file s1 = lines_of enc ls @ g"
  shows "lineBoundary (int (offset_of enc ls k)) s1"
proof (cases "offset_of enc ls k = 0")
  case False
  then have "take k ls \<noteq> []" by (auto simp: offset_of_def)
  then have "last (lines_of enc (take k ls)) = GoBase.newline" by (rule last_lines)
  moreover have "st_file s1 ! (offset_of enc ls k - 1) = last (lines_of enc (take k ls))"
  proof -
    have split: "st_file s1 = lines_of enc (take k ls) @ lines_of enc (drop k ls) @ g"
      unfolding s1(2) by (metis append.assoc append_take_drop_id lines_of_simps(3))
    show ?thesis using False by (simp add: split offset_of_def nth_append last_conv_nth)
  qed
  ultimately show ?thesis using offset_bound [OF d, of k] s1 by (simp add: lineBoundary_def nat_diff_distrib)
qed (simp add: lineBoundary_def)

lemma read_ckpt_behind: "read_ckpt f n = (if file_value f \<le> n then file_value f else 0)"
  by (auto simp: file_value_def read_ckpt_def split: option.splits)

text \<open>A start that is not exposed finds the checkpoint of the invariant.\<close>

lemma start_reads:
  assumes d: "disk_inv st enc dec ls kr s" and e: "\<not> exposed st s"
  shows "line_end (st_file s) = st_size s" and "read_ckpt (st_ckpt_file s) (st_size s) \<le> offset_of enc ls kr"
    and "db_offset (st_db s) = int (offset_of enc ls kr) \<or> read_ckpt (st_ckpt_file s) (st_size s) = offset_of enc ls kr"
proof -
  from d obtain g where g: "st_file s = lines_of enc ls @ g" "GoBase.newline \<notin> set g"
    and sz: "st_size s = length (lines_of enc ls)" by (auto simp: disk_inv_def)
  have "length g < 2 ^ 20" using e by (simp add: exposed_def g(1) sz)
  then show "line_end (st_file s) = st_size s" using line_end_torn [OF g(2)] g(1) sz by simp
  show "read_ckpt (st_ckpt_file s) (st_size s) \<le> offset_of enc ls kr"
    "db_offset (st_db s) = int (offset_of enc ls kr) \<or> read_ckpt (st_ckpt_file s) (st_size s) = offset_of enc ls kr"
    using d e offset_bound [OF d, of kr]
    by (cases st; auto simp: disk_inv_def recovers_def exposed_def read_ckpt_behind)+
qed

lemma start_disk:
  assumes d: "disk_inv st enc dec ls kr s" and e: "\<not> exposed st s"
    and s'_def: "s' = start_store trunc out saved s"
  shows "disk_inv (st \<and> st_ckpt_file s' = st_ckpt_file s) enc dec ls kr s'" and "st_ckpt s' = offset_of enc ls kr"
    and "in_int64 (st_gen s')" and "st_overflow s' = []" and "st_phase s' = Idle"
    and "jd_metering (st_db s') = jd_metering (st_db s)"
proof -
  let ?k = "offset_of enc ls kr" and ?c = "read_ckpt (st_ckpt_file s) (st_size s)"
  from d obtain g where g: "st_file s = lines_of enc ls @ g" "GoBase.newline \<notin> set g"
    and sz: "st_size s = length (lines_of enc ls)" by (auto simp: disk_inv_def)
  have k: "in_int64 (int ?k)" "?k \<le> st_size s" using offset_bound [OF d, of kr] d int64_down by (auto simp: disk_inv_def)
  note le = start_reads(1) [OF d e]
  define s0 where "s0 = openJournal trunc s"
  have s0: "st_size s0 = st_size s" "st_ckpt s0 = ?c" "st_db s0 = st_db s" "st_overflow s0 = []"
    "st_ckpt_file s0 = st_ckpt_file s" "st_phase s0 = Idle" "st_gen s0 = 0"
    by (simp_all add: s0_def openJournal_def le Let_def)
  have f0: "\<exists>g. st_file s0 = lines_of enc ls @ g \<and> GoBase.newline \<notin> set g"
    using g sz by (cases trunc) (simp_all add: s0_def openJournal_def Let_def le [unfolded g(1)])
  have bd: "lineBoundary (int ?k) (s0\<lparr>st_gen := gen\<rparr>)" for gen
    using f0 boundary_found [OF d, of "s0\<lparr>st_gen := gen\<rparr>"] s0(1) by auto
  have s': "s' = reconcile_ckpt out saved s0" by (simp add: s'_def start_store_def s0_def)
  let ?st' = "st \<and> st_ckpt_file s' = st_ckpt_file s"
  have rec: "JournalState (st_db s) \<noteq> Malformed" "db_offset (st_db s) \<le> int ?k" "st \<longrightarrow> db_offset (st_db s) = int ?k"
    "\<not> st \<longrightarrow> ?c = file_value (st_ckpt_file s)"
    using d k(2) by (auto simp: disk_inv_def recovers_def read_ckpt_behind)
  note c = start_reads(2,3) [OF d e]
  have main: "recovers ?st' s' ?k \<and> st_file s' = st_file s0 \<and> st_size s' = st_size s0 \<and> st_ckpt s' = ?k \<and> in_int64 (st_gen s') \<and>
      st_overflow s' = [] \<and> st_phase s' = Idle \<and> jd_metering (st_db s') = jd_metering (st_db s)"
  proof (cases "JournalState (st_db s)")
    case NoBoundary
    then have z: "?c = ?k" "st \<longrightarrow> ?k = 0" using c rec by (auto simp: db_offset_def)
    show ?thesis
      using NoBoundary s0 k rec z
      by (simp add: s' reconcile_ckpt_def recovers_def db_offset_def saved_offset in_int64_def) (auto simp: saveJournalState_def)
  next
    case (Boundary gen off)
    then have off: "off = db_offset (st_db s)" "in_int64 gen" using state_gen by (auto simp: db_offset_def)
    show ?thesis
    proof (cases "?c = ?k")
      case True
      then have "\<not> int (st_ckpt s0) < off" using off(1) rec(2) s0(2) by simp
      then have s'eq: "s' = (let s1 = s0\<lparr>st_gen := gen\<rparr>
          in if saved then s1\<lparr>st_db := saveJournalState gen (int ?k) (st_db s)\<rparr> else s1)"
        using s0(2,3) True by (simp add: s' reconcile_ckpt_def Boundary)
      show ?thesis using Boundary s0 k(1) off(2) True rec(2-)
        by (simp add: s'eq Let_def recovers_def db_offset_def saved_offset) (auto simp: saveJournalState_def)
    next
      case False
      with c off have o: "off = int ?k" "int (st_ckpt s0) < int ?k" using s0 by auto
      have B: "JournalState (st_db s) = Boundary gen (int ?k)" using Boundary o(1) by simp
      let ?w = "write_file out (FormatInt (int ?k)) (st_ckpt_file s)"
      have s'eq: "s' = (let s2 = s0\<lparr>st_gen := gen, st_ckpt := ?k, st_ckpt_file := ?w\<rparr>
          in if saved then s2\<lparr>st_db := saveJournalState gen (int ?k) (st_db s)\<rparr> else s2)"
        using o(2) bd [of gen] by (simp add: s' reconcile_ckpt_def s0 B)
      have "(st \<and> ?w = st_ckpt_file s) \<or> file_value ?w \<le> ?k"
        using written_value [OF k(1), of out "st_ckpt_file s"] rec(4) c(1) by (cases "out = FileUntouched") (auto simp: write_file_def)
      then show ?thesis using B s0 k(1) off(2)
        by (simp add: s'eq Let_def recovers_def db_offset_def saved_offset) (auto simp: saveJournalState_def)
    qed
  qed (use rec in simp)
  then show "disk_inv ?st' enc dec ls kr s'" using d f0 s0(1) by (simp add: disk_inv_def)
  show "st_ckpt s' = ?k" "in_int64 (st_gen s')" "st_overflow s' = []" "st_phase s' = Idle"
    "jd_metering (st_db s') = jd_metering (st_db s)" using main by auto
qed

subsection \<open>Booking\<close>

definition keeps_id :: "(call_log \<Rightarrow> call_log) \<Rightarrow> bool" where
  \<comment> \<open>the cost fixer changes costs only\<close>
  "keeps_id fixCost \<longleftrightarrow> (\<forall>l. cl_request_id (fixCost l) = cl_request_id l)"

lemma ids_simps [simp]:
  "ids [] = {}" "ids (l # ls) = insert (cl_request_id l) (ids ls)" "ids (xs @ ys) = ids xs \<union> ids ys"
  by (simp_all add: ids_def image_Un)

lemma ids_mem: "l \<in> set ls \<Longrightarrow> cl_request_id l \<in> ids ls" and ids_mono: "set xs \<subseteq> set ys \<Longrightarrow> ids xs \<subseteq> ids ys"
  by (auto simp: ids_def)

lemma booked_row_id: "keeps_id fixCost \<Longrightarrow> cl_request_id (booked_row fixCost l) = cl_request_id l"
  by (simp add: keeps_id_def booked_row_def normalizeLegacyUsage_def Let_def)

lemma ids_rows: "keeps_id fixCost \<Longrightarrow> ids (map (booked_row fixCost) ls) = ids ls"
  by (auto simp: ids_def booked_row_id image_image)

lemma pick_fresh_props:
  "set (pick_fresh skip b) \<subseteq> set b" "distinct (map cl_request_id (pick_fresh skip b))"
  "ids (pick_fresh skip b) \<inter> set skip = {}" "ids b \<subseteq> set skip \<union> ids (pick_fresh skip b)"
proof -
  have "set (pick_fresh skip b) \<subseteq> set b \<and> distinct (map cl_request_id (pick_fresh skip b)) \<and>
     ids (pick_fresh skip b) \<inter> set skip = {} \<and> ids b \<subseteq> set skip \<union> ids (pick_fresh skip b)"
    by (induction skip b rule: pick_fresh.induct) (auto simp: ids_def)
  then show "set (pick_fresh skip b) \<subseteq> set b" "distinct (map cl_request_id (pick_fresh skip b))"
    "ids (pick_fresh skip b) \<inter> set skip = {}" "ids b \<subseteq> set skip \<union> ids (pick_fresh skip b)" by auto
qed

definition fresh_of :: "store \<Rightarrow> call_log list \<Rightarrow> call_log list" where
  "fresh_of s batch = pick_fresh (map cl_request_id (rows s)) batch"

lemma fresh_of_props:
  "set (fresh_of s b) \<subseteq> set b" "distinct (map cl_request_id (fresh_of s b))"
  "ids (fresh_of s b) \<inter> ids (rows s) = {}" "ids b \<subseteq> ids (rows s) \<union> ids (fresh_of s b)"
  using pick_fresh_props(1,2) [of _ b] pick_fresh_props(3,4) [where skip = "map cl_request_id (rows s)" and b = b]
  by (simp_all add: fresh_of_def ids_def)

lemma commit_effect:
  "mdb_logs (jd_metering (commitAt fixCost gen batch nxt (st_db s))) = rows s @ map (booked_row fixCost) (fresh_of s batch)"
  "JournalState (commitAt fixCost gen batch nxt db) = JournalState (saveJournalState gen (int nxt) db)"
  by (simp_all add: commitAt_def Let_def commit_rows_def fresh_of_def booked_row_def [abs_def] rows_def saveJournalState_def
      JournalState_def)

lemma length_lines: "length ls \<le> length (lines_of enc ls)"
proof (induction ls)
  case (Cons l ls)
  have "0 < length (line_of enc l)" by (rule line_of_nonempty(2))
  with Cons show ?case unfolding lines_of_simps length_append length_Cons by linarith
qed simp

lemma journal_region:
  assumes "disk_inv st enc dec ls kr s" and "st_ckpt s = offset_of enc ls km"
  shows "take (st_size s - st_ckpt s) (drop (st_ckpt s) (st_file s)) = lines_of enc (drop km ls)"
proof -
  from assms(1) obtain g where g: "st_file s = lines_of enc ls @ g" and sz: "st_size s = length (lines_of enc ls)"
    by (auto simp: disk_inv_def)
  have "length (lines_of enc (drop km ls)) = length (lines_of enc ls) - offset_of enc ls km"
    using drop_offset [of enc ls km] by (metis length_drop)
  then show ?thesis using offset_le [of enc ls km] drop_offset [of enc ls km] by (simp add: g sz assms(2))
qed

lemma waiting_eq:
  assumes "disk_inv st enc dec ls kr s" and "st_ckpt s = offset_of enc ls km"
  shows "waiting dec s = drop km ls"
proof -
  have "\<forall>l\<in>set (drop km ls). storable enc dec l" using assms(1) by (auto simp: disk_inv_def dest: in_set_dropD)
  moreover have "length (drop km ls) \<le> st_size s" using length_lines [of ls enc] assms(1) by (simp add: disk_inv_def)
  ultimately show ?thesis
    by (simp add: waiting_def journal_region [OF assms] scan_lines)
qed

lemma readBatch_eq:
  assumes d: "disk_inv st enc dec ls kr s" and c: "st_ckpt s = offset_of enc ls km" and km: "km \<le> length ls"
  defines "n \<equiv> min batchMax (length ls - km)"
  shows "readBatch dec s = (take n (drop km ls), offset_of enc ls (km + n))"
proof (cases "st_size s \<le> st_ckpt s")
  case True
  then have "drop km ls = []" using d c offset_le [of enc ls km] by (intro offset_full [of enc]) (simp add: disk_inv_def)
  then show ?thesis using True by (simp add: readBatch_def n_def c)
next
  case False
  have "\<forall>l\<in>set (drop km ls). storable enc dec l" using d by (auto simp: disk_inv_def dest: in_set_dropD)
  moreover have "take batchMax (drop km ls) = take n (drop km ls)" by (simp add: n_def min_def)
  moreover have "offset_of enc ls km + length (lines_of enc (take n (drop km ls))) = offset_of enc ls (km + n)"
    by (simp add: offset_of_def take_add)
  ultimately show ?thesis using False
    by (simp add: readBatch_def journal_region [OF d c] scan_lines) (simp add: c)
qed

subsection \<open>Every step keeps the invariant\<close>

lemma journal_invI:
  "disk_inv (rn_stale r) enc dec ls kr (rn_store r) \<Longrightarrow> book_inv fixCost ls kr r \<Longrightarrow> mem_inv enc ls km kr r \<Longrightarrow> journal_inv enc dec fixCost r"
  by (auto simp: journal_inv_def)

lemma lossy_frame [simp]: "journal_inv enc dec fixCost (r\<lparr>rn_lossy := b\<rparr>) = journal_inv enc dec fixCost r"
  by (simp add: journal_inv_def book_inv_def mem_inv_def Let_def)

lemma same_lossy: "\<not> rn_lossy r \<Longrightarrow> r\<lparr>rn_store := x, rn_stale := b, rn_lossy := False\<rparr> = r\<lparr>rn_store := x, rn_stale := b\<rparr>"
  by (cases r) simp

lemma same_stale [simp]: "r\<lparr>rn_store := x, rn_stale := rn_stale r\<rparr> = r\<lparr>rn_store := x\<rparr>"
  by (cases r) simp

lemma booked_recorded: "keeps_id fixCost \<Longrightarrow> book_inv fixCost ls kr r \<Longrightarrow> ids (rn_booked r) \<subseteq> ids (rn_recorded r)"
  by (force simp: book_inv_def ids_def booked_row_id)

lemma rows_frame [simp]:
  "rows (s\<lparr>st_file := f\<rparr>) = rows s" "rows (s\<lparr>st_size := n\<rparr>) = rows s" "rows (s\<lparr>st_overflow := ov\<rparr>) = rows s"
  "rows (s\<lparr>st_dropped := d\<rparr>) = rows s" "rows (s\<lparr>st_phase := p\<rparr>) = rows s" "rows (s\<lparr>st_ckpt := c\<rparr>) = rows s"
  "rows (s\<lparr>st_ckpt_file := cf\<rparr>) = rows s" "rows (s\<lparr>st_open := b\<rparr>) = rows s" "rows (s\<lparr>st_gen := g\<rparr>) = rows s"
  by (simp_all add: rows_def)

text \<open>The books do not depend on the memory, and survive a record nobody has seen before.\<close>

lemma book_record:
  assumes k: "keeps_id fixCost" and b: "book_inv fixCost ls kr r" and kr: "kr \<le> length ls"
    and new: "cl_request_id l \<notin> ids (rn_recorded r)" and rows: "rows s' = rows (rn_store r)"
  shows "book_inv fixCost (ls @ [l]) kr (r\<lparr>rn_store := s', rn_recorded := rn_recorded r @ [l], rn_written := rn_written r @ [l]\<rparr>)"
    and "book_inv fixCost ls kr (r\<lparr>rn_store := s', rn_recorded := rn_recorded r @ [l]\<rparr>)"
    and "book_inv fixCost ls kr (r\<lparr>rn_store := s'\<rparr>)"
  using b kr new booked_recorded [OF k b] rows by (auto simp: book_inv_def)

lemma phase_memory:
  assumes "phase_inv enc ls km kr s" and "st_phase s' = st_phase s" and "st_overflow s' = st_overflow s @ ov"
    and "db_offset (st_db s') = db_offset (st_db s)"
  shows "phase_inv enc ls km kr s'"
  using assms by (auto simp: phase_inv_def split: phase.splits)

lemma phase_longer:
  assumes "phase_inv enc ls km kr s" and "kr \<le> length ls"
  shows "phase_inv enc (ls @ [l]) km kr s"
proof (cases "st_phase s")
  case (ReadPhase batch nxt)
  with assms obtain n where "km + n \<le> length ls" "n \<le> batchMax" "kr \<le> km + n" "batch = take n (drop km ls)"
    "nxt = offset_of enc ls (km + n)" by (auto simp: phase_inv_def)
  with ReadPhase show ?thesis by (auto simp: phase_inv_def offset_snoc intro!: exI [of _ n])
next
  case (TakenPhase batch nxt took)
  with assms obtain n where "km + n \<le> length ls" "n \<le> batchMax" "kr \<le> km + n" "took \<le> length (st_overflow s)"
    "batch = take n (drop km ls) @ take took (st_overflow s)" "nxt = offset_of enc ls (km + n)" by (auto simp: phase_inv_def)
  with TakenPhase show ?thesis by (auto simp: phase_inv_def offset_snoc intro!: exI [of _ n])
qed (use assms in \<open>auto simp: phase_inv_def offset_snoc\<close>)

lemma keep_overflow_cases:
  "keep_overflow l s = s\<lparr>st_overflow := st_overflow s @ [l]\<rparr> \<or> keep_overflow l s = s\<lparr>st_dropped := st_dropped s + 1\<rparr>"
  by (simp add: keep_overflow_def)

lemma kept_inv:
  assumes k: "keeps_id fixCost" and d: "disk_inv (rn_stale r) enc dec ls kr s" and b: "book_inv fixCost ls kr r" and m: "mem_inv enc ls km kr r"
    and new: "cl_request_id l \<notin> ids (rn_recorded r)"
    and s: "s = (rn_store r)\<lparr>st_file := f\<rparr>"
  shows "journal_inv enc dec fixCost (r\<lparr>rn_store := keep_overflow l s, rn_recorded := rn_recorded r @ [l]\<rparr>)"
proof -
  have kr: "kr \<le> length ls" using d by (simp add: disk_inv_def)
  have bk: "cl_request_id l \<notin> ids (rn_booked r)" using new booked_recorded [OF k b] by blast
  have ls: "cl_request_id l \<notin> ids ls" "cl_request_id l \<notin> ids (st_overflow (rn_store r))"
    using new b m ids_mono by (auto simp: book_inv_def mem_inv_def Let_def)
  from keep_overflow_cases [of l s] show ?thesis
  proof
    assume e: "keep_overflow l s = s\<lparr>st_overflow := st_overflow s @ [l]\<rparr>"
    have "phase_inv enc ls km kr (s\<lparr>st_overflow := st_overflow s @ [l]\<rparr>)"
      by (rule phase_memory [of enc ls km kr "rn_store r" _ "[l]"]) (use m in \<open>simp_all add: mem_inv_def s Let_def\<close>)
    then have "mem_inv enc ls km kr (r\<lparr>rn_store := s\<lparr>st_overflow := st_overflow s @ [l]\<rparr>, rn_recorded := rn_recorded r @ [l]\<rparr>)"
      using m bk ls by (simp add: mem_inv_def s Let_def) (auto simp: ids_def)
    with d book_record(2) [OF k b kr new, of "s\<lparr>st_overflow := st_overflow s @ [l]\<rparr>"] show ?thesis
      unfolding e by (intro journal_invI [where ls = ls and kr = kr and km = km]) (simp_all add: s)
  next
    assume e: "keep_overflow l s = s\<lparr>st_dropped := st_dropped s + 1\<rparr>"
    have "phase_inv enc ls km kr (s\<lparr>st_dropped := st_dropped s + 1\<rparr>)"
      by (rule phase_memory [of enc ls km kr "rn_store r" _ "[]"]) (use m in \<open>simp_all add: mem_inv_def s Let_def\<close>)
    then have "mem_inv enc ls km kr (r\<lparr>rn_store := s\<lparr>st_dropped := st_dropped s + 1\<rparr>, rn_recorded := rn_recorded r @ [l]\<rparr>)"
      using m by (simp add: mem_inv_def s Let_def) auto
    with d book_record(2) [OF k b kr new, of "s\<lparr>st_dropped := st_dropped s + 1\<rparr>"] show ?thesis
      unfolding e by (intro journal_invI [where ls = ls and kr = kr and km = km]) (simp_all add: s)
  qed
qed

lemma record_inv:
  assumes k: "keeps_id fixCost" and inv: "journal_inv enc dec fixCost r"
    and st: "storable enc dec l" and new: "cl_request_id l \<notin> ids (rn_recorded r)"
    and small: "in_int64 (int (st_size (rn_store r) + length (line_of enc l)))"
    and torn: "\<forall>n trunc. w = ShortWrite n trunc \<longrightarrow> n < length (line_of enc l)"
  shows "journal_inv enc dec fixCost
    (r\<lparr>rn_store := Record enc l w (rn_store r), rn_recorded := rn_recorded r @ [l],
       rn_written := (if st_open (rn_store r) \<and> w = Wrote then rn_written r @ [l] else rn_written r)\<rparr>)"
proof -
  from inv obtain ls km kr where d: "disk_inv (rn_stale r) enc dec ls kr (rn_store r)" and b: "book_inv fixCost ls kr r"
    and m: "mem_inv enc ls km kr r" by (auto simp: journal_inv_def)
  let ?s = "rn_store r" and ?b = "line_of enc l"
  from st obtain js where js: "enc l = Some js" "?b = js @ [GoBase.newline]"
    by (auto simp: storable_def line_of_def split: option.splits)
  have kr: "kr \<le> length ls" using d by (simp add: disk_inv_def)
  consider (closed) "\<not> st_open ?s" | (wrote) "st_open ?s" "w = Wrote" | (short) n trunc where "st_open ?s" "w = ShortWrite n trunc"
    by (cases w) auto
  then show ?thesis
  proof cases
    case closed
    have "Record enc l w ?s = keep_overflow l ?s" by (simp add: Record_def js(1) closed Let_def)
    with kept_inv [OF k d b m new, of "st_file ?s"] closed show ?thesis by simp
  next
    case wrote
    let ?s' = "?s\<lparr>st_file := overwrite (st_size ?s) ?b (st_file ?s), st_size := st_size ?s + length ?b\<rparr>"
    have e: "Record enc l w ?s = ?s'" by (simp add: Record_def js wrote Let_def)
    have "cl_request_id l \<notin> ids ls" "cl_request_id l \<notin> ids (st_overflow ?s)"
      using new b m ids_mono by (auto simp: book_inv_def mem_inv_def Let_def)
    moreover have "phase_inv enc (ls @ [l]) km kr ?s'"
      by (rule phase_memory [OF phase_longer, where s = ?s and ov = "[]"]) (use m kr in \<open>simp_all add: mem_inv_def Let_def\<close>)
    ultimately have "mem_inv enc (ls @ [l]) km kr
        (r\<lparr>rn_store := ?s', rn_recorded := rn_recorded r @ [l], rn_written := rn_written r @ [l]\<rparr>)"
      using m kr by (auto simp: mem_inv_def Let_def offset_snoc ids_def)
    with disk_append [OF d st small] book_record(1) [OF k b kr new, of ?s'] show ?thesis
      unfolding e using wrote by (intro journal_invI [where ls = "ls @ [l]" and kr = kr and km = km]) simp_all
  next
    case short
    let ?torn = "overwrite (st_size ?s) (take n ?b) (st_file ?s)"
    let ?f = "if n > 0 \<and> trunc then take (st_size ?s) ?torn else ?torn"
    have "Record enc l w ?s = keep_overflow l (?s\<lparr>st_file := ?f\<rparr>)" by (simp add: Record_def js short Let_def)
    moreover have "disk_inv (rn_stale r) enc dec ls kr (?s\<lparr>st_file := ?f\<rparr>)"
      using disk_torn [OF d st, of n] disk_cut [OF disk_torn [OF d st, of n]] torn short by simp
    ultimately show ?thesis using kept_inv [OF k _ b m new refl, of dec ?f] short by simp
  qed
qed

text \<open>Steps that change neither the disk nor the books.\<close>

lemma memory_step:
  assumes "disk_inv (rn_stale r) enc dec ls kr (rn_store r)" and "book_inv fixCost ls kr r" and "mem_inv enc ls km kr r"
    and "phase_inv enc ls km kr s'"
    and "st_gen s' = st_gen (rn_store r)" "st_ckpt s' = st_ckpt (rn_store r)" "st_overflow s' = st_overflow (rn_store r)"
      "st_db s' = st_db (rn_store r)" "st_file s' = st_file (rn_store r)" "st_size s' = st_size (rn_store r)"
      "st_ckpt_file s' = st_ckpt_file (rn_store r)"
  shows "journal_inv enc dec fixCost (r\<lparr>rn_store := s'\<rparr>)"
proof (rule journal_invI)
  show "disk_inv (rn_stale (r\<lparr>rn_store := s'\<rparr>)) enc dec ls kr (rn_store (r\<lparr>rn_store := s'\<rparr>))" using assms by (simp add: disk_inv_def recovers_def)
  show "book_inv fixCost ls kr (r\<lparr>rn_store := s'\<rparr>)" using assms by (simp add: book_inv_def rows_def)
  show "mem_inv enc ls km kr (r\<lparr>rn_store := s'\<rparr>)" using assms by (simp add: mem_inv_def rows_def Let_def)
qed

lemma read_inv:
  assumes d: "disk_inv (rn_stale r) enc dec ls kr (rn_store r)" and b: "book_inv fixCost ls kr r" and m: "mem_inv enc ls km kr r"
  shows "journal_inv enc dec fixCost (r\<lparr>rn_store := drain_read dec (rn_store r)\<rparr>)"
proof -
  have k: "km \<le> kr" "kr \<le> km + batchMax" "kr \<le> length ls" "st_ckpt (rn_store r) = offset_of enc ls km"
    using d m by (auto simp: disk_inv_def mem_inv_def Let_def)
  then have rb: "readBatch dec (rn_store r) = (take (min batchMax (length ls - km)) (drop km ls),
      offset_of enc ls (km + min batchMax (length ls - km)))" using readBatch_eq [OF d k(4)] by simp
  show ?thesis
    by (rule memory_step [OF d b m])
      (use k in \<open>auto simp: drain_read_def rb phase_inv_def intro!: exI [of _ "min batchMax (length ls - km)"]\<close>)
qed

lemma take_inv:
  assumes d: "disk_inv (rn_stale r) enc dec ls kr (rn_store r)" and b: "book_inv fixCost ls kr r" and m: "mem_inv enc ls km kr r"
    and p: "st_phase (rn_store r) = ReadPhase batch nxt"
  shows "journal_inv enc dec fixCost (r\<lparr>rn_store := drain_take (rn_store r)\<rparr>)"
proof -
  from m p obtain n where "km + n \<le> length ls" "n \<le> batchMax" "kr \<le> km + n" "batch = take n (drop km ls)"
    "nxt = offset_of enc ls (km + n)" by (auto simp: phase_inv_def mem_inv_def Let_def)
  then have "phase_inv enc ls km kr (drain_take (rn_store r))"
    by (auto simp: drain_take_def p phase_inv_def Let_def intro!: exI [of _ n])
  then show ?thesis by (rule memory_step [OF d b m]) (simp_all add: drain_take_def p Let_def)
qed

lemma settle_inv:
  assumes d: "disk_inv (rn_stale r) enc dec ls kr (rn_store r)" and b: "book_inv fixCost ls kr r" and m: "mem_inv enc ls km kr r"
    and p: "st_phase (rn_store r) = CommittedPhase nxt took"
  shows "journal_inv enc dec fixCost (r\<lparr>rn_store := drain_settle out (rn_store r), rn_stale := rn_stale r \<and> out = FileUntouched\<rparr>)"
proof (rule journal_invI)
  let ?r = "r\<lparr>rn_store := drain_settle out (rn_store r), rn_stale := rn_stale r \<and> out = FileUntouched\<rparr>"
  let ?s = "rn_store r" and ?k = "offset_of enc ls kr"
  have nxt: "nxt = ?k" and off: "db_offset (st_db ?s) = int ?k" using m p by (auto simp: mem_inv_def Let_def phase_inv_def)
  have k: "in_int64 (int ?k)" using d offset_le [of enc ls kr] int64_down by (auto simp: disk_inv_def)
  have s': "drain_settle out ?s = ?s\<lparr>st_overflow := drop took (st_overflow ?s), st_ckpt := ?k,
      st_ckpt_file := write_file out (FormatInt (int ?k)) (st_ckpt_file ?s), st_phase := Idle\<rparr>"
    by (simp add: drain_settle_def p nxt)
  have "rn_stale r \<and> out = FileUntouched \<or> file_value (write_file out (FormatInt (int ?k)) (st_ckpt_file ?s)) \<le> ?k"
    using written_value [OF k, of out "st_ckpt_file ?s"] d
    by (cases "out = FileUntouched") (auto simp: disk_inv_def recovers_def write_file_def)
  then show "disk_inv (rn_stale ?r) enc dec ls kr (rn_store ?r)"
    using d off by (simp add: s' disk_inv_def recovers_def)
  show "book_inv fixCost ls kr ?r" using b by (simp add: s' book_inv_def)
  have "set (drop took (st_overflow ?s)) \<subseteq> set (st_overflow ?s)" by (rule set_drop_subset)
  moreover from this have "ids (drop took (st_overflow ?s)) \<subseteq> ids (st_overflow ?s)" by (rule ids_mono)
  moreover have "distinct (map cl_request_id (drop took (st_overflow ?s)))"
    using m by (simp add: mem_inv_def Let_def drop_map [symmetric])
  moreover have "cl_request_id ` set ls \<inter> cl_request_id ` set (drop took (st_overflow ?s)) = {}"
    using m image_mono [OF set_drop_subset [of took "st_overflow ?s"], of cl_request_id] unfolding mem_inv_def Let_def
    by (simp del: ids_simps) blast
  ultimately show "mem_inv enc ls kr kr ?r"
    using m by (simp add: s' mem_inv_def Let_def phase_inv_def) blast
qed

lemma take_split: "km \<le> kr \<Longrightarrow> ids (take n (drop km ls)) \<subseteq> ids (drop km (take kr ls)) \<union> ids (drop kr ls)"
proof -
  assume "km \<le> kr"
  then have "drop km ls = drop km (take kr ls) @ drop kr ls"
    by (metis append_take_drop_id drop_take le_add_diff_inverse2 drop_drop)
  then have "set (take n (drop km ls)) \<subseteq> set (drop km (take kr ls) @ drop kr ls)" by (metis set_take_subset)
  from ids_mono [OF this] show ?thesis by simp
qed

lemma commit_inv:
  assumes k: "keeps_id fixCost" and d: "disk_inv (rn_stale r) enc dec ls kr (rn_store r)" and b: "book_inv fixCost ls kr r"
    and m: "mem_inv enc ls km kr r" and p: "st_phase (rn_store r) = TakenPhase batch nxt took"
    and n: "km + n \<le> length ls" "n \<le> batchMax" "kr \<le> km + n"
      "batch = take n (drop km ls) @ take took (st_overflow (rn_store r))" "nxt = offset_of enc ls (km + n)"
  defines "new \<equiv> map (booked_row fixCost) (fresh_of (rn_store r) batch)"
  assumes s': "st_db s' = commitAt fixCost (st_gen (rn_store r)) batch nxt (st_db (rn_store r))"
      "st_gen s' = st_gen (rn_store r)" "st_ckpt s' = st_ckpt (rn_store r)" "st_overflow s' = st_overflow (rn_store r)"
      "st_file s' = st_file (rn_store r)" "st_size s' = st_size (rn_store r)" "st_ckpt_file s' = st_ckpt_file (rn_store r)"
      "st_phase s' = Idle \<or> st_phase s' = CommittedPhase nxt took"
  shows "disk_inv (rn_stale r) enc dec ls (km + n) s'" and "book_inv fixCost ls (km + n) (r\<lparr>rn_store := s', rn_booked := rn_booked r @ new\<rparr>)"
    and "mem_inv enc ls km (km + n) (r\<lparr>rn_store := s', rn_booked := rn_booked r @ new\<rparr>)"
    and "db_offset (st_db s') = int (offset_of enc ls (km + n))"
proof -
  let ?s = "rn_store r" and ?f = "fresh_of (rn_store r) batch" and ?ov = "st_overflow (rn_store r)"
  have M: "in_int64 (st_gen ?s)" "km \<le> kr" "st_ckpt ?s = offset_of enc ls km" "ids (drop km (take kr ls)) \<subseteq> ids (rows ?s)"
    "ids ?ov \<inter> ids (rn_booked r) \<subseteq> ids (rows ?s)" "set ?ov \<subseteq> set (rn_recorded r)" "distinct (map cl_request_id (ls @ ?ov))"
    using m by (simp_all add: mem_inv_def Let_def)
  have B: "distinct (map cl_request_id (rn_booked r))" "ids (take kr ls) \<subseteq> ids (rn_booked r)"
    "ids (drop kr ls) \<inter> ids (rn_booked r) = {}" "ids (rows ?s) \<subseteq> ids (rn_booked r)" "set ls \<subseteq> set (rn_recorded r)"
    "\<forall>row\<in>set (rn_booked r). \<exists>l\<in>set (rn_recorded r). row = booked_row fixCost l"
    "\<forall>l\<in>set (rn_written r). cl_request_id l \<in> ids (rn_booked r) \<or> l \<in> set (drop kr ls)"
    using b by (simp_all add: book_inv_def)
  have o: "in_int64 (int (offset_of enc ls (km + n)))" using d offset_le int64_down by (auto simp: disk_inv_def)
  have st: "JournalState (st_db s') = Boundary (st_gen ?s) (int (offset_of enc ls (km + n)))"
    by (simp only: s'(1) commit_effect(2) n(5) saved_offset [OF M(1) o])
  then show off: "db_offset (st_db s') = int (offset_of enc ls (km + n))" by (simp add: db_offset_def)
  have "rn_stale r \<or> file_value (st_ckpt_file ?s) \<le> offset_of enc ls (km + n)"
    using d offset_mono [OF n(3), of enc ls] by (auto simp: disk_inv_def recovers_def)
  then have "recovers (rn_stale r) s' (offset_of enc ls (km + n))" using st off by (simp add: recovers_def s')
  from disk_state [OF d n(1) this s'(5,6)] show "disk_inv (rn_stale r) enc dec ls (km + n) s'" .
  have rows: "rows s' = rows ?s @ new" by (simp add: rows_def [of s'] s'(1) commit_effect new_def)
  have idn: "ids new = ids ?f" by (simp add: new_def ids_rows [OF k])
  note F = fresh_of_props [where s = ?s and b = batch]
  have fb: "ids ?f \<inter> ids (rn_booked r) = {}"
  proof -
    have "ids batch \<subseteq> ids (rows ?s) \<union> ids (drop kr ls) \<union> ids ?ov"
      using take_split [OF M(2), of n ls] M(4) ids_mono [OF set_take_subset [of took ?ov]]
      unfolding n(4) ids_simps by blast
    then have "ids batch \<inter> ids (rn_booked r) \<subseteq> ids (rows ?s)" using B(3) M(5) by blast
    then show ?thesis using F(3) ids_mono [OF F(1)] by blast
  qed
  have cover: "ids batch \<subseteq> ids (rows s')" using F(4) by (simp add: rows idn)
  have dr: "set (drop (km + n) ls) \<subseteq> set (drop kr ls)" using n(3) by (rule set_drop_subset_set_drop)
  have fd: "ids ?f \<inter> ids (drop (km + n) ls) = {}"
  proof -
    obtain A D where AD: "take (km + n) ls = A" "drop (km + n) ls = D" "ls = A @ D" by (metis append_take_drop_id)
    have "ids D \<inter> (ids A \<union> ids ?ov) = {}" using M(7) unfolding AD(3) by (auto simp: ids_def)
    then have "ids (drop (km + n) ls) \<inter> (ids (take (km + n) ls) \<union> ids ?ov) = {}" unfolding AD(1,2) .
    moreover have "ids batch \<subseteq> ids (take (km + n) ls) \<union> ids ?ov"
      using ids_mono [OF set_take_subset [of took ?ov]] by (auto simp: n(4) take_add)
    ultimately show ?thesis using ids_mono [OF F(1)] by blast
  qed
  have tk: "ids (take (km + n) ls) \<subseteq> ids (rn_booked r @ new)"
  proof -
    have "ids (take km ls) \<subseteq> ids (take kr ls)" using ids_mono [OF set_take_subset_set_take [OF M(2)]] .
    moreover have "ids (take n (drop km ls)) \<subseteq> ids batch" by (simp add: n(4))
    ultimately show ?thesis using B(2,4) cover by (auto simp: take_add rows)
  qed
  have wr: "\<forall>l\<in>set (rn_written r). cl_request_id l \<in> ids (rn_booked r @ new) \<or> l \<in> set (drop (km + n) ls)"
  proof
    fix l assume "l \<in> set (rn_written r)"
    with B(7) consider "cl_request_id l \<in> ids (rn_booked r)" | "l \<in> set ls" by (meson in_set_dropD)
    then show "cl_request_id l \<in> ids (rn_booked r @ new) \<or> l \<in> set (drop (km + n) ls)"
    proof cases
      case 2
      then have "l \<in> set (take (km + n) ls) \<or> l \<in> set (drop (km + n) ls)" by (metis Un_iff append_take_drop_id set_append)
      then show ?thesis using tk ids_mem by blast
    qed simp
  qed
  have "set batch \<subseteq> set (rn_recorded r)" using B(5) M(6) by (auto simp: n(4) dest: in_set_takeD in_set_dropD)
  then have src: "\<forall>row\<in>set new. \<exists>l\<in>set (rn_recorded r). row = booked_row fixCost l" using F(1) by (auto simp: new_def)
  have "distinct (map cl_request_id new)" using F(2) by (simp add: new_def booked_row_id [OF k] comp_def)
  moreover have "set (map cl_request_id (rn_booked r)) \<inter> set (map cl_request_id new) = {}"
    using fb idn by (auto simp: ids_def)
  ultimately have dn: "distinct (map cl_request_id (rn_booked r @ new))" using B(1) by simp
  have "ids (drop (km + n) ls) \<inter> ids (rn_booked r @ new) = {}" using B(3) ids_mono [OF dr] fd by (auto simp: idn)
  then show "book_inv fixCost ls (km + n) (r\<lparr>rn_store := s', rn_booked := rn_booked r @ new\<rparr>)"
    using dn tk wr src B(4,5,6) by (auto simp: book_inv_def rows)
  have "drop km (take (km + n) ls) = take n (drop km ls)" by (simp add: drop_take)
  moreover have "ids (take n (drop km ls)) \<subseteq> ids (rows s')" using cover by (simp add: n(4))
  moreover have "ids ?ov \<inter> ids (rn_booked r @ new) \<subseteq> ids (rows s')" using M(5) by (auto simp: rows)
  moreover have "phase_inv enc ls km (km + n) s'" using s'(8) n(5) off by (auto simp: phase_inv_def)
  ultimately show "mem_inv enc ls km (km + n) (r\<lparr>rn_store := s', rn_booked := rn_booked r @ new\<rparr>)"
    using M n(2) s' by (simp add: mem_inv_def Let_def)
qed

lemma start_inv:
  assumes d: "disk_inv (rn_stale r) enc dec ls kr s" and b: "book_inv fixCost ls kr r" and m: "mem_inv enc ls km kr r"
    and s: "jd_metering (st_db s) = jd_metering (st_db (rn_store r))" and e: "\<not> exposed (rn_stale r) s"
    and s': "s' = start_store trunc out saved s"
  shows "journal_inv enc dec fixCost (r\<lparr>rn_store := s', rn_stale := rn_stale r \<and> st_ckpt_file s' = st_ckpt_file s\<rparr>)"
    (is "journal_inv _ _ _ ?r")
proof (rule journal_invI)
  note st = start_disk [OF d e s']
  show "disk_inv (rn_stale ?r) enc dec ls kr (rn_store ?r)" using st(1) by simp
  show "book_inv fixCost ls kr ?r" using b by (simp add: book_inv_def rows_def st s)
  show "mem_inv enc ls kr kr ?r"
    using m by (simp add: mem_inv_def Let_def st phase_inv_def)
qed

lemma rotate_inv:
  assumes d: "disk_inv (rn_stale r) enc dec ls kr (rn_store r)" and b: "book_inv fixCost ls kr r" and m: "mem_inv enc ls km kr r"
    and luck: "\<not> unlucky (rn_stale r) rot (rn_store r)" and g: "in_int64 (st_gen (rn_store r) + 1)"
  shows "journal_inv enc dec fixCost (r\<lparr>rn_store := maybeRotate rot out ((rn_store r)\<lparr>st_phase := Idle\<rparr>),
    rn_stale := stale_after rot out (rn_store r) (rn_stale r)\<rparr>)"
proof -
  let ?s = "rn_store r"
  let ?i = "?s\<lparr>st_phase := Idle\<rparr>"
  have M: "in_int64 (st_gen ?s)" "km \<le> kr" "st_ckpt ?s = offset_of enc ls km" "distinct (map cl_request_id (ls @ st_overflow ?s))"
    "ids (st_overflow ?s) \<inter> ids (rn_booked r) \<subseteq> ids (rows ?s)" "set (st_overflow ?s) \<subseteq> set (rn_recorded r)"
    "ids (drop km (take kr ls)) \<subseteq> ids (rows ?s)" "kr \<le> km + batchMax"
    using m by (simp_all add: mem_inv_def Let_def)
  have idle: "journal_inv enc dec fixCost (r\<lparr>rn_store := ?i\<rparr>)"
    by (rule memory_step [OF d b m]) (simp_all add: phase_inv_def)
  show ?thesis
  proof (cases "rotates ?s")
    case False
    then have "maybeRotate rot out ?i = ?i" "stale_after rot out ?s (rn_stale r) = rn_stale r"
      by (auto simp: maybeRotate_def rotates_def stale_after_def)
    with idle show ?thesis by simp
  next
    case True
    have sz: "st_size ?s = length (lines_of enc ls)" "in_int64 (int (st_size ?s))" using d by (auto simp: disk_inv_def)
    have "drop km ls = []" using True M(3) sz(1) by (intro offset_full [of enc]) (simp add: rotates_def)
    then have kr: "km = length ls" "kr = length ls" using M(2) d by (auto simp: disk_inv_def)
    then have full: "offset_of enc ls kr = st_size ?s" by (simp add: offset_of_def sz)
    show ?thesis
    proof (cases rot)
      case RotateUnsaved
      then have "maybeRotate rot out ?i = ?i" "stale_after rot out ?s (rn_stale r) = rn_stale r"
        by (simp_all add: maybeRotate_def Let_def stale_after_def)
      with idle show ?thesis by simp
    next
      case (RotateUncut restored)
      let ?db = "saveJournalState (st_gen ?s + 1) 0 (st_db ?s)"
      let ?r = "?i\<lparr>st_db := (if restored then saveJournalState (st_gen ?s) (int (st_size ?s)) ?db else ?db)\<rparr>"
      have e: "maybeRotate rot out ?i = ?r" "stale_after rot out ?s (rn_stale r) = rn_stale r"
        using RotateUncut True by (simp_all add: maybeRotate_def rotates_def stale_after_def)
      have "\<not> restored \<Longrightarrow> \<not> rn_stale r \<and> file_value (st_ckpt_file ?s) = st_size ?s"
        using luck RotateUncut True by (simp add: unlucky_def rotates_def)
      then have "recovers (rn_stale r) ?r (offset_of enc ls kr)"
        using d saved_offset [OF M(1) sz(2)] saved_offset [OF g, of 0]
        by (auto simp: recovers_def db_offset_def full disk_inv_def in_int64_def)
      from disk_state [OF d _ this] have "disk_inv (rn_stale r) enc dec ls kr ?r" using kr by simp
      moreover have "rows ?r = rows ?s" by (simp add: rows_def saveJournalState_def)
      ultimately show ?thesis unfolding e using b m
        by (intro journal_invI [where ls = ls and kr = kr and km = km]) (simp_all add: book_inv_def mem_inv_def Let_def phase_inv_def)
    next
      case RotateOk
      let ?r = "?i\<lparr>st_db := saveJournalState (st_gen ?s + 1) 0 (st_db ?s), st_file := [], st_gen := st_gen ?s + 1,
        st_size := 0, st_ckpt := 0, st_ckpt_file := write_file out ''0'' (st_ckpt_file ?s)\<rparr>"
      have e: "maybeRotate rot out ?i = ?r" "stale_after rot out ?s (rn_stale r) = (out = FileUntouched)"
        using RotateOk True by (simp_all add: maybeRotate_def rotates_def Let_def stale_after_def)
      have z: "FormatInt (int 0) = ''0''" by (simp add: FormatInt_def dec_nat.simps digit_char_def char_of_def bit_0)
      have "out \<noteq> FileUntouched \<Longrightarrow> file_value (write_file out ''0'' (st_ckpt_file ?s)) = 0"
        using written_value [of 0 out "st_ckpt_file ?s"] unfolding z by (simp add: in_int64_def)
      moreover have "JournalState (st_db ?r) = Boundary (st_gen ?s + 1) 0"
        using saved_offset [OF g, of 0] by (simp add: in_int64_def)
      ultimately have "disk_inv (out = FileUntouched) enc dec [] 0 ?r"
        by (cases "out = FileUntouched") (simp_all add: disk_inv_def recovers_def db_offset_def offset_of_def in_int64_def)
      moreover have rw: "rows ?r = rows ?s" by (simp add: rows_def saveJournalState_def)
      moreover have "book_inv fixCost [] 0 (r\<lparr>rn_store := ?r, rn_stale := (out = FileUntouched)\<rparr>)" using b rw kr by (auto simp: book_inv_def)
      moreover have "mem_inv enc [] 0 0 (r\<lparr>rn_store := ?r, rn_stale := (out = FileUntouched)\<rparr>)"
        using M g rw by (simp add: mem_inv_def Let_def phase_inv_def offset_of_def)
      ultimately show ?thesis unfolding e by (intro journal_invI [where ls = "[]" and kr = 0 and km = 0]) simp_all
    qed
  qed
qed

lemma purge_inv:
  assumes d: "disk_inv (rn_stale r) enc dec ls kr (rn_store r)" and b: "book_inv fixCost ls kr r" and m: "mem_inv enc ls km kr r"
    and sub: "set (rows s') \<subseteq> set (rows (rn_store r))"
    and keep: "\<forall>l\<in>set (rows (rn_store r)). cl_request_id l \<in> ids (waiting dec (rn_store r) @ st_overflow (rn_store r)) \<longrightarrow> l \<in> set (rows s')"
    and s': "s' = (rn_store r)\<lparr>st_db := (st_db (rn_store r))\<lparr>jd_metering := m'\<rparr>\<rparr>"
  shows "journal_inv enc dec fixCost (r\<lparr>rn_store := s'\<rparr>)"
proof (rule journal_invI)
  let ?s = "rn_store r"
  have state: "JournalState (st_db s') = JournalState (st_db ?s)" by (simp add: s' JournalState_def)
  show "disk_inv (rn_stale (r\<lparr>rn_store := s'\<rparr>)) enc dec ls kr (rn_store (r\<lparr>rn_store := s'\<rparr>))"
    using d state by (simp add: disk_inv_def recovers_def db_offset_def) (simp add: s')
  show "book_inv fixCost ls kr (r\<lparr>rn_store := s'\<rparr>)" using b ids_mono [OF sub] by (auto simp: book_inv_def)
  have M: "st_ckpt ?s = offset_of enc ls km" "ids (drop km (take kr ls)) \<subseteq> ids (rows ?s)"
    "ids (st_overflow ?s) \<inter> ids (rn_booked r) \<subseteq> ids (rows ?s)"
    using m by (simp_all add: mem_inv_def Let_def)
  have p: "waiting dec ?s = drop km ls" by (rule waiting_eq [OF d M(1)])
  have stay: "i \<in> ids (rows s')" if "i \<in> ids (rows ?s)" and "i \<in> ids (drop km ls @ st_overflow ?s)" for i
    using that keep unfolding p by (auto simp: ids_def)
  have "set (drop km (take kr ls)) \<subseteq> set (drop km ls)" by (metis drop_take set_take_subset)
  from ids_mono [OF this] have "ids (drop km (take kr ls)) \<subseteq> ids (rows s')" using M(2) stay by auto
  moreover have "ids (st_overflow ?s) \<inter> ids (rn_booked r) \<subseteq> ids (rows s')" using M(3) stay by auto
  moreover have "phase_inv enc ls km kr s'"
    by (rule phase_memory [where s = ?s and ov = "[]"]) (use m state in \<open>simp_all add: mem_inv_def Let_def db_offset_def\<close>, simp_all add: s')
  moreover have "st_gen s' = st_gen ?s" "st_ckpt s' = st_ckpt ?s" "st_overflow s' = st_overflow ?s" by (simp_all add: s')
  ultimately show "mem_inv enc ls km kr (r\<lparr>rn_store := s'\<rparr>)" using m by (simp add: mem_inv_def Let_def)
qed

lemma flag_inv:
  assumes "journal_inv enc dec fixCost r" and "s' = (rn_store r)\<lparr>st_dropped := n\<rparr> \<or> s' = (rn_store r)\<lparr>st_open := False\<rparr>"
  shows "journal_inv enc dec fixCost (r\<lparr>rn_store := s'\<rparr>)"
proof -
  from assms(1) obtain ls km kr where inv: "disk_inv (rn_stale r) enc dec ls kr (rn_store r)" "book_inv fixCost ls kr r" "mem_inv enc ls km kr r"
    by (auto simp: journal_inv_def)
  have "phase_inv enc ls km kr s'"
    by (rule phase_memory [where s = "rn_store r" and ov = "[]"]) (use inv(3) assms(2) in \<open>auto simp: mem_inv_def Let_def\<close>)
  then show ?thesis by (rule memory_step [OF inv]) (use assms(2) in auto)
qed

lemma step_inv:
  assumes k: "keeps_id fixCost" and step: "journal_step enc dec fixCost add_days r r'" and inv: "journal_inv enc dec fixCost r"
    and safe: "\<not> rn_lossy r'"
  shows "journal_inv enc dec fixCost r'"
proof -
  from inv obtain ls km kr where d: "disk_inv (rn_stale r) enc dec ls kr (rn_store r)" and b: "book_inv fixCost ls kr r"
    and m: "mem_inv enc ls km kr r" by (auto simp: journal_inv_def)
  from step show ?thesis
  proof cases
    case (js_record l w)
    then show ?thesis using record_inv [OF k inv] by blast
  next
    case (js_unencodable l w)
    then show ?thesis using flag_inv [OF inv, of "Record enc l w (rn_store r)" "st_dropped (rn_store r) + 1"] by (simp add: Record_def)
  next
    case js_read
    then show ?thesis using read_inv [OF d b m] by blast
  next
    case (js_take batch nxt)
    then show ?thesis using take_inv [OF d b m] by blast
  next
    case (js_rotate nxt took rot out)
    then show ?thesis using rotate_inv [OF d b m _ js_rotate(3), of rot out] safe by simp
  next
    case (js_commit batch nxt took s' cout)
    let ?new = "map (booked_row fixCost) (fresh_of (rn_store r) batch)"
    show ?thesis
    proof (cases "cout = CommitFailed")
      case True
      then have "s' = (rn_store r)\<lparr>st_phase := Idle\<rparr>" using js_commit by (simp add: drain_commit_def)
      then show ?thesis using js_commit(1) memory_step [OF d b m, of "(rn_store r)\<lparr>st_phase := Idle\<rparr>"]
        by (simp add: phase_inv_def)
    next
      case False
      then have e: "st_db s' = commitAt fixCost (st_gen (rn_store r)) batch nxt (st_db (rn_store r))"
        "st_gen s' = st_gen (rn_store r)" "st_ckpt s' = st_ckpt (rn_store r)" "st_overflow s' = st_overflow (rn_store r)"
        "st_file s' = st_file (rn_store r)" "st_size s' = st_size (rn_store r)" "st_ckpt_file s' = st_ckpt_file (rn_store r)"
        "st_phase s' = Idle \<or> st_phase s' = CommittedPhase nxt took"
        unfolding js_commit(4) using js_commit(2) by (cases cout; simp add: drain_commit_def)+
      from m js_commit(2) obtain n where n: "km + n \<le> length ls" "n \<le> batchMax" "kr \<le> km + n"
        "batch = take n (drop km ls) @ take took (st_overflow (rn_store r))" "nxt = offset_of enc ls (km + n)"
        by (auto simp: mem_inv_def Let_def phase_inv_def)
      note C = commit_inv [OF k d b m js_commit(2) n e]
      have "rows s' = rows (rn_store r) @ ?new" by (simp add: rows_def [of s'] e(1) commit_effect)
      then have "r' = r\<lparr>rn_store := s', rn_booked := rn_booked r @ ?new\<rparr>" using js_commit(1) by simp
      then show ?thesis using journal_invI [where ls = ls and kr = "km + n" and km = km and r = r'] C by simp
    qed
  next
    case (js_settle nxt took out)
    then show ?thesis using settle_inv [OF d b m] by blast
  next
    case (js_purge s m' cutoff gone)
    let ?s' = "s\<lparr>st_db := (st_db s)\<lparr>jd_metering := m'\<rparr>\<rparr>"
    have logs: "mdb_logs (setPurgedBefore cutoff x) = mdb_logs x" for x
      by (simp add: setPurgedBefore_def split: option.splits)
    have rows: "set (rows ?s') = {l \<in> set (rows s). \<not> (cl_created l < cutoff \<and> gone l)}"
      by (simp add: rows_def js_purge(3) cleanup_def Let_def logs)
    show ?thesis unfolding js_purge(1)
      by (rule purge_inv [OF d b m]) (use rows js_purge(4) in \<open>auto simp: js_purge(2)\<close>)
  next
    case js_close
    then show ?thesis using flag_inv [OF inv, of "Close_store (rn_store r)"] by (simp add: Close_store_def)
  next
    case (js_crash torn t s' trunc out saved)
    have "disk_inv (rn_stale r) enc dec ls kr t" unfolding js_crash(3) by (rule disk_tear [OF d js_crash(2)])
    from start_inv [OF this b m _ _ js_crash(4)] safe show ?thesis
      by (simp add: js_crash(1)) (simp add: js_crash(3) tear_def)
  qed
qed

lemma lossy_mono: "journal_step enc dec fixCost add_days r r' \<Longrightarrow> rn_lossy r \<Longrightarrow> rn_lossy r'"
  by (auto elim: journal_stepE)

lemma new_run_inv: "journal_inv enc dec fixCost new_run"
  by (rule journal_invI [where ls = "[]" and kr = 0 and km = 0])
    (simp_all add: new_run_def empty_disk_def disk_inv_def book_inv_def mem_inv_def phase_inv_def recovers_def offset_of_def
      in_int64_def JournalState_def db_offset_def file_value_def rows_def empty_metering_def)

lemma runs_inv:
  assumes "(journal_step enc dec fixCost add_days)\<^sup>*\<^sup>* r r'" and "keeps_id fixCost" and "journal_inv enc dec fixCost r"
    and "\<not> rn_lossy r'"
  shows "journal_inv enc dec fixCost r'"
  using assms(1,4) by (induction rule: rtranclp_induct) (use step_inv [OF assms(2)] lossy_mono assms(3) in blast)+

lemma reachable_inv:
  assumes "keeps_id fixCost" and "(journal_step enc dec fixCost add_days)\<^sup>*\<^sup>* new_run r" and "\<not> rn_lossy r"
  shows "journal_inv enc dec fixCost r"
  by (rule runs_inv [OF assms(2,1) new_run_inv assms(3)])

text \<open>Whatever happens, losses included, the table of calls never holds a request twice.\<close>

lemma commit_rows_distinct:
  assumes k: "keeps_id fixCost" and d: "distinct (map cl_request_id (rows s))"
  shows "distinct (map cl_request_id (mdb_logs (jd_metering (commitAt fixCost gen batch nxt (st_db s)))))"
proof -
  note F = fresh_of_props [where s = s and b = batch]
  have "map cl_request_id (map (booked_row fixCost) (fresh_of s batch)) = map cl_request_id (fresh_of s batch)"
    by (simp add: booked_row_id [OF k])
  moreover have "set (map cl_request_id (fresh_of s batch)) \<inter> set (map cl_request_id (rows s)) = {}"
    using F(3) by (simp add: ids_def)
  ultimately show ?thesis using d F(2) unfolding commit_effect map_append distinct_append by (simp only: Int_commute)
qed

lemma distinct_filter_map: "distinct (map f xs) \<Longrightarrow> distinct (map f (filter P xs))"
  by (induction xs) auto

lemma frame_rows:
  "rows (Record enc l w s) = rows s" "rows (drain_read dec s) = rows s" "rows (drain_take s) = rows s"
  "rows (maybeRotate rot out s) = rows s" "rows (drain_settle out s) = rows s" "rows (Close_store s) = rows s"
  "rows (start_store trunc out saved s) = rows s" "rows (tear b s) = rows s"
  by (simp_all add: rows_def Record_def keep_overflow_def drain_read_def drain_take_def maybeRotate_def drain_settle_def
      Close_store_def start_store_def openJournal_def reconcile_ckpt_def tear_def saveJournalState_def Let_def
      split: option.splits write_outcome.splits phase.splits rotation.splits prod.splits boundary.splits)

lemma step_rows_distinct:
  assumes k: "keeps_id fixCost" and step: "journal_step enc dec fixCost add_days r r'"
    and d: "distinct (map cl_request_id (rows (rn_store r)))"
  shows "distinct (map cl_request_id (rows (rn_store r')))"
  using step
proof cases
  case (js_commit batch nxt took s' cout)
  then have "rows s' = rows (rn_store r) \<or> rows s' = mdb_logs (jd_metering (commitAt fixCost (st_gen (rn_store r)) batch nxt (st_db (rn_store r))))"
    by (cases cout) (simp_all add: drain_commit_def rows_def)
  then show ?thesis using commit_rows_distinct [OF k d] d js_commit(1) by auto
next
  case (js_purge s m' cutoff gone)
  have "mdb_logs m' = filter (\<lambda>l. \<not> (cl_created l < cutoff \<and> gone l)) (rows s)"
    by (simp add: rows_def js_purge(3) cleanup_def Let_def setPurgedBefore_def split: option.splits)
  then show ?thesis using distinct_filter_map [OF d] js_purge(1,2) by (simp add: rows_def)
qed (use d in \<open>simp_all add: frame_rows\<close>)

lemma reachable_rows_distinct:
  assumes "keeps_id fixCost" and "(journal_step enc dec fixCost add_days)\<^sup>*\<^sup>* new_run r"
  shows "distinct (map cl_request_id (rows (rn_store r)))"
  using assms(2)
  by (induction rule: rtranclp_induct)
    (simp add: rows_def new_run_def empty_disk_def empty_metering_def, rule step_rows_distinct [OF assms(1)])

section \<open>What the journal promises\<close>

text \<open>The committed boundary survives the way through the settings table: what
  \<open>JournalState\<close> reads is what \<open>saveJournalState\<close> wrote, and the checkpoint file gives its
  offset back to any journal that is long enough.\<close>

lemma boundary_round_trip:
  assumes "in_int64 gen" and "in_int64 off" and "0 \<le> off"
  shows "JournalState (saveJournalState gen off db) = Boundary gen off \<and>
    jd_metering (saveJournalState gen off db) = jd_metering db \<and>
    (off \<le> int n \<longrightarrow> int (read_ckpt (write_file FileWritten (FormatInt off) old) n) = off)"
  using assms by (simp add: state_read_back read_ckpt_def write_file_def trim_Format Parse_Format)
    (simp add: saveJournalState_def)

text \<open>Property C21: metering is exact through crashes, but for three ways to lose records. Whatever
  writes, transactions and checkpoint writes succeed, fail or are answered too late, and wherever
  the process dies, the table never holds a request twice. And as long as none of the three has
  happened (a start finds a torn line of a MiB or more, or a checkpoint file left behind by a
  rotation that the new journal has outgrown; a rotation records its generation, leaves the file
  uncut and finds the checkpoint file out of date), no request is booked twice over time either,
  everything booked was recorded and is booked as it was recorded, and every record that reached
  the journal is booked or still waits behind the checkpoint.\<close>

theorem journal_exactly_once:
  assumes "keeps_id fixCost" and "(journal_step enc dec fixCost add_days)\<^sup>*\<^sup>* new_run r"
  shows "distinct (map cl_request_id (rows (rn_store r))) \<and>
    (\<not> rn_lossy r \<longrightarrow>
       distinct (map cl_request_id (rn_booked r)) \<and>
       (\<forall>row\<in>set (rn_booked r). \<exists>l\<in>set (rn_recorded r). row = fixCost (fst (normalizeLegacyUsage l))) \<and>
       (\<forall>l\<in>set (rn_written r). cl_request_id l \<in> ids (rn_booked r) \<or> l \<in> set (waiting dec (rn_store r))))"
proof (intro conjI impI reachable_rows_distinct [OF assms])
  assume "\<not> rn_lossy r"
  from reachable_inv [OF assms this] obtain ls km kr where d: "disk_inv (rn_stale r) enc dec ls kr (rn_store r)"
    and b: "book_inv fixCost ls kr r" and m: "mem_inv enc ls km kr r" by (auto simp: journal_inv_def)
  have "waiting dec (rn_store r) = drop km ls" using m by (intro waiting_eq [OF d]) (simp add: mem_inv_def Let_def)
  moreover have "set (drop kr ls) \<subseteq> set (drop km ls)" using m by (intro set_drop_subset_set_drop) (simp add: mem_inv_def Let_def)
  ultimately show "distinct (map cl_request_id (rn_booked r))"
    "\<forall>row\<in>set (rn_booked r). \<exists>l\<in>set (rn_recorded r). row = fixCost (fst (normalizeLegacyUsage l))"
    "\<forall>l\<in>set (rn_written r). cl_request_id l \<in> ids (rn_booked r) \<or> l \<in> set (waiting dec (rn_store r))"
    using b by (auto simp: book_inv_def booked_row_def)
qed

lemma waiting_rotated: "waiting dec (maybeRotate RotateOk out s) = [] \<or> maybeRotate RotateOk out s = s"
  by (simp add: maybeRotate_def waiting_def scan.simps [of dec 0] Let_def)

lemma maybeRotate_rows: "rows (maybeRotate rot out s) = rows s" "st_overflow (maybeRotate rot out s) = st_overflow s"
  by (auto simp: maybeRotate_def rows_def saveJournalState_def Let_def split: rotation.splits)

lemma drain_runs:
  assumes "drain dec fixCost up rot out s = (s', ok)" and "up" and "rot = RotateOk" and "out = FileWritten"
    and "rn_store r = s" and "st_phase s = Idle" and "in_int64 (st_gen s + 1)" and "journal_inv enc dec fixCost r" and "keeps_id fixCost"
    and "\<not> rn_lossy r"
  shows "ok \<and> waiting dec s' = [] \<and> st_overflow s' = [] \<and>
    (\<exists>r' d. (journal_step enc dec fixCost add_days)\<^sup>*\<^sup>* r r' \<and> rn_store r' = s' \<and> rn_recorded r' = rn_recorded r \<and>
       rn_written r' = rn_written r \<and> rn_booked r' = rn_booked r @ d \<and> rows s' = rows s @ d \<and> \<not> rn_lossy r')"
  using assms
proof (induction dec fixCost up rot out s arbitrary: r rule: drain.induct)
  case (1 dec fixCost up rot out s)
  note prems = "1.prems"
  let ?step = "journal_step enc dec fixCost add_days"
  let ?s1 = "drain_take (drain_read dec s)"
  obtain batch nxt where rb: "readBatch dec s = (batch, nxt)" by fastforce
  define took where "took = (if length batch < batchMax then min (batchMax - length batch) (length (st_overflow s)) else 0)"
  define b where "b = batch @ take took (st_overflow s)"
  have p1: "st_phase (drain_read dec s) = ReadPhase batch nxt" by (simp add: drain_read_def rb)
  have s1: "?s1 = s\<lparr>st_phase := TakenPhase b nxt took\<rparr>" by (simp add: drain_take_def drain_read_def rb Let_def took_def b_def)
  have rbq: "round_batch ?s1 = b" unfolding s1 by (simp add: round_batch_def)
  have "?step r (r\<lparr>rn_store := drain_read dec s\<rparr>)" using js_read [of r enc dec fixCost add_days] prems by simp
  moreover have "?step (r\<lparr>rn_store := drain_read dec s\<rparr>) (r\<lparr>rn_store := ?s1\<rparr>)"
    using js_take [of "r\<lparr>rn_store := drain_read dec s\<rparr>" batch nxt enc dec fixCost add_days] p1 by simp
  ultimately have to1: "?step\<^sup>*\<^sup>* r (r\<lparr>rn_store := ?s1\<rparr>)" by (meson converse_rtranclp_into_rtranclp r_into_rtranclp)
  show ?case
  proof (cases "b = []")
    case True
    then have round: "round_batch ?s1 = []" by (simp only: rbq)
    from True have "batch = []" by (simp add: b_def)
    moreover from True this have "st_overflow s = []" by (simp add: b_def took_def batchMax_def min_def split: if_splits)
    ultimately have empty: "batch = []" "st_overflow s = []" by auto
    have s': "s' = maybeRotate RotateOk FileWritten (s\<lparr>st_phase := Idle\<rparr>)" "ok"
      using prems(1) round unfolding drain.simps [of dec fixCost up rot out s] Let_def using prems by (auto simp: s1)
    let ?r' = "r\<lparr>rn_store := s', rn_stale := stale_after RotateOk FileWritten ?s1 (rn_stale r)\<rparr>"
    have "?step (r\<lparr>rn_store := ?s1\<rparr>) ?r'"
      using js_rotate [of "r\<lparr>rn_store := ?s1\<rparr>" nxt took enc dec fixCost add_days RotateOk FileWritten] prems True
      by (simp add: s1 s'(1) unlucky_def same_lossy)
    with to1 have "?step\<^sup>*\<^sup>* r ?r'" by simp
    moreover have "rows s' = rows s" "st_overflow s' = []" using empty by (simp_all add: s' maybeRotate_rows)
    moreover have "waiting dec s' = []"
    proof -
      from prems(8) obtain ls km kr where d: "disk_inv (rn_stale r) enc dec ls kr s" and "km \<le> kr" and km: "st_ckpt s = offset_of enc ls km"
        unfolding journal_inv_def mem_inv_def Let_def prems(5) by blast
      then have km: "st_ckpt s = offset_of enc ls km" "km \<le> length ls" by (auto simp: disk_inv_def)
      have "take (min batchMax (length ls - km)) (drop km ls) = []"
        using readBatch_eq [OF d km] rb empty by simp
      then have "drop km ls = []" by (auto simp: batchMax_def min_def split: if_splits)
      then have "waiting dec (s\<lparr>st_phase := Idle\<rparr>) = []" using waiting_eq [OF d km(1)] by (simp add: waiting_def)
      then show ?thesis using waiting_rotated [of dec FileWritten "s\<lparr>st_phase := Idle\<rparr>"] s'(1) by auto
    qed
    ultimately show ?thesis using s'(2) prems(10) by (intro conjI exI [of _ ?r'] exI [of _ "[]"]) simp_all
  next
    case False
    then have round: "round_batch ?s1 \<noteq> []" by (simp only: rbq not_False_eq_True)
    let ?c = "drain_commit fixCost CommitOk ?s1"
    let ?s2 = "drain_settle out ?c"
    let ?d = "map (booked_row fixCost) (fresh_of s b)"
    have c: "?c = s\<lparr>st_db := commitAt fixCost (st_gen s) b nxt (st_db s), st_phase := CommittedPhase nxt took\<rparr>"
      unfolding s1 by (simp add: drain_commit_def)
    have rc: "rows ?c = rows s @ ?d" unfolding c by (simp add: rows_def commit_effect)
    have r1: "rows ?s1 = rows s" unfolding s1 by simp
    let ?rc = "r\<lparr>rn_store := ?c, rn_booked := rn_booked r @ ?d\<rparr>"
    let ?r2 = "?rc\<lparr>rn_store := ?s2, rn_stale := rn_stale r \<and> out = FileUntouched\<rparr>"
    have "?step (r\<lparr>rn_store := ?s1\<rparr>) ?rc"
      using js_commit [of "r\<lparr>rn_store := ?s1\<rparr>" b nxt took ?c fixCost CommitOk enc dec add_days] False
      by (simp add: s1 [symmetric] rc r1) (simp add: s1)
    moreover have "?step ?rc ?r2"
      using js_settle [of ?rc nxt took enc dec fixCost add_days out] by (simp add: c)
    ultimately have to2: "?step\<^sup>*\<^sup>* r ?r2" using to1 by (meson rtranclp.rtrancl_into_rtrancl)
    have s2: "st_phase ?s2 = Idle" "st_gen ?s2 = st_gen s" unfolding c by (simp_all add: drain_settle_def)
    have rs2: "rows ?s2 = rows ?c" unfolding c by (simp add: drain_settle_def rows_def)
    have inv2: "journal_inv enc dec fixCost ?r2"
      by (rule runs_inv [OF to2 prems(9,8)]) (use prems(10) in simp)
    have "drain dec fixCost up rot out ?s2 = (s', ok)"
      using prems(1,2) round unfolding drain.simps [of dec fixCost up rot out s] Let_def by simp
    from "1.IH" [OF refl round _ this _ _ _ _ _ _ inv2 prems(9) _] obtain r' d where
      IH: "ok \<and> waiting dec s' = [] \<and> st_overflow s' = []" "?step\<^sup>*\<^sup>* ?r2 r'" "rn_store r' = s'"
        "rn_recorded r' = rn_recorded r" "rn_written r' = rn_written r" "rn_booked r' = (rn_booked r @ ?d) @ d" "rows s' = rows ?s2 @ d" "\<not> rn_lossy r'"
      using prems s2 by auto
    moreover have "?step\<^sup>*\<^sup>* r r'" using to2 IH(2) by (rule rtranclp_trans)
    ultimately show ?thesis by (intro conjI exI [of _ r'] exI [of _ "?d @ d"]) (simp_all add: rs2 rc)
  qed
qed

text \<open>Property C22: a restart loses nothing, if nothing was lost before and it is not exposed itself
  (no torn line of a MiB, no checkpoint file left behind by a rotation and outgrown). However the
  store got where it is, when it starts again on a disk and a database that work, the replay ends
  with nothing left behind the checkpoint; then every record that ever reached the journal is
  booked, and booked once.\<close>

theorem restart_books_everything:
  assumes k: "keeps_id fixCost" and reach: "(journal_step enc dec fixCost add_days)\<^sup>*\<^sup>* new_run r"
    and safe: "\<not> rn_lossy r" "\<not> exposed (rn_stale r) (rn_store r)"
    and g: "in_int64 (st_gen (start_store True FileWritten True (rn_store r)) + 1)"
  shows "waiting dec (New dec fixCost cutoff (rn_store r)) = [] \<and>
    (\<exists>new. rows (New dec fixCost cutoff (rn_store r)) = rows (rn_store r) @ new \<and>
       distinct (map cl_request_id (rn_booked r @ new)) \<and>
       (\<forall>l\<in>set (rn_written r). cl_request_id l \<in> ids (rn_booked r @ new)))"
proof -
  let ?s0 = "start_store True FileWritten True (rn_store r)"
  let ?r0 = "r\<lparr>rn_store := ?s0, rn_stale := rn_stale r \<and> st_ckpt_file ?s0 = st_ckpt_file (rn_store r)\<rparr>"
  have "tear [] (rn_store r) = rn_store r" by (simp add: tear_def overwrite_def)
  then have "journal_step enc dec fixCost add_days r ?r0"
    using js_crash [of enc dec "[]" "rn_store r" r ?s0 True FileWritten True fixCost add_days] safe
    by (simp add: torn_part_def same_lossy)
  with reach have reach0: "(journal_step enc dec fixCost add_days)\<^sup>*\<^sup>* new_run ?r0" by simp
  have inv0: "journal_inv enc dec fixCost ?r0" by (rule reachable_inv [OF k reach0]) (use safe in simp)
  from reachable_inv [OF k reach safe(1)] obtain ls kr where "disk_inv (rn_stale r) enc dec ls kr (rn_store r)"
    by (auto simp: journal_inv_def)
  from start_disk [OF this safe(2) refl] have s0: "st_phase ?s0 = Idle" "rows ?s0 = rows (rn_store r)" by (simp_all add: rows_def)
  obtain s1 ok where dr: "drain dec fixCost True RotateOk FileWritten ?s0 = (s1, ok)" by fastforce
  from drain_runs [OF dr _ _ _ _ s0(1) g inv0 k, of add_days] obtain r' d where
    done': "waiting dec s1 = []" and run: "(journal_step enc dec fixCost add_days)\<^sup>*\<^sup>* ?r0 r'" and
    r': "rn_store r' = s1" "rn_written r' = rn_written r" "rn_booked r' = rn_booked r @ d" "rows s1 = rows (rn_store r) @ d"
      "\<not> rn_lossy r'"
    using s0 safe by auto
  have new: "rows (New dec fixCost cutoff (rn_store r)) = rows s1" "waiting dec (New dec fixCost cutoff (rn_store r)) = waiting dec s1"
    unfolding New_def dr by (simp_all add: Let_def rows_def waiting_def setPurgedBefore_def split: option.splits)
  from reachable_inv [OF k rtranclp_trans [OF reach0 run] r'(5)] obtain ls km kr where d: "disk_inv (rn_stale r') enc dec ls kr s1"
    and b: "book_inv fixCost ls kr r'" and m: "mem_inv enc ls km kr r'" by (auto simp: journal_inv_def r')
  have "drop km ls = []" using waiting_eq [OF d] m done' by (simp add: mem_inv_def Let_def r')
  then have "drop kr ls = []" using m by (simp add: mem_inv_def Let_def)
  then show ?thesis using b r' done' new by (auto simp: book_inv_def)
qed

subsection \<open>Two ways to lose records\<close>

text \<open>Without a crash or a failure, recording appends to the file.\<close>

lemma record_all:
  assumes "\<forall>l\<in>set ls. storable enc dec l" and "st_open s" and "st_file s = lines_of enc xs" and "st_size s = length (lines_of enc xs)"
  shows "fold (\<lambda>l. Record enc l Wrote) ls s =
    s\<lparr>st_file := lines_of enc (xs @ ls), st_size := length (lines_of enc (xs @ ls))\<rparr>"
  using assms
proof (induction ls arbitrary: s xs)
  case (Cons l ls)
  then obtain js where js: "enc l = Some js" by (auto simp: storable_def split: option.splits)
  have r: "Record enc l Wrote s = s\<lparr>st_file := lines_of enc (xs @ [l]), st_size := length (lines_of enc (xs @ [l]))\<rparr>"
    using Cons.prems by (simp add: Record_def js overwrite_def line_of_def Let_def)
  show ?case using Cons.prems Cons.IH [of "Record enc l Wrote s" "xs @ [l]"] by (simp add: r)
qed simp

text \<open>Property C23: a crash between the truncation of a rotated journal and the write of its checkpoint
  file leaves the old offset in the file, and the start does not correct it. When, without a commit
  in between, the new journal grows past that offset and the process dies again, everything before
  it is skipped: the records \<open>xs\<close> are neither booked nor waiting.\<close>

theorem stale_checkpoint_skips:
  assumes rot: "rotates s" "in_int64 (st_gen s + 1)" "in_int64 (int (st_size s))" "st_ckpt_file s = Some (FormatInt (int (st_size s)))"
    and s1: "s1 = start_store True out True (s\<lparr>st_db := saveJournalState (st_gen s + 1) 0 (st_db s), st_file := []\<rparr>)"
    and s2: "s2 = fold (\<lambda>l. Record enc l Wrote) (xs @ ys) s1"
    and s3: "s3 = start_store True out' True s2"
    and ls: "\<forall>l\<in>set (xs @ ys). storable enc dec l" "length (lines_of enc xs) = st_size s"
  shows "rows s3 = rows s \<and> waiting dec s3 = ys"
proof -
  have n: "0 < st_size s" using rot(1) by (simp add: rotates_def rotateAfter_def)
  have st: "JournalState (saveJournalState (st_gen s + 1) 0 db) = Boundary (st_gen s + 1) 0" for db
    using saved_offset [OF rot(2), of 0] by (simp add: in_int64_def)
  have ck: "read_ckpt (Some (FormatInt (int (st_size s)))) k = (if st_size s \<le> k then st_size s else 0)" for k
    using rot(3) by (simp add: read_ckpt_def trim_Format Parse_Format)
  have j1: "st_file s1 = lines_of enc []" "st_size s1 = length (lines_of enc [])" "st_open s1" "st_db s1 = saveJournalState (st_gen s + 1) 0 (st_db s)"
    "st_ckpt_file s1 = Some (FormatInt (int (st_size s)))"
    using n by (simp_all add: s1 start_store_def openJournal_def line_end_def Let_def reconcile_ckpt_def rot(4) ck st)
      (simp add: saveJournalState_def)
  have j2: "s2 = s1\<lparr>st_file := lines_of enc (xs @ ys), st_size := length (lines_of enc (xs @ ys))\<rparr>"
    using record_all [OF ls(1) j1(3,1,2)] by (simp add: s2)
  have le: "line_end (lines_of enc (xs @ ys)) = length (lines_of enc (xs @ ys))"
    using line_end_torn [of "[]" enc "xs @ ys"] by simp
  have j3: "st_file s3 = lines_of enc (xs @ ys)" "st_size s3 = length (lines_of enc (xs @ ys))" "st_ckpt s3 = st_size s"
    "rows s3 = rows s"
    using ls(2) by (simp_all add: s3 j2 start_store_def openJournal_def le [simplified] Let_def reconcile_ckpt_def j1 ck st)
      (simp_all add: rows_def saveJournalState_def)
  have "take (st_size s3 - st_ckpt s3) (drop (st_ckpt s3) (st_file s3)) = lines_of enc ys"
    using ls(2) by (simp add: j3)
  then have "waiting dec s3 = take (st_size s3) ys" using ls(1) by (simp add: waiting_def scan_lines)
  moreover have "length ys \<le> st_size s3" using length_lines [of ys enc] by (simp add: j3)
  ultimately show ?thesis using j3(4) by simp
qed

text \<open>A torn line of a MiB or more takes the whole journal with it: the start looks for
  the last line break in the last MiB only, finds none, and truncates the file to nothing, the
  records waiting in it included.\<close>

lemma long_torn_line_wipes:
  assumes "st_file s = lines_of enc ls @ torn" and "GoBase.newline \<notin> set torn" and "2 ^ 20 \<le> length torn"
  shows "st_file (start_store True out saved s) = [] \<and> waiting dec (start_store True out saved s) = [] \<and>
    rows (start_store True out saved s) = rows s"
proof -
  let ?f = "lines_of enc ls @ torn"
  define buf where "buf = drop (length ?f - min (length ?f) (2 ^ 20)) ?f"
  have "min (length ?f) (2 ^ 20) = 2 ^ 20" using assms(3) by simp
  then have "length ?f - min (length ?f) (2 ^ 20) = length (lines_of enc ls) + (length torn - 2 ^ 20)"
    using assms(3) by simp
  then have "buf = drop (length torn - 2 ^ 20) torn" unfolding buf_def by simp
  then have buf: "GoBase.newline \<notin> set buf" "buf \<noteq> []" using assms(2,3) by (auto dest: in_set_dropD)
  have "last_index GoBase.newline buf = None" using buf(1) by (induction buf) auto
  moreover have "last buf \<noteq> GoBase.newline" using buf last_in_set by metis
  moreover have "line_end ?f = (if length ?f = 0 then 0 else if last buf \<noteq> GoBase.newline then
      (case last_index GoBase.newline buf of Some i \<Rightarrow> length ?f - length buf + i + 1 | None \<Rightarrow> 0) else length ?f)"
    by (simp only: line_end_def Let_def buf_def)
  ultimately have "line_end (st_file s) = 0" by (simp add: assms(1))
  then have o: "st_file (openJournal True s) = []" "st_size (openJournal True s) = 0" "rows (openJournal True s) = rows s"
    by (simp_all add: openJournal_def rows_def Let_def)
  have keep: "st_file (reconcile_ckpt out saved x) = st_file x" "st_size (reconcile_ckpt out saved x) = st_size x"
    "rows (reconcile_ckpt out saved x) = rows x" for x
    by (simp_all add: reconcile_ckpt_def Let_def rows_def saveJournalState_def split: boundary.splits)
  show ?thesis using o by (simp add: start_store_def keep waiting_def scan.simps [of dec 0])
qed

section \<open>Samples\<close>

definition sample_enc :: "nat \<Rightarrow> call_log \<Rightarrow> string option" where
  "sample_enc n = (\<lambda>_. Some (replicate n (CHR ''a'')))"

definition sample_dec :: "string \<Rightarrow> call_log option" where
  "sample_dec = (\<lambda>_. Some sample_logged)"

lemma sample_storable: "n + 1 < 2 ^ 20 \<Longrightarrow> storable (sample_enc n) sample_dec sample_logged"
  by (simp add: storable_def sample_enc_def sample_dec_def sample_logged_def new_log_def GoBase.newline_def char_of_def bit_0)

lemma sample_line: "length (line_of (sample_enc n) l) = n + 1"
  by (simp add: line_of_def sample_enc_def)

lemma sample_lines: "length (lines_of (sample_enc n) (replicate k l)) = k * (n + 1)"
  by (induction k) (simp_all add: sample_line)

definition sample_started :: store where
  "sample_started = start_store True FileWritten True empty_disk"

lemma sample_started_eq:
  "sample_started = empty_disk\<lparr>st_open := True, st_db := saveJournalState 0 0 (st_db empty_disk)\<rparr>"
  by (simp add: sample_started_def start_store_def openJournal_def line_end_def read_ckpt_def reconcile_ckpt_def JournalState_def
      empty_disk_def Let_def)

definition sample_journaled :: run where
  "sample_journaled = new_run\<lparr>rn_store := Record (sample_enc 2) sample_logged Wrote sample_started,
     rn_recorded := [sample_logged], rn_written := [sample_logged]\<rparr>"

lemma sample_reachable:
  "(journal_step (sample_enc 2) sample_dec id (\<lambda>_ t. t))\<^sup>*\<^sup>* new_run sample_journaled"
proof -
  let ?step = "journal_step (sample_enc 2) sample_dec id (\<lambda>_ t. t)"
  have "tear [] empty_disk = empty_disk" by (simp add: tear_def overwrite_def empty_disk_def)
  then have "?step new_run (new_run\<lparr>rn_store := sample_started\<rparr>)"
    using js_crash [of "sample_enc 2" sample_dec "[]" empty_disk new_run sample_started True FileWritten True id "\<lambda>_ t. t"]
    by (simp add: torn_part_def sample_started_def new_run_def exposed_def empty_disk_def)
  moreover have "?step (new_run\<lparr>rn_store := sample_started\<rparr>) sample_journaled"
    using js_record [OF sample_storable, of 2 "new_run\<lparr>rn_store := sample_started\<rparr>" Wrote id "\<lambda>_ t. t"]
    by (simp add: sample_journaled_def new_run_def sample_started_eq empty_disk_def sample_line in_int64_def)
  ultimately show ?thesis by simp
qed

lemma sample_keeps: "keeps_id id"
  by (simp add: keeps_id_def)

lemma boundary_round_trip_witness: "JournalState (saveJournalState 3 77 (st_db empty_disk)) = Boundary 3 77"
  using boundary_round_trip [of 3 77 "st_db empty_disk" 100 None] by (simp add: in_int64_def)

lemma journal_exactly_once_witness:
  "cl_request_id sample_logged \<in> ids (rn_booked sample_journaled) \<or>
   sample_logged \<in> set (waiting sample_dec (rn_store sample_journaled))"
  using journal_exactly_once [OF sample_keeps sample_reachable] by (simp add: sample_journaled_def new_run_def)

lemma sample_file:
  "rn_store sample_journaled = empty_disk\<lparr>st_open := True, st_db := saveJournalState 0 0 (st_db empty_disk),
     st_file := line_of (sample_enc 2) sample_logged, st_size := 3\<rparr>"
  by (simp add: sample_journaled_def Record_def sample_enc_def sample_started_eq empty_disk_def overwrite_def line_of_def Let_def)

lemma sample_gen: "st_gen (start_store True FileWritten True (rn_store sample_journaled)) = 0"
  unfolding sample_file
  using state_read_back [of 0 0 "st_db empty_disk"] line_end_torn [of "[]" "sample_enc 2" "[sample_logged]"]
  by (simp add: start_store_def openJournal_def read_ckpt_def reconcile_ckpt_def empty_disk_def Let_def in_int64_def sample_line
      del: replicate.simps)

lemma sample_safe: "\<not> rn_lossy sample_journaled" "\<not> exposed (rn_stale sample_journaled) (rn_store sample_journaled)"
  unfolding sample_file exposed_def by (simp_all add: sample_journaled_def new_run_def sample_line)

lemma restart_books_everything_witness:
  "cl_request_id sample_logged \<in> ids (rows (New sample_dec id 0 (rn_store sample_journaled)))"
proof -
  have b: "rn_booked sample_journaled = []" "rows (rn_store sample_journaled) = []"
    by (simp_all add: sample_journaled_def new_run_def Record_def sample_enc_def sample_started_eq empty_disk_def rows_def
        empty_metering_def saveJournalState_def Let_def)
  have "sample_logged \<in> set (rn_written sample_journaled)" by (simp add: sample_journaled_def)
  moreover have g: "in_int64 (st_gen (start_store True FileWritten True (rn_store sample_journaled)) + 1)"
    by (simp add: sample_gen in_int64_def)
  ultimately show ?thesis
    using restart_books_everything [OF sample_keeps sample_reachable _ _ g, of 0] sample_safe unfolding b by auto
qed

definition sample_rotated :: store where
  \<comment> \<open>a journal of 64 lines of half a MiB, all of it committed\<close>
  "sample_rotated = sample_started\<lparr>st_file := lines_of (sample_enc 524287) (replicate 64 sample_logged), st_size := 33554432,
     st_ckpt := 33554432, st_ckpt_file := Some (FormatInt 33554432)\<rparr>"

lemma stale_checkpoint_skips_witness:
  "\<exists>s1 s2 s3. s1 = start_store True FileWritten True
       (sample_rotated\<lparr>st_db := saveJournalState 1 0 (st_db sample_rotated), st_file := []\<rparr>) \<and>
     s2 = fold (\<lambda>l. Record (sample_enc 524287) l Wrote) (replicate 64 sample_logged) s1 \<and>
     s3 = start_store True FileWritten True s2 \<and> rows s3 = [] \<and> waiting sample_dec s3 = []"
proof -
  have s: "st_gen sample_rotated = 0" "st_size sample_rotated = 33554432" "rotates sample_rotated"
    "st_ckpt_file sample_rotated = Some (FormatInt 33554432)" "rows sample_rotated = []"
    by (simp_all add: sample_rotated_def sample_started_eq empty_disk_def rotates_def rotateAfter_def rows_def
        saveJournalState_def empty_metering_def)
  have "\<forall>l\<in>set (replicate 64 sample_logged @ []). storable (sample_enc 524287) sample_dec l"
    using sample_storable [of 524287] by (simp add: set_replicate_conv_if del: replicate.simps)
  moreover have "length (lines_of (sample_enc 524287) (replicate 64 sample_logged)) = st_size sample_rotated"
    unfolding s(2) sample_lines by simp
  ultimately show ?thesis
    using stale_checkpoint_skips [OF s(3) _ _ _ refl refl refl, of "replicate 64 sample_logged" "[]" "sample_enc 524287" sample_dec
        FileWritten FileWritten] s
    by (simp add: in_int64_def del: replicate.simps)
qed

lemma long_torn_line_wipes_witness:
  "\<exists>s. st_file s = lines_of (sample_enc 2) [sample_logged] @ replicate (2 ^ 20) (CHR ''a'') \<and>
     st_file (start_store True FileWritten True s) = []"
proof -
  define t where "t = replicate (2 ^ 20) (CHR ''a'')"
  have t: "GoBase.newline \<notin> set t" "2 ^ 20 \<le> length t"
    by (simp_all add: t_def GoBase.newline_def char_of_def bit_0)
  let ?s = "empty_disk\<lparr>st_file := lines_of (sample_enc 2) [sample_logged] @ t\<rparr>"
  have f: "st_file ?s = lines_of (sample_enc 2) [sample_logged] @ t" by simp
  from long_torn_line_wipes [OF f t] f show ?thesis unfolding t_def [symmetric] by (intro exI [of _ ?s]) blast
qed

end
