(* ===== verification/Sse.thy ===== *)
theory Sse
  imports Lines
begin

text \<open>
  Server-sent events (\<open>src/internal/gateway/convert/sse.go\<close>): the reader the protocol converters use
  on upstream streams and the writer of the events sent to clients. A stream is the bytes still to
  come and whether they end with the end of the stream (\<open>io.EOF\<close>) or an error of the connection.
\<close>

record sse_event =
  ev_name :: string
  ev_data :: string

fun join_lines :: "string list \<Rightarrow> string" where
  \<comment> \<open>\<open>strings.Join(data, "\n")\<close>\<close>
  "join_lines [] = []"
| "join_lines [d] = d"
| "join_lines (d # ds) = d @ newline # join_lines ds"

datatype next_event =
  NextEvent sse_event string \<comment> \<open>the event, and the bytes left\<close>
| NextEnd \<comment> \<open>\<open>io.EOF\<close> or the error of the connection\<close>

function next_loop :: "bool \<Rightarrow> string \<Rightarrow> string list \<Rightarrow> string \<Rightarrow> next_event" where
  "next_loop eof name data s =
     (case read_line s of
        None \<Rightarrow>
          if eof \<and> (data \<noteq> [] \<or> name \<noteq> '''') then NextEvent \<lparr>ev_name = name, ev_data = join_lines data\<rparr> []
          else NextEnd
      | Some (raw, rest) \<Rightarrow>
          let line = trim_right_set [carriage, newline] raw
          in if line = '''' then
               if data = [] \<and> name = '''' then next_loop eof name data rest
               else NextEvent \<lparr>ev_name = name, ev_data = join_lines data\<rparr> rest
             else if has_prefix line '':'' then next_loop eof name data rest
             else if has_prefix line ''event:'' then next_loop eof (trim_space (drop 6 line)) data rest
             else if has_prefix line ''data:'' then
               next_loop eof name (data @ [trim_prefix (trim_prefix line ''data:'') '' '']) rest
             else next_loop eof name data rest)"
  by pat_completeness auto

termination next_loop
  by (relation "measure (\<lambda>(eof, name, data, s). length s)") (auto dest!: read_line_split)

declare next_loop.simps [simp del]

definition Next :: "bool \<Rightarrow> string \<Rightarrow> next_event" where
  "Next eof s = next_loop eof '''' [] s"

definition WriteSSE :: "string \<Rightarrow> string \<Rightarrow> string" where
  "WriteSSE event data =
     (if event \<noteq> '''' then ''event: '' @ event @ [newline] else []) @ ''data: '' @ data @ [newline, newline]"

text \<open>One line at a time.\<close>

lemma next_loop_end:
  "read_line s = None \<Longrightarrow> next_loop eof name data s =
     (if eof \<and> (data \<noteq> [] \<or> name \<noteq> '''') then NextEvent \<lparr>ev_name = name, ev_data = join_lines data\<rparr> [] else NextEnd)"
  by (subst next_loop.simps) simp

lemma next_loop_line:
  "read_line s = Some (raw, rest) \<Longrightarrow> line = trim_right_set [carriage, newline] raw \<Longrightarrow> next_loop eof name data s =
     (if line = '''' then
        if data = [] \<and> name = '''' then next_loop eof name data rest
        else NextEvent \<lparr>ev_name = name, ev_data = join_lines data\<rparr> rest
      else if has_prefix line '':'' then next_loop eof name data rest
      else if has_prefix line ''event:'' then next_loop eof (trim_space (drop 6 line)) data rest
      else if has_prefix line ''data:'' then
        next_loop eof name (data @ [trim_prefix (trim_prefix line ''data:'') '' '']) rest
      else next_loop eof name data rest)"
  by (subst next_loop.simps) (simp add: Let_def)

lemma next_loop_shorter:
  "next_loop eof name data s = NextEvent e rest \<Longrightarrow>
   length rest \<le> length s \<and> (name = '''' \<and> data = [] \<longrightarrow> length rest < length s)"
proof (induction "length s" arbitrary: s name data rule: less_induct)
  case less
  show ?case
  proof (cases "read_line s")
    case None
    then show ?thesis using less.prems by (auto simp: next_loop_end split: if_splits)
  next
    case (Some p)
    obtain raw r where p: "p = (raw, r)" by fastforce
    with Some have r: "length r < length s" using read_line_split [of s raw r] by auto
    have IH: "length rest < length s" if "next_loop eof n d r = NextEvent e rest" for n d
      using less.hyps [OF r that] r by simp
    from less.prems show ?thesis
      unfolding next_loop_line [OF Some [unfolded p] refl]
      using r IH by (auto split: if_splits dest!: IH)
  qed
qed

function read_events :: "bool \<Rightarrow> string \<Rightarrow> sse_event list" where
  \<comment> \<open>the loop of every converter: events until the stream ends\<close>
  "read_events eof s =
     (case Next eof s of NextEnd \<Rightarrow> [] | NextEvent e rest \<Rightarrow> e # read_events eof rest)"
  by pat_completeness auto

termination read_events
  by (relation "measure (\<lambda>(eof, s). length s)") (auto simp: Next_def dest: next_loop_shorter)

declare read_events.simps [simp del]

section \<open>Writing and reading back\<close>

text \<open>The lines of a document. \<open>WriteSSE\<close> puts \<open>data: \<close> before the first one only; the
  reader takes the others for fields it does not know, unless they are blank or look like a field it
  does know. The gateway's own events are JSON documents of one line and \<open>[DONE]\<close>; those it passes
  through (\<open>upstream.go\<close>, \<open>passthroughStream\<close>) have the lines the upstream sent.\<close>

fun data_lines :: "string \<Rightarrow> string list" where
  "data_lines [] = [[]]"
| "data_lines (c # cs) =
     (if c = newline then [] # data_lines cs else (c # hd (data_lines cs)) # tl (data_lines cs))"

definition unknown_field :: "string \<Rightarrow> bool" where
  "unknown_field l \<longleftrightarrow> l \<noteq> [] \<and> \<not> has_prefix l ''data:'' \<and> \<not> has_prefix l ''event:''"

definition sendable :: "sse_event \<Rightarrow> bool" where
  "sendable e \<longleftrightarrow> (\<forall>c\<in>set (ev_name e). visible c) \<and> carriage \<notin> set (ev_data e) \<and>
     (\<forall>l\<in>set (tl (data_lines (ev_data e))). unknown_field l)"

definition survived :: "sse_event \<Rightarrow> sse_event" where
  \<comment> \<open>what the reader of the written event gets\<close>
  "survived e = e\<lparr>ev_data := takeWhile (\<lambda>c. c \<noteq> newline) (ev_data e)\<rparr>"

lemma data_lines_nonempty [simp]: "data_lines s \<noteq> []"
  by (induction s) auto

lemma data_lines_clean: "l \<in> set (data_lines s) \<Longrightarrow> newline \<notin> set l \<and> set l \<subseteq> set s"
proof (induction s arbitrary: l)
  case (Cons c cs)
  have hd: "hd (data_lines cs) \<in> set (data_lines cs)" by simp
  have tl: "set (tl (data_lines cs)) \<subseteq> set (data_lines cs)" by (cases "data_lines cs") auto
  have H: "newline \<notin> set (hd (data_lines cs))" "set (hd (data_lines cs)) \<subseteq> set cs" using Cons.IH [OF hd] by auto
  have T: "newline \<notin> set l \<and> set l \<subseteq> set (c # cs)" if "l \<in> set (data_lines cs)" using Cons.IH [OF that] by auto
  show ?case
  proof (cases "c = newline")
    case True
    then show ?thesis using Cons.prems T by auto
  next
    case False
    then consider "l = c # hd (data_lines cs)" | "l \<in> set (data_lines cs)" using Cons.prems tl by auto
    then show ?thesis
    proof cases
      case 1
      show ?thesis unfolding 1 using H False by auto
    qed (rule T)
  qed
qed simp

lemma data_lines_hd: "hd (data_lines s) = takeWhile (\<lambda>c. c \<noteq> newline) s"
  by (induction s) auto

lemma data_lines_concat: "concat (map (\<lambda>l. l @ [newline]) (data_lines s)) = s @ [newline]"
proof (induction s)
  case (Cons c cs)
  obtain d ds where "data_lines cs = d # ds" by (cases "data_lines cs") simp_all
  with Cons show ?case by simp
qed simp

lemma one_line: "newline \<notin> set (ev_data e) \<Longrightarrow> survived e = e"
  by (cases e) (auto simp: survived_def takeWhile_eq_all_conv)

definition stream_of :: "sse_event list \<Rightarrow> string" where
  "stream_of es = concat (map (\<lambda>e. WriteSSE (ev_name e) (ev_data e)) es)"

lemma breaks: "newline \<noteq> carriage" "\<not> visible newline" "\<not> visible carriage" "newline = CHR 0x0A" "carriage = CHR 0x0D"
  by (simp_all add: newline_def carriage_def visible_def char_of_def bit_0)

text \<open>The literals are kept folded in the proofs.\<close>

definition event_tag :: string where "event_tag = ''event: ''"
definition data_tag :: string where "data_tag = ''data: ''"

lemma tags: "newline \<notin> set event_tag" "carriage \<notin> set event_tag" "newline \<notin> set data_tag" "carriage \<notin> set data_tag"
  by (simp_all add: event_tag_def data_tag_def breaks(4,5))

lemma WriteSSE_tags:
  "WriteSSE event data = (if event \<noteq> '''' then event_tag @ event @ [newline] else []) @ data_tag @ data @ [newline, newline]"
  by (simp add: WriteSSE_def event_tag_def data_tag_def)

lemma trim_line: "newline \<notin> set l \<Longrightarrow> carriage \<notin> set l \<Longrightarrow> trim_right_set [carriage, newline] (l @ [newline]) = l"
proof -
  assume "newline \<notin> set l" and "carriage \<notin> set l"
  then have "dropWhile (\<lambda>c. c \<in> set [carriage, newline]) (rev l) = rev l"
    by (cases "rev l") (auto dest: arg_cong [of _ _ set])
  then show ?thesis by (simp add: trim_right_set_def)
qed

lemma name_line:
  assumes "\<forall>c\<in>set name. visible c"
  shows "next_loop eof nm data (event_tag @ name @ newline # rest) = next_loop eof name data rest"
proof -
  let ?l = "event_tag @ name"
  have clean: "newline \<notin> set ?l" "carriage \<notin> set ?l" using assms tags breaks by auto
  have "read_line (?l @ newline # rest) = Some (?l @ [newline], rest)" by (rule read_line_first [OF clean(1)])
  then have "read_line (event_tag @ name @ newline # rest) = Some (?l @ [newline], rest)" by simp
  from next_loop_line [OF this trim_line [OF clean, symmetric]] show ?thesis
    using trim_blank_visible [OF assms] by (simp add: has_prefix_def event_tag_def)
qed

lemma data_line:
  assumes "newline \<notin> set d" and "carriage \<notin> set d"
  shows "next_loop eof name data (data_tag @ d @ newline # rest) = next_loop eof name (data @ [d]) rest"
proof -
  let ?l = "data_tag @ d"
  have clean: "newline \<notin> set ?l" "carriage \<notin> set ?l" using assms tags breaks by auto
  have "read_line (?l @ newline # rest) = Some (?l @ [newline], rest)" by (rule read_line_first [OF clean(1)])
  then have "read_line (data_tag @ d @ newline # rest) = Some (?l @ [newline], rest)" by simp
  from next_loop_line [OF this trim_line [OF clean, symmetric]] show ?thesis
    by (simp add: has_prefix_def trim_prefix_def data_tag_def)
qed

lemma blank_line:
  "data \<noteq> [] \<or> name \<noteq> '''' \<Longrightarrow>
   next_loop eof name data (newline # rest) = NextEvent \<lparr>ev_name = name, ev_data = join_lines data\<rparr> rest"
  using next_loop_line [OF read_line_first [of "[]" rest] trim_line [of "[]", symmetric], of eof name data] by auto

definition line_block :: "string list \<Rightarrow> string" where
  "line_block ls = concat (map (\<lambda>l. l @ [newline]) ls)"

lemma line_block_simps [simp]: "line_block [] = []" "line_block (l # ls) = l @ newline # line_block ls"
  by (simp_all add: line_block_def)

lemma WriteSSE_lines:
  "WriteSSE event data = (if event \<noteq> '''' then event_tag @ event @ [newline] else []) @
     data_tag @ hd (data_lines data) @ newline # line_block (tl (data_lines data)) @ [newline]"
proof -
  have "data @ [newline] = line_block (hd (data_lines data) # tl (data_lines data))"
    using data_lines_concat [of data] by (simp add: line_block_def)
  then have "data @ [newline, newline] = hd (data_lines data) @ newline # line_block (tl (data_lines data)) @ [newline]"
    by (metis append.assoc append_Cons append_Nil line_block_simps(2))
  then show ?thesis by (simp add: WriteSSE_tags)
qed

lemma unknown_line:
  assumes "newline \<notin> set l" and "carriage \<notin> set l" and "unknown_field l"
  shows "next_loop eof name data (l @ newline # rest) = next_loop eof name data rest"
proof -
  have "read_line (l @ newline # rest) = Some (l @ [newline], rest)" by (rule read_line_first [OF assms(1)])
  from next_loop_line [OF this trim_line [OF assms(1,2), symmetric]] show ?thesis
    using assms(3) by (simp add: unknown_field_def)
qed

lemma unknown_lines:
  assumes "\<forall>l\<in>set ls. newline \<notin> set l \<and> carriage \<notin> set l \<and> unknown_field l"
  shows "next_loop eof name data (line_block ls @ rest) = next_loop eof name data rest"
  using assms
proof (induction ls)
  case (Cons l ls)
  then show ?case using unknown_line [of l eof name data "line_block ls @ rest"] by simp
qed simp

text \<open>What a sendable event gives the reader.\<close>

lemma sendable_parts:
  assumes "sendable e"
  defines "d \<equiv> takeWhile (\<lambda>c. c \<noteq> newline) (ev_data e)" and "ls \<equiv> tl (data_lines (ev_data e))"
  shows "\<forall>c\<in>set (ev_name e). visible c" and "newline \<notin> set d" and "carriage \<notin> set d"
    and "\<forall>l\<in>set ls. newline \<notin> set l \<and> carriage \<notin> set l \<and> unknown_field l"
    and "WriteSSE (ev_name e) (ev_data e) =
      (if ev_name e \<noteq> '''' then event_tag @ ev_name e @ [newline] else []) @ data_tag @ d @ newline # line_block ls @ [newline]"
proof -
  have d: "d = hd (data_lines (ev_data e))" by (simp add: d_def data_lines_hd)
  then show "newline \<notin> set d" "carriage \<notin> set d"
    using data_lines_clean [of d "ev_data e"] assms(1) by (auto simp: sendable_def)
  have "set ls \<subseteq> set (data_lines (ev_data e))" by (cases "data_lines (ev_data e)") (auto simp: ls_def)
  then show "\<forall>l\<in>set ls. newline \<notin> set l \<and> carriage \<notin> set l \<and> unknown_field l"
    using data_lines_clean [of _ "ev_data e"] assms(1) by (fastforce simp: sendable_def ls_def)
  show "\<forall>c\<in>set (ev_name e). visible c" using assms(1) by (simp add: sendable_def)
  show "WriteSSE (ev_name e) (ev_data e) =
      (if ev_name e \<noteq> '''' then event_tag @ ev_name e @ [newline] else []) @ data_tag @ d @ newline # line_block ls @ [newline]"
    by (simp add: WriteSSE_lines d ls_def)
qed

lemma survived_eq: "survived e = \<lparr>ev_name = ev_name e, ev_data = takeWhile (\<lambda>c. c \<noteq> newline) (ev_data e)\<rparr>"
  by (cases e) (simp add: survived_def)

lemma Next_written:
  assumes "sendable e"
  shows "Next eof (WriteSSE (ev_name e) (ev_data e) @ rest) = NextEvent (survived e) rest"
proof -
  note p = sendable_parts [OF assms]
  let ?d = "takeWhile (\<lambda>c. c \<noteq> newline) (ev_data e)" and ?ls = "tl (data_lines (ev_data e))"
  have "next_loop eof nm [] (data_tag @ ?d @ newline # line_block ?ls @ newline # rest) =
      NextEvent \<lparr>ev_name = nm, ev_data = ?d\<rparr> rest" for nm
    by (simp add: data_line [OF p(2,3)] unknown_lines [OF p(4)] blank_line)
  then show ?thesis unfolding p(5) Next_def survived_eq by (simp add: name_line [OF p(1)])
qed

lemma cut_line: "newline \<notin> set l \<Longrightarrow> k \<le> length l \<Longrightarrow> read_line (take k (l @ rest)) = None"
  by (rule read_line_none) (auto dest: in_set_takeD)

text \<open>What is left of one event when the stream ends inside it.\<close>

lemma cut_lines:
  assumes "\<forall>l\<in>set ls. newline \<notin> set l \<and> carriage \<notin> set l \<and> unknown_field l" and "j \<le> length (line_block ls)"
  shows "next_loop eof nm [d] (take j (line_block ls @ [newline])) = NextEnd \<or>
    next_loop eof nm [d] (take j (line_block ls @ [newline])) = NextEvent \<lparr>ev_name = nm, ev_data = d\<rparr> []"
  using assms
proof (induction ls arbitrary: j)
  case Nil
  then show ?case by (simp add: next_loop_end read_line_none)
next
  case (Cons l ls)
  show ?case
  proof (cases "j \<le> length l")
    case True
    have "read_line (take j (l @ (newline # line_block ls @ [newline]))) = None" using Cons.prems(1) True by (intro cut_line) simp_all
    then show ?thesis by (simp add: next_loop_end)
  next
    case False
    define i where "i = j - Suc (length l)"
    have j: "j = length l + Suc i" using False by (simp add: i_def)
    have i: "i \<le> length (line_block ls)" using Cons.prems(2) j by simp
    have t: "take j (line_block (l # ls) @ [newline]) = l @ newline # take i (line_block ls @ [newline])" by (simp add: j)
    have clean: "newline \<notin> set l" "carriage \<notin> set l" "unknown_field l" using Cons.prems(1) by simp_all
    have "\<forall>l\<in>set ls. newline \<notin> set l \<and> carriage \<notin> set l \<and> unknown_field l" using Cons.prems(1) by simp
    from Cons.IH [OF this i] show ?thesis unfolding t unknown_line [OF clean] .
  qed
qed

lemma cut_data:
  fixes nm :: string and eof :: bool
  assumes d: "newline \<notin> set d" "carriage \<notin> set d"
    and ls: "\<forall>l\<in>set ls. newline \<notin> set l \<and> carriage \<notin> set l \<and> unknown_field l"
    and j: "j \<le> length (data_tag @ d @ newline # line_block ls)"
  defines "r \<equiv> next_loop eof nm [] (take j (data_tag @ d @ newline # line_block ls @ [newline]))"
  shows "r = NextEnd \<or> r = NextEvent \<lparr>ev_name = nm, ev_data = d\<rparr> [] \<or> (nm \<noteq> '''' \<and> r = NextEvent \<lparr>ev_name = nm, ev_data = ''''\<rparr> [])"
proof (cases "j \<le> length (data_tag @ d)")
  case True
  have "newline \<notin> set (data_tag @ d)" using d tags by simp
  from cut_line [OF this True, of "newline # line_block ls @ [newline]"] show ?thesis
    by (simp add: r_def next_loop_end)
next
  case False
  define i where "i = j - Suc (length (data_tag @ d))"
  have j': "j = length (data_tag @ d) + Suc i" using False by (simp add: i_def)
  have i: "i \<le> length (line_block ls)" using j j' by simp
  have "take j ((data_tag @ d) @ newline # line_block ls @ [newline]) = (data_tag @ d) @ newline # take i (line_block ls @ [newline])"
    unfolding j' by simp
  then have t: "take j (data_tag @ d @ newline # line_block ls @ [newline]) = data_tag @ d @ newline # take i (line_block ls @ [newline])"
    by simp
  show ?thesis using cut_lines [OF ls i, of eof nm d] unfolding r_def t data_line [OF d] by auto
qed

lemma Next_cut:
  assumes e: "sendable e" and k: "k < length (WriteSSE (ev_name e) (ev_data e))"
  shows "Next eof (take k (WriteSSE (ev_name e) (ev_data e))) = NextEnd \<or>
    Next eof (take k (WriteSSE (ev_name e) (ev_data e))) = NextEvent (survived e) [] \<or>
    (ev_name e \<noteq> '''' \<and> Next eof (take k (WriteSSE (ev_name e) (ev_data e))) = NextEvent (e\<lparr>ev_data := ''''\<rparr>) [])"
proof -
  note p = sendable_parts [OF e]
  let ?d = "takeWhile (\<lambda>c. c \<noteq> newline) (ev_data e)" and ?ls = "tl (data_lines (ev_data e))"
  have empty: "\<lparr>ev_name = ev_name e, ev_data = ''''\<rparr> = e\<lparr>ev_data := ''''\<rparr>" by (cases e) simp
  show ?thesis
  proof (cases "ev_name e = ''''")
    case True
    then show ?thesis using cut_data [OF p(2-4), of k eof "''''"] k unfolding p(5) Next_def survived_eq by simp
  next
    case False
    let ?n = "event_tag @ ev_name e"
    have nclean: "newline \<notin> set ?n" using p(1) tags breaks by auto
    let ?t = "data_tag @ ?d @ newline # line_block ?ls @ [newline]"
    have w: "WriteSSE (ev_name e) (ev_data e) = ?n @ newline # ?t" using False by (simp add: p(5))
    show ?thesis
    proof (cases "k \<le> length ?n")
      case True
      then show ?thesis using next_loop_end [OF cut_line [OF nclean True]] unfolding w Next_def by simp
    next
      case k': False
      define j where "j = k - Suc (length ?n)"
      have k'': "k = length ?n + Suc j" using k' by (simp add: j_def)
      have "take k (?n @ newline # ?t) = ?n @ newline # take j ?t" unfolding k'' by simp
      then have t: "take k (WriteSSE (ev_name e) (ev_data e)) = event_tag @ ev_name e @ newline # take j ?t" unfolding w by simp
      have "j \<le> length (data_tag @ ?d @ newline # line_block ?ls)" using k k'' unfolding w by simp
      from cut_data [OF p(2-4) this, of eof "ev_name e"] False show ?thesis
        unfolding t Next_def name_line [OF p(1)] survived_eq empty by blast
    qed
  qed
qed

text \<open>The events that lie wholly before the byte \<open>k\<close>.\<close>

fun complete_before :: "nat \<Rightarrow> sse_event list \<Rightarrow> nat" where
  "complete_before k [] = 0"
| "complete_before k (e # es) =
     (let w = length (WriteSSE (ev_name e) (ev_data e))
      in if w \<le> k then Suc (complete_before (k - w) es) else 0)"

lemma complete_before_le: "complete_before k es \<le> length es"
  by (induction k es rule: complete_before.induct) (auto simp: Let_def)

text \<open>Property C24: the event stream on the wire. What \<open>WriteSSE\<close> wrote is read back event by
  event, in order, each with its name; an event whose data is one line unchanged. Of data with
  several lines, which \<open>passthroughStream\<close> does write, only the first line arrives (the others
  being neither blank nor like a field, as in an indented document). When the stream breaks off at
  any byte, every event that lies before the break is read, at most followed by the next one, or by
  its name without data: a partial line never looks like an event.\<close>

theorem sse_round_trip:
  assumes "\<forall>e\<in>set es. sendable e"
  shows "read_events eof (stream_of es) = map survived es \<and>
    (\<forall>e\<in>set es. newline \<notin> set (ev_data e) \<longrightarrow> survived e = e) \<and>
    (let n = complete_before k es; got = read_events eof (take k (stream_of es))
     in got = map survived (take n es) \<or>
        (n < length es \<and> (got = map survived (take (Suc n) es) \<or>
           ev_name (es ! n) \<noteq> '''' \<and> got = map survived (take n es) @ [(es ! n)\<lparr>ev_data := ''''\<rparr>])))"
proof (intro conjI ballI impI one_line)
  have none: "read_events eof [] = []"
    by (subst read_events.simps) (simp add: Next_def next_loop_end read_line_none)
  have all: "read_events eof (stream_of es) = map survived es"
    using assms
  proof (induction es)
    case (Cons e es)
    then show ?case by (subst read_events.simps) (simp add: stream_of_def Next_written)
  qed (simp add: stream_of_def none)
  then show "read_events eof (stream_of es) = map survived es" .
  show "let n = complete_before k es; got = read_events eof (take k (stream_of es))
     in got = map survived (take n es) \<or>
        (n < length es \<and> (got = map survived (take (Suc n) es) \<or>
           ev_name (es ! n) \<noteq> '''' \<and> got = map survived (take n es) @ [(es ! n)\<lparr>ev_data := ''''\<rparr>]))"
    using assms
  proof (induction es arbitrary: k)
    case (Cons e es)
    let ?w = "WriteSSE (ev_name e) (ev_data e)"
    have s: "stream_of (e # es) = ?w @ stream_of es" by (simp add: stream_of_def)
    have e: "sendable e" using Cons.prems by simp
    show ?case
    proof (cases "k < length ?w")
      case True
      have t: "take k (stream_of (e # es)) = take k ?w" unfolding s using True by simp
      have "read_events eof (take k ?w) = [] \<or> read_events eof (take k ?w) = [survived e] \<or>
          (ev_name e \<noteq> '''' \<and> read_events eof (take k ?w) = [e\<lparr>ev_data := ''''\<rparr>])"
        using Next_cut [OF e True, of eof] by (subst (1 2 3) read_events.simps) (auto simp: none)
      with True show ?thesis unfolding t by simp
    next
      case False
      have "take k (stream_of (e # es)) = ?w @ take (k - length ?w) (stream_of es)" unfolding s using False by simp
      then have "read_events eof (take k (stream_of (e # es))) = survived e # read_events eof (take (k - length ?w) (stream_of es))"
        by (subst read_events.simps) (simp add: Next_written [OF e])
      with Cons.IH [of "k - length ?w"] Cons.prems False show ?thesis by (auto simp: Let_def)
    qed
  qed (simp add: stream_of_def none)
qed

lemma sse_round_trip_witness:
  "read_events True (stream_of [\<lparr>ev_name = ''ping'', ev_data = ''{'' @ newline # '' }''\<rparr>, \<lparr>ev_name = '''', ev_data = ''[DONE]''\<rparr>]) =
     [\<lparr>ev_name = ''ping'', ev_data = ''{''\<rparr>, \<lparr>ev_name = '''', ev_data = ''[DONE]''\<rparr>]"
proof -
  let ?es = "[\<lparr>ev_name = ''ping'', ev_data = ''{'' @ newline # '' }''\<rparr>, \<lparr>ev_name = '''', ev_data = ''[DONE]''\<rparr>]"
  have "\<forall>e\<in>set ?es. sendable e"
    by (simp add: sendable_def unknown_field_def has_prefix_def visible_def breaks)
  from sse_round_trip [OF this, of True 0] show ?thesis by (simp add: survived_def breaks)
qed

end
