(* ===== verification/Top_K.thy ===== *)
theory Top_K
  imports Main "HOL-Library.Multiset" "HOL-Library.Product_Lexorder"
begin

text \<open>
  Keeping the \<open>k\<close> best of a sequence in a binary heap with the worst one at its root, as
  \<open>classifyByVector\<close> (\<open>src/internal/routing/routing.go\<close>) does it in a slice: the sift functions
  \<open>up\<close> and \<open>down\<close>, the loop body, and the proof that the heap holds what sorting everything and
  taking the first \<open>k\<close> would give. \<open>better a b\<close> says that \<open>a\<close> ranks better than \<open>b\<close>.
\<close>

section \<open>The heap in a slice\<close>

abbreviation parent :: "nat \<Rightarrow> nat" where
  "parent i \<equiv> (i - 1) div 2"

definition swap_at :: "nat \<Rightarrow> nat \<Rightarrow> 'a list \<Rightarrow> 'a list" where
  "swap_at i j h = h[i := h ! j, j := h ! i]"

fun sift_up :: "('a \<Rightarrow> 'a \<Rightarrow> bool) \<Rightarrow> nat \<Rightarrow> 'a list \<Rightarrow> 'a list" where
  "sift_up better i h =
     (if i = 0 then h
      else if \<not> better (h ! parent i) (h ! i) then h
      else sift_up better (parent i) (swap_at i (parent i) h))"

declare sift_up.simps [simp del]

definition worst_child :: "('a \<Rightarrow> 'a \<Rightarrow> bool) \<Rightarrow> nat \<Rightarrow> 'a list \<Rightarrow> nat" where
  \<comment> \<open>the index \<open>m\<close> of \<open>down\<close>\<close>
  "worst_child better i h =
     (let l = 2 * i + 1; r = 2 * i + 2;
          m = (if l < length h \<and> better (h ! i) (h ! l) then l else i)
      in if r < length h \<and> better (h ! m) (h ! r) then r else m)"

lemma worst_child_cases:
  "worst_child better i h = i \<or> (worst_child better i h < length h \<and>
     (worst_child better i h = 2 * i + 1 \<or> worst_child better i h = 2 * i + 2))"
  by (simp add: worst_child_def Let_def)

lemma length_swap [simp]: "length (swap_at i j h) = length h"
  by (simp add: swap_at_def)

function sift_down :: "('a \<Rightarrow> 'a \<Rightarrow> bool) \<Rightarrow> nat \<Rightarrow> 'a list \<Rightarrow> 'a list" where
  "sift_down better i h =
     (let m = worst_child better i h in if m = i then h else sift_down better m (swap_at i m h))"
  by pat_completeness auto

termination sift_down
  by (relation "measure (\<lambda>(better, i, h). length h - i)")
    (use worst_child_cases in \<open>auto intro!: diff_less_mono2\<close>, fastforce+)

declare sift_down.simps [simp del]

definition offer :: "('a \<Rightarrow> 'a \<Rightarrow> bool) \<Rightarrow> nat \<Rightarrow> 'a \<Rightarrow> 'a list \<Rightarrow> 'a list" where
  \<comment> \<open>the loop body for a candidate\<close>
  "offer better k c h =
     (if length h < k then sift_up better (length h) (h @ [c])
      else if better c (h ! 0) then sift_down better 0 (h[0 := c])
      else h)"

section \<open>Correctness\<close>

lemma mset_swap: "i < length h \<Longrightarrow> j < length h \<Longrightarrow> mset (swap_at i j h) = mset h"
  unfolding swap_at_def by (rule mset_swap)

lemma nth_swap: "i < length h \<Longrightarrow> j < length h \<Longrightarrow> n < length h \<Longrightarrow>
   swap_at i j h ! n = (if n = j then h ! i else if n = i then h ! j else h ! n)"
  by (simp add: swap_at_def nth_list_update)

text \<open>The first \<open>k\<close> of a sorted list after one more element.\<close>

lemma take_insort:
  assumes "sorted (map f ys)" and "0 < k" and "k \<le> length ys" and "f c \<notin> f ` set ys"
  shows "take k (insort_key f c ys) =
    (if f c < f (ys ! (k - 1)) then insort_key f c (take (k - 1) ys) else take k ys)"
  using assms
proof (induction ys arbitrary: k)
  case (Cons y ys)
  obtain j where k: "k = Suc j" using Cons.prems(2) by (cases k) auto
  show ?case
  proof (cases "f c \<le> f y")
    case True
    have "f y \<le> f ((y # ys) ! j)" using Cons.prems(1,3) k by (cases j) auto
    with True Cons.prems(4) have "f c < f ((y # ys) ! j)" by auto
    moreover have "insort_key f c (take j (y # ys)) = c # take j (y # ys)" using True by (cases j) auto
    ultimately show ?thesis using True by (simp add: k)
  next
    case False
    show ?thesis
    proof (cases j)
      case 0
      then show ?thesis using False by (auto simp: k)
    next
      case (Suc i)
      with Cons.prems k have "take j (insort_key f c ys) =
          (if f c < f (ys ! (j - 1)) then insort_key f c (take (j - 1) ys) else take j ys)"
        by (intro Cons.IH) auto
      then show ?thesis using False Suc by (simp add: k)
    qed
  qed
qed simp

locale ranking =
  fixes better :: "'a \<Rightarrow> 'a \<Rightarrow> bool" and key :: "'a \<Rightarrow> 'b :: linorder"
  assumes better_key: "better x y \<longleftrightarrow> key x < key y"
begin

definition heap :: "'a list \<Rightarrow> bool" where
  "heap h \<longleftrightarrow> (\<forall>i<length h. 0 < i \<longrightarrow> key (h ! i) \<le> key (h ! parent i))"

text \<open>A heap but for one position, whose children are not above its parent.\<close>

definition rising :: "nat \<Rightarrow> 'a list \<Rightarrow> bool" where
  "rising i h \<longleftrightarrow> i < length h \<and> (\<forall>j<length h. 0 < j \<and> j \<noteq> i \<longrightarrow> key (h ! j) \<le> key (h ! parent j)) \<and>
     (0 < i \<longrightarrow> (\<forall>j<length h. 0 < j \<and> parent j = i \<longrightarrow> key (h ! j) \<le> key (h ! parent i)))"

definition sinking :: "nat \<Rightarrow> 'a list \<Rightarrow> bool" where
  "sinking i h \<longleftrightarrow> i < length h \<and> (\<forall>j<length h. 0 < j \<and> parent j \<noteq> i \<longrightarrow> key (h ! j) \<le> key (h ! parent j)) \<and>
     (0 < i \<longrightarrow> (\<forall>j<length h. 0 < j \<and> parent j = i \<longrightarrow> key (h ! j) \<le> key (h ! parent i)))"

lemma rising_swap:
  assumes r: "rising i h" and i: "0 < i" and above: "key (h ! parent i) < key (h ! i)"
  shows "rising (parent i) (swap_at i (parent i) h)"
proof -
  let ?p = "parent i" and ?h = "swap_at i (parent i) h"
  have p: "?p < i" "?p < length h" "i < length h" using r i by (auto simp: rising_def)
  have n: "?h ! m = (if m = ?p then h ! i else if m = i then h ! ?p else h ! m)" if "m < length h" for m
    using nth_swap [OF p(3,2) that] .
  have ok: "key (h ! j) \<le> key (h ! parent j)" if "j < length h" "0 < j" "j \<noteq> i" for j
    using r that by (simp add: rising_def)
  have below: "key (h ! j) \<le> key (h ! ?p)" if "j < length h" "0 < j" "parent j = i" for j
    using r i that by (simp add: rising_def)
  have pj: "parent j < length h" if "j < length h" for j using that by simp
  have "key (?h ! j) \<le> key (?h ! parent j)" if j: "j < length h" "0 < j" "j \<noteq> ?p" for j
  proof -
    consider "j = i" | "j \<noteq> i" "parent j = i" | "j \<noteq> i" "parent j = ?p" | "j \<noteq> i" "parent j \<noteq> i" "parent j \<noteq> ?p" by blast
    then show ?thesis
    proof cases
      case 1
      then show ?thesis using n p above by simp
    next
      case 2
      then show ?thesis using n [OF j(1)] n [OF pj [OF j(1)]] j below [OF j(1,2)] p by simp
    next
      case 3
      then show ?thesis using n [OF j(1)] n [OF pj [OF j(1)]] j ok [OF j(1,2)] above by simp
    next
      case 4
      then show ?thesis using n [OF j(1)] n [OF pj [OF j(1)]] j ok [OF j(1,2)] by simp
    qed
  qed
  moreover have "key (?h ! j) \<le> key (?h ! parent ?p)" if j: "j < length h" "0 < j" "parent j = ?p" and "0 < ?p" for j
  proof -
    have up: "key (h ! ?p) \<le> key (h ! parent ?p)" using ok p \<open>0 < ?p\<close> by simp
    have pp: "parent ?p < ?p" using \<open>0 < ?p\<close> by presburger
    then have "parent ?p < length h" "parent ?p \<noteq> ?p" "parent ?p \<noteq> i" using p by linarith+
    then have "?h ! parent ?p = h ! parent ?p" using n [of "parent ?p"] by simp
    moreover have "j \<noteq> ?p" using pp j(3) by auto
    then have "key (?h ! j) \<le> key (h ! ?p)" using n [OF j(1)] j ok [OF j(1,2)] p by (cases "j = i") auto
    ultimately show ?thesis using up by simp
  qed
  ultimately show ?thesis using p by (simp add: rising_def)
qed

lemma sift_up_step:
  "sift_up better i h =
     (if i = 0 \<or> key (h ! i) \<le> key (h ! parent i) then h else sift_up better (parent i) (swap_at i (parent i) h))"
  by (subst sift_up.simps) (auto simp: better_key not_less)

lemma sift_up_heap: "rising i h \<Longrightarrow> heap (sift_up better i h) \<and> mset (sift_up better i h) = mset h"
proof (induction i arbitrary: h rule: less_induct)
  case (less i)
  show ?case
  proof (cases "i = 0 \<or> key (h ! i) \<le> key (h ! parent i)")
    case True
    then have "sift_up better i h = h" by (subst sift_up_step) simp
    moreover have "heap h" unfolding heap_def
    proof (intro allI impI)
      fix j assume "j < length h" "0 < j"
      then show "key (h ! j) \<le> key (h ! parent j)" using less.prems True by (cases "j = i") (auto simp: rising_def)
    qed
    ultimately show ?thesis by simp
  next
    case False
    then have s: "sift_up better i h = sift_up better (parent i) (swap_at i (parent i) h)" by (subst sift_up_step) simp
    have i: "0 < i" "parent i < i" "i < length h" using False less.prems by (auto simp: rising_def)
    have "rising (parent i) (swap_at i (parent i) h)" using False less.prems by (intro rising_swap) auto
    from less.IH [OF i(2) this] show ?thesis unfolding s using i by (simp add: mset_swap)
  qed
qed

lemma worst_child_worst:
  assumes "i < length h"
  defines "m \<equiv> worst_child better i h"
  shows "j < length h \<Longrightarrow> 0 < j \<Longrightarrow> parent j = i \<Longrightarrow> key (h ! j) \<le> key (h ! m)" and "key (h ! i) \<le> key (h ! m)"
    and "m \<noteq> i \<Longrightarrow> i < m \<and> m < length h \<and> parent m = i"
proof -
  let ?l = "2 * i + 1" and ?r = "2 * i + 2"
  let ?n = "if ?l < length h \<and> better (h ! i) (h ! ?l) then ?l else i"
  have m: "m = (if ?r < length h \<and> better (h ! ?n) (h ! ?r) then ?r else ?n)"
    by (simp only: m_def worst_child_def Let_def)
  have n: "key (h ! i) \<le> key (h ! ?n)" "?l < length h \<Longrightarrow> key (h ! ?l) \<le> key (h ! ?n)" by (auto simp: better_key)
  have nm: "key (h ! ?n) \<le> key (h ! m)" "?r < length h \<Longrightarrow> key (h ! ?r) \<le> key (h ! m)"
    unfolding m by (auto simp: better_key split: if_splits)
  show "key (h ! i) \<le> key (h ! m)" using n(1) nm(1) by (rule order_trans)
  show "key (h ! j) \<le> key (h ! m)" if "j < length h" "0 < j" "parent j = i" for j
  proof -
    from that have "j = ?l \<or> j = ?r" by presburger
    then show ?thesis using n(2) nm that by (metis order_trans)
  qed
  show "i < m \<and> m < length h \<and> parent m = i" if "m \<noteq> i"
    using worst_child_cases [of better i h] that unfolding m_def by auto
qed

lemma sinking_swap:
  assumes s: "sinking i h" and m: "m = worst_child better i h" "m \<noteq> i"
  shows "sinking m (swap_at i m h)"
proof -
  let ?h = "swap_at i m h"
  have i: "i < length h" using s by (simp add: sinking_def)
  have w: "i < m" "m < length h" "parent m = i" using worst_child_worst(3) [OF i] m by auto
  have big: "key (h ! j) \<le> key (h ! m)" if "j < length h" "0 < j" "parent j = i" for j
    using worst_child_worst(1) [OF i that] m by simp
  have bi: "key (h ! i) \<le> key (h ! m)" using worst_child_worst(2) [OF i] m by simp
  have n: "?h ! x = (if x = m then h ! i else if x = i then h ! m else h ! x)" if "x < length h" for x
    using nth_swap [OF i w(2) that] .
  have ok: "key (h ! j) \<le> key (h ! parent j)" if "j < length h" "0 < j" "parent j \<noteq> i" for j
    using s that by (simp add: sinking_def)
  have above: "key (h ! j) \<le> key (h ! parent i)" if "j < length h" "0 < j" "parent j = i" "0 < i" for j
    using s that by (simp add: sinking_def)
  have "key (?h ! j) \<le> key (?h ! parent j)" if j: "j < length h" "0 < j" "parent j \<noteq> m" for j
  proof -
    have pj: "parent j < length h" using j by simp
    consider "j = m" | "j \<noteq> m" "parent j = i" | "j = i" | "j \<noteq> m" "j \<noteq> i" "parent j \<noteq> i" by blast
    then show ?thesis
    proof cases
      case 1
      then show ?thesis using n [OF w(2)] n [OF i] w bi by simp
    next
      case 2
      then have "j \<noteq> i" using j(2) by (metis diff_less div_less_dividend less_irrefl_nat one_less_numeral_iff order_le_less_trans
            semiring_norm(76) zero_less_one div_le_dividend less_le_trans)
      with 2 show ?thesis using n [OF j(1)] n [OF i] big [OF j(1,2)] w by simp
    next
      case 3
      then have "parent j \<noteq> i" using j(2) by presburger
      then have "?h ! parent j = h ! parent i" using n [OF pj] j(3) 3 by simp
      moreover have "key (h ! m) \<le> key (h ! parent i)" using above w j(2) 3 by simp
      ultimately show ?thesis using n [OF j(1)] 3 w(1) by simp
    next
      case 4
      then show ?thesis using n [OF j(1)] n [OF pj] j ok [OF j(1,2)] by simp
    qed
  qed
  moreover have "key (?h ! j) \<le> key (?h ! parent m)" if j: "j < length h" "0 < j" "parent j = m" for j
  proof -
    have "j \<noteq> m" "j \<noteq> i" using j w(1) by presburger+
    moreover have "parent j \<noteq> i" using j(3) m(2) by simp
    ultimately show ?thesis using n [OF j(1)] n [OF i] ok [OF j(1,2)] w j(3) by simp
  qed
  ultimately show ?thesis using w by (simp add: sinking_def)
qed

lemma sift_down_heap: "sinking i h \<Longrightarrow> heap (sift_down better i h) \<and> mset (sift_down better i h) = mset h"
proof (induction "length h - i" arbitrary: i h rule: less_induct)
  case less
  let ?m = "worst_child better i h"
  have i: "i < length h" using less.prems by (simp add: sinking_def)
  show ?case
  proof (cases "?m = i")
    case True
    then have "sift_down better i h = h" by (subst sift_down.simps) simp
    moreover have "heap h" unfolding heap_def
    proof (intro allI impI)
      fix j assume j: "j < length h" "0 < j"
      then show "key (h ! j) \<le> key (h ! parent j)"
        using less.prems worst_child_worst(1) [OF i, of j] True by (cases "parent j = i") (auto simp: sinking_def)
    qed
    ultimately show ?thesis by simp
  next
    case False
    then have s: "sift_down better i h = sift_down better ?m (swap_at i ?m h)" by (subst sift_down.simps) (simp add: Let_def)
    have m: "i < ?m" "?m < length h" using worst_child_worst(3) [OF i False] by auto
    have "sinking ?m (swap_at i ?m h)" by (rule sinking_swap [OF less.prems refl False])
    then show ?thesis unfolding s using less.hyps [of "swap_at i ?m h" ?m] m i by (simp add: mset_swap)
  qed
qed

text \<open>The root of the heap is the worst.\<close>

lemma heap_root: "heap h \<Longrightarrow> i < length h \<Longrightarrow> key (h ! i) \<le> key (h ! 0)"
proof (induction i rule: less_induct)
  case (less i)
  show ?case
  proof (cases "i = 0")
    case False
    then have "parent i < i" by presburger
    moreover have "key (h ! i) \<le> key (h ! parent i)" using less.prems False by (simp add: heap_def)
    ultimately show ?thesis using less.IH [of "parent i"] less.prems by (meson less_trans order_trans)
  qed simp
qed

lemma offer_keeps:
  assumes k: "0 < k" and h: "heap h" and m: "mset h = mset (take k ys)" and ys: "sorted (map key ys)" "inj_on key (set ys)"
    and c: "key c \<notin> key ` set ys"
  shows "heap (offer better k c h) \<and> mset (offer better k c h) = mset (take k (insort_key key c ys))"
proof (cases "length h < k")
  case True
  have "length h = min (length ys) k" using m by (metis size_mset length_take)
  with True have t: "take k ys = ys" "take k (insort_key key c ys) = insort_key key c ys" by auto
  have "parent j \<noteq> length h" if "j < length (h @ [c])" "0 < j" for j
  proof -
    from that(2) have "parent j < j" by presburger
    with that(1) show ?thesis by simp
  qed
  moreover have "key ((h @ [c]) ! j) \<le> key ((h @ [c]) ! parent j)" if "j < length (h @ [c])" "0 < j" "j \<noteq> length h" for j
    using h that by (auto simp: heap_def nth_append)
  ultimately have "rising (length h) (h @ [c])"
    unfolding rising_def by (intro conjI allI impI) (simp, metis, metis)
  from sift_up_heap [OF this] show ?thesis using True m by (simp add: offer_def t)
next
  case False
  have len: "length h = min (length ys) k" using m by (metis size_mset length_take)
  with False have hk: "length h = k" "k \<le> length ys" by auto
  let ?z = "ys ! (k - 1)"
  have split: "take k ys = take (k - 1) ys @ [?z]" using k hk(2) by (metis Suc_diff_1 Suc_le_lessD take_Suc_conv_app_nth less_le_trans diff_less zero_less_one)
  have same: "set h = set (take k ys)" using m by (metis set_mset_mset)
  have "h ! 0 \<in> set (take k ys)" using same hk k by (metis nth_mem)
  then obtain i where "i < k" "h ! 0 = ys ! i" using hk(2) by (auto simp: in_set_conv_nth)
  then have "key (h ! 0) \<le> key ?z" using ys(1) k hk(2) by (auto simp: sorted_iff_nth_mono)
  moreover have "?z \<in> set h" unfolding same split by simp
  then have "key ?z \<le> key (h ! 0)" using heap_root [OF h] by (metis in_set_conv_nth)
  ultimately have "key (h ! 0) = key ?z" by simp
  moreover have "h ! 0 \<in> set ys" "?z \<in> set ys" using \<open>h ! 0 \<in> set (take k ys)\<close> hk k by (auto dest: in_set_takeD)
  ultimately have root: "h ! 0 = ?z" using ys(2) by (meson inj_onD)
  show ?thesis
  proof (cases "key c < key ?z")
    case True
    have "sinking 0 (h[0 := c])" using h hk k by (auto simp: sinking_def heap_def nth_list_update)
    note sd = sift_down_heap [OF this]
    have "mset (h[0 := c]) = add_mset c (mset (take (k - 1) ys))"
      using hk k root m split by (simp add: mset_update)
    then show ?thesis using sd False True root take_insort [OF ys(1) k hk(2) c]
      by (simp add: offer_def better_key)
  next
    case nb: False
    then show ?thesis using False h m root take_insort [OF ys(1) k hk(2) c] by (simp add: offer_def better_key)
  qed
qed

lemma offers_heap:
  assumes k: "0 < k" and "distinct (map key xs)"
  shows "heap (fold (offer better k) xs []) \<and> mset (fold (offer better k) xs []) = mset (take k (sort_key key (rev xs)))"
  using assms(2)
proof (induction xs rule: rev_induct)
  case Nil
  then show ?case by (simp add: heap_def)
next
  case (snoc c xs)
  let ?ys = "sort_key key (rev xs)"
  have "sorted (map key ?ys)" "inj_on key (set ?ys)" "key c \<notin> key ` set ?ys"
    using snoc.prems by (auto simp: distinct_map)
  from offer_keeps [OF k _ _ this] snoc show ?case by simp
qed

lemma top_k:
  assumes "0 < k" and d: "distinct (map key xs)"
  shows "sort_key key (fold (offer better k) xs []) = take k (sort_key key xs)"
proof -
  have inj: "inj_on key (set xs)" using d by (simp add: distinct_map)
  have r: "sort_key key (rev xs) = sort_key key xs"
    by (rule sort_key_inj_key_eq) (simp_all add: inj)
  have m: "mset (fold (offer better k) xs []) = mset (take k (sort_key key xs))" using offers_heap [OF assms] r by simp
  have "set (fold (offer better k) xs []) \<subseteq> set xs" using m by (metis set_mset_mset set_sort set_take_subset)
  then have "inj_on key (set (fold (offer better k) xs []))" using inj by (rule inj_on_subset [rotated])
  moreover have "sorted (map key (take k (sort_key key xs)))" by (simp add: take_map [symmetric] sorted_wrt_take)
  ultimately show ?thesis using m by (intro sort_key_inj_key_eq)
qed

end

end
