(* ===== verification/Routing.thy ===== *)
theory Routing
  imports Lines Top_K Complex_Main
begin

text \<open>
  The smart router (\<open>src/internal/routing/routing.go\<close>): it labels a request simple or complex from its
  length, from the labelled samples its embedding is closest to, and from keyword rules, and picks the
  model group of the label. Strings are bytes, so the runes Go counts are decoded here; scores and
  thresholds are rationals. The Unicode lower-casing, the embedding service and the sample rows are
  arguments. Building the sample vectors follows the same steps as the build of the compliance
  samples (theory \<open>Compliance\<close>) and is not modelled again.
\<close>

section \<open>Runes\<close>

fun continuation :: "char \<Rightarrow> bool" where
  "continuation c \<longleftrightarrow> 128 \<le> (of_char c :: nat) \<and> (of_char c :: nat) \<le> 191"

definition second_ok :: "char \<Rightarrow> char \<Rightarrow> bool" where
  \<comment> \<open>the second byte of a sequence that starts with \<open>b\<close>\<close>
  "second_ok b c \<longleftrightarrow>
     (let n = (of_char b :: nat); m = (of_char c :: nat)
      in (if n = 224 then 160 else if n = 240 then 144 else 128) \<le> m \<and>
         m \<le> (if n = 237 then 159 else if n = 244 then 143 else 191))"

definition width :: "char \<Rightarrow> nat" where
  \<comment> \<open>the bytes a sequence that starts with this byte has; 0 for a byte that starts none\<close>
  "width b =
     (let n = (of_char b :: nat)
      in if n < 128 then 1 else if 194 \<le> n \<and> n \<le> 223 then 2
         else if 224 \<le> n \<and> n \<le> 239 then 3 else if 240 \<le> n \<and> n \<le> 244 then 4 else 0)"

fun rune_len :: "string \<Rightarrow> nat" where
  \<comment> \<open>the bytes of the first rune of a string; 0 when it does not start with valid UTF-8\<close>
  "rune_len [] = 0"
| "rune_len (b # t) =
     (if length t + 1 < width b then 0
      else if 1 < width b \<and> \<not> second_ok b (hd t) then 0
      else if list_all continuation (take (width b - 2) (tl t)) then width b
      else 0)"

definition replacement :: string where
  \<comment> \<open>U+FFFD, what \<open>[]rune\<close> makes of an invalid byte\<close>
  "replacement = bytes [239, 191, 189]"

function runes :: "string \<Rightarrow> string list" where
  \<comment> \<open>\<open>[]rune(s)\<close>, every rune as its UTF-8 encoding\<close>
  "runes s =
     (if s = [] then []
      else if rune_len s = 0 then replacement # runes (tl s)
      else take (rune_len s) s # runes (drop (rune_len s) s))"
  by pat_completeness auto

termination runes
  by (relation "measure length") auto

declare runes.simps [simp del]

definition truncateRunes :: "string \<Rightarrow> nat \<Rightarrow> string" where
  "truncateRunes s n = (if length (runes s) \<le> n then s else concat (take n (runes s)))"

definition a_rune :: "string \<Rightarrow> bool" where
  "a_rune r \<longleftrightarrow> r \<noteq> [] \<and> (\<forall>t. rune_len (r @ t) = length r)"

lemma rune_len_le: "rune_len s \<le> length s"
  by (cases s) auto

lemma rune_len_prefix: "0 < rune_len s \<Longrightarrow> rune_len (take (rune_len s) s @ t) = rune_len s"
proof (cases s)
  case (Cons b u)
  assume pos: "0 < rune_len s"
  let ?w = "width b"
  have ok: "?w \<le> length u + 1" "1 < ?w \<Longrightarrow> second_ok b (hd u)" "list_all continuation (take (?w - 2) (tl u))"
    and w: "rune_len s = ?w" "0 < ?w"
    using pos unfolding Cons by (auto split: if_splits)
  have s: "take ?w s @ t = b # take (?w - 1) u @ t" using w(2) by (simp add: Cons take_Cons')
  have "hd (take (?w - 1) u @ t) = hd u" if "1 < ?w" using that ok(1) by (cases u) auto
  moreover have "take (?w - 2) (tl (take (?w - 1) u @ t)) = take (?w - 2) (tl u)"
    using ok(1) by (cases u) (auto simp: take_Cons' numeral_2_eq_2)
  ultimately show ?thesis unfolding w(1) s using ok by (auto simp: take_Cons')
qed simp

lemma replacement_rune: "a_rune replacement"
  by (simp add: a_rune_def replacement_def bytes_def width_def second_ok_def of_char_of take_bit_eq_mod)

lemma runes_are: "r \<in> set (runes s) \<Longrightarrow> a_rune r"
proof (induction s rule: runes.induct)
  case (1 s)
  have "a_rune (take (rune_len s) s)" if "rune_len s \<noteq> 0"
    using that rune_len_prefix [of s] rune_len_le [of s] by (auto simp: a_rune_def)
  with 1 show ?case by (subst (asm) (3) runes.simps) (auto simp: replacement_rune split: if_splits)
qed

lemma runes_concat: "\<forall>r\<in>set rs. a_rune r \<Longrightarrow> runes (concat rs) = rs"
proof (induction rs)
  case Nil
  then show ?case by (simp add: runes.simps [of "[]"])
next
  case (Cons r rs)
  then have r: "r \<noteq> []" "rune_len (r @ concat rs) = length r" by (auto simp: a_rune_def)
  show ?case using Cons r by (subst runes.simps) simp
qed

lemma truncate_bound: "length (runes (truncateRunes s n)) \<le> n"
proof -
  have "runes (concat (take n (runes s))) = take n (runes s)"
    by (rule runes_concat) (auto dest: in_set_takeD runes_are)
  then show ?thesis by (simp add: truncateRunes_def)
qed

section \<open>Normalisation\<close>

fun replace_crlf :: "string \<Rightarrow> string" where
  "replace_crlf [] = []"
| "replace_crlf [c] = [c]"
| "replace_crlf (c # d # cs) =
     (if c = carriage \<and> d = newline then newline # replace_crlf cs else c # replace_crlf (d # cs))"

fun split_lines :: "string \<Rightarrow> string list" where
  \<comment> \<open>\<open>strings.Split(s, "\n")\<close>\<close>
  "split_lines [] = [[]]"
| "split_lines (c # cs) =
     (if c = newline then [] # split_lines cs
      else case split_lines cs of [] \<Rightarrow> [[c]] | l # ls \<Rightarrow> (c # l) # ls)"

definition re_space :: "char \<Rightarrow> bool" where
  \<comment> \<open>\<open>\s\<close> of a regular expression\<close>
  "re_space c \<longleftrightarrow> c \<in> {CHR 0x09, CHR 0x0A, CHR 0x0C, CHR 0x0D, CHR 0x20}"

fun collapse :: "bool \<Rightarrow> string \<Rightarrow> string" where
  \<comment> \<open>every run of \<open>\s\<close> becomes one blank; the flag says that the run has begun\<close>
  "collapse run [] = []"
| "collapse run (c # cs) =
     (if re_space c then (if run then collapse True cs else CHR 0x20 # collapse True cs)
      else c # collapse False cs)"

definition normal_line :: "string \<Rightarrow> string" where
  "normal_line l = trim_right_space (collapse False (dropWhile (\<lambda>c. c = CHR 0x09 \<or> c = carriage) l))"

definition keep_line :: "string \<Rightarrow> string list \<Rightarrow> string list" where
  "keep_line l out = (if l = [] \<and> out \<noteq> [] \<and> last out = [] then out else out @ [l])"

fun unlines :: "string list \<Rightarrow> string" where
  "unlines [] = []"
| "unlines [l] = l"
| "unlines (l # ls) = l @ newline # unlines ls"

definition Normalize :: "string \<Rightarrow> string" where
  "Normalize t =
     (let t1 = trim_space t
      in if t1 = [] then []
         else let out = fold keep_line (map normal_line (split_lines (replace_crlf t1))) []
              in truncateRunes (trim_space (unlines out)) 2000)"

section \<open>Keyword rules\<close>

definition complexTriggers :: "string list" where
  "complexTriggers =
     [bytes [232, 175, 129, 230, 152, 142], bytes [230, 142, 168, 229, 175, 188], bytes [229, 136, 134, 230, 158, 144],
      bytes [232, 174, 190, 232, 174, 161, 228, 184, 128, 228, 184, 170], bytes [230, 158, 182, 230, 158, 132],
      ''step by step'', ''prove'', ''derive'', ''compare'', ''refactor'', ''optimize'', ''debug'']"

definition simpleTriggers :: "string list" where
  "simpleTriggers =
     [bytes [228, 189, 160, 229, 165, 189], ''hi'', ''hello'', bytes [231, 191, 187, 232, 175, 145],
      bytes [230, 152, 175, 228, 187, 128, 228, 185, 136], ''what is'', ''define'']"

definition code_words :: "string list" where
  "code_words =
     [''func '', ''def '', ''class '', ''import '', ''#include'', ''package '', ''return '', ''const '', ''let '', ''var '',
      ''public '', ''private '', ''static '', ''select '', ''from '', ''}'']"

definition calls :: "string \<Rightarrow> string \<Rightarrow> bool" where
  \<comment> \<open>\<open>word\s*\(\<close> at the start\<close>
  "calls word s \<longleftrightarrow> has_prefix s word \<and> has_prefix (dropWhile re_space (drop (length word) s)) ''(''"

definition code_line :: "string \<Rightarrow> bool" where
  \<comment> \<open>\<open>codeLineRe\<close>: its alternatives after \<open>^\s*\<close>; those that end in an opening brace are covered by
     the last character\<close>
  "code_line line =
     (let s = dropWhile re_space line; e = rev (dropWhile re_space (rev line))
      in (\<exists>w\<in>set code_words. has_prefix s w) \<or> calls ''if'' s \<or> calls ''for'' s \<or> calls ''while'' s \<or>
         (e \<noteq> [] \<and> last e \<in> set '';{}'') \<or> has_suffix e ''=>'' \<or>
         contains_str line ''=='' \<or> contains_str line ''!='' \<or> contains_str line ''&&'' \<or> contains_str line ''||'')"

fun count_code :: "string list \<Rightarrow> nat \<Rightarrow> bool" where
  "count_code [] n = False"
| "count_code (l # ls) n =
     (if trim_space l = [] then count_code ls n
      else if code_line l then (if n + 1 \<ge> 3 then True else count_code ls (n + 1))
      else count_code ls n)"

definition looksLikeCode :: "string \<Rightarrow> bool" where
  "looksLikeCode s = count_code (split_lines s) 0"

record smart_route =
  sr_topk :: int
  sr_threshold :: rat
  sr_gap :: rat
  sr_rule_max :: int
  sr_context :: int
  sr_simple_group :: nat
  sr_complex_group :: nat

definition classifyByRule :: "(string \<Rightarrow> string) \<Rightarrow> string \<Rightarrow> nat \<Rightarrow> smart_route \<Rightarrow> string option" where
  "classifyByRule lower nt rs sr =
     (let low = lower nt
      in if contains_str nt ''```'' \<or> looksLikeCode nt then Some ''complex''
         else if \<exists>w\<in>set complexTriggers. contains_str low w then Some ''complex''
         else if rs < 20 \<and> (\<exists>w\<in>set simpleTriggers. contains_str low w) then Some ''simple''
         else if sr_rule_max sr > 0 \<and> int rs < sr_rule_max sr then Some ''simple''
         else None)"

definition groupFor :: "string \<Rightarrow> smart_route \<Rightarrow> nat" where
  "groupFor label sr = (if label = ''complex'' then sr_complex_group sr else sr_simple_group sr)"

section \<open>Vector similarity\<close>

text \<open>Scores, thresholds and vector components are rationals.\<close>

record route_sample =
  rs_id :: nat
  rs_label :: string
  rs_text :: string
  rs_threshold :: rat
  rs_vec :: "rat list"

record topk_entry =
  te_id :: nat
  te_label :: string
  te_text :: string
  te_score :: rat

type_synonym scored = "route_sample \<times> rat"

definition Dot :: "rat list \<Rightarrow> rat list \<Rightarrow> rat" where
  "Dot a b = sum_list (map2 (*) a b)"

definition round4 :: "rat \<Rightarrow> rat" where
  \<comment> \<open>the conversion to \<open>int64\<close> cuts towards zero\<close>
  "round4 f = (let x = f * 10000 + 1/2 in of_int (if 0 \<le> x then \<lfloor>x\<rfloor> else \<lceil>x\<rceil>) / 10000)"

definition better :: "scored \<Rightarrow> scored \<Rightarrow> bool" where
  "better a b = (if snd a \<noteq> snd b then snd a > snd b else rs_id (fst a) < rs_id (fst b))"

definition rank_key :: "scored \<Rightarrow> rat \<times> nat" where
  "rank_key a = (- snd a, rs_id (fst a))"

interpretation route_rank: ranking better rank_key
  by unfold_locales (auto simp: better_def rank_key_def less_prod_def)

definition entry_of :: "scored \<Rightarrow> topk_entry" where
  "entry_of c = \<lparr>te_id = rs_id (fst c), te_label = rs_label (fst c), te_text = truncateRunes (rs_text (fst c)) 200,
     te_score = round4 (snd c)\<rparr>"

definition candidates :: "rat list \<Rightarrow> route_sample list \<Rightarrow> scored list" where
  \<comment> \<open>a sample with another dimension is skipped until rebuilt\<close>
  "candidates q idx = map (\<lambda>s. (s, Dot q (rs_vec s))) (filter (\<lambda>s. length (rs_vec s) = length q) idx)"

definition top_count :: "smart_route \<Rightarrow> nat" where
  "top_count sr = (if sr_topk sr \<le> 0 then 5 else nat (sr_topk sr))"

definition limit_of :: "route_sample \<Rightarrow> smart_route \<Rightarrow> rat" where
  "limit_of best sr =
     (let threshold = (if rs_threshold best > 0 then rs_threshold best else sr_threshold sr)
      in if threshold \<le> 0 then 72/100 else threshold)"

definition put_max :: "scored \<Rightarrow> (string \<rightharpoonup> rat) \<Rightarrow> string \<rightharpoonup> rat" where
  "put_max c m =
     (case m (rs_label (fst c)) of
        Some v \<Rightarrow> if snd c > v then m(rs_label (fst c) \<mapsto> snd c) else m
      | None \<Rightarrow> m(rs_label (fst c) \<mapsto> snd c))"

definition runner_up :: "string \<Rightarrow> (string \<rightharpoonup> rat) \<Rightarrow> string list \<Rightarrow> rat" where
  \<comment> \<open>\<open>second\<close>: the loop over the map, its labels in some order\<close>
  "runner_up best m labels =
     fold (\<lambda>l second. case m l of Some v \<Rightarrow> if l \<noteq> best \<and> v > second then v else second | None \<Rightarrow> second) labels (- 1)"

definition classifyByVector ::
  "rat list \<Rightarrow> route_sample list \<Rightarrow> smart_route \<Rightarrow> topk_entry list \<times> (string \<times> rat) option" where
  \<comment> \<open>the entries for diagnostics, and the label with its confidence when the best score is high enough\<close>
  "classifyByVector q idx sr =
     (let every = sort_key rank_key (fold (offer better (top_count sr)) (candidates q idx) []);
          entries = map entry_of every
      in case every of
           [] \<Rightarrow> (entries, None)
         | best # _ \<Rightarrow>
             if snd best < limit_of (fst best) sr then (entries, None)
             else let label_max = fold put_max every Map.empty;
                      label = rs_label (fst best);
                      second = runner_up label label_max (remdups (map (rs_label \<circ> fst) every))
                  in (entries, Some (if second \<ge> 0 \<and> snd best - second < sr_gap sr then ''simple'' else label, snd best)))"

lemma put_max_other: "l \<noteq> rs_label (fst c) \<Longrightarrow> put_max c m l = m l"
  by (auto simp: put_max_def split: option.splits)

lemma label_max_from: "fold put_max cs m l = Some v \<Longrightarrow> m l = Some v \<or> (\<exists>c\<in>set cs. rs_label (fst c) = l \<and> snd c = v)"
proof (induction cs arbitrary: m)
  case (Cons c cs)
  then have "put_max c m l = Some v \<or> (\<exists>c\<in>set cs. rs_label (fst c) = l \<and> snd c = v)" by simp
  then show ?case by (auto simp: put_max_def split: option.splits if_splits)
qed simp

lemma put_max_grows: "m l = Some v \<Longrightarrow> \<exists>w. v \<le> w \<and> put_max c m l = Some w"
  by (auto simp: put_max_def split: option.splits)

lemma label_max_grows: "m l = Some v \<Longrightarrow> \<exists>w\<ge>v. fold put_max cs m l = Some w"
proof (induction cs arbitrary: m v)
  case (Cons c cs)
  from put_max_grows [where m = m and l = l and c = c, OF Cons.prems] obtain w where w: "v \<le> w" "put_max c m l = Some w" by blast
  from Cons.IH [where m = "put_max c m", OF w(2)] w(1) show ?case by (auto intro: order_trans)
qed simp

lemma label_max_above: "c \<in> set cs \<Longrightarrow> \<exists>w\<ge>snd c. fold put_max cs m (rs_label (fst c)) = Some w"
proof (induction cs arbitrary: m)
  case (Cons d cs)
  show ?case
  proof (cases "c = d")
    case True
    have "\<exists>w\<ge>snd d. put_max d m (rs_label (fst d)) = Some w" by (auto simp: put_max_def split: option.splits)
    then obtain w where w: "snd d \<le> w" "put_max d m (rs_label (fst d)) = Some w" by blast
    from label_max_grows [where m = "put_max d m" and l = "rs_label (fst d)" and cs = cs, OF w(2)] w(1) True show ?thesis by (auto intro: order_trans)
  next
    case False
    with Cons show ?thesis by simp
  qed
qed simp

lemma runner_up_is:
  defines "go m best \<equiv> fold (\<lambda>l second. case m l of Some v \<Rightarrow> if l \<noteq> best \<and> v > second then v else second | None \<Rightarrow> second)"
  shows "s \<le> go m best ls s"
    and "go m best ls s = s \<or> (\<exists>l\<in>set ls. l \<noteq> best \<and> m l = Some (go m best ls s))"
    and "l \<in> set ls \<Longrightarrow> l \<noteq> best \<Longrightarrow> m l = Some v \<Longrightarrow> v \<le> go m best ls (s :: rat)"
proof -
  have ge: "s \<le> go m best ls s" for ls s
    unfolding go_def by (induction ls arbitrary: s) (auto split: option.splits intro: order_trans [OF less_imp_le])
  show "s \<le> go m best ls s" by (rule ge)
  show "go m best ls s = s \<or> (\<exists>l\<in>set ls. l \<noteq> best \<and> m l = Some (go m best ls s))"
  proof (induction ls arbitrary: s)
    case (Cons k ls)
    have "go m best (k # ls) s = go m best ls s \<or>
        (k \<noteq> best \<and> (\<exists>v. m k = Some v \<and> go m best (k # ls) s = go m best ls v))"
      by (auto simp: go_def split: option.splits)
    with Cons.IH show ?case by (metis list.set_intros)
  qed (simp add: go_def)
  show "l \<in> set ls \<Longrightarrow> l \<noteq> best \<Longrightarrow> m l = Some v \<Longrightarrow> v \<le> go m best ls s"
  proof (induction ls arbitrary: s)
    case (Cons k ls)
    show ?case
    proof (cases "k = l")
      case True
      then have "go m best (k # ls) s = go m best ls (max s v)" using Cons.prems by (simp add: go_def max_def not_less)
      then show ?thesis using ge [of "max s v" ls] by simp
    next
      case False
      with Cons show ?thesis by (simp add: go_def)
    qed
  qed simp
qed

definition rival :: "rat \<Rightarrow> scored \<Rightarrow> scored list \<Rightarrow> bool" where
  \<comment> \<open>a sample with another label whose score is not negative and within \<open>gap\<close> of the best\<close>
  "rival gap best cs \<longleftrightarrow> (\<exists>c\<in>set cs. rs_label (fst c) \<noteq> rs_label (fst best) \<and> snd c \<ge> 0 \<and> snd best - snd c < gap)"

abbreviation second_score :: "scored list \<Rightarrow> scored \<Rightarrow> rat" where
  "second_score cs best \<equiv>
     runner_up (rs_label (fst best)) (fold put_max cs Map.empty) (remdups (map (rs_label \<circ> fst) cs))"

lemma runner_up_rival:
  "second_score cs best \<ge> 0 \<and> snd best - second_score cs best < gap \<longleftrightarrow> rival gap best cs"
proof
  let ?m = "fold put_max cs Map.empty" and ?s = "second_score cs best"
  note up = runner_up_is [where m = ?m and best = "rs_label (fst best)" and s = "- 1", folded runner_up_def]
  assume r: "?s \<ge> 0 \<and> snd best - ?s < gap"
  then have "?s \<noteq> - 1" by auto
  then obtain l where "l \<noteq> rs_label (fst best)" "?m l = Some ?s" using up(2) [of "remdups (map (rs_label \<circ> fst) cs)"] by blast
  moreover from label_max_from [OF this(2)] obtain c where "c \<in> set cs" "rs_label (fst c) = l" "snd c = ?s" by auto
  ultimately show "rival gap best cs" using r unfolding rival_def by auto
next
  let ?m = "fold put_max cs Map.empty" and ?s = "second_score cs best"
  note up = runner_up_is [where m = ?m and best = "rs_label (fst best)" and s = "- 1", folded runner_up_def]
  assume "rival gap best cs"
  then obtain c where c: "c \<in> set cs" "rs_label (fst c) \<noteq> rs_label (fst best)" "snd c \<ge> 0" "snd best - snd c < gap"
    by (auto simp: rival_def)
  from label_max_above [OF c(1)] obtain w where w: "snd c \<le> w" "?m (rs_label (fst c)) = Some w" by blast
  have "w \<le> ?s" by (rule up(3) [OF _ c(2) w(2)]) (use c(1) in auto)
  with w(1) c(3,4) show "?s \<ge> 0 \<and> snd best - ?s < gap" by auto
qed

definition vector_verdict ::
  "rat list \<Rightarrow> route_sample list \<Rightarrow> smart_route \<Rightarrow> topk_entry list \<times> (string \<times> rat) option" where
  \<comment> \<open>the reference: sort everything, look at the first few\<close>
  "vector_verdict q idx sr =
     (let ranked = take (top_count sr) (sort_key rank_key (candidates q idx))
      in (map entry_of ranked,
          case ranked of
            [] \<Rightarrow> None
          | best # _ \<Rightarrow>
              if snd best < limit_of (fst best) sr then None
              else Some (if rival (sr_gap sr) best ranked then ''simple'' else rs_label (fst best), snd best)))"

lemma candidates_distinct: "distinct (map rs_id idx) \<Longrightarrow> distinct (map rank_key (candidates q idx))"
  by (induction idx) (auto simp: candidates_def rank_key_def)

text \<open>Property C25: when the samples have distinct ids, the vector step gives what sorting every sample by
  descending score and ascending id and looking at the first \<open>k\<close> would: these are the listed entries; the
  label is that of the best sample, if its score reaches the threshold, and falls back to simple exactly
  when some listed sample with another label has a non-negative score within the confidence gap. So the
  bounded heap does not show. (The model visits the best scores kept per label in one fixed order.)\<close>

theorem route_by_vector:
  assumes "distinct (map rs_id idx)"
  shows "classifyByVector q idx sr = vector_verdict q idx sr"
proof -
  let ?every = "sort_key rank_key (fold (offer better (top_count sr)) (candidates q idx) [])"
  have "?every = take (top_count sr) (sort_key rank_key (candidates q idx))"
    by (rule route_rank.top_k) (auto simp: top_count_def candidates_distinct assms)
  then show ?thesis
    unfolding classifyByVector_def vector_verdict_def Let_def
    by (auto simp only: runner_up_rival split: list.splits if_splits)
qed

lemma route_by_vector_witness:
  "classifyByVector [1]
     [\<lparr>rs_id = 1, rs_label = ''simple'', rs_text = ''hi'', rs_threshold = 0, rs_vec = [1/2]\<rparr>,
      \<lparr>rs_id = 2, rs_label = ''complex'', rs_text = ''prove'', rs_threshold = 0, rs_vec = [9/10]\<rparr>]
     \<lparr>sr_topk = 1, sr_threshold = 0, sr_gap = 1/2, sr_rule_max = 0, sr_context = 0, sr_simple_group = 1, sr_complex_group = 2\<rparr>
   = ([\<lparr>te_id = 2, te_label = ''complex'', te_text = ''prove'', te_score = 9/10\<rparr>], Some (''complex'', 9/10))"
proof -
  have r: "runes ''prove'' = [''p'', ''r'', ''o'', ''v'', ''e'']"
    by (simp add: runes.simps width_def)
  have f: "\<lfloor>(18001 / 2 :: rat)\<rfloor> = 9000" by (rule floor_unique) simp_all
  show ?thesis
    by (subst route_by_vector)
      (simp_all add: vector_verdict_def candidates_def Dot_def top_count_def rank_key_def limit_of_def rival_def
        entry_of_def truncateRunes_def r round4_def f less_prod_def less_eq_prod_def)
qed

section \<open>The sample index\<close>

record route_row =
  rw_id :: nat
  rw_label :: string
  rw_text :: string
  rw_threshold :: rat
  rw_vector :: "rat list"
  rw_model :: string

definition VectorModelID :: "nat \<Rightarrow> string \<Rightarrow> string" where
  "VectorModelID account m = (if account = 0 then [] else dec_nat account @ '':'' @ m)"

definition vectorID :: "string option \<Rightarrow> nat \<Rightarrow> string \<Rightarrow> string" where
  \<comment> \<open>what the identity function answers, when one is set, unless it answers the empty string\<close>
  "vectorID identity account m =
     (case identity of Some i \<Rightarrow> if i \<noteq> [] then i else VectorModelID account m | None \<Rightarrow> VectorModelID account m)"

definition Reload :: "string \<Rightarrow> string + route_row list \<Rightarrow> route_sample list \<Rightarrow> route_sample list \<times> string option" where
  \<comment> \<open>the new index, the old one when the query failed\<close>
  "Reload cur rows idx =
     (case rows of
        Inl e \<Rightarrow> (idx, Some e)
      | Inr rs \<Rightarrow>
          (map (\<lambda>r. \<lparr>rs_id = rw_id r, rs_label = rw_label r, rs_text = rw_text r, rs_threshold = rw_threshold r,
                      rs_vec = rw_vector r\<rparr>)
             (filter (\<lambda>r. rw_vector r \<noteq> [] \<and> \<not> (rw_model r \<noteq> [] \<and> cur \<noteq> [] \<and> rw_model r \<noteq> cur)) rs), None))"

section \<open>The decision\<close>

record route_result =
  rr_label :: string
  rr_source :: string
  rr_confidence :: rat
  rr_group :: nat
  rr_topk :: "topk_entry list option"
  rr_normalized :: string

type_synonym embedder = "string \<Rightarrow> string + rat list list"

definition no_vector :: string where
  "no_vector = ''embedding returned no vector''"

datatype vector_step =
    Skipped "string option"  \<comment> \<open>no index or no vector, with the embedding error\<close>
  | Judged "topk_entry list" "(string \<times> rat) option"

definition vector_part :: "embedder option \<Rightarrow> route_sample list \<Rightarrow> smart_route \<Rightarrow> string \<Rightarrow> vector_step" where
  "vector_part emb idx sr nt =
     (case emb of
        None \<Rightarrow> Skipped None
      | Some f \<Rightarrow>
          if idx = [] then Skipped None
          else case f nt of
                 Inl e \<Rightarrow> Skipped (Some e)
               | Inr vecs \<Rightarrow>
                   if length vecs \<noteq> 1 \<or> vecs ! 0 = [] then Skipped (Some no_vector)
                   else case classifyByVector (vecs ! 0) idx sr of (es, r) \<Rightarrow> Judged es r)"

definition context_heavy :: "smart_route \<Rightarrow> int \<Rightarrow> nat \<Rightarrow> bool" where
  "context_heavy sr msgs rs \<longleftrightarrow> msgs > (if sr_context sr > 0 then sr_context sr else 12) \<or> rs > 1500"

definition by_rules :: "(string \<Rightarrow> string) \<Rightarrow> string \<Rightarrow> smart_route \<Rightarrow> route_result \<Rightarrow> route_result" where
  "by_rules lower nt sr res =
     (case classifyByRule lower nt (length (runes nt)) sr of
        Some label \<Rightarrow> res\<lparr>rr_label := label, rr_source := ''rule'', rr_confidence := 9/10\<rparr>
      | None \<Rightarrow> res)"

definition decide_label ::
  "(string \<Rightarrow> string) \<Rightarrow> embedder option \<Rightarrow> route_sample list \<Rightarrow> string \<Rightarrow> int \<Rightarrow> smart_route \<Rightarrow> route_result \<times> string option" where
  \<comment> \<open>\<open>decide\<close> without the deferred part\<close>
  "decide_label lower emb idx t msgs sr =
     (let nt = Normalize t;
          res = \<lparr>rr_label = ''simple'', rr_source = ''fallback'', rr_confidence = 0, rr_group = 0, rr_topk = None,
                 rr_normalized = nt\<rparr>
      in if nt = [] then (res, None)
         else if context_heavy sr msgs (length (runes nt)) then
           (res\<lparr>rr_label := ''complex'', rr_source := ''context'', rr_confidence := 1\<rparr>, None)
         else case vector_part emb idx sr nt of
                Skipped e \<Rightarrow> (by_rules lower nt sr res, e)
              | Judged es (Some (label, score)) \<Rightarrow>
                  (res\<lparr>rr_topk := Some es, rr_label := label, rr_source := ''vector'', rr_confidence := score\<rparr>, None)
              | Judged es None \<Rightarrow> (by_rules lower nt sr (res\<lparr>rr_topk := Some es\<rparr>), None))"

definition decide ::
  "(string \<Rightarrow> string) \<Rightarrow> embedder option \<Rightarrow> route_sample list \<Rightarrow> string \<Rightarrow> int \<Rightarrow> smart_route \<Rightarrow> route_result \<times> string option" where
  "decide lower emb idx t msgs sr =
     (case decide_label lower emb idx t msgs sr of (res, e) \<Rightarrow> (res\<lparr>rr_group := groupFor (rr_label res) sr\<rparr>, e))"

definition DecideWith ::
  "(string \<Rightarrow> string) \<Rightarrow> embedder option \<Rightarrow> route_sample list \<Rightarrow> string \<Rightarrow> int \<Rightarrow> smart_route \<Rightarrow> route_result" where
  "DecideWith lower emb idx t msgs sr = fst (decide lower emb idx t msgs sr)"

text \<open>A failing embedding service costs nothing but the vector step: the decision is the one
  the engine would take with no samples loaded (context rule, keyword rules, fallback, group and all),
  and the error is reported only when the request got as far as the embedding.\<close>

lemma decide_degrades:
  assumes "emb (Normalize t) = Inl e" and "idx \<noteq> []"
  shows "DecideWith lower (Some emb) idx t msgs sr = DecideWith lower (Some emb) [] t msgs sr \<and>
    snd (decide lower (Some emb) idx t msgs sr) =
      (if Normalize t = [] \<or> context_heavy sr msgs (length (runes (Normalize t))) then None else Some e)"
  using assms by (auto simp: DecideWith_def decide_def decide_label_def vector_part_def Let_def split: prod.splits)

definition sample_route :: "smart_route" where
  "sample_route = \<lparr>sr_topk = 0, sr_threshold = 0, sr_gap = 0, sr_rule_max = 0, sr_context = 2, sr_simple_group = 1,
     sr_complex_group = 2\<rparr>"

lemma decide_degrades_witness:
  "DecideWith id (Some (\<lambda>_. Inl ''down'')) [\<lparr>rs_id = 1, rs_label = ''simple'', rs_text = [], rs_threshold = 0, rs_vec = [1]\<rparr>]
     ''hi'' 1 sample_route = DecideWith id (Some (\<lambda>_. Inl ''down'')) [] ''hi'' 1 sample_route"
  by (rule decide_degrades [where e = "''down''", THEN conjunct1]) simp_all

text \<open>The router never sees more than 2000 runes: that is the length of the longest
  normalised text, whatever bytes the request holds.\<close>

lemma normalize_bounded: "length (runes (Normalize t)) \<le> 2000"
  by (simp add: Normalize_def Let_def truncate_bound runes.simps [of "[]"])

end
