(* ===== verification/Pricing.thy ===== *)
theory Pricing
  imports Rollup Complex_Main
begin

text \<open>
  The price table (\<open>src/internal/pricing/pricing.go\<close>): seeding and resetting the built-in rows, the
  in-memory copy, the lookup of the row for a model and the cost of a request. Amounts are rationals;
  Unicode lower-casing, the list of built-in rows and the iteration order of the in-memory map are
  arguments.
\<close>

section \<open>The table\<close>

record model_price =
  mp_id :: nat
  mp_pattern :: string
  mp_provider :: string
  mp_input :: rat
  mp_output :: rat
  mp_cached_input :: rat
  mp_cache_write :: rat
  mp_currency :: string
  mp_builtin :: bool
  mp_enabled :: bool
  mp_note :: string
  mp_source :: string
  mp_source_date :: string
  mp_edited :: bool
  mp_updated :: time

definition seed_key :: "(string \<Rightarrow> string) \<Rightarrow> model_price \<Rightarrow> string" where
  "seed_key lower p = lower (mp_provider p) @ ''|'' @ lower (mp_pattern p)"

definition priceKey :: "(string \<Rightarrow> string) \<Rightarrow> string \<Rightarrow> string \<Rightarrow> string" where
  "priceKey lower provider pattern = lower (trim_space provider) @ ''|'' @ lower (trim_space pattern)"

definition insert_price :: "(model_price list \<Rightarrow> nat) \<Rightarrow> time \<Rightarrow> model_price \<Rightarrow> model_price list \<Rightarrow> model_price list" where
  \<comment> \<open>\<open>db.Create\<close> of a copy stamped now; the id is the database's, and so is the default of \<open>enabled\<close>,
     which a built-in row leaves at its zero value\<close>
  "insert_price new_id now p rows = rows @ [p\<lparr>mp_id := new_id rows, mp_enabled := True, mp_updated := now\<rparr>]"

definition Seed ::
  "(string \<Rightarrow> string) \<Rightarrow> (model_price list \<Rightarrow> nat) \<Rightarrow> time \<Rightarrow> model_price list \<Rightarrow> model_price list \<Rightarrow> model_price list" where
  "Seed lower new_id now builtin rows =
     (let have = set (map (seed_key lower) rows)
      in fold (\<lambda>p rows. if seed_key lower p \<in> have then rows else insert_price new_id now p rows) builtin rows)"

definition restore_row :: "time \<Rightarrow> model_price \<Rightarrow> model_price \<Rightarrow> model_price" where
  \<comment> \<open>the update of a row that holds a built-in key\<close>
  "restore_row now p r =
     r\<lparr>mp_input := mp_input p, mp_output := mp_output p, mp_cached_input := mp_cached_input p,
       mp_cache_write := mp_cache_write p, mp_currency := mp_currency p, mp_note := mp_note p, mp_builtin := True,
       mp_enabled := True, mp_source := [], mp_source_date := [], mp_edited := False, mp_updated := now\<rparr>"

definition row_key_of :: "(string \<Rightarrow> string) \<Rightarrow> model_price \<Rightarrow> string" where
  "row_key_of lower p = priceKey lower (mp_provider p) (mp_pattern p)"

fun id_of :: "(string \<Rightarrow> string) \<Rightarrow> string \<Rightarrow> model_price list \<Rightarrow> nat option" where
  \<comment> \<open>\<open>have[key]\<close>: the last row of that key\<close>
  "id_of lower k [] = None"
| "id_of lower k (r # rs) =
     (case id_of lower k rs of Some i \<Rightarrow> Some i | None \<Rightarrow> if row_key_of lower r = k then Some (mp_id r) else None)"

definition ResetBuiltin ::
  "(string \<Rightarrow> string) \<Rightarrow> (model_price list \<Rightarrow> nat) \<Rightarrow> time \<Rightarrow> model_price list \<Rightarrow> model_price list \<Rightarrow> model_price list" where
  \<comment> \<open>one transaction; a failing statement leaves the table as it was\<close>
  "ResetBuiltin lower new_id now builtin rows =
     (let rest = filter (\<lambda>r. \<not> mp_builtin r) rows
      in fold (\<lambda>p rows.
           case id_of lower (row_key_of lower p) rest of
             Some i \<Rightarrow> map (\<lambda>r. if mp_id r = i then restore_row now p r else r) rows
           | None \<Rightarrow> insert_price new_id now p rows) builtin rest)"

section \<open>Lookup\<close>

text \<open>The in-memory copy: the enabled rows by lower-cased provider, each list in table order.\<close>

type_synonym price_table = "(string \<times> model_price list) list"

fun add_price :: "string \<Rightarrow> model_price \<Rightarrow> price_table \<Rightarrow> price_table" where
  "add_price k r [] = [(k, [r])]"
| "add_price k r ((k', rs) # t) = (if k' = k then (k', rs @ [r]) # t else (k', rs) # add_price k r t)"

definition Reload_prices ::
  "(string \<Rightarrow> string) \<Rightarrow> string + model_price list \<Rightarrow> price_table \<Rightarrow> price_table \<times> string option" where
  "Reload_prices lower rows t =
     (case rows of
        Inl e \<Rightarrow> (t, Some e)
      | Inr rs \<Rightarrow> (fold (\<lambda>r. add_price (lower (mp_provider r)) r) (filter mp_enabled rs) [], None))"

definition rows_of :: "price_table \<Rightarrow> string \<Rightarrow> model_price list" where
  "rows_of t k = (case map_of t k of Some rs \<Rightarrow> rs | None \<Rightarrow> [])"

definition level_rows :: "price_table \<Rightarrow> string list \<Rightarrow> string \<Rightarrow> model_price list" where
  \<comment> \<open>\<open>order\<close>: the providers in the order in which the range over the map visits them\<close>
  "level_rows t order k = (if k = ''*'' then concat (map (rows_of t) order) else rows_of t k)"

definition price_name :: "(string \<Rightarrow> string) \<Rightarrow> string \<Rightarrow> string" where
  \<comment> \<open>the lower-cased name without vendor prefixes\<close>
  "price_name lower m =
     (let n = lower (trim_space m)
      in if CHR ''/'' \<in> set n then rev (takeWhile (\<lambda>c. c \<noteq> CHR ''/'') (rev n)) else n)"

definition priced_by :: "string \<Rightarrow> string \<Rightarrow> bool" where
  "priced_by n pat \<longleftrightarrow> n = pat \<or> has_prefix n (pat @ ''-'') \<or> has_prefix n (pat @ '':'') \<or> has_prefix n (pat @ ''@'')"

fun best_price :: "(string \<Rightarrow> string) \<Rightarrow> string \<Rightarrow> model_price list \<Rightarrow> model_price option \<times> int \<Rightarrow> model_price option \<times> int" where
  "best_price lower n [] b = b"
| "best_price lower n (r # rs) (best, bestLen) =
     best_price lower n rs
       (let pat = lower (mp_pattern r)
        in if priced_by n pat \<and> int (length pat) > bestLen then (Some r, int (length pat)) else (best, bestLen))"

fun lookup_levels :: "(string \<Rightarrow> string) \<Rightarrow> price_table \<Rightarrow> string list \<Rightarrow> string \<Rightarrow> string list \<Rightarrow> model_price option" where
  "lookup_levels lower t order n [] = None"
| "lookup_levels lower t order n (k # ks) =
     (case fst (best_price lower n (level_rows t order k) (None, -1)) of
        Some r \<Rightarrow> Some r
      | None \<Rightarrow> lookup_levels lower t order n ks)"

definition Lookup :: "(string \<Rightarrow> string) \<Rightarrow> price_table \<Rightarrow> string list \<Rightarrow> string \<Rightarrow> string \<Rightarrow> model_price option" where
  "Lookup lower t order provider m = lookup_levels lower t order (price_name lower m) [lower provider, [], ''*'']"

section \<open>Cost\<close>

record pricing_settings =
  ps_currency :: string
  ps_usd_to_cny :: rat

definition upper_char :: "char \<Rightarrow> char" where
  "upper_char c = (let n = of_char c :: nat in if 97 \<le> n \<and> n \<le> 122 then char_of (n - 32) else c)"

definition is_cny :: "string \<Rightarrow> bool" where
  \<comment> \<open>\<open>strings.ToUpper(s) == "CNY"\<close>; no character but a to z has its upper case in CNY\<close>
  "is_cny s \<longleftrightarrow> map upper_char s = ''CNY''"

definition usd_rate :: "pricing_settings \<Rightarrow> rat" where
  "usd_rate st = (if ps_usd_to_cny st > 0 then ps_usd_to_cny st else 36/5)"

definition toLedger :: "pricing_settings \<Rightarrow> rat \<Rightarrow> string \<Rightarrow> rat" where
  "toLedger st amount from_currency = (if is_cny from_currency then amount / usd_rate st else amount)"

definition math_round :: "rat \<Rightarrow> int" where
  \<comment> \<open>\<open>math.Round\<close>: half away from zero\<close>
  "math_round q = (if 0 \<le> q then \<lfloor>q + 1/2\<rfloor> else - \<lfloor>- q + 1/2\<rfloor>)"

definition row_amount :: "model_price \<Rightarrow> int \<Rightarrow> int \<Rightarrow> int \<Rightarrow> int \<Rightarrow> rat" where
  "row_amount p prompt completion cached cacheWrite =
     (let cached = (if cached > prompt then prompt else cached);
          cacheWrite = (if cacheWrite > prompt - cached then prompt - cached else cacheWrite);
          writePrice = (if mp_cache_write p \<le> 0 then mp_input p else mp_cache_write p);
          plain = prompt - cached - cacheWrite
      in (of_int plain * mp_input p + of_int cached * mp_cached_input p + of_int cacheWrite * writePrice +
          of_int completion * mp_output p) / 10 ^ 6)"

definition Cost ::
  "(string \<Rightarrow> string) \<Rightarrow> price_table \<Rightarrow> string list \<Rightarrow> pricing_settings \<Rightarrow> string \<Rightarrow> string \<Rightarrow> int \<Rightarrow> int \<Rightarrow> int \<Rightarrow> int \<Rightarrow> int \<times> bool" where
  "Cost lower t order st provider m prompt completion cached cacheWrite =
     (case Lookup lower t order provider m of
        None \<Rightarrow> (0, False)
      | Some p \<Rightarrow>
          (math_round (toLedger st (row_amount p prompt completion cached cacheWrite) (mp_currency p) * 10 ^ 6), True))"

definition Currency :: "(string \<Rightarrow> string) \<Rightarrow> pricing_settings \<Rightarrow> string" where
  "Currency upper st = (let c = upper (ps_currency st) in if c = [] then ''USD'' else c)"

definition Display :: "(string \<Rightarrow> string) \<Rightarrow> pricing_settings \<Rightarrow> int \<Rightarrow> rat" where
  "Display upper st micros =
     (let amount = of_int micros / 10 ^ 6 in if Currency upper st = ''CNY'' then amount * usd_rate st else amount)"

section \<open>What the lookup finds\<close>

definition matching :: "(string \<Rightarrow> string) \<Rightarrow> string \<Rightarrow> model_price \<Rightarrow> bool" where
  "matching lower n r \<longleftrightarrow> priced_by n (lower (mp_pattern r))"

definition pattern_length :: "(string \<Rightarrow> string) \<Rightarrow> model_price \<Rightarrow> nat" where
  "pattern_length lower r = length (lower (mp_pattern r))"

definition wins :: "(string \<Rightarrow> string) \<Rightarrow> string \<Rightarrow> model_price list \<Rightarrow> model_price \<Rightarrow> bool" where
  \<comment> \<open>the first of the matching rows with the longest pattern\<close>
  "wins lower n rows p \<longleftrightarrow>
     (\<exists>xs ys. rows = xs @ p # ys \<and> matching lower n p \<and>
        (\<forall>x\<in>set xs. matching lower n x \<longrightarrow> pattern_length lower x < pattern_length lower p) \<and>
        (\<forall>y\<in>set ys. matching lower n y \<longrightarrow> pattern_length lower y \<le> pattern_length lower p))"

lemma best_price_step:
  "best_price lower n (r # rs) (b, l) =
     best_price lower n rs
       (if matching lower n r \<and> int (pattern_length lower r) > l then (Some r, int (pattern_length lower r)) else (b, l))"
  by (simp add: matching_def pattern_length_def Let_def)

lemma best_price_cases:
  "(fst (best_price lower n rows (b, l)) = b \<and> (\<forall>r\<in>set rows. matching lower n r \<longrightarrow> int (pattern_length lower r) \<le> l)) \<or>
   (\<exists>p. fst (best_price lower n rows (b, l)) = Some p \<and> wins lower n rows p \<and> int (pattern_length lower p) > l)"
proof (induction rows arbitrary: b l)
  case (Cons r rs)
  let ?m = "matching lower n r" and ?k = "int (pattern_length lower r)"
  show ?case
  proof (cases "?m \<and> ?k > l")
    case True
    then have step: "best_price lower n (r # rs) (b, l) = best_price lower n rs (Some r, ?k)" unfolding best_price_step by simp
    from Cons.IH [of "Some r" ?k] consider
      "fst (best_price lower n rs (Some r, ?k)) = Some r" "\<forall>x\<in>set rs. matching lower n x \<longrightarrow> int (pattern_length lower x) \<le> ?k"
    | p where "fst (best_price lower n rs (Some r, ?k)) = Some p" "wins lower n rs p" "?k < int (pattern_length lower p)" by blast
    then show ?thesis
    proof cases
      case 1
      then have "wins lower n (r # rs) r" using True unfolding wins_def by (intro exI [of _ "[]"] exI [of _ rs]) auto
      with 1 True show ?thesis unfolding step by auto
    next
      case 2
      from 2(2) obtain xs ys where "rs = xs @ p # ys" "matching lower n p"
        "\<forall>x\<in>set xs. matching lower n x \<longrightarrow> pattern_length lower x < pattern_length lower p"
        "\<forall>y\<in>set ys. matching lower n y \<longrightarrow> pattern_length lower y \<le> pattern_length lower p" unfolding wins_def by blast
      then have "wins lower n (r # rs) p" using 2(3) unfolding wins_def by (intro exI [of _ "r # xs"] exI [of _ ys]) auto
      with 2 True show ?thesis unfolding step by auto
    qed
  next
    case False
    then have step: "best_price lower n (r # rs) (b, l) = best_price lower n rs (b, l)" unfolding best_price_step by auto
    from Cons.IH [of b l] consider
      "fst (best_price lower n rs (b, l)) = b" "\<forall>x\<in>set rs. matching lower n x \<longrightarrow> int (pattern_length lower x) \<le> l"
    | p where "fst (best_price lower n rs (b, l)) = Some p" "wins lower n rs p" "l < int (pattern_length lower p)" by blast
    then show ?thesis
    proof cases
      case 1
      with False show ?thesis unfolding step by auto
    next
      case 2
      from 2(2) obtain xs ys where "rs = xs @ p # ys" "matching lower n p"
        "\<forall>x\<in>set xs. matching lower n x \<longrightarrow> pattern_length lower x < pattern_length lower p"
        "\<forall>y\<in>set ys. matching lower n y \<longrightarrow> pattern_length lower y \<le> pattern_length lower p" unfolding wins_def by blast
      then have "wins lower n (r # rs) p" using 2(3) False unfolding wins_def by (intro exI [of _ "r # xs"] exI [of _ ys]) auto
      with 2 show ?thesis unfolding step by auto
    qed
  qed
qed simp

lemma wins_unique: "wins lower n rows p \<Longrightarrow> wins lower n rows q \<Longrightarrow> p = q"
proof -
  assume "wins lower n rows p" "wins lower n rows q"
  then obtain xs ys us vs where p: "rows = xs @ p # ys" "matching lower n p"
      "\<forall>x\<in>set xs. matching lower n x \<longrightarrow> pattern_length lower x < pattern_length lower p"
      "\<forall>y\<in>set ys. matching lower n y \<longrightarrow> pattern_length lower y \<le> pattern_length lower p"
    and q: "rows = us @ q # vs" "matching lower n q"
      "\<forall>x\<in>set us. matching lower n x \<longrightarrow> pattern_length lower x < pattern_length lower q"
      "\<forall>y\<in>set vs. matching lower n y \<longrightarrow> pattern_length lower y \<le> pattern_length lower q" unfolding wins_def by blast
  have "p # ys = q # vs \<or> p \<in> set us \<and> q \<in> set ys \<or> q \<in> set xs \<and> p \<in> set vs"
    using p(1) q(1) by (auto simp: append_eq_append_conv2 append_eq_Cons_conv Cons_eq_append_conv)
  then show "p = q" using p(2-4) q(2-4) by force
qed

lemma best_price_wins: "fst (best_price lower n rows (None, -1)) = Some p \<longleftrightarrow> wins lower n rows p"
proof
  show "wins lower n rows p" if "fst (best_price lower n rows (None, -1)) = Some p"
    using best_price_cases [of lower n rows None "-1"] that by auto
  assume w: "wins lower n rows p"
  then have "p \<in> set rows" "matching lower n p" by (auto simp: wins_def)
  then have "\<not> (\<forall>r\<in>set rows. matching lower n r \<longrightarrow> int (pattern_length lower r) \<le> -1)" by force
  then obtain q where "fst (best_price lower n rows (None, -1)) = Some q" "wins lower n rows q"
    using best_price_cases [of lower n rows None "-1"] by blast
  with wins_unique [OF w] show "fst (best_price lower n rows (None, -1)) = Some p" by simp
qed

lemma best_price_none: "fst (best_price lower n rows (None, -1)) = None \<longleftrightarrow> (\<forall>r\<in>set rows. \<not> matching lower n r)"
proof
  show "\<forall>r\<in>set rows. \<not> matching lower n r" if "fst (best_price lower n rows (None, -1)) = None"
    using best_price_cases [of lower n rows None "-1"] that by force
  show "fst (best_price lower n rows (None, -1)) = None" if "\<forall>r\<in>set rows. \<not> matching lower n r"
  proof (rule ccontr)
    assume "fst (best_price lower n rows (None, -1)) \<noteq> None"
    then obtain q where "wins lower n rows q" using best_price_wins by blast
    with that show False by (auto simp: wins_def)
  qed
qed

definition unpriced :: "(string \<Rightarrow> string) \<Rightarrow> string \<Rightarrow> model_price list \<Rightarrow> bool" where
  "unpriced lower n rows \<longleftrightarrow> (\<forall>r\<in>set rows. \<not> matching lower n r)"

lemma wins_not_unpriced: "wins lower n rows p \<Longrightarrow> \<not> unpriced lower n rows"
  by (auto simp: wins_def unpriced_def)

lemma lookup_levels_step:
  "lookup_levels lower t order n (k # ks) = Some p \<longleftrightarrow>
     wins lower n (level_rows t order k) p \<or>
     unpriced lower n (level_rows t order k) \<and> lookup_levels lower t order n ks = Some p"
proof (cases "fst (best_price lower n (level_rows t order k) (None, -1))")
  case None
  then have "unpriced lower n (level_rows t order k)" using best_price_none by (simp add: unpriced_def)
  moreover from this have "\<not> wins lower n (level_rows t order k) p" using wins_not_unpriced by blast
  moreover have "lookup_levels lower t order n (k # ks) = lookup_levels lower t order n ks" using None by simp
  ultimately show ?thesis by simp
next
  case (Some q)
  then have w: "wins lower n (level_rows t order k) q" using best_price_wins by blast
  have "lookup_levels lower t order n (k # ks) = Some q" using Some by simp
  then show ?thesis using w wins_unique [OF w, of p] wins_not_unpriced [OF w] by (metis option.inject)
qed

text \<open>The lookup goes through the provider's own rows, the rows without a provider and then
  everybody's, stops at the first of the three with a matching row, and takes the first row with the
  longest pattern there, so an exact name beats any prefix of it.\<close>

lemma lookup_longest:
  "Lookup lower t order provider m = Some p \<longleftrightarrow>
     (let n = price_name lower m; own = level_rows t order (lower provider); free = level_rows t order [];
          every = level_rows t order ''*''
      in wins lower n own p \<or>
         unpriced lower n own \<and> (wins lower n free p \<or> unpriced lower n free \<and> wins lower n every p))"
  unfolding Lookup_def lookup_levels_step Let_def by simp

lemma rows_of_add: "rows_of (add_price k r t) k' = rows_of t k' @ (if k = k' then [r] else [])"
  by (induction k r t rule: add_price.induct) (auto simp: rows_of_def)

lemma rows_of_reload:
  "rows_of (fst (Reload_prices lower (Inr rs) t)) k = filter (\<lambda>r. mp_enabled r \<and> lower (mp_provider r) = k) rs"
proof -
  have "rows_of (fold (\<lambda>r. add_price (lower (mp_provider r)) r) qs t0) k =
      rows_of t0 k @ filter (\<lambda>r. lower (mp_provider r) = k) qs" for qs t0
    by (induction qs arbitrary: t0) (auto simp: rows_of_add)
  from this [of "filter mp_enabled rs" "[]"] show ?thesis by (simp add: Reload_prices_def rows_of_def conj_commute)
qed

lemma priced_by_prefix: "priced_by n pat \<Longrightarrow> take (length pat) n = pat \<and> length pat \<le> length n"
  by (auto simp: priced_by_def has_prefix_iff prefix_def)

lemma wins_distinct:
  assumes "p \<in> set rows" "matching lower n p" "distinct (map (lower \<circ> mp_pattern) rows)"
    and "\<And>q. q \<in> set rows \<Longrightarrow> matching lower n q \<Longrightarrow> pattern_length lower q \<le> pattern_length lower p"
  shows "wins lower n rows p"
proof -
  have apart: "q = p" if "q \<in> set rows" "matching lower n q" "pattern_length lower q = pattern_length lower p" for q
  proof -
    have "take (length (lower (mp_pattern r))) n = lower (mp_pattern r)" if "matching lower n r" for r
      using that priced_by_prefix by (simp add: matching_def)
    then have "lower (mp_pattern q) = lower (mp_pattern p)" using that assms(2) by (metis pattern_length_def)
    with that(1) assms(1,3) show ?thesis by (metis (no_types, lifting) comp_apply distinct_map inj_onD)
  qed
  obtain xs ys where s: "rows = xs @ p # ys" using assms(1) by (auto dest: split_list)
  moreover have "p \<notin> set xs" using assms(3) s by auto
  ultimately show ?thesis using assms(2,4) apart unfolding wins_def by (intro exI [of _ xs] exI [of _ ys]) (auto simp: less_le)
qed

text \<open>As long as no two rows have the same provider and pattern up to case, every enabled row
  is found under its own name: no longer or later row shadows it.\<close>

lemma lookup_own_row:
  assumes "p \<in> set rows" "mp_enabled p"
    and d: "distinct (map (\<lambda>r. (lower (mp_provider r), lower (mp_pattern r))) rows)"
    and n: "price_name lower (mp_pattern p) = lower (mp_pattern p)" and "lower (mp_provider p) \<noteq> ''*''"
  shows "Lookup lower (fst (Reload_prices lower (Inr rows) t)) order (mp_provider p) (mp_pattern p) = Some p"
proof -
  let ?t = "fst (Reload_prices lower (Inr rows) t)" and ?n = "lower (mp_pattern p)"
  let ?own = "filter (\<lambda>r. mp_enabled r \<and> lower (mp_provider r) = lower (mp_provider p)) rows"
  have own: "level_rows ?t order (lower (mp_provider p)) = ?own" using assms(5) by (simp add: level_rows_def rows_of_reload)
  have "distinct (map (lower \<circ> mp_pattern) ?own)"
    using d unfolding distinct_map by (auto simp: inj_on_def)
  then have "wins lower ?n ?own p"
    by (rule wins_distinct [rotated 2])
      (use assms(1,2) priced_by_prefix in \<open>auto simp: matching_def pattern_length_def priced_by_def [of "lower (mp_pattern p)" "lower (mp_pattern p)"]\<close>)
  then show ?thesis unfolding Lookup_def lookup_levels_step n own by blast
qed

definition sample_price :: "string \<Rightarrow> string \<Rightarrow> rat \<Rightarrow> rat \<Rightarrow> model_price" where
  "sample_price provider pattern inp out =
     \<lparr>mp_id = 0, mp_pattern = pattern, mp_provider = provider, mp_input = inp, mp_output = out, mp_cached_input = inp / 10,
      mp_cache_write = 0, mp_currency = ''USD'', mp_builtin = True, mp_enabled = True, mp_note = [], mp_source = [],
      mp_source_date = [], mp_edited = False, mp_updated = 0\<rparr>"

text \<open>Property C26: when two providers list the same model, the price a third provider's request gets depends on
  the order in which Go happens to iterate over the map: the same request can cost ten times as much as
  a moment before.\<close>

theorem lookup_depends_on_order:
  "let t = fst (Reload_prices id (Inr [sample_price ''zhipu'' ''glm-5'' 1 2, sample_price ''resale'' ''glm-5'' 10 20]) [])
   in Cost id t [''zhipu'', ''resale''] st ''relay'' ''glm-5'' 1000 0 0 0 = (1000, True) \<and>
      Cost id t [''resale'', ''zhipu''] st ''relay'' ''glm-5'' 1000 0 0 0 = (10000, True)"
proof -
  have n: "price_name id ''glm-5'' = ''glm-5''"
    by (simp add: price_name_def trim_space_def trim_left_space_def trim_right_space_def space_seqs_def has_prefix_def)
  show ?thesis unfolding Let_def Cost_def Lookup_def n
    by (simp add: Reload_prices_def sample_price_def level_rows_def rows_of_def priced_by_def has_prefix_def
        row_amount_def toLedger_def is_cny_def upper_char_def math_round_def floor_unique)
qed

definition sample_prices :: "model_price list" where
  "sample_prices = [sample_price ''zhipu'' ''glm-5'' 1 2, sample_price ''zhipu'' ''glm-5-air'' 3 4]"

lemma sample_name: "price_name id ''glm-5-air'' = ''glm-5-air''"
  by (simp add: price_name_def trim_space_def trim_left_space_def trim_right_space_def space_seqs_def has_prefix_def)

lemma sample_lookup:
  "Lookup id (fst (Reload_prices id (Inr sample_prices) [])) [] ''zhipu'' ''glm-5-air'' = Some (sample_price ''zhipu'' ''glm-5-air'' 3 4)"
  unfolding Lookup_def sample_name
  by (simp add: Reload_prices_def sample_prices_def sample_price_def level_rows_def rows_of_def priced_by_def has_prefix_def)

lemma lookup_own_row_witness:
  "Lookup id (fst (Reload_prices id (Inr sample_prices) [])) [] ''zhipu'' ''glm-5-air'' = Some (sample_price ''zhipu'' ''glm-5-air'' 3 4)"
  using lookup_own_row [of "sample_price ''zhipu'' ''glm-5-air'' 3 4" sample_prices id "[]" "[]"] sample_name
  by (simp add: sample_prices_def sample_price_def)

section \<open>What a request costs\<close>

lemma math_round_mono: "x \<le> y \<Longrightarrow> math_round x \<le> math_round y"
proof -
  assume xy: "x \<le> y"
  consider "0 \<le> x" | "x < 0" "0 \<le> y" | "y < 0" by linarith
  then show ?thesis
  proof cases
    case 1
    then show ?thesis using xy by (simp add: math_round_def floor_mono)
  next
    case 2
    then have "math_round x \<le> 0" "0 \<le> math_round y" by (simp_all add: math_round_def)
    then show ?thesis by simp
  next
    case 3
    moreover have "\<lfloor>- y + 1/2\<rfloor> \<le> \<lfloor>- x + 1/2\<rfloor>" using xy by (intro floor_mono) simp
    ultimately show ?thesis using xy by (simp add: math_round_def)
  qed
qed

lemma math_round_int [simp]: "math_round (of_int n) = n"
proof -
  have "\<lfloor>(of_int n :: rat) + 1/2\<rfloor> = n" for n by (rule floor_unique) simp_all
  from this [of n] this [of "- n"] show ?thesis by (simp add: math_round_def)
qed

lemma usd_rate_pos: "0 < usd_rate st"
  by (simp add: usd_rate_def)

lemma toLedger_mono: "x \<le> y \<Longrightarrow> toLedger st x c \<le> toLedger st y c"
  using usd_rate_pos [of st] by (simp add: toLedger_def divide_right_mono)

definition write_price :: "model_price \<Rightarrow> rat" where
  "write_price p = (if mp_cache_write p \<le> 0 then mp_input p else mp_cache_write p)"

definition cheapest :: "model_price \<Rightarrow> rat" where
  \<comment> \<open>the least a prompt token of a row can cost\<close>
  "cheapest p = Min {mp_input p, mp_cached_input p, write_price p}"

definition dearest :: "model_price \<Rightarrow> rat" where
  "dearest p = Max {mp_input p, mp_cached_input p, write_price p}"

lemma weighted_between:
  fixes x y z :: int and a b c lo hi :: rat
  assumes "0 \<le> x" "0 \<le> y" "0 \<le> z" and "\<forall>q\<in>{a, b, c}. lo \<le> q \<and> q \<le> hi"
  shows "of_int (x + y + z) * lo \<le> of_int x * a + of_int y * b + of_int z * c"
    and "of_int x * a + of_int y * b + of_int z * c \<le> of_int (x + y + z) * hi"
proof -
  have "(of_int x :: rat) * lo \<le> of_int x * a" "(of_int y :: rat) * lo \<le> of_int y * b" "(of_int z :: rat) * lo \<le> of_int z * c"
    "(of_int x :: rat) * a \<le> of_int x * hi" "(of_int y :: rat) * b \<le> of_int y * hi" "(of_int z :: rat) * c \<le> of_int z * hi"
    using assms by (auto intro!: mult_left_mono)
  then show "of_int (x + y + z) * lo \<le> of_int x * a + of_int y * b + of_int z * c"
    and "of_int x * a + of_int y * b + of_int z * c \<le> of_int (x + y + z) * hi"
    by (simp_all add: algebra_simps)
qed

lemma row_amount_between:
  assumes "0 \<le> prompt" "0 \<le> cached" "0 \<le> cacheWrite"
  shows "(of_int prompt * cheapest p + of_int completion * mp_output p) / 10 ^ 6
      \<le> row_amount p prompt completion cached cacheWrite"
    and "row_amount p prompt completion cached cacheWrite
      \<le> (of_int prompt * dearest p + of_int completion * mp_output p) / 10 ^ 6"
proof -
  define c where "c = (if cached > prompt then prompt else cached)"
  define w where "w = (if cacheWrite > prompt - c then prompt - c else cacheWrite)"
  have n: "0 \<le> prompt - c - w" "0 \<le> c" "0 \<le> w" using assms by (auto simp: c_def w_def)
  have ra: "row_amount p prompt completion cached cacheWrite =
      (of_int (prompt - c - w) * mp_input p + of_int c * mp_cached_input p + of_int w * write_price p +
       of_int completion * mp_output p) / 10 ^ 6"
    by (simp add: row_amount_def c_def w_def write_price_def Let_def)
  have "\<forall>q\<in>{mp_input p, mp_cached_input p, write_price p}. cheapest p \<le> q \<and> q \<le> dearest p"
    by (auto simp: cheapest_def dearest_def min_le_iff_disj le_max_iff_disj)
  from weighted_between [OF n this]
  show "(of_int prompt * cheapest p + of_int completion * mp_output p) / 10 ^ 6
      \<le> row_amount p prompt completion cached cacheWrite"
    and "row_amount p prompt completion cached cacheWrite
      \<le> (of_int prompt * dearest p + of_int completion * mp_output p) / 10 ^ 6"
    unfolding ra by (auto intro!: divide_right_mono)
qed

text \<open>Property C27: a priced request costs at least what its tokens would cost at the row's cheapest prompt
  price and at most what they would at its dearest, however its prompt splits into plain, cached and
  cache-writing tokens, also when the upstream reports more cached tokens than prompt tokens; and a
  model without a row is unpriced, never free.\<close>

theorem cost_within:
  assumes n: "0 \<le> prompt" "0 \<le> cached" "0 \<le> cacheWrite"
    and c: "Cost lower t order st provider m prompt completion cached cacheWrite = (micros, known)"
  shows "case Lookup lower t order provider m of
      None \<Rightarrow> \<not> known
    | Some p \<Rightarrow> known \<and>
        math_round (toLedger st (of_int prompt * cheapest p + of_int completion * mp_output p) (mp_currency p)) \<le> micros \<and>
        micros \<le> math_round (toLedger st (of_int prompt * dearest p + of_int completion * mp_output p) (mp_currency p))"
proof (cases "Lookup lower t order provider m")
  case None
  then show ?thesis using c by (simp add: Cost_def)
next
  case (Some p)
  have scale: "toLedger st (x / 10 ^ 6) cur * 10 ^ 6 = toLedger st x cur" for x cur by (simp add: toLedger_def)
  have "math_round (toLedger st ((of_int prompt * cheapest p + of_int completion * mp_output p) / 10 ^ 6) (mp_currency p) * 10 ^ 6)
      \<le> micros"
    and "micros \<le>
      math_round (toLedger st ((of_int prompt * dearest p + of_int completion * mp_output p) / 10 ^ 6) (mp_currency p) * 10 ^ 6)"
    using c Some row_amount_between [OF n, of p completion]
    by (auto simp: Cost_def intro!: math_round_mono mult_right_mono toLedger_mono)
  then show ?thesis using c Some unfolding scale by (simp add: Cost_def)
qed

lemma cost_within_witness:
  "let t = fst (Reload_prices id (Inr sample_prices) []); st = \<lparr>ps_currency = ''CNY'', ps_usd_to_cny = 7\<rparr>
   in \<exists>micros. Cost id t [] st ''zhipu'' ''glm-5-air'' 1000 10 5000 0 = (micros, True) \<and> 340 \<le> micros \<and> micros \<le> 3040"
proof -
  let ?t = "fst (Reload_prices id (Inr sample_prices) [])" and ?st = "\<lparr>ps_currency = ''CNY'', ps_usd_to_cny = 7\<rparr>"
  obtain micros known where c: "Cost id ?t [] ?st ''zhipu'' ''glm-5-air'' 1000 10 5000 0 = (micros, known)" by fastforce
  have "math_round 340 = 340" "math_round 3040 = 3040" using math_round_int [of 340] math_round_int [of 3040] by simp_all
  with cost_within [OF _ _ _ c] c show ?thesis
    unfolding sample_lookup
    by (simp add: Let_def toLedger_def sample_price_def is_cny_def upper_char_def cheapest_def dearest_def write_price_def)
qed

section \<open>The built-in rows\<close>

lemma seed_key_copy [simp]: "seed_key lower (p\<lparr>mp_id := i, mp_enabled := e, mp_updated := u\<rparr>) = seed_key lower p"
  by (simp add: seed_key_def)

lemma seed_fold:
  "\<exists>added. fold (\<lambda>p rows. if seed_key lower p \<in> have then rows else insert_price new_id now p rows) builtin rows = rows @ added \<and>
     map (seed_key lower) added = map (seed_key lower) (filter (\<lambda>p. seed_key lower p \<notin> have) builtin)"
proof (induction builtin arbitrary: rows)
  case (Cons p ps)
  show ?case
  proof (cases "seed_key lower p \<in> have")
    case False
    from Cons.IH [of "insert_price new_id now p rows"] obtain added where
      "fold (\<lambda>p rows. if seed_key lower p \<in> have then rows else insert_price new_id now p rows) ps (insert_price new_id now p rows) =
         insert_price new_id now p rows @ added"
      "map (seed_key lower) added = map (seed_key lower) (filter (\<lambda>p. seed_key lower p \<notin> have) ps)" by blast
    with False show ?thesis
      by (intro exI [of _ "p\<lparr>mp_id := new_id rows, mp_enabled := True, mp_updated := now\<rparr> # added"]) (simp add: insert_price_def)
  qed (use Cons.IH [of rows] in simp)
qed simp

text \<open>Seeding appends the built-in rows whose key is missing and never touches a row that is there; seeding
  again changes nothing, and keys stay unique.\<close>

lemma seed_fills:
  "\<exists>added. Seed lower new_id now builtin rows = rows @ added \<and>
     seed_key lower ` set builtin \<subseteq> seed_key lower ` set (rows @ added) \<and>
     Seed lower new_id' now' builtin (rows @ added) = rows @ added \<and>
     (distinct (map (seed_key lower) rows) \<and> distinct (map (seed_key lower) builtin) \<longrightarrow> distinct (map (seed_key lower) (rows @ added)))"
proof -
  let ?have = "set (map (seed_key lower) rows)"
  obtain added where a: "Seed lower new_id now builtin rows = rows @ added"
    "map (seed_key lower) added = map (seed_key lower) (filter (\<lambda>p. seed_key lower p \<notin> ?have) builtin)"
    using seed_fold [of lower ?have new_id now builtin rows] by (auto simp: Seed_def)
  have keys: "seed_key lower ` set added = seed_key lower ` {p \<in> set builtin. seed_key lower p \<notin> ?have}"
    using arg_cong [OF a(2), of set] by simp
  have sub: "seed_key lower ` set builtin \<subseteq> seed_key lower ` set (rows @ added)"
    unfolding set_append image_Un keys by auto
  then have "filter (\<lambda>p. seed_key lower p \<notin> set (map (seed_key lower) (rows @ added))) builtin = []"
    by (auto simp: filter_empty_conv)
  then have "Seed lower new_id' now' builtin (rows @ added) = rows @ added"
    using seed_fold [of lower "set (map (seed_key lower) (rows @ added))" new_id' now' builtin "rows @ added"]
    by (auto simp: Seed_def)
  moreover have "distinct (map (seed_key lower) (rows @ added))"
    if "distinct (map (seed_key lower) rows)" "distinct (map (seed_key lower) builtin)"
  proof -
    have "distinct (map (seed_key lower) added)" unfolding a(2) using that(2) by (rule distinct_map_filter)
    moreover have "seed_key lower ` set rows \<inter> seed_key lower ` set added = {}" unfolding keys by (auto, metis image_eqI)
    ultimately show ?thesis unfolding map_append distinct_append set_map using that(1) by blast
  qed
  ultimately show ?thesis using a(1) sub by blast
qed

definition like :: "(string \<Rightarrow> string) \<Rightarrow> model_price \<Rightarrow> model_price \<Rightarrow> bool" where
  \<comment> \<open>a row that serves as the built-in row \<open>p\<close>\<close>
  "like lower p r \<longleftrightarrow>
     row_key_of lower r = row_key_of lower p \<and> mp_builtin r \<and> mp_enabled r \<and> mp_input r = mp_input p \<and>
     mp_output r = mp_output p \<and> mp_cached_input r = mp_cached_input p \<and> mp_cache_write r = mp_cache_write p \<and>
     mp_currency r = mp_currency p"

definition reset_inv :: "(string \<Rightarrow> string) \<Rightarrow> model_price list \<Rightarrow> model_price list \<Rightarrow> model_price list \<Rightarrow> bool" where
  \<comment> \<open>the table after the built-in rows \<open>don\<close>, which began with the custom rows \<open>rest\<close>\<close>
  "reset_inv lower rest don rows \<longleftrightarrow>
     (\<forall>r\<in>set rows. r \<in> set rest \<or> (\<exists>p\<in>set don. like lower p r)) \<and> (\<forall>p\<in>set don. \<exists>r\<in>set rows. like lower p r) \<and>
     (\<forall>r\<in>set rest. row_key_of lower r \<notin> row_key_of lower ` set don \<longrightarrow> r \<in> set rows) \<and>
     (\<forall>r\<in>set rows. \<forall>q\<in>set rest. mp_id r = mp_id q \<longrightarrow> row_key_of lower r = row_key_of lower q) \<and>
     distinct (map mp_id rows) \<and> mp_id ` set rest \<subseteq> mp_id ` set rows"

lemma id_of_some: "id_of lower k rs = Some i \<Longrightarrow> \<exists>q\<in>set rs. mp_id q = i \<and> row_key_of lower q = k"
  by (induction rs) (auto split: option.splits if_splits)

lemma id_of_none: "id_of lower k rs = None \<Longrightarrow> r \<in> set rs \<Longrightarrow> row_key_of lower r \<noteq> k"
  by (induction rs) (auto split: option.splits if_splits)

lemma restore_row_simps [simp]:
  "mp_id (restore_row now p r) = mp_id r" "row_key_of lower (restore_row now p r) = row_key_of lower r"
  by (simp_all add: restore_row_def row_key_of_def)

lemma like_restored: "row_key_of lower r = row_key_of lower p \<Longrightarrow> like lower p (restore_row now p r)"
  by (simp add: like_def) (simp add: restore_row_def)

lemma like_copy: "mp_builtin p \<Longrightarrow> like lower p (p\<lparr>mp_id := i, mp_enabled := True, mp_updated := now\<rparr>)"
  by (simp add: like_def row_key_of_def)

lemma reset_invD:
  assumes "reset_inv lower rest don rows"
  shows "r \<in> set rows \<Longrightarrow> r \<in> set rest \<or> (\<exists>p\<in>set don. like lower p r)"
    and "p \<in> set don \<Longrightarrow> \<exists>r\<in>set rows. like lower p r"
    and "r \<in> set rest \<Longrightarrow> row_key_of lower r \<notin> row_key_of lower ` set don \<Longrightarrow> r \<in> set rows"
    and "r \<in> set rows \<Longrightarrow> q \<in> set rest \<Longrightarrow> mp_id r = mp_id q \<Longrightarrow> row_key_of lower r = row_key_of lower q"
    and "distinct (map mp_id rows)" and "q \<in> set rest \<Longrightarrow> mp_id q \<in> mp_id ` set rows"
  using assms unfolding reset_inv_def by blast+

lemma reset_invI:
  assumes "\<And>r. r \<in> set rows \<Longrightarrow> r \<in> set rest \<or> (\<exists>p\<in>set don. like lower p r)"
    and "\<And>p. p \<in> set don \<Longrightarrow> \<exists>r\<in>set rows. like lower p r"
    and "\<And>r. r \<in> set rest \<Longrightarrow> row_key_of lower r \<notin> row_key_of lower ` set don \<Longrightarrow> r \<in> set rows"
    and "\<And>r q. r \<in> set rows \<Longrightarrow> q \<in> set rest \<Longrightarrow> mp_id r = mp_id q \<Longrightarrow> row_key_of lower r = row_key_of lower q"
    and "distinct (map mp_id rows)" and "\<And>q. q \<in> set rest \<Longrightarrow> mp_id q \<in> mp_id ` set rows"
  shows "reset_inv lower rest don rows"
  using assms unfolding reset_inv_def by blast

lemma reset_inv_restore:
  assumes inv: "reset_inv lower rest don rows" and i: "id_of lower (row_key_of lower p) rest = Some i"
    and d: "distinct (map mp_id rest)" and p: "row_key_of lower p \<notin> row_key_of lower ` set don"
  shows "reset_inv lower rest (p # don) (map (\<lambda>r. if mp_id r = i then restore_row now p r else r) rows)"
proof -
  let ?f = "\<lambda>r. if mp_id r = i then restore_row now p r else r"
  note inv = reset_invD [OF inv]
  from id_of_some [OF i] obtain q where q: "q \<in> set rest" "mp_id q = i" "row_key_of lower q = row_key_of lower p" by blast
  have key: "row_key_of lower r = row_key_of lower p" if "r \<in> set rows" "mp_id r = i" for r
    using inv(4) [OF that(1) q(1)] that(2) q by simp
  have kept: "r \<in> set (map ?f rows)" if "r \<in> set rows" "mp_id r \<noteq> i" for r
    using that by (auto intro!: image_eqI [of _ _ r])
  obtain s where s: "s \<in> set rows" "mp_id s = i" using inv(6) [OF q(1)] q(2) by auto
  show ?thesis
  proof (rule reset_invI)
    fix r assume "r \<in> set (map ?f rows)"
    then obtain r0 where r0: "r0 \<in> set rows" "r = ?f r0" by auto
    show "r \<in> set rest \<or> (\<exists>p\<in>set (p # don). like lower p r)"
      using inv(1) [OF r0(1)] r0(2) like_restored [OF key [OF r0(1)], of now] by (cases "mp_id r0 = i") auto
  next
    fix p' assume p': "p' \<in> set (p # don)"
    show "\<exists>r\<in>set (map ?f rows). like lower p' r"
    proof (cases "p' = p")
      case True
      have "?f s \<in> set (map ?f rows)" using s(1) by simp
      moreover have "like lower p (?f s)" using s like_restored [OF key [OF s], of now] by simp
      ultimately show ?thesis unfolding True by blast
    next
      case False
      with p' have "p' \<in> set don" by simp
      from inv(2) [OF this] obtain r where r: "r \<in> set rows" "like lower p' r" by blast
      have "mp_id r \<noteq> i" using key [OF r(1)] r(2) \<open>p' \<in> set don\<close> p by (metis image_eqI like_def)
      with r kept show ?thesis by blast
    qed
  next
    fix r assume r: "r \<in> set rest" "row_key_of lower r \<notin> row_key_of lower ` set (p # don)"
    then have "r \<in> set rows" using inv(3) by simp
    moreover have "mp_id r \<noteq> i" using r q d by (auto simp: distinct_map dest: inj_onD)
    ultimately show "r \<in> set (map ?f rows)" by (rule kept)
  next
    fix r q' assume "r \<in> set (map ?f rows)" "q' \<in> set rest" "mp_id r = mp_id q'"
    then obtain r0 where "r0 \<in> set rows" "r = ?f r0" "mp_id r0 = mp_id q'" by (auto split: if_splits)
    with inv(4) \<open>q' \<in> set rest\<close> show "row_key_of lower r = row_key_of lower q'" by (cases "mp_id r0 = i") auto
  next
    have "map mp_id (map ?f rows) = map mp_id rows" by simp
    then show "distinct (map mp_id (map ?f rows))" using inv(5) by (simp only:)
    from \<open>map mp_id (map ?f rows) = map mp_id rows\<close> have "mp_id ` set (map ?f rows) = mp_id ` set rows" by (metis set_map)
    then show "mp_id q' \<in> mp_id ` set (map ?f rows)" if "q' \<in> set rest" for q' using inv(6) [OF that] by simp
  qed
qed

lemma reset_inv_insert:
  assumes inv: "reset_inv lower rest don rows" and n: "id_of lower (row_key_of lower p) rest = None"
    and fresh: "new_id rows \<notin> mp_id ` set rows" and p: "mp_builtin p"
  shows "reset_inv lower rest (p # don) (insert_price new_id now p rows)"
proof -
  let ?r = "p\<lparr>mp_id := new_id rows, mp_enabled := True, mp_updated := now\<rparr>"
  have rows: "insert_price new_id now p rows = rows @ [?r]" by (simp add: insert_price_def)
  note inv = reset_invD [OF inv]
  have apart: "mp_id q \<noteq> new_id rows" if "q \<in> set rest" for q using inv(6) [OF that] fresh by auto
  show ?thesis unfolding rows
  proof (rule reset_invI)
    show "r \<in> set rest \<or> (\<exists>p\<in>set (p # don). like lower p r)" if "r \<in> set (rows @ [?r])" for r
      using inv(1) [of r] that like_copy [OF p] by auto
    show "\<exists>r\<in>set (rows @ [?r]). like lower p' r" if "p' \<in> set (p # don)" for p'
      using inv(2) [of p'] that like_copy [OF p] by auto
    show "r \<in> set (rows @ [?r])" if "r \<in> set rest" "row_key_of lower r \<notin> row_key_of lower ` set (p # don)" for r
      using inv(3) [of r] that by auto
    show "row_key_of lower r = row_key_of lower q"
      if "r \<in> set (rows @ [?r])" "q \<in> set rest" "mp_id r = mp_id q" for r q
      using inv(4) [of r q] that apart [of q] by auto
    show "distinct (map mp_id (rows @ [?r]))" using inv(5) fresh by simp
    show "mp_id q \<in> mp_id ` set (rows @ [?r])" if "q \<in> set rest" for q using inv(6) [OF that] by simp
  qed
qed

text \<open>A reset of the built-in prices leaves exactly one reading for each of them: every built-in
  key is held by an enabled row with the reference prices, every row marked as built-in carries the
  reference prices of its key, and a custom row survives as it was unless it holds a built-in key.\<close>

lemma reset_restores:
  assumes fresh: "\<forall>rows. new_id rows \<notin> mp_id ` set rows" and ids: "distinct (map mp_id rows)"
    and keys: "distinct (map (row_key_of lower) builtin)" and b: "\<forall>p\<in>set builtin. mp_builtin p"
    and r: "rows' = ResetBuiltin lower new_id now builtin rows"
  shows "(\<forall>p\<in>set builtin. \<exists>r\<in>set rows'. like lower p r) \<and>
    (\<forall>r\<in>set rows'. mp_builtin r \<longrightarrow> (\<exists>p\<in>set builtin. like lower p r)) \<and>
    (\<forall>r\<in>set rows. \<not> mp_builtin r \<and> row_key_of lower r \<notin> row_key_of lower ` set builtin \<longrightarrow> r \<in> set rows') \<and>
    distinct (map mp_id rows')"
proof -
  define rest where "rest = filter (\<lambda>r. \<not> mp_builtin r) rows"
  have d: "distinct (map mp_id rest)" unfolding rest_def using ids by (rule distinct_map_filter)
  let ?f = "\<lambda>p rows. case id_of lower (row_key_of lower p) rest of
       Some i \<Rightarrow> map (\<lambda>r. if mp_id r = i then restore_row now p r else r) rows | None \<Rightarrow> insert_price new_id now p rows"
  have "reset_inv lower rest (rev ps @ don) (fold ?f ps rows)"
    if "reset_inv lower rest don rows" "distinct (map (row_key_of lower) ps)"
      "row_key_of lower ` set ps \<inter> row_key_of lower ` set don = {}" "\<forall>p\<in>set ps. mp_builtin p" for ps don rows
    using that
  proof (induction ps arbitrary: don rows)
    case (Cons p ps)
    have "reset_inv lower rest (p # don) (?f p rows)"
    proof (cases "id_of lower (row_key_of lower p) rest")
      case None
      with Cons.prems fresh show ?thesis by (auto intro: reset_inv_insert)
    next
      case (Some i)
      with Cons.prems d show ?thesis by (auto intro: reset_inv_restore)
    qed
    from Cons.IH [OF this] Cons.prems show ?case by auto
  qed simp
  note run = this [of "[]" rest builtin]
  have start: "reset_inv lower rest [] rest"
  proof (rule reset_invI)
    have "inj_on mp_id (set rest)" using d by (simp add: distinct_map)
    then show "row_key_of lower x = row_key_of lower q" if "x \<in> set rest" "q \<in> set rest" "mp_id x = mp_id q" for x q
      using that by (metis inj_onD)
  qed (use d in auto)
  with run have "reset_inv lower rest (rev builtin) rows'"
    using keys b start by (simp add: r ResetBuiltin_def rest_def [symmetric])
  note fin = reset_invD [OF this]
  show ?thesis
  proof (intro conjI ballI impI)
    show "\<exists>r\<in>set rows'. like lower p r" if "p \<in> set builtin" for p using fin(2) that by simp
    show "\<exists>p\<in>set builtin. like lower p x" if "x \<in> set rows'" "mp_builtin x" for x
      using fin(1) [OF that(1)] that(2) by (simp add: rest_def)
    show "x \<in> set rows'" if "x \<in> set rows" "\<not> mp_builtin x \<and> row_key_of lower x \<notin> row_key_of lower ` set builtin" for x
      using fin(3) [of x] that by (simp add: rest_def)
  qed (rule fin(5))
qed

definition sample_new_id :: "model_price list \<Rightarrow> nat" where
  "sample_new_id rows = Suc (Max (insert 0 (mp_id ` set rows)))"

lemma sample_new_id_fresh: "sample_new_id rows \<notin> mp_id ` set rows"
proof
  assume "sample_new_id rows \<in> mp_id ` set rows"
  then have "sample_new_id rows \<le> Max (insert 0 (mp_id ` set rows))" by (intro Max_ge) auto
  then show False by (simp add: sample_new_id_def)
qed

lemma reset_restores_witness:
  "\<exists>r\<in>set (ResetBuiltin id sample_new_id 9 [sample_price ''zhipu'' ''glm-5'' 1 2]
      [(sample_price ''zhipu'' ''glm-5'' 7 7)\<lparr>mp_id := 4, mp_builtin := False, mp_enabled := False\<rparr>]).
     like id (sample_price ''zhipu'' ''glm-5'' 1 2) r"
  using reset_restores [of sample_new_id "[(sample_price ''zhipu'' ''glm-5'' 7 7)\<lparr>mp_id := 4, mp_builtin := False, mp_enabled := False\<rparr>]"
      id "[sample_price ''zhipu'' ''glm-5'' 1 2]" _ 9, OF _ _ _ _ refl] sample_new_id_fresh
  by (simp add: sample_price_def)

end
