(* ===== verification/Ledger.thy ===== *)
theory Ledger
  imports Pricing Journal
begin

text \<open>
  The cost ledger (\<open>src/internal/pricing/pricing.go\<close>): the migration of stored costs into US dollars and
  the hook that treats journal records without a stamp. The database is the metering database of
  theory \<open>Rollup\<close> with the two settings rows of the migration; its call logs are listed by id, so one
  pass over the list stands for the loops over batches of 500. A migration is one transaction: when
  any of its statements fails nothing of it remains.
\<close>

section \<open>Costs of attempts\<close>

definition attemptsCostSum :: "attemptRecord list \<Rightarrow> int \<times> bool" where
  "attemptsCostSum as = ((\<Sum>a\<leftarrow>as. at_cost a), \<exists>a\<in>set as. at_cost a \<noteq> 0)"

definition scale_attempt :: "rat \<Rightarrow> attemptRecord \<Rightarrow> attemptRecord" where
  "scale_attempt factor a = (if at_cost a = 0 then a else a\<lparr>at_cost := math_round (of_int (at_cost a) * factor)\<rparr>)"

definition scaleAttempts :: "attemptRecord list \<Rightarrow> rat \<Rightarrow> attemptRecord list \<times> bool" where
  "scaleAttempts as factor =
     (if as = [] \<or> factor = 1 \<or> (\<forall>a\<in>set as. at_cost a = 0) then (as, False) else (map (scale_attempt factor) as, True))"

section \<open>Classifying a row\<close>

definition ledgerOriginOf :: "string option \<Rightarrow> string" where
  "ledgerOriginOf marker =
     (case marker of
        None \<Rightarrow> ''v0''
      | Some m \<Rightarrow> if m = ''USD'' then ''v1'' else if m = ''usd-v2'' then ''v2'' else ''v3'')"

definition stamp_usd :: string where "stamp_usd = ''USD''"
definition stamp_unverified :: string where "stamp_unverified = ''unverified''"

definition classifyLegacyRow ::
  "call_log \<Rightarrow> string \<Rightarrow> time \<Rightarrow> rat \<Rightarrow> bool \<Rightarrow> int \<times> attemptRecord list \<times> string" where
  "classifyLegacyRow r origin markerTime rate cny =
     (let (total, priced) = attemptsCostSum (cl_attempts r); as = cl_attempts r; c = cl_cost r
      in if origin = ''v0'' then
           (if \<not> cny then (c, as, stamp_usd)
            else (math_round (of_int c / rate), fst (scaleAttempts as (1 / rate)), stamp_usd))
         else if origin = ''v1'' then
           (if rate < 4 \<and> priced \<and> total > 0 \<and> cl_created r < markerTime then (c, as, stamp_unverified)
            else if c > 0 \<and> priced \<and> of_int total / of_int c > (3 :: rat) then
              (c, fst (scaleAttempts as (of_int c / of_int total)), stamp_usd)
            else if priced \<and> total > 0 \<and> cl_created r < markerTime \<and> cny then
              (math_round (of_int c / rate), fst (scaleAttempts as (1 / rate)), stamp_usd)
            else (c, as, stamp_usd))
         else if origin = ''v2'' then
           (if c = 0 \<and> \<not> priced then (c, as, stamp_usd) else (c, as, stamp_unverified))
         else (c, as, stamp_usd))"

section \<open>Taking a row out of the rollup\<close>

definition take_out :: "dimKey \<times> counters \<Rightarrow> rollup \<Rightarrow> rollup" where
  \<comment> \<open>the \<open>UPDATE\<close> of the rollup rows with this key\<close>
  "take_out b t =
     (case b of (k, u) \<Rightarrow>
        if u CostSum = 0 \<and> u Requests = 0 then t
        else map (\<lambda>(k', c). if k' = k
               then (k', c(CostSum := c CostSum - u CostSum, CostUnverified := c CostUnverified + u Requests))
               else (k', c)) t)"

definition unbookUnverified :: "call_log \<Rightarrow> bool \<Rightarrow> rollup \<Rightarrow> rollup" where
  "unbookUnverified row scaleToRequest t =
     (let l = row\<lparr>cl_cost_ledger := []\<rparr>;
          (total, priced) = attemptsCostSum (cl_attempts l);
          l = (if scaleToRequest \<and> priced \<and> total > 0 \<and> cl_cost l > 0
               then l\<lparr>cl_attempts := fst (scaleAttempts (cl_attempts l) (of_int (cl_cost l) / of_int total))\<rparr> else l)
      in fold take_out (Aggregate [l]) t)"

section \<open>The migration\<close>

record ledger_state =
  lg_marker :: "(string \<times> time) option" \<comment> \<open>the row \<open>cost_ledger\<close> with its time of update\<close>
  lg_origin :: "string option" \<comment> \<open>the row \<open>cost_ledger_origin\<close>\<close>
  lg_db :: metering_db

definition divide_hours :: "rat \<Rightarrow> rollup \<Rightarrow> rollup" where
  "divide_hours rate t =
     map (\<lambda>(k, c). (k, if c CostSum \<noteq> 0 then c(CostSum := math_round (of_int (c CostSum) / rate)) else c)) t"

definition repair_row :: "bool \<Rightarrow> call_log \<Rightarrow> rollup \<Rightarrow> call_log \<times> rollup" where
  "repair_row scale l t =
     (if cl_cost_ledger l = stamp_unverified \<and> cl_cost_known l
      then (l\<lparr>cl_cost_known := False\<rparr>, unbookUnverified l scale t) else (l, t))"

definition migrate_row :: "string \<Rightarrow> bool \<Rightarrow> time \<Rightarrow> rat \<Rightarrow> bool \<Rightarrow> call_log \<Rightarrow> rollup \<Rightarrow> call_log \<times> rollup" where
  "migrate_row origin scale markerTime rate cny l t =
     (if cl_cost_ledger l \<noteq> [] then (l, t)
      else
        let (micros, att, stamp) = classifyLegacyRow l origin markerTime rate cny;
            l1 = l\<lparr>cl_cost := micros, cl_cost_ledger := stamp, cl_attempts := att\<rparr>
        in if stamp = stamp_unverified then (l1\<lparr>cl_cost_known := False\<rparr>, unbookUnverified l scale t) else (l1, t))"

fun through_rows :: "(call_log \<Rightarrow> rollup \<Rightarrow> call_log \<times> rollup) \<Rightarrow> call_log list \<Rightarrow> rollup \<Rightarrow> call_log list \<times> rollup" where
  \<comment> \<open>the loop over the rows, by id\<close>
  "through_rows f [] t = ([], t)"
| "through_rows f (l # ls) t = (case f l t of (l', t') \<Rightarrow> case through_rows f ls t' of (ls', t'') \<Rightarrow> (l' # ls', t''))"

definition migrating_origin :: "ledger_state \<Rightarrow> string" where
  "migrating_origin st =
     (case (lg_marker st, lg_origin st) of
        (Some (m, _), Some o') \<Rightarrow> if m = ''usd-v3'' \<and> o' \<noteq> [] then o' else ledgerOriginOf (Some m)
      | _ \<Rightarrow> ledgerOriginOf (map_option fst (lg_marker st)))"

definition migrate_tables :: "pricing_settings \<Rightarrow> ledger_state \<Rightarrow> call_log list \<Rightarrow> rollup \<Rightarrow> call_log list \<times> rollup" where
  "migrate_tables ps st ls t =
     (let found = lg_marker st \<noteq> None; repair = (map_option fst (lg_marker st) = Some ''usd-v3'');
          origin = migrating_origin st; markerTime = (case lg_marker st of Some (_, u) \<Rightarrow> u | None \<Rightarrow> 0);
          rate = usd_rate ps; cny = is_cny (ps_currency ps);
          t = (if cny \<and> \<not> found then divide_hours rate t else t);
          (ls, t) = (if repair then through_rows (repair_row (origin = ''v1'')) ls t else (ls, t))
      in through_rows (migrate_row (if repair then ''v2'' else origin) (origin = ''v1'') markerTime rate cny) ls t)"

definition MigrateLedger :: "time \<Rightarrow> pricing_settings \<Rightarrow> bool \<Rightarrow> ledger_state \<Rightarrow> ledger_state \<times> bool" where
  \<comment> \<open>the flag of the result: no error; a marker left at \<open>migrating\<close> belongs to another instance\<close>
  "MigrateLedger now ps failing st =
     (if map_option fst (lg_marker st) \<in> {Some ''usd-v4'', Some ''migrating''} then (st, True)
      else if failing then (st, False)
      else
        case migrate_tables ps st (mdb_logs (lg_db st)) (mdb_rollup (lg_db st)) of
          (ls, t) \<Rightarrow>
            (st\<lparr>lg_marker := Some (''usd-v4'', now),
                lg_origin := (case lg_origin st of Some o' \<Rightarrow> Some o' | None \<Rightarrow> Some (migrating_origin st)),
                lg_db := (lg_db st)\<lparr>mdb_logs := ls, mdb_rollup := t\<rparr>\<rparr>, True))"

section \<open>The hook of the journal\<close>

definition LegacyCostFixer ::
  "pricing_settings \<Rightarrow> string option \<Rightarrow> (string \<times> time) option \<Rightarrow> call_log \<Rightarrow> call_log" where
  \<comment> \<open>\<open>origin0\<close> and \<open>marker\<close> are the settings rows as the hook found them when it was made\<close>
  "LegacyCostFixer ps origin0 marker l =
     (let origin = (case origin0 of Some o' \<Rightarrow> o' | None \<Rightarrow> ''v3'')
      in if cl_cost_ledger l \<noteq> [] then l
         else if origin = ''v0'' \<and> (case marker of None \<Rightarrow> True | Some (_, migratedAt) \<Rightarrow> cl_created l < migratedAt) then
           (if is_cny (ps_currency ps)
            then l\<lparr>cl_cost := math_round (of_int (cl_cost l) / usd_rate ps),
                   cl_attempts := fst (scaleAttempts (cl_attempts l) (1 / usd_rate ps)), cl_cost_ledger := stamp_usd\<rparr>
            else l\<lparr>cl_cost_ledger := stamp_usd\<rparr>)
         else if origin = ''v0'' \<or> origin = ''v1'' then l\<lparr>cl_cost_ledger := stamp_usd\<rparr>
         else if cl_cost l = 0 \<and> \<not> snd (attemptsCostSum (cl_attempts l)) then l\<lparr>cl_cost_ledger := stamp_usd\<rparr>
         else l\<lparr>cl_cost_ledger := stamp_unverified, cl_cost_known := False\<rparr>)"

lemma through_length: "through_rows f ls t = (ls', t') \<Longrightarrow> length ls' = length ls"
  by (induction f ls t arbitrary: ls' t' rule: through_rows.induct) (auto split: prod.splits)

lemma through_nth:
  assumes "through_rows f ls t = (ls', t')" "i < length ls"
  shows "\<exists>t1. ls' ! i = fst (f (ls ! i) t1)"
  using assms
proof (induction f ls t arbitrary: ls' t' i rule: through_rows.induct)
  case (2 f l ls t)
  then show ?case by (cases i) (auto split: prod.splits simp: prod_eq_iff)
qed simp

section \<open>Taking out is booking again\<close>

definition adjustment :: "counters \<Rightarrow> counters" where
  "adjustment u m = (if m = CostSum then - u CostSum else if m = CostUnverified then u Requests else 0)"

lemma keys_upsert [simp]: "fst ` set (upsert k c t) = insert k (fst ` set t)"
  by (induction k c t rule: upsert.induct) auto

lemma distinct_upsert: "distinct (map fst t) \<Longrightarrow> distinct (map fst (upsert k c t))"
proof (induction k c t rule: upsert.induct)
  case (2 k c k' c' t)
  have "fst ` set (upsert k c t) = insert k (fst ` set t)" by simp
  with 2 show ?case by (auto simp del: keys_upsert)
qed simp

lemma keys_add_all: "fst ` set (add_all bs t) = fst ` set bs \<union> fst ` set t"
  by (induction bs arbitrary: t) (simp_all add: add_all_def split_def)

lemma distinct_add_all: "distinct (map fst t) \<Longrightarrow> distinct (map fst (add_all bs t))"
  by (induction bs arbitrary: t) (auto simp: add_all_def distinct_upsert)

lemma keys_take_out [simp]: "map fst (take_out b t) = map fst t"
  by (auto simp: take_out_def split: prod.splits)

lemma keys_take_outs [simp]: "map fst (fold take_out bs t) = map fst t"
  by (induction bs arbitrary: t) auto

lemma summed_absent: "k \<notin> fst ` set t \<Longrightarrow> map (\<lambda>(k', c). if k' = k then f k' c else (k', c)) t = t"
  by (rule map_idI) force

lemma summed_take_out:
  assumes "distinct (map fst t)" and "P k \<Longrightarrow> k \<in> fst ` set t"
  shows "summed P m (take_out (k, u) t) = summed P m t + (if P k then adjustment u m else 0)"
proof (cases "u CostSum = 0 \<and> u Requests = 0")
  case True
  then show ?thesis by (simp add: take_out_def adjustment_def)
next
  case False
  let ?g = "\<lambda>(k', c). if k' = k then (k', c(CostSum := c CostSum - u CostSum, CostUnverified := c CostUnverified + u Requests)) else (k', c)"
  have "summed P m (map ?g t) = summed P m t + (if P k \<and> k \<in> fst ` set t then adjustment u m else 0)"
    using assms(1)
  proof (induction t)
    case (Cons x t)
    obtain k' c where x: "x = (k', c)" by fastforce
    show ?case
    proof (cases "k' = k")
      case True
      then have "k \<notin> fst ` set t" using Cons.prems by (simp add: x)
      then have "map ?g t = t" by (rule summed_absent)
      with True show ?thesis by (simp add: x adjustment_def)
    next
      case False
      with Cons show ?thesis by (simp add: x)
    qed
  qed simp
  with False assms(2) show ?thesis by (auto simp: take_out_def)
qed

lemma summed_take_outs:
  assumes "distinct (map fst t)" and "\<And>k. k \<in> fst ` set bs \<Longrightarrow> P k \<Longrightarrow> k \<in> fst ` set t"
  shows "summed P m (fold take_out bs t) = summed P m t + (\<Sum>(k, u)\<leftarrow>bs. if P k then adjustment u m else 0)"
  using assms
proof (induction bs arbitrary: t)
  case (Cons b bs)
  obtain k u where b: "b = (k, u)" by fastforce
  have "fst ` set (take_out b t) = fst ` set t" by (metis keys_take_out set_map)
  then have "summed P m (fold take_out bs (take_out b t)) =
      summed P m (take_out b t) + (\<Sum>(k, u)\<leftarrow>bs. if P k then adjustment u m else 0)"
    using Cons.prems by (intro Cons.IH) auto
  then show ?case using summed_take_out [of t P k m u] Cons.prems by (simp add: b)
qed simp

lemma adjustment_sum:
  "(\<Sum>(k, u)\<leftarrow>bs. if P k then adjustment u m else 0) =
     adjustment (\<lambda>m. \<Sum>(k, u)\<leftarrow>bs. if P k then u m else 0) m"
  by (induction bs) (auto simp: adjustment_def)

lemma booked_unverified:
  assumes "cl_cost_ledger l = []"
  shows "booked P m (l\<lparr>cl_cost_ledger := stamp_unverified, cl_cost_known := b\<rparr>) =
    booked P m l + adjustment (\<lambda>m. booked P m l) m"
proof -
  let ?l = "l\<lparr>cl_cost_ledger := stamp_unverified, cl_cost_known := b\<rparr>"
  have v: "cost_verified l" "\<not> cost_verified ?l" using assms by (simp_all add: cost_verified_def stamp_unverified_def)
  have k: "row_key ?l = row_key l" by (simp add: row_key_def fun_eq_iff)
  have att: "(\<Sum>(k, c)\<leftarrow>map (attempt_booking ?l) as. if P k then c m else 0) =
      (\<Sum>(k, c)\<leftarrow>map (attempt_booking l) as. if P k then c m else 0) +
      adjustment (\<lambda>m. \<Sum>(k, c)\<leftarrow>map (attempt_booking l) as. if P k then c m else 0) m" for as
    by (induction as) (use v k in \<open>auto simp: attempt_booking_def adjustment_def\<close>)
  have sums: "attempt_sum f ?l = attempt_sum f l" for f by (simp add: attempt_sum_def)
  show ?thesis
    unfolding booked_def bookings_def using att [of "cl_attempts l"] v k
    by (auto simp: request_booking_def remainder_booking_def Let_def sums adjustment_def)
qed

lemma unbook_booked:
  assumes "cl_cost_ledger l = []" "distinct (map fst t)" and "\<And>k. k \<in> fst ` set (bookings l) \<Longrightarrow> P k \<Longrightarrow> k \<in> fst ` set t"
  shows "summed P m (unbookUnverified l False t) =
    summed P m t + booked P m (l\<lparr>cl_cost_ledger := stamp_unverified, cl_cost_known := b\<rparr>) - booked P m l"
proof -
  have l: "l\<lparr>cl_cost_ledger := []\<rparr> = l" using assms(1) by simp
  have keys: "fst ` set (Aggregate [l]) = fst ` set (bookings l)" by (simp add: Aggregate_def keys_add_all)
  have "summed P m (fold take_out (Aggregate [l]) t) =
      summed P m t + adjustment (\<lambda>m. \<Sum>(k, u)\<leftarrow>Aggregate [l]. if P k then u m else 0) m"
    using summed_take_outs [OF assms(2), of "Aggregate [l]" P m] assms(3) unfolding keys adjustment_sum by simp
  moreover have "(\<lambda>m. \<Sum>(k, u)\<leftarrow>Aggregate [l]. if P k then u m else 0) = (\<lambda>m. booked P m l)"
    using summed_Aggregate [of P _ "[l]"] by (auto simp: summed_def)
  ultimately show ?thesis
    using booked_unverified [OF assms(1), of P m b] by (simp add: unbookUnverified_def l split: prod.split)
qed

text \<open>Taking an unverified row out of the rollup is exact: the rollup then counts, in every
  metric and over any set of its keys, what it would have counted had the row been booked as
  unverified in the first place.\<close>

lemma unbook_rebooks:
  assumes "cl_cost_ledger l = []" "distinct (map fst t)"
  shows "summed P m (unbookUnverified l False (applyRollup [l] t)) =
    summed P m (applyRollup [l\<lparr>cl_cost_ledger := stamp_unverified, cl_cost_known := False\<rparr>] t)"
proof -
  have "distinct (map fst (applyRollup [l] t))" unfolding applyRollup_def using assms(2) by (rule distinct_add_all)
  moreover have "fst ` set (bookings l) \<subseteq> fst ` set (applyRollup [l] t)"
    by (auto simp: applyRollup_def Aggregate_def keys_add_all)
  ultimately have "summed P m (unbookUnverified l False (applyRollup [l] t)) = summed P m (applyRollup [l] t) +
      booked P m (l\<lparr>cl_cost_ledger := stamp_unverified, cl_cost_known := False\<rparr>) - booked P m l"
    by (intro unbook_booked assms(1)) auto
  then show ?thesis by (simp add: summed_applyRollup summed_Aggregate)
qed

section \<open>Migrating an early 1.0.14 database\<close>

lemma keys_unbook [simp]: "map fst (unbookUnverified l s t) = map fst t"
  by (simp add: unbookUnverified_def Let_def split: prod.split)

lemma keys_unbook_set: "fst ` set (unbookUnverified l s t) = fst ` set t"
  by (metis keys_unbook set_map)

lemma migrate_v2:
  "migrate_row ''v2'' scale markerTime rate cny l t =
     (if cl_cost_ledger l \<noteq> [] then (l, t)
      else if cl_cost l = 0 \<and> (\<forall>a\<in>set (cl_attempts l). at_cost a = 0) then (l\<lparr>cl_cost_ledger := stamp_usd\<rparr>, t)
      else (l\<lparr>cl_cost_ledger := stamp_unverified, cl_cost_known := False\<rparr>, unbookUnverified l scale t))"
  by (auto simp: migrate_row_def classifyLegacyRow_def attemptsCostSum_def stamp_usd_def stamp_unverified_def Let_def)

lemma booked_usd: "cl_cost_ledger l = [] \<Longrightarrow> booked P m (l\<lparr>cl_cost_ledger := stamp_usd\<rparr>) = booked P m l"
proof -
  assume l: "cl_cost_ledger l = []"
  let ?l = "l\<lparr>cl_cost_ledger := stamp_usd\<rparr>"
  have v: "cost_verified l" "cost_verified ?l" using l by (simp_all add: cost_verified_def stamp_usd_def)
  have "row_key ?l = row_key l" by (simp add: row_key_def fun_eq_iff)
  moreover from this v have "attempt_booking ?l = attempt_booking l" by (simp add: attempt_booking_def fun_eq_iff)
  moreover have "attempt_sum f ?l = attempt_sum f l" for f by (simp add: attempt_sum_def)
  ultimately show ?thesis using v by (simp add: booked_def bookings_def request_booking_def remainder_booking_def)
qed

lemma through_v2:
  assumes "through_rows (migrate_row ''v2'' False markerTime rate cny) ls t = (ls', t')" and "distinct (map fst t)"
    and "\<And>l k. l \<in> set ls \<Longrightarrow> k \<in> fst ` set (bookings l) \<Longrightarrow> P k \<Longrightarrow> k \<in> fst ` set t"
  shows "summed P m t' - summed P m t = (\<Sum>l\<leftarrow>ls'. booked P m l) - (\<Sum>l\<leftarrow>ls. booked P m l)"
    and "map fst t' = map fst t" and "\<forall>l\<in>set ls. consistent l \<Longrightarrow> \<forall>l\<in>set ls'. consistent l"
    and "\<forall>l\<in>set ls'. cl_cost_ledger l \<noteq> []"
proof -
  have "summed P m t' - summed P m t = (\<Sum>l\<leftarrow>ls'. booked P m l) - (\<Sum>l\<leftarrow>ls. booked P m l) \<and> map fst t' = map fst t \<and>
      ((\<forall>l\<in>set ls. consistent l) \<longrightarrow> (\<forall>l\<in>set ls'. consistent l)) \<and> (\<forall>l\<in>set ls'. cl_cost_ledger l \<noteq> [])"
    using assms
  proof (induction ls arbitrary: t ls' t')
    case (Cons l ls)
    let ?f = "migrate_row ''v2'' False markerTime rate cny"
    obtain l1 t1 ls2 where l1: "?f l t = (l1, t1)" and rest: "through_rows ?f ls t1 = (ls2, t')" and ls': "ls' = l1 # ls2"
      using Cons.prems(1) by (auto split: prod.splits)
    have step: "summed P m t1 - summed P m t = booked P m l1 - booked P m l \<and> map fst t1 = map fst t \<and>
        (consistent l \<longrightarrow> consistent l1) \<and> cl_cost_ledger l1 \<noteq> []"
    proof (cases "cl_cost_ledger l = [] \<and> \<not> (cl_cost l = 0 \<and> (\<forall>a\<in>set (cl_attempts l). at_cost a = 0))")
      case True
      then have eq: "l1 = l\<lparr>cl_cost_ledger := stamp_unverified, cl_cost_known := False\<rparr>" "t1 = unbookUnverified l False t"
        using l1 by (auto simp: migrate_v2 split: if_splits)
      have "summed P m t1 = summed P m t + booked P m l1 - booked P m l"
        unfolding eq using True Cons.prems by (intro unbook_booked) auto
      then show ?thesis by (auto simp: eq stamp_unverified_def consistent_def attempt_sum_def cost_verified_def)
    next
      case False
      then show ?thesis using l1 booked_usd [of l P m]
        by (auto simp: migrate_v2 stamp_usd_def consistent_def attempt_sum_def cost_verified_def split: if_splits)
    qed
    then have d: "distinct (map fst t1)" and keys: "fst ` set t1 = fst ` set t" using Cons.prems(2) by (simp, metis set_map)
    have "summed P m t' - summed P m t1 = (\<Sum>l\<leftarrow>ls2. booked P m l) - (\<Sum>l\<leftarrow>ls. booked P m l) \<and> map fst t' = map fst t1 \<and>
        ((\<forall>l\<in>set ls. consistent l) \<longrightarrow> (\<forall>l\<in>set ls2. consistent l)) \<and> (\<forall>l\<in>set ls2. cl_cost_ledger l \<noteq> [])"
      using Cons.prems(3) by (intro Cons.IH [OF rest d]) (auto simp: keys)
    with step show ?case by (auto simp: ls')
  qed simp
  then show "summed P m t' - summed P m t = (\<Sum>l\<leftarrow>ls'. booked P m l) - (\<Sum>l\<leftarrow>ls. booked P m l)"
    and "map fst t' = map fst t" and "\<forall>l\<in>set ls. consistent l \<Longrightarrow> \<forall>l\<in>set ls'. consistent l"
    and "\<forall>l\<in>set ls'. cl_cost_ledger l \<noteq> []" by blast+
qed

lemma booked_nonneg: "0 \<le> booked P Requests l" "0 \<le> booked P Attempts l"
  unfolding booked_def bookings_def
  by (auto simp: request_booking_def remainder_booking_def attempt_booking_def Let_def intro!: add_nonneg_nonneg sum_list_nonneg)

lemma booked_key:
  assumes "k \<in> fst ` set (bookings l)"
  shows "0 < booked (\<lambda>k'. k' = k) Requests l + booked (\<lambda>k'. k' = k) Attempts l"
proof -
  let ?P = "\<lambda>k'. k' = k"
  from assms consider "k = own_key l" | a where "a \<in> set (cl_attempts l)" "k = row_key l (at_account a) (at_provider a)"
    by (auto simp: bookings_def request_booking_def remainder_booking_def attempt_booking_def own_key_def Let_def)
  then show ?thesis
  proof cases
    case 1
    have "(\<Sum>(k, c)\<leftarrow>map (attempt_booking l) as. if ?P k then c Requests else 0) = 0" for as
      by (induction as) (auto simp: attempt_booking_def)
    then have "booked ?P Requests l = 1"
      unfolding booked_def bookings_def using 1
      by (simp add: request_booking_def remainder_booking_def own_key_def Let_def)
    then show ?thesis using booked_nonneg(2) [of ?P l] by simp
  next
    case 2
    have one: "(case attempt_booking l b of (k', c) \<Rightarrow> if ?P k' then c Attempts else 0) =
        (if row_key l (at_account b) (at_provider b) = k then 1 else 0)" for b by (simp add: attempt_booking_def)
    have ge: "0 \<le> (\<Sum>(k, c)\<leftarrow>map (attempt_booking l) as. if ?P k then c Attempts else 0)" for as
      by (induction as) (simp_all add: one)
    have "0 < (\<Sum>(k, c)\<leftarrow>map (attempt_booking l) as. if ?P k then c Attempts else 0)" if "a \<in> set as" for as
      using that
    proof (induction as)
      case (Cons b as)
      then show ?case using ge [of as] 2(2) [symmetric] by (cases "a = b") (simp_all add: one)
    qed simp
    from this [OF 2(1)] have "0 < booked ?P Attempts l"
      unfolding booked_def bookings_def by (simp add: request_booking_def remainder_booking_def Let_def)
    then show ?thesis using booked_nonneg(1) [of ?P l] by simp
  qed
qed

lemma live_present:
  assumes "live db" "l \<in> set (mdb_logs db)" "k \<in> fst ` set (bookings l)" "recent db (dk_hour k)"
  shows "k \<in> fst ` set (mdb_rollup db)"
proof (rule ccontr)
  assume "k \<notin> fst ` set (mdb_rollup db)"
  then have "\<forall>x\<in>set (mdb_rollup db). (case x of (k', c) \<Rightarrow> if k' = k then c m else 0) = 0" for m by force
  then have none: "summed (\<lambda>k'. k' = k) m (mdb_rollup db) = 0" for m unfolding summed_def by (rule sum_list_zero)
  moreover have "summed (\<lambda>k'. k' = k) m (mdb_rollup db) = (\<Sum>l\<leftarrow>mdb_logs db. booked (\<lambda>k'. k' = k) m l)" for m
    using assms(1,4) by (simp add: live_def summed_Aggregate)
  moreover have "booked (\<lambda>k'. k' = k) m l \<le> (\<Sum>l\<leftarrow>mdb_logs db. booked (\<lambda>k'. k' = k) m l)" if "m \<in> {Requests, Attempts}" for m
    using assms(2) that booked_nonneg by (intro member_le_sum_list) auto
  ultimately show False using booked_key [OF assms(3)] by (metis add_nonpos_nonpos insertCI not_less)
qed

text \<open>Property C29: migrating a database of an early 1.0.14 keeps the books: if logs and rollup agreed over
  the hours whose logs are complete, they agree after the migration, with every undecidable row counted
  as unverified and its amount taken out on both sides, and every row stamped.\<close>

theorem migration_reconciles:
  assumes sound: "sound_metering (lg_db st)" and d: "distinct (map fst (mdb_rollup (lg_db st)))"
    and m: "lg_marker st = Some (''usd-v2'', u)" and run: "MigrateLedger now ps False st = (st', ok)"
  shows "sound_metering (lg_db st') \<and> (\<forall>l\<in>set (mdb_logs (lg_db st')). cl_cost_ledger l \<noteq> []) \<and>
    lg_marker st' = Some (''usd-v4'', now) \<and> length (mdb_logs (lg_db st')) = length (mdb_logs (lg_db st))"
proof -
  let ?db = "lg_db st"
  obtain ls t where through: "through_rows (migrate_row ''v2'' False u (usd_rate ps) (is_cny (ps_currency ps)))
      (mdb_logs ?db) (mdb_rollup ?db) = (ls, t)" by fastforce
  have st': "lg_db st' = ?db\<lparr>mdb_logs := ls, mdb_rollup := t\<rparr>" "lg_marker st' = Some (''usd-v4'', now)"
    using run m through by (auto simp: MigrateLedger_def migrate_tables_def migrating_origin_def ledgerOriginOf_def split: option.splits)
  note live = sound [unfolded sound_metering_def, THEN conjunct1]
  have sums: "summed P m t - summed P m (mdb_rollup ?db) = (\<Sum>l\<leftarrow>ls. booked P m l) - (\<Sum>l\<leftarrow>mdb_logs ?db. booked P m l)"
    if "\<forall>k. P k \<longrightarrow> recent ?db (dk_hour k)" for P :: "dimKey \<Rightarrow> bool" and m
    by (rule through_v2(1) [OF through d]) (use that live_present [OF live] in blast)
  have "live (lg_db st')"
    unfolding live_def st'(1)
  proof (intro allI impI)
    fix P :: "dimKey \<Rightarrow> bool" and m assume "\<forall>k. P k \<longrightarrow> recent (?db\<lparr>mdb_logs := ls, mdb_rollup := t\<rparr>) (dk_hour k)"
    then have r: "\<forall>k. P k \<longrightarrow> recent ?db (dk_hour k)" by (simp add: recent_def)
    with live have "summed P m (mdb_rollup ?db) = (\<Sum>l\<leftarrow>mdb_logs ?db. booked P m l)" by (simp add: live_def summed_Aggregate)
    with sums [OF r, of m] show "summed P m (mdb_rollup (?db\<lparr>mdb_logs := ls, mdb_rollup := t\<rparr>)) =
        summed P m (Aggregate (mdb_logs (?db\<lparr>mdb_logs := ls, mdb_rollup := t\<rparr>)))" by (simp add: summed_Aggregate)
  qed
  moreover have "length ls = length (mdb_logs ?db)"
    by (rule through_length [OF through])
  moreover have "(\<forall>l\<in>set ls. consistent l) \<and> (\<forall>l\<in>set ls. cl_cost_ledger l \<noteq> [])"
    using through_v2(3,4) [OF through d, of "\<lambda>_. False"] sound by (simp add: sound_metering_def)
  ultimately show ?thesis using st' by (simp add: sound_metering_def)
qed

section \<open>Amounts are converted once\<close>

definition amounts :: "call_log \<Rightarrow> int \<times> int list \<times> string" where
  "amounts l = (cl_cost l, map at_cost (cl_attempts l), cl_cost_ledger l)"

text \<open>
  What happens to the stored rows: migrations under any settings, at any time, failing or not; commits
  of journal records, stamped or not, through a hook made at any earlier start; rebuilds; and the
  reports. Old rows may also be purged, which only removes rows. Beside the database goes what each
  of its rows was when it came: itself for those there at the beginning, the journal record for the
  others.
\<close>

inductive ledger_step :: "(int \<Rightarrow> time \<Rightarrow> time) \<Rightarrow> ledger_state \<times> call_log list \<Rightarrow> ledger_state \<times> call_log list \<Rightarrow> bool"
  for add_days where
  ls_migrate: "ledger_step add_days (st, src) (fst (MigrateLedger now ps failing st), src)"
| ls_commit: "ledger_step add_days (st, src)
    (st\<lparr>lg_db := commit_rows (map (\<lambda>l. LegacyCostFixer ps origin0 marker (fst (normalizeLegacyUsage l))) fresh) (lg_db st)\<rparr>,
     src @ fresh)"
| ls_rebuild: "Rebuild add_days from til days now (lg_db st) = Some (db', hours, n) \<Longrightarrow>
    ledger_step add_days (st, src) (st\<lparr>lg_db := db'\<rparr>, src)"

definition migrated :: "ledger_state \<Rightarrow> bool" where
  "migrated st \<longleftrightarrow> (map_option fst (lg_marker st) = Some ''usd-v4'' \<longrightarrow> (\<forall>l\<in>set (mdb_logs (lg_db st)). cl_cost_ledger l \<noteq> []))"

definition settled :: "call_log list \<Rightarrow> call_log list \<Rightarrow> bool" where
  \<comment> \<open>the rows stamped before have the amounts they had\<close>
  "settled ls ls' \<longleftrightarrow> length ls = length ls' \<and>
     (\<forall>i<length ls. cl_cost_ledger (ls ! i) \<noteq> [] \<longrightarrow> amounts (ls' ! i) = amounts (ls ! i))"

lemma settled_refl: "settled ls ls"
  by (simp add: settled_def)

lemma settled_trans: "settled ls ls' \<Longrightarrow> settled ls' ls'' \<Longrightarrow> settled ls ls''"
  unfolding settled_def amounts_def by (metis (no_types, lifting) prod.inject)

lemma settled_through:
  assumes "through_rows f ls t = (ls', t')" and "\<And>l t. cl_cost_ledger l \<noteq> [] \<Longrightarrow> amounts (fst (f l t)) = amounts l"
  shows "settled ls ls'"
  using through_length [OF assms(1)] through_nth [OF assms(1)] assms(2) unfolding settled_def by fastforce

lemma amounts_stamped:
  "cl_cost_ledger l \<noteq> [] \<Longrightarrow> amounts (fst (migrate_row origin scale markerTime rate cny l t)) = amounts l"
  "amounts (fst (repair_row scale l t)) = amounts l"
  by (simp_all add: migrate_row_def repair_row_def amounts_def)

lemma migrate_tables_rows:
  assumes "migrate_tables ps st ls t = (ls', t')"
  shows "settled ls ls'" and "\<forall>l\<in>set ls'. cl_cost_ledger l \<noteq> []"
proof -
  let ?repair = "map_option fst (lg_marker st) = Some ''usd-v3''" and ?v1 = "migrating_origin st = ''v1''"
  let ?g = "migrate_row (if ?repair then ''v2'' else migrating_origin st) ?v1 (case lg_marker st of Some (_, u) \<Rightarrow> u | None \<Rightarrow> 0)
    (usd_rate ps) (is_cny (ps_currency ps))"
  obtain ls1 t0 t1 where "(if ?repair then through_rows (repair_row ?v1) ls t0 else (ls, t0)) = (ls1, t1)"
    and last: "through_rows ?g ls1 t1 = (ls', t')"
    using assms unfolding migrate_tables_def Let_def by (auto split: prod.splits)
  then have "settled ls ls1"
    by (auto split: if_splits intro: settled_refl settled_through [where f = "repair_row ?v1"] simp: amounts_stamped)
  moreover have "settled ls1 ls'" by (rule settled_through [OF last]) (rule amounts_stamped)
  ultimately show "settled ls ls'" by (rule settled_trans)
  have "cl_cost_ledger (fst (?g l t)) \<noteq> []" for l t
    by (auto simp: migrate_row_def classifyLegacyRow_def stamp_usd_def stamp_unverified_def Let_def split: prod.splits)
  then show "\<forall>l\<in>set ls'. cl_cost_ledger l \<noteq> []"
    using through_nth [OF last] through_length [OF last] by (metis in_set_conv_nth)
qed

lemma fixed_stamped: "cl_cost_ledger (LegacyCostFixer ps origin0 marker l) \<noteq> []"
  by (simp add: LegacyCostFixer_def Let_def stamp_usd_def stamp_unverified_def)

lemma normal_amounts: "amounts (normal l) = amounts l"
  by (simp add: amounts_def normal_def normalizeLegacyUsage_def Let_def)

text \<open>The hook leaves a record with a stamp as it is, and gives every other one a stamp.\<close>

lemma fixed_once: "cl_cost_ledger l \<noteq> [] \<Longrightarrow> LegacyCostFixer ps origin0 marker l = l"
  by (simp add: LegacyCostFixer_def Let_def)

lemma normal_stamp: "cl_cost_ledger (normal l) = cl_cost_ledger l"
  using normal_amounts [of l] by (simp add: amounts_def)

lemma committed_amounts:
  "cl_cost_ledger l \<noteq> [] \<Longrightarrow> amounts (LegacyCostFixer ps origin0 marker (normal l)) = amounts l"
  using fixed_once [of "normal l" ps origin0 marker] by (simp add: normal_stamp normal_amounts)

lemma settled_append:
  "settled src ls \<Longrightarrow> length fresh = length new \<Longrightarrow>
   (\<And>i. i < length fresh \<Longrightarrow> cl_cost_ledger (fresh ! i) \<noteq> [] \<Longrightarrow> amounts (new ! i) = amounts (fresh ! i)) \<Longrightarrow>
   settled (src @ fresh) (ls @ new)"
  by (auto simp: settled_def nth_append)

lemma ledger_step_settles:
  assumes "ledger_step add_days x y" and "settled (snd x) (mdb_logs (lg_db (fst x)))"
  shows "settled (snd y) (mdb_logs (lg_db (fst y))) \<and> (migrated (fst x) \<longrightarrow> migrated (fst y)) \<and>
    (\<exists>fresh. snd y = snd x @ fresh)"
  using assms
proof (induction rule: ledger_step.induct)
  case (ls_migrate st src now ps failing)
  show ?case
  proof (cases "map_option fst (lg_marker st) \<in> {Some ''usd-v4'', Some ''migrating''} \<or> failing")
    case True
    then show ?thesis using ls_migrate by (auto simp: MigrateLedger_def)
  next
    case False
    obtain ls t where m: "migrate_tables ps st (mdb_logs (lg_db st)) (mdb_rollup (lg_db st)) = (ls, t)" by fastforce
    then have "settled src ls" using settled_trans migrate_tables_rows(1) [OF m] ls_migrate by auto
    with False migrate_tables_rows(2) [OF m] show ?thesis
      using m by (simp add: MigrateLedger_def migrated_def del: m)
  qed
next
  case (ls_commit st src ps origin0 marker fresh)
  have "mdb_logs (commit_rows (map (\<lambda>l. LegacyCostFixer ps origin0 marker (fst (normalizeLegacyUsage l))) fresh) (lg_db st)) =
      mdb_logs (lg_db st) @ map (\<lambda>l. LegacyCostFixer ps origin0 marker (normal l)) fresh"
    by (simp add: commit_rows_def normal_def)
  moreover have "settled (src @ fresh) (mdb_logs (lg_db st) @ map (\<lambda>l. LegacyCostFixer ps origin0 marker (normal l)) fresh)"
    using ls_commit committed_amounts by (intro settled_append) auto
  ultimately show ?case using fixed_stamped by (auto simp: migrated_def)
next
  case (ls_rebuild f til days now st db' hours n src)
  note logs = Rebuild_some(3) [OF ls_rebuild(1)]
  have "settled (mdb_logs (lg_db st)) (mdb_logs db')"
    by (auto simp: settled_def logs normal_amounts)
  with ls_rebuild(2) settled_trans show ?case by (auto simp: logs migrated_def normal_stamp)
qed

text \<open>Property C28: an amount with a stamp is never converted again: whatever migrations, commits of
  journal records and rebuilds follow, under whatever settings and hooks, a row that was stamped
  when it came (it was in the database, or the journal record already had its stamp) keeps its cost,
  the costs of its attempts and its stamp. And once a database is marked as migrated, every row in
  it has a stamp, so that no later migration finds anything to do.\<close>

theorem converted_once:
  assumes "(ledger_step add_days)\<^sup>*\<^sup>* (st, mdb_logs (lg_db st)) (st', src)"
  shows "(\<exists>fresh. src = mdb_logs (lg_db st) @ fresh) \<and> length (mdb_logs (lg_db st')) = length src \<and>
    (\<forall>i<length src. cl_cost_ledger (src ! i) \<noteq> [] \<longrightarrow> amounts (mdb_logs (lg_db st') ! i) = amounts (src ! i)) \<and>
    (migrated st \<longrightarrow> migrated st')"
proof -
  from assms have "settled (snd (st', src)) (mdb_logs (lg_db (fst (st', src)))) \<and> (migrated st \<longrightarrow> migrated (fst (st', src))) \<and>
      (\<exists>fresh. snd (st', src) = mdb_logs (lg_db st) @ fresh)"
  proof (induction rule: rtranclp_induct)
    case (step x y)
    with ledger_step_settles [OF step(2)] show ?case by fastforce
  qed (simp add: settled_refl)
  then show ?thesis by (simp add: settled_def)
qed

text \<open>The hook of the journal only touches costs, so what theory \<open>Journal\<close> shows of the journal for any such
  hook holds for this one.\<close>

lemma fixer_keeps_id: "keeps_id (LegacyCostFixer ps origin0 marker)"
  by (simp add: keeps_id_def LegacyCostFixer_def Let_def)

text \<open>Property C30: the hook against the migration, for a record that was still in the journal then. For
  a database that came from 1.0.12 (if the record is older than the migration) and for one of an
  early 1.0.14 the hook gives the record the costs and the stamp the migration would have given it.
  For one that came from 1.0.13 it does not: a record of 1.0.12 priced alike on both sides, which the
  migration divides by the rate, the hook stamps as US dollars as it is.\<close>

theorem fixer_as_migration:
  fixes l :: call_log and ps :: pricing_settings and origin mark :: string and migratedAt markerTime :: time
    and scale :: bool and t :: rollup
  assumes "cl_cost_ledger l = []"
  defines "spent \<equiv> (\<Sum>a\<leftarrow>cl_attempts l. at_cost a)"
    and "hook \<equiv> LegacyCostFixer ps (Some origin) (Some (mark, migratedAt)) l"
    and "row \<equiv> fst (migrate_row origin scale markerTime (usd_rate ps) (is_cny (ps_currency ps)) l t)"
  shows "(origin = ''v0'' \<and> cl_created l < migratedAt \<or> origin = ''v2'' \<longrightarrow> hook = row) \<and>
    (origin = ''v1'' \<and> is_cny (ps_currency ps) \<and> 4 \<le> usd_rate ps \<and> 0 < spent \<and> spent \<le> 3 * cl_cost l \<and>
       cl_created l < markerTime \<longrightarrow>
     hook = l\<lparr>cl_cost_ledger := stamp_usd\<rparr> \<and> cl_cost_ledger row = stamp_usd \<and>
       cl_cost row = math_round (of_int (cl_cost l) / usd_rate ps))"
proof (intro conjI impI)
  assume o: "origin = ''v0'' \<and> cl_created l < migratedAt \<or> origin = ''v2''"
  show "hook = row"
  proof (cases "origin = ''v2''")
    case True
    then show ?thesis using assms(1) by (simp add: hook_def row_def LegacyCostFixer_def migrate_v2 attemptsCostSum_def)
  next
    case False
    then have "origin = ''v0''" "cl_created l < migratedAt" using o by auto
    moreover have "stamp_usd \<noteq> stamp_unverified" by (simp add: stamp_usd_def stamp_unverified_def)
    ultimately show ?thesis using assms(1)
      by (cases "is_cny (ps_currency ps)")
        (simp_all add: hook_def row_def LegacyCostFixer_def migrate_row_def classifyLegacyRow_def attemptsCostSum_def)
  qed
next
  assume o: "origin = ''v1'' \<and> is_cny (ps_currency ps) \<and> 4 \<le> usd_rate ps \<and> 0 < spent \<and> spent \<le> 3 * cl_cost l \<and>
       cl_created l < markerTime"
  then have v1: "origin = ''v1''" by simp
  show "hook = l\<lparr>cl_cost_ledger := stamp_usd\<rparr>"
    using assms(1) unfolding hook_def v1 by (simp add: LegacyCostFixer_def)
  have priced: "\<exists>a\<in>set (cl_attempts l). at_cost a \<noteq> 0"
  proof (rule ccontr)
    assume "\<not> (\<exists>a\<in>set (cl_attempts l). at_cost a \<noteq> 0)"
    then have "map at_cost (cl_attempts l) = map (\<lambda>_. 0) (cl_attempts l)" by simp
    then have "spent = 0" by (simp only: spent_def) simp
    with o show False by simp
  qed
  have sum: "attemptsCostSum (cl_attempts l) = (spent, True)" using priced by (simp add: attemptsCostSum_def spent_def)
  have c: "0 < cl_cost l" using o by linarith
  have "(of_int spent :: rat) \<le> of_int (3 * cl_cost l)" using o by (simp only: of_int_le_iff)
  then have "\<not> (3 :: rat) < of_int spent / of_int (cl_cost l)" using c by (simp add: field_simps)
  then have "classifyLegacyRow l ''v1'' markerTime (usd_rate ps) True =
      (math_round (of_int (cl_cost l) / usd_rate ps), fst (scaleAttempts (cl_attempts l) (1 / usd_rate ps)), stamp_usd)"
    using o by (simp add: classifyLegacyRow_def sum)
  moreover have "stamp_usd \<noteq> stamp_unverified" by (simp add: stamp_usd_def stamp_unverified_def)
  ultimately show "cl_cost_ledger row = stamp_usd" "cl_cost row = math_round (of_int (cl_cost l) / usd_rate ps)"
    using assms(1) o by (simp_all add: row_def v1 migrate_row_def)
qed

section \<open>Samples\<close>

definition sample_old :: call_log where
  "sample_old = sample_logged\<lparr>cl_cost := 720, cl_cost_ledger := []\<rparr>"

definition sample_ledger :: "string \<Rightarrow> ledger_state" where
  "sample_ledger v = \<lparr>lg_marker = Some (v, 5), lg_origin = None, lg_db = commit_rows [sample_old] empty_metering\<rparr>"

lemma unbook_rebooks_witness:
  "summed (\<lambda>_. True) CostUnverified (unbookUnverified sample_old False (applyRollup [sample_old] [])) =
     summed (\<lambda>_. True) CostUnverified (applyRollup [sample_old\<lparr>cl_cost_ledger := stamp_unverified, cl_cost_known := False\<rparr>] [])"
  by (rule unbook_rebooks) (simp_all add: sample_old_def)

lemma sample_ledger_sound: "sound_metering (lg_db (sample_ledger v))"
proof -
  have "live empty_metering" by (simp add: live_def empty_metering_def Aggregate_def add_all_def)
  moreover have "consistent sample_old"
    by (simp add: consistent_def sample_old_def sample_logged_def attempt_sum_def reported_def new_log_def sample_attempt_def)
  ultimately show ?thesis
    by (simp add: sound_metering_def sample_ledger_def live_commit) (simp add: commit_rows_def empty_metering_def)
qed

lemma sample_ledger_distinct: "distinct (map fst (mdb_rollup (lg_db (sample_ledger v))))"
  by (simp add: sample_ledger_def commit_rows_def applyRollup_def distinct_add_all empty_metering_def)

lemma migration_reconciles_witness:
  "sound_metering (lg_db (fst (MigrateLedger 9 \<lparr>ps_currency = ''CNY'', ps_usd_to_cny = 7\<rparr> False (sample_ledger ''usd-v2''))))"
  using migration_reconciles [OF sample_ledger_sound sample_ledger_distinct, of "''usd-v2''" 5]
  by (simp add: sample_ledger_def prod_eq_iff)

lemma converted_once_witness:
  "amounts (mdb_logs (lg_db ((sample_ledger ''usd-v4'')\<lparr>lg_db := commit_rows
       [LegacyCostFixer \<lparr>ps_currency = ''CNY'', ps_usd_to_cny = 7\<rparr> (Some ''v0'') None
          (fst (normalizeLegacyUsage (sample_old\<lparr>cl_cost_ledger := stamp_usd\<rparr>)))] (lg_db (sample_ledger ''usd-v4''))\<rparr>)) ! 1) =
     amounts (sample_old\<lparr>cl_cost_ledger := stamp_usd\<rparr>)"
proof -
  let ?ps = "\<lparr>ps_currency = ''CNY'', ps_usd_to_cny = 7\<rparr>" and ?l = "sample_old\<lparr>cl_cost_ledger := stamp_usd\<rparr>"
  let ?st = "(sample_ledger ''usd-v4'')\<lparr>lg_db := commit_rows
      (map (\<lambda>l. LegacyCostFixer ?ps (Some ''v0'') None (fst (normalizeLegacyUsage l))) [?l]) (lg_db (sample_ledger ''usd-v4''))\<rparr>"
  let ?old = "mdb_logs (lg_db (sample_ledger ''usd-v4''))"
  have n: "length ?old = 1" by (simp add: sample_ledger_def commit_rows_def empty_metering_def)
  have "(ledger_step (\<lambda>_ t. t))\<^sup>*\<^sup>* (sample_ledger ''usd-v4'', ?old) (?st, ?old @ [?l])"
    by (rule r_into_rtranclp) (rule ls_commit)
  from converted_once [OF this]
  have "\<forall>i<length (?old @ [?l]). cl_cost_ledger ((?old @ [?l]) ! i) \<noteq> [] \<longrightarrow>
      amounts (mdb_logs (lg_db ?st) ! i) = amounts ((?old @ [?l]) ! i)" by blast
  from this [rule_format, of 1] n show ?thesis by (simp add: nth_append stamp_usd_def)
qed

definition sample_yuan :: pricing_settings where
  "sample_yuan = \<lparr>ps_currency = ''CNY'', ps_usd_to_cny = 7\<rparr>"

definition sample_priced :: call_log where
  "sample_priced = sample_old\<lparr>cl_created := 0, cl_attempts := [(sample_attempt None 7 2)\<lparr>at_cost := 720\<rparr>]\<rparr>"

lemma sample_yuan_parts: "usd_rate sample_yuan = 7" "is_cny (ps_currency sample_yuan)"
  by (simp_all add: sample_yuan_def usd_rate_def is_cny_def upper_char_def)

lemma fixer_as_migration_witness:
  "LegacyCostFixer sample_yuan (Some ''v2'') (Some (''usd-v4'', 0)) sample_old =
     fst (migrate_row ''v2'' False 5 (usd_rate sample_yuan) (is_cny (ps_currency sample_yuan)) sample_old []) \<and>
   cl_cost (LegacyCostFixer sample_yuan (Some ''v1'') (Some (''usd-v4'', 0)) sample_priced) = 720 \<and>
   cl_cost (fst (migrate_row ''v1'' False 5 (usd_rate sample_yuan) (is_cny (ps_currency sample_yuan)) sample_priced [])) =
     math_round (720 / 7)"
proof -
  note f = fixer_as_migration [where ps = sample_yuan and mark = "''usd-v4''" and migratedAt = 0 and scale = False
      and markerTime = 5 and t = "[]"]
  have l: "cl_cost_ledger sample_old = []" "cl_cost_ledger sample_priced = []" "cl_cost sample_priced = 720"
    "(\<Sum>a\<leftarrow>cl_attempts sample_priced. at_cost a) = 720" "cl_created sample_priced < 5"
    by (simp_all add: sample_old_def sample_priced_def)
  from f [where l = sample_old and origin = "''v2''", OF l(1)]
    f [where l = sample_priced and origin = "''v1''", OF l(2)] show ?thesis
    using l sample_yuan_parts by simp
qed

text \<open>The first migration of a 1.0.12 database in yuan can leave logs and rollup apart for good: the
  rows of an hour are rounded one by one, its rollup once, so two requests of 4 micro-yuan become 2
  micro-dollars in the logs and 1 in the rollup, and the reconciliation reports the hour, although the
  books agreed before.\<close>

definition old_request :: "string \<Rightarrow> call_log" where
  "old_request i = (new_log i TypeText 0)\<lparr>cl_cost := 4, cl_result := ResSuccess\<rparr>"

definition old_books :: metering_db where
  "old_books = commit_rows [old_request ''r1'', old_request ''r2''] empty_metering"

definition first_migration :: metering_db where
  "first_migration = lg_db (fst (MigrateLedger 9 \<lparr>ps_currency = ''CNY'', ps_usd_to_cny = 36/5\<rparr> False
     \<lparr>lg_marker = None, lg_origin = None, lg_db = old_books\<rparr>))"

lemma old_books_sound: "sound_metering old_books"
proof -
  have "consistent (old_request i)" for i by (simp add: old_request_def consistent_def attempt_sum_def new_log_def)
  moreover have "live empty_metering" by (simp add: live_def empty_metering_def Aggregate_def add_all_def)
  ultimately show ?thesis
    by (simp add: sound_metering_def old_books_def live_commit) (simp add: commit_rows_def empty_metering_def)
qed

lemma old_books_rollup: "\<exists>c. mdb_rollup old_books = [(own_key (old_request []), c)] \<and> c CostSum = 8"
proof -
  let ?k = "own_key (old_request [])"
  have "\<exists>c d. bookings (old_request i) = [(?k, c), (?k, d)] \<and> c CostSum = 0 \<and> d CostSum = 4" for i
    by (simp add: old_request_def bookings_def request_booking_def remainder_booking_def own_key_def row_key_def new_log_def
        attempt_sum_def cost_verified_def Let_def)
  then obtain c d c' d' where "bookings (old_request ''r1'') = [(?k, c), (?k, d)]" "bookings (old_request ''r2'') = [(?k, c'), (?k, d')]"
    "c CostSum = 0" "d CostSum = 4" "c' CostSum = 0" "d' CostSum = 4" by blast
  then show ?thesis
    by (simp add: old_books_def commit_rows_def empty_metering_def applyRollup_def Aggregate_def add_all_def plus_counters_def)
qed

lemma first_migration_books:
  "mdb_logs first_migration = map (\<lambda>l. l\<lparr>cl_cost := 1, cl_cost_ledger := stamp_usd\<rparr>) [old_request ''r1'', old_request ''r2'']"
  "\<exists>c. mdb_rollup first_migration = [(own_key (old_request []), c)] \<and> c CostSum = 1"
proof -
  let ?ps = "\<lparr>ps_currency = ''CNY'', ps_usd_to_cny = 36/5\<rparr>"
  have f: "math_round (4 / (36/5)) = 1" "math_round (8 / (36/5)) = 1"
    unfolding math_round_def by (simp_all add: floor_eq_iff)
  have ps: "usd_rate ?ps = 36/5" "is_cny ''CNY''" by (simp_all add: usd_rate_def is_cny_def upper_char_def)
  have ne: "stamp_usd \<noteq> stamp_unverified" by (simp add: stamp_usd_def stamp_unverified_def)
  have row: "migrate_row ''v0'' False u (36/5) True (old_request i) t =
      ((old_request i)\<lparr>cl_cost := 1, cl_cost_ledger := stamp_usd\<rparr>, t)" for i u t
    using f(1) ne by (simp add: migrate_row_def classifyLegacyRow_def attemptsCostSum_def scaleAttempts_def old_request_def new_log_def)
  have logs: "mdb_logs old_books = [old_request ''r1'', old_request ''r2'']"
    by (simp add: old_books_def commit_rows_def empty_metering_def)
  obtain c where c: "mdb_rollup old_books = [(own_key (old_request []), c)]" "c CostSum = 8" using old_books_rollup by blast
  have m: "first_migration = old_books\<lparr>
      mdb_logs := map (\<lambda>l. l\<lparr>cl_cost := 1, cl_cost_ledger := stamp_usd\<rparr>) [old_request ''r1'', old_request ''r2''],
      mdb_rollup := [(own_key (old_request []), c(CostSum := 1))]\<rparr>"
    using f(2) c(2) by (simp add: first_migration_def MigrateLedger_def migrate_tables_def migrating_origin_def ledgerOriginOf_def ps
        logs c(1) divide_hours_def row Let_def)
  show "mdb_logs first_migration = map (\<lambda>l. l\<lparr>cl_cost := 1, cl_cost_ledger := stamp_usd\<rparr>) [old_request ''r1'', old_request ''r2'']"
    and "\<exists>c. mdb_rollup first_migration = [(own_key (old_request []), c)] \<and> c CostSum = 1"
    unfolding m by auto
qed

lemma first_migration_rounds_apart: "sound_metering old_books \<and> Reconcile 0 0 first_migration \<noteq> []"
proof -
  obtain c where c: "mdb_rollup first_migration = [(own_key (old_request []), c)]" "c CostSum = 1"
    using first_migration_books(2) by blast
  have at: "cl_created (old_request i) = 0" "truncate_hour 0 = 0" "dk_hour (own_key (old_request i)) = 0" "0 < hour" for i
    by (simp_all add: old_request_def new_log_def truncate_hour_def own_key_def row_key_def hour_def minute_def second_def)
  let ?ls = "mdb_logs first_migration"
  have "hs_cost (log_sums ?ls) = 2"
    by (simp add: first_migration_books(1) log_sums_def cost_verified_def stamp_usd_def old_request_def)
  moreover have "hs_cost (roll_sums 0 (mdb_rollup first_migration)) = 1" using c at by (simp add: roll_sums_def summed_def)
  ultimately have "log_sums ?ls \<noteq> roll_sums 0 (mdb_rollup first_migration)" by auto
  moreover have "filter (\<lambda>l. 0 \<le> cl_created l \<and> cl_created l < hour) ?ls = ?ls" "filter (\<lambda>l. truncate_hour (cl_created l) = 0) ?ls = ?ls"
    "remdups (map (\<lambda>l. truncate_hour (cl_created l)) ?ls) = [0]"
    by (simp_all add: first_migration_books(1) at)
  ultimately show ?thesis using old_books_sound by (simp add: Reconcile_def at Let_def del: filter_filter)
qed

end
