(* ===== verification/To_Anthropic.thy ===== *)
theory To_Anthropic
  imports Usage Sse
begin

text \<open>
  From OpenAI chat to Anthropic messages (\<open>src/internal/gateway/convert/anthropic_chat.go\<close>): the conversion of
  a chat stream into an Anthropic event stream. A chat stream is the list of the data of its events and
  the way it ends; the JSON parser, the clock (its reading after so many events) that names
  messages and tool calls without an id, and the order of Go's
  iteration over the open tool blocks are arguments. The events written are values, their JSON text is
  not modelled, and a write that fails cuts the list of events short.
\<close>

section \<open>The chat stream\<close>

record chat_call =
  cc_index :: "int option"
  cc_id :: string
  cc_name :: string
  cc_arguments :: string

record chat_delta =
  cd_content :: string
  cd_reasoning :: string
  cd_calls :: "chat_call list"
  cd_finish :: "string option"

record chat_chunk =
  ck_choices :: "chat_delta list"
  ck_usage :: "usage option"
  ck_error :: "string option"

fun dec_str_ptr :: "json \<Rightarrow> string option option" where
  "dec_str_ptr JNull = Some None"
| "dec_str_ptr (JStr s) = Some (Some s)"
| "dec_str_ptr _ = None"

definition dec_call :: "(string \<times> json) list \<Rightarrow> chat_call option" where
  "dec_call fs = do {
     i \<leftarrow> dec_int_ptr (jfield ''index'' fs);
     n \<leftarrow> dec_str (jfield ''id'' fs);
     _ \<leftarrow> dec_str (jfield ''type'' fs);
     f \<leftarrow> dec_struct ([], []) (\<lambda>gs. do {
            m \<leftarrow> dec_str (jfield ''name'' gs); a \<leftarrow> dec_str (jfield ''arguments'' gs); Some (m, a) }) (jfield ''function'' fs);
     Some \<lparr>cc_index = i, cc_id = n, cc_name = fst f, cc_arguments = snd f\<rparr> }"

definition zero_call :: chat_call where
  "zero_call = \<lparr>cc_index = None, cc_id = [], cc_name = [], cc_arguments = []\<rparr>"

definition zero_delta :: chat_delta where
  "zero_delta = \<lparr>cd_content = [], cd_reasoning = [], cd_calls = [], cd_finish = None\<rparr>"

definition dec_delta :: "(string \<times> json) list \<Rightarrow> chat_delta option" where
  "dec_delta fs = do {
     c \<leftarrow> dec_str (jfield ''content'' fs);
     r \<leftarrow> dec_str (jfield ''reasoning_content'' fs);
     ts \<leftarrow> dec_list (dec_struct zero_call dec_call) (jfield ''tool_calls'' fs);
     Some \<lparr>cd_content = c, cd_reasoning = r, cd_calls = ts, cd_finish = None\<rparr> }"

definition dec_choice :: "(string \<times> json) list \<Rightarrow> chat_delta option" where
  "dec_choice fs = do {
     d \<leftarrow> dec_struct zero_delta dec_delta (jfield ''delta'' fs);
     f \<leftarrow> dec_str_ptr (jfield ''finish_reason'' fs);
     Some (d\<lparr>cd_finish := f\<rparr>) }"

definition dec_chunk_fields :: "(string \<times> json) list \<Rightarrow> chat_chunk option" where
  "dec_chunk_fields fs = do {
     _ \<leftarrow> dec_str (jfield ''id'' fs);
     cs \<leftarrow> dec_list (dec_struct zero_delta dec_choice) (jfield ''choices'' fs);
     u \<leftarrow> dec_ptr dec_usage (jfield ''usage'' fs);
     e \<leftarrow> dec_ptr (\<lambda>gs. dec_str (jfield ''message'' gs)) (jfield ''error'' fs);
     Some \<lparr>ck_choices = cs, ck_usage = u, ck_error = e\<rparr> }"

definition dec_chunk :: "json option \<Rightarrow> chat_chunk option" where
  \<comment> \<open>None: \<open>Unmarshal\<close> fails and the event is skipped\<close>
  "dec_chunk raw =
     (case raw of None \<Rightarrow> None
      | Some v \<Rightarrow> dec_struct \<lparr>ck_choices = [], ck_usage = None, ck_error = None\<rparr> dec_chunk_fields v)"

section \<open>The Anthropic events\<close>

datatype a_block = ThinkingBlock | TextBlock | ToolUseBlock string string  \<comment> \<open>id and name\<close>

datatype a_delta = ThinkingDelta string | TextDelta string | InputJsonDelta string

datatype a_event =
    MessageStart string string int  \<comment> \<open>id, model, input tokens\<close>
  | BlockStart int a_block
  | BlockDelta int a_delta
  | BlockStop int
  | ErrorEvent string
  | MessageDelta string int "(int \<times> int option) option"
      \<comment> \<open>stop reason, output tokens, and input and cached tokens when the usage is known\<close>
  | MessageStop

definition mapFinishToStop :: "string \<Rightarrow> string" where
  "mapFinishToStop fr =
     (if fr = ''length'' then ''max_tokens''
      else if fr = ''tool_calls'' \<or> fr = ''function_call'' then ''tool_use''
      else ''end_turn'')"

definition anthropicID :: "string \<Rightarrow> string \<Rightarrow> string" where
  \<comment> \<open>\<open>clock\<close>: the time in nanoseconds\<close>
  "anthropicID clock i =
     (if i = [] then ''msg_'' @ clock else if has_prefix i ''msg_'' then i else ''msg_'' @ trim_prefix i ''chatcmpl-'')"

definition toolID :: "string \<Rightarrow> string \<Rightarrow> string" where
  "toolID clock i = (if i = [] then ''toolu_'' @ clock else i)"

section \<open>The conversion\<close>

record a_stream =
  as_started :: bool
  as_block :: int
  as_text :: bool
  as_think :: bool
  as_tools :: "(int \<times> int) list"
  as_stop :: string
  as_usage :: "usage option"
  as_out :: "a_event list"

definition new_stream :: a_stream where
  "new_stream = \<lparr>as_started = False, as_block = - 1, as_text = False, as_think = False, as_tools = [],
     as_stop = ''end_turn'', as_usage = None, as_out = []\<rparr>"

definition emit :: "a_event \<Rightarrow> a_stream \<Rightarrow> a_stream" where
  "emit e st = st\<lparr>as_out := as_out st @ [e]\<rparr>"

definition start :: "string \<Rightarrow> string \<Rightarrow> usage option \<Rightarrow> a_stream \<Rightarrow> a_stream" where
  "start msgID m u st =
     (if as_started st then st
      else emit (MessageStart msgID m (case u of Some v \<Rightarrow> PromptTokens v | None \<Rightarrow> 0)) (st\<lparr>as_started := True\<rparr>))"

definition closeOpen :: "a_stream \<Rightarrow> a_stream" where
  "closeOpen st =
     (if as_text st \<or> as_think st then (emit (BlockStop (as_block st)) st)\<lparr>as_text := False, as_think := False\<rparr> else st)"

definition closeTools :: "((int \<times> int) list \<Rightarrow> (int \<times> int) list) \<Rightarrow> a_stream \<Rightarrow> a_stream" where
  \<comment> \<open>\<open>order\<close>: the order in which the range over the map visits the open tool blocks\<close>
  "closeTools order st = (fold (\<lambda>(_, bi). emit (BlockStop bi)) (order (as_tools st)) st)\<lparr>as_tools := []\<rparr>"

definition on_reasoning :: "string \<Rightarrow> a_stream \<Rightarrow> a_stream" where
  "on_reasoning s st =
     (if s = [] then st
      else let st = (if as_think st then st
                     else let st = closeOpen st; b = as_block st + 1
                          in emit (BlockStart b ThinkingBlock) (st\<lparr>as_block := b, as_think := True\<rparr>))
           in emit (BlockDelta (as_block st) (ThinkingDelta s)) st)"

definition on_content :: "string \<Rightarrow> a_stream \<Rightarrow> a_stream" where
  "on_content s st =
     (if s = [] then st
      else let st = (if as_text st then st
                     else let st = closeOpen st; b = as_block st + 1
                          in emit (BlockStart b TextBlock) (st\<lparr>as_block := b, as_text := True\<rparr>))
           in emit (BlockDelta (as_block st) (TextDelta s)) st)"

definition call_index :: "chat_call \<Rightarrow> int" where
  "call_index tc = (case cc_index tc of Some i \<Rightarrow> i | None \<Rightarrow> 0)"

definition on_call :: "(nat \<Rightarrow> string) \<Rightarrow> chat_call \<Rightarrow> a_stream \<Rightarrow> a_stream" where
  "on_call clock tc st =
     (let idx = call_index tc;
          (bi, st) = (case map_of (as_tools st) idx of
             Some bi \<Rightarrow> (bi, st)
           | None \<Rightarrow>
               let st = closeOpen st; b = as_block st + 1
               in (b, emit (BlockStart b (ToolUseBlock (toolID (clock (length (as_out st))) (cc_id tc)) (cc_name tc)))
                        (st\<lparr>as_block := b, as_tools := as_tools st @ [(idx, b)]\<rparr>)))
      in if cc_arguments tc = [] then st else emit (BlockDelta bi (InputJsonDelta (cc_arguments tc))) st)"

definition on_choice :: "(nat \<Rightarrow> string) \<Rightarrow> chat_delta \<Rightarrow> a_stream \<Rightarrow> a_stream" where
  "on_choice clock ch st =
     (let st = fold (on_call clock) (cd_calls ch) (on_content (cd_content ch) (on_reasoning (cd_reasoning ch) st))
      in case cd_finish ch of Some f \<Rightarrow> st\<lparr>as_stop := mapFinishToStop f\<rparr> | None \<Rightarrow> st)"

definition on_chunk :: "(nat \<Rightarrow> string) \<Rightarrow> string \<Rightarrow> string \<Rightarrow> chat_chunk \<Rightarrow> a_stream \<Rightarrow> a_stream" where
  "on_chunk clock msgID m ck st =
     (let st = (case ck_usage ck of Some u \<Rightarrow> st\<lparr>as_usage := Some u\<rparr> | None \<Rightarrow> st)
      in fold (on_choice clock) (ck_choices ck) (start msgID m (ck_usage ck) st))"

datatype stream_error = UpstreamError string | ErrIncomplete | ReadError

definition incomplete_message :: string where
  "incomplete_message = ''upstream stream ended without a terminal event''"

definition final_usage :: "usage option \<Rightarrow> int \<times> (int \<times> int option) option" where
  "final_usage u =
     (case u of None \<Rightarrow> (0, None) | Some v \<Rightarrow> (CompletionTokens v, Some (PromptTokens v, PromptTokensDetails v)))"

definition finish_stream ::
  "((int \<times> int) list \<Rightarrow> (int \<times> int) list) \<Rightarrow> string \<Rightarrow> string \<Rightarrow> bool \<Rightarrow> a_stream \<Rightarrow> a_stream \<times> stream_error option" where
  "finish_stream order msgID m ended st =
     (let st = closeTools order (closeOpen (start msgID m None st))
      in if \<not> ended then (emit (ErrorEvent incomplete_message) st, Some ErrIncomplete)
         else case final_usage (as_usage st) of (out, inp) \<Rightarrow>
                (emit MessageStop (emit (MessageDelta (as_stop st) out inp) st), None))"

fun stream_loop ::
  "(string \<Rightarrow> json option) \<Rightarrow> ((int \<times> int) list \<Rightarrow> (int \<times> int) list) \<Rightarrow> (nat \<Rightarrow> string) \<Rightarrow> string \<Rightarrow> string \<Rightarrow> bool \<Rightarrow> string list \<Rightarrow>
     a_stream \<Rightarrow> a_stream \<times> stream_error option" where
  "stream_loop parse order clock msgID m eof [] st = (if eof then finish_stream order msgID m False st else (st, Some ReadError))"
| "stream_loop parse order clock msgID m eof (d # ds) st =
     (if d = ''[DONE]'' then finish_stream order msgID m True st
      else case dec_chunk (parse d) of
             None \<Rightarrow> stream_loop parse order clock msgID m eof ds st
           | Some ck \<Rightarrow>
               case ck_error ck of
                 Some e \<Rightarrow> (emit (ErrorEvent e) (start msgID m None st), Some (UpstreamError e))
               | None \<Rightarrow> stream_loop parse order clock msgID m eof ds (on_chunk clock msgID m ck st))"

definition ChatStreamToAnthropic ::
  "(string \<Rightarrow> json option) \<Rightarrow> ((int \<times> int) list \<Rightarrow> (int \<times> int) list) \<Rightarrow> (nat \<Rightarrow> string) \<Rightarrow> string \<Rightarrow> bool \<Rightarrow> string list \<Rightarrow>
     a_event list \<times> usage option \<times> stream_error option" where
  "ChatStreamToAnthropic parse order clock m eof ds =
     (case stream_loop parse order clock (anthropicID (clock 0) []) m eof ds new_stream of
        (st, e) \<Rightarrow> (as_out st, as_usage st, e))"

section \<open>What the clients put together\<close>

text \<open>The message a chat client reads off the chunks: text and reasoning are concatenated, the pieces of a tool
  call are those with its index, named by the first of them.\<close>

record chat_message =
  cm_text :: string
  cm_reasoning :: string
  cm_calls :: "(int \<times> string \<times> string \<times> string) list"  \<comment> \<open>index, id, name, arguments\<close>
  cm_finish :: "string option"

definition empty_chat :: chat_message where
  "empty_chat = \<lparr>cm_text = [], cm_reasoning = [], cm_calls = [], cm_finish = None\<rparr>"

fun add_piece :: "chat_call \<Rightarrow> (int \<times> string \<times> string \<times> string) list \<Rightarrow> (int \<times> string \<times> string \<times> string) list" where
  "add_piece tc [] = [(call_index tc, cc_id tc, cc_name tc, cc_arguments tc)]"
| "add_piece tc ((i, n, f, a) # cs) = (if i = call_index tc then (i, n, f, a @ cc_arguments tc) # cs else (i, n, f, a) # add_piece tc cs)"

definition chat_delta_read :: "chat_delta \<Rightarrow> chat_message \<Rightarrow> chat_message" where
  "chat_delta_read d h =
     \<lparr>cm_text = cm_text h @ cd_content d, cm_reasoning = cm_reasoning h @ cd_reasoning d,
      cm_calls = fold add_piece (cd_calls d) (cm_calls h),
      cm_finish = (case cd_finish d of Some f \<Rightarrow> Some f | None \<Rightarrow> cm_finish h)\<rparr>"

text \<open>The message an Anthropic client reads off the events, None when they break the protocol: the message starts
  first and once, blocks are numbered in order, deltas only reach open blocks of their kind, every block is
  closed once and before the message ends.\<close>

record a_message =
  am_started :: bool
  am_blocks :: "(a_block \<times> string \<times> bool) list"  \<comment> \<open>the block, what it holds, whether it is open\<close>
  am_stop :: "(string \<times> int \<times> (int \<times> int option) option) option"
  am_done :: bool

definition no_message :: a_message where
  "no_message = \<lparr>am_started = False, am_blocks = [], am_stop = None, am_done = False\<rparr>"

fun delta_text :: "a_block \<Rightarrow> a_delta \<Rightarrow> string option" where
  "delta_text ThinkingBlock (ThinkingDelta s) = Some s"
| "delta_text TextBlock (TextDelta s) = Some s"
| "delta_text (ToolUseBlock _ _) (InputJsonDelta s) = Some s"
| "delta_text _ _ = None"

definition a_open :: "int \<Rightarrow> a_message \<Rightarrow> bool" where
  "a_open i c \<longleftrightarrow> 0 \<le> i \<and> i < int (length (am_blocks c)) \<and> snd (snd (am_blocks c ! nat i))"

fun a_event_read :: "a_event \<Rightarrow> a_message \<Rightarrow> a_message option" where
  "a_event_read (MessageStart _ _ _) c = (if am_started c then None else Some (c\<lparr>am_started := True\<rparr>))"
| "a_event_read (BlockStart i b) c =
     (if am_started c \<and> am_stop c = None \<and> i = int (length (am_blocks c))
      then Some (c\<lparr>am_blocks := am_blocks c @ [(b, [], True)]\<rparr>) else None)"
| "a_event_read (BlockDelta i d) c =
     (if \<not> a_open i c then None
      else case am_blocks c ! nat i of (b, s, _) \<Rightarrow>
             (case delta_text b d of None \<Rightarrow> None | Some t \<Rightarrow> Some (c\<lparr>am_blocks := (am_blocks c)[nat i := (b, s @ t, True)]\<rparr>)))"
| "a_event_read (BlockStop i) c =
     (if \<not> a_open i c then None
      else case am_blocks c ! nat i of (b, s, _) \<Rightarrow> Some (c\<lparr>am_blocks := (am_blocks c)[nat i := (b, s, False)]\<rparr>))"
| "a_event_read (ErrorEvent _) c = (if am_started c \<and> \<not> am_done c then Some c else None)"
| "a_event_read (MessageDelta s n u) c =
     (if am_started c \<and> am_stop c = None \<and> (\<forall>b\<in>set (am_blocks c). \<not> snd (snd b))
      then Some (c\<lparr>am_stop := Some (s, n, u)\<rparr>) else None)"
| "a_event_read MessageStop c = (if am_stop c \<noteq> None \<and> \<not> am_done c then Some (c\<lparr>am_done := True\<rparr>) else None)"

fun a_read :: "a_event list \<Rightarrow> a_message \<Rightarrow> a_message option" where
  "a_read [] c = Some c"
| "a_read (e # es) c = (case a_event_read e c of None \<Rightarrow> None | Some c' \<Rightarrow> a_read es c')"

lemma a_read_append: "a_read (xs @ ys) c = (case a_read xs c of None \<Rightarrow> None | Some c' \<Rightarrow> a_read ys c')"
  by (induction xs arbitrary: c) (auto split: option.splits)

definition block_part :: "(a_block \<Rightarrow> bool) \<Rightarrow> a_block \<times> string \<times> bool \<Rightarrow> string" where
  "block_part P x = (if P (fst x) then fst (snd x) else [])"

definition text_of :: "a_message \<Rightarrow> string" where
  "text_of c = concat (map (block_part (\<lambda>b. b = TextBlock)) (am_blocks c))"

definition thinking_of :: "a_message \<Rightarrow> string" where
  "thinking_of c = concat (map (block_part (\<lambda>b. b = ThinkingBlock)) (am_blocks c))"

fun is_tool :: "a_block \<Rightarrow> bool" where
  "is_tool (ToolUseBlock _ _) = True"
| "is_tool _ = False"

definition tools_of :: "a_message \<Rightarrow> (a_block \<times> string) list" where
  "tools_of c = map (\<lambda>(b, s, _). (b, s)) (filter (is_tool \<circ> fst) (am_blocks c))"

section \<open>The conversion keeps the message\<close>

definition tool_ix :: "(a_block \<times> string \<times> bool) list \<Rightarrow> nat list" where
  "tool_ix bs = filter (\<lambda>i. is_tool (fst (bs ! i))) [0..<length bs]"

lemma filter_nth: "filter P xs = map (nth xs) (filter (\<lambda>i. P (xs ! i)) [0..<length xs])"
proof (induction xs rule: rev_induct)
  case (snoc x xs)
  have "filter (\<lambda>i. P ((xs @ [x]) ! i)) [0..<length xs] = filter (\<lambda>i. P (xs ! i)) [0..<length xs]"
    by (rule filter_cong) (auto simp: nth_append)
  moreover have "map (nth (xs @ [x])) (filter (\<lambda>i. P (xs ! i)) [0..<length xs]) = map (nth xs) (filter (\<lambda>i. P (xs ! i)) [0..<length xs])"
    by (rule map_cong) (auto simp: nth_append)
  ultimately show ?case using snoc by simp
qed simp

definition calls_in :: "(a_block \<times> string \<times> bool) list \<Rightarrow> (a_block \<times> string) list" where
  "calls_in bs = map (\<lambda>i. (fst (bs ! i), fst (snd (bs ! i)))) (tool_ix bs)"

lemma tools_of_ix: "tools_of c = calls_in (am_blocks c)"
  unfolding tools_of_def tool_ix_def calls_in_def filter_nth [of _ "am_blocks c"] by (simp add: split_def o_def)

lemma tool_ix_snoc [simp]: "tool_ix (bs @ [x]) = tool_ix bs @ (if is_tool (fst x) then [length bs] else [])"
proof -
  have "filter (\<lambda>i. is_tool (fst ((bs @ [x]) ! i))) [0..<length bs] = tool_ix bs"
    unfolding tool_ix_def by (rule filter_cong) (auto simp: nth_append)
  then show ?thesis by (simp add: tool_ix_def)
qed

lemma tool_ix_update: "fst y = fst (bs ! i) \<Longrightarrow> tool_ix (bs[i := y]) = tool_ix bs"
  unfolding tool_ix_def by (cases "i < length bs") (auto intro!: filter_cong simp: nth_list_update)

lemma tool_ix_props: "distinct (tool_ix bs)" "i \<in> set (tool_ix bs) \<longleftrightarrow> i < length bs \<and> is_tool (fst (bs ! i))"
  by (auto simp: tool_ix_def)

lemma calls_in_update_other: "n \<notin> set (tool_ix bs) \<Longrightarrow> fst y = fst (bs ! n) \<Longrightarrow> calls_in (bs[n := y]) = calls_in bs"
  unfolding calls_in_def tool_ix_update [of y bs n]
  by (rule map_cong [OF refl]) (metis nth_list_update_neq)

lemma calls_in_snoc [simp]: "calls_in (bs @ [x]) = calls_in bs @ (if is_tool (fst x) then [(fst x, fst (snd x))] else [])"
proof -
  have "map (\<lambda>i. (fst ((bs @ [x]) ! i), fst (snd ((bs @ [x]) ! i)))) (tool_ix bs) = calls_in bs"
    unfolding calls_in_def by (rule map_cong) (auto simp: nth_append tool_ix_props)
  then show ?thesis by (simp add: calls_in_def)
qed

lemma parts_update_other:
  assumes "i < length bs" "fst y = fst (bs ! i)" "\<not> P (fst y)"
  shows "map (block_part P) (bs[i := y]) = map (block_part P) bs"
  unfolding map_update using assms by (intro list_update_same_conv [THEN iffD2]) (simp_all add: block_part_def)

lemma parts_update_last:
  assumes "bs \<noteq> []" "last bs = (b, s, op)" "P b"
  shows "concat (map (block_part P) (bs[length bs - 1 := (b, s @ t, op')])) = concat (map (block_part P) bs) @ t"
proof -
  from assms(1,2) obtain as where "bs = as @ [(b, s, op)]" by (metis append_butlast_last_id)
  then show ?thesis using assms(3) by (simp add: block_part_def)
qed

text \<open>How the state of the conversion, what the Anthropic client has read and what a chat client would have read
  belong together.\<close>

definition same_call :: "(nat \<Rightarrow> string) \<Rightarrow> int \<times> string \<times> string \<times> string \<Rightarrow> a_block \<times> string \<Rightarrow> bool" where
  "same_call clock x y \<longleftrightarrow>
     (case x of (_, i, n, a) \<Rightarrow> case y of (b, s) \<Rightarrow> s = a \<and> (\<exists>k. b = ToolUseBlock (toolID (clock k) i) n))"

definition stop_of :: "chat_message \<Rightarrow> string" where
  "stop_of h = (case cm_finish h of Some f \<Rightarrow> mapFinishToStop f | None \<Rightarrow> ''end_turn'')"

definition blocks_ok :: "(a_block \<times> string \<times> bool) list \<Rightarrow> a_stream \<Rightarrow> bool" where
  \<comment> \<open>which blocks are open\<close>
  "blocks_ok bs st \<longleftrightarrow>
     int (length bs) = as_block st + 1 \<and> \<not> (as_text st \<and> as_think st) \<and>
     (as_text st \<longrightarrow> bs \<noteq> [] \<and> fst (last bs) = TextBlock) \<and> (as_think st \<longrightarrow> bs \<noteq> [] \<and> fst (last bs) = ThinkingBlock) \<and>
     (\<forall>i<length bs. snd (snd (bs ! i)) \<longleftrightarrow> is_tool (fst (bs ! i)) \<or> Suc i = length bs \<and> (as_text st \<or> as_think st)) \<and>
     map snd (as_tools st) = map int (tool_ix bs)"

definition calls_ok :: "(nat \<Rightarrow> string) \<Rightarrow> chat_message \<Rightarrow> (a_block \<times> string \<times> bool) list \<Rightarrow> a_stream \<Rightarrow> bool" where
  "calls_ok clock h bs st \<longleftrightarrow>
     map fst (as_tools st) = map fst (cm_calls h) \<and> distinct (map fst (cm_calls h)) \<and>
     list_all2 (same_call clock) (cm_calls h) (calls_in bs)"

definition in_step :: "(nat \<Rightarrow> string) \<Rightarrow> chat_message \<Rightarrow> a_stream \<Rightarrow> bool" where
  "in_step clock h st \<longleftrightarrow>
     (\<exists>bs. a_read (as_out st) no_message = Some \<lparr>am_started = as_started st, am_blocks = bs, am_stop = None, am_done = False\<rparr> \<and>
        blocks_ok bs st \<and> calls_ok clock h bs st \<and> as_stop st = stop_of h \<and>
        concat (map (block_part (\<lambda>b. b = TextBlock)) bs) = cm_text h \<and>
        concat (map (block_part (\<lambda>b. b = ThinkingBlock)) bs) = cm_reasoning h)"

lemma read_emit:
  "a_read (as_out st) no_message = Some c \<Longrightarrow> a_read (as_out (emit e st)) no_message = a_event_read e c"
  by (simp add: emit_def a_read_append split: option.splits)

lemma in_stepE:
  assumes "in_step clock h st"
  obtains bs where "a_read (as_out st) no_message = Some \<lparr>am_started = as_started st, am_blocks = bs, am_stop = None, am_done = False\<rparr>"
    and "blocks_ok bs st" and "calls_ok clock h bs st" and "as_stop st = stop_of h"
    and "concat (map (block_part (\<lambda>b. b = TextBlock)) bs) = cm_text h"
    and "concat (map (block_part (\<lambda>b. b = ThinkingBlock)) bs) = cm_reasoning h"
  using assms by (auto simp: in_step_def)

lemma in_step_start: "in_step clock h st \<Longrightarrow> in_step clock h (start msgID m u st) \<and> as_started (start msgID m u st)"
proof (cases "as_started st")
  case False
  assume "in_step clock h st"
  then obtain bs where i: "a_read (as_out st) no_message = Some \<lparr>am_started = as_started st, am_blocks = bs, am_stop = None, am_done = False\<rparr>"
    "blocks_ok bs st" "calls_ok clock h bs st" "as_stop st = stop_of h"
    "concat (map (block_part (\<lambda>b. b = TextBlock)) bs) = cm_text h"
    "concat (map (block_part (\<lambda>b. b = ThinkingBlock)) bs) = cm_reasoning h" by (rule in_stepE)
  then show ?thesis using False
    by (auto simp: start_def in_step_def blocks_ok_def calls_ok_def emit_def a_read_append intro!: exI [of _ bs])
qed (simp add: start_def)

lemma open_last:
  assumes "blocks_ok bs st" "as_text st \<or> as_think st"
  obtains k t where "bs \<noteq> []" "bs ! (length bs - 1) = (k, t, True)" "k = (if as_text st then TextBlock else ThinkingBlock)"
    "nat (as_block st) = length bs - 1" "as_block st = int (length bs) - 1"
proof -
  have ne: "bs \<noteq> []" using assms by (auto simp: blocks_ok_def)
  obtain k t op where x: "bs ! (length bs - 1) = (k, t, op)" by (cases "bs ! (length bs - 1)") auto
  have l: "last bs = bs ! (length bs - 1)" using ne by (simp add: last_conv_nth)
  have lt: "length bs - 1 < length bs" "Suc (length bs - 1) = length bs" using ne by auto
  have k: "k = (if as_text st then TextBlock else ThinkingBlock)" using assms x l by (auto simp: blocks_ok_def)
  have "snd (snd (bs ! (length bs - 1)))" using assms lt by (auto simp: blocks_ok_def)
  then have "op" using x by simp
  moreover have "as_block st = int (length bs) - 1" using assms by (simp add: blocks_ok_def)
  moreover from this ne have "nat (as_block st) = length bs - 1" by simp
  ultimately show ?thesis using that ne x k by simp
qed

lemma in_step_close:
  assumes "in_step clock h st"
  shows "in_step clock h (closeOpen st) \<and> \<not> as_text (closeOpen st) \<and> \<not> as_think (closeOpen st) \<and>
    as_started (closeOpen st) = as_started st \<and> as_tools (closeOpen st) = as_tools st"
proof (cases "as_text st \<or> as_think st")
  case False
  then show ?thesis using assms by (simp add: closeOpen_def)
next
  case True
  from assms obtain bs where r: "a_read (as_out st) no_message = Some \<lparr>am_started = as_started st, am_blocks = bs, am_stop = None, am_done = False\<rparr>"
    and b: "blocks_ok bs st" and c: "calls_ok clock h bs st" and s: "as_stop st = stop_of h"
    "concat (map (block_part (\<lambda>b. b = TextBlock)) bs) = cm_text h"
    "concat (map (block_part (\<lambda>b. b = ThinkingBlock)) bs) = cm_reasoning h" by (rule in_stepE)
  obtain k t where ne: "bs \<noteq> []" and x: "bs ! (length bs - 1) = (k, t, True)" and k: "k = (if as_text st then TextBlock else ThinkingBlock)"
    and n: "nat (as_block st) = length bs - 1" "as_block st = int (length bs) - 1" using b True by (rule open_last)
  define n where "n = length bs - 1"
  let ?bs = "bs[n := (k, t, False)]" and ?st = "closeOpen st"
  have lt: "n < length bs" "bs ! n = (k, t, True)" "nat (as_block st) = n" "int n = as_block st" "\<not> is_tool k"
    using ne x n k by (auto simp: n_def Suc_le_eq of_nat_diff)
  have ix: "tool_ix ?bs = tool_ix bs" using lt by (simp add: tool_ix_update)
  have away: "n \<notin> set (tool_ix bs)" using lt by (simp add: tool_ix_props)
  have st: "?st = (emit (BlockStop (as_block st)) st)\<lparr>as_text := False, as_think := False\<rparr>" using True by (simp add: closeOpen_def)
  have "a_event_read (BlockStop (as_block st)) \<lparr>am_started = as_started st, am_blocks = bs, am_stop = None, am_done = False\<rparr> =
      Some \<lparr>am_started = as_started st, am_blocks = ?bs, am_stop = None, am_done = False\<rparr>"
    using lt by (simp add: a_open_def)
  then have "a_read (as_out ?st) no_message = Some \<lparr>am_started = as_started ?st, am_blocks = ?bs, am_stop = None, am_done = False\<rparr>"
    using read_emit [OF r, of "BlockStop (as_block st)"] by (simp add: st emit_def)
  moreover have "blocks_ok ?bs ?st" unfolding blocks_ok_def ix
    using b lt k n_def by (auto simp: blocks_ok_def st emit_def nth_list_update)
  moreover have "calls_ok clock h ?bs ?st"
    using c calls_in_update_other [OF away] lt by (simp add: calls_ok_def st emit_def)
  moreover have "map (block_part P) ?bs = map (block_part P) bs" for P
    unfolding map_update using lt by (intro list_update_same_conv [THEN iffD2]) (simp_all add: block_part_def)
  ultimately show ?thesis using s unfolding in_step_def
    by (intro conjI exI [of _ ?bs]) (auto simp: st emit_def)
qed

text \<open>A new block, when no text or thinking block is open.\<close>

lemma blocks_ok_open:
  assumes "blocks_ok bs st" "\<not> as_text st" "\<not> as_think st" "\<not> (txt \<and> thk)"
    and "txt \<longrightarrow> b = TextBlock" "thk \<longrightarrow> b = ThinkingBlock" "is_tool b \<or> txt \<or> thk"
    and "tls = as_tools st @ (if is_tool b then [(idx, as_block st + 1)] else [])"
  shows "blocks_ok (bs @ [(b, s, True)]) (st\<lparr>as_block := as_block st + 1, as_text := txt, as_think := thk, as_tools := tls\<rparr>)"
  using assms by (auto simp: blocks_ok_def nth_append less_Suc_eq)

lemma parts_tool: "\<not> P (fst x) \<Longrightarrow> concat (map (block_part P) (bs @ [x])) = concat (map (block_part P) bs)"
  by (simp add: block_part_def)

lemma in_step_piece:
  \<comment> \<open>text or thinking reaches the open block\<close>
  assumes i: "in_step clock h st" and w: "as_text st \<or> as_think st"
    and d: "d = (if as_text st then TextDelta s else ThinkingDelta s)"
    and h': "h' = (if as_text st then h\<lparr>cm_text := cm_text h @ s\<rparr> else h\<lparr>cm_reasoning := cm_reasoning h @ s\<rparr>)"
  shows "in_step clock h' (emit (BlockDelta (as_block st) d) st)"
proof -
  let ?st = "emit (BlockDelta (as_block st) d) st"
  from i obtain bs where r: "a_read (as_out st) no_message = Some \<lparr>am_started = as_started st, am_blocks = bs, am_stop = None, am_done = False\<rparr>"
    and b: "blocks_ok bs st" and c: "calls_ok clock h bs st" and s: "as_stop st = stop_of h"
    "concat (map (block_part (\<lambda>b. b = TextBlock)) bs) = cm_text h"
    "concat (map (block_part (\<lambda>b. b = ThinkingBlock)) bs) = cm_reasoning h" by (rule in_stepE)
  obtain k t where ne: "bs \<noteq> []" and x: "bs ! (length bs - 1) = (k, t, True)" and k: "k = (if as_text st then TextBlock else ThinkingBlock)"
    and n: "nat (as_block st) = length bs - 1" "as_block st = int (length bs) - 1" using b w by (rule open_last)
  define n where "n = length bs - 1"
  let ?bs = "bs[n := (k, t @ s, True)]"
  have lt: "n < length bs" "bs ! n = (k, t, True)" "nat (as_block st) = n" "int n = as_block st" "\<not> is_tool k"
    using ne x n k by (auto simp: n_def Suc_le_eq of_nat_diff)
  have ix: "tool_ix ?bs = tool_ix bs" using lt by (simp add: tool_ix_update)
  have away: "n \<notin> set (tool_ix bs)" using lt by (simp add: tool_ix_props)
  have l: "last bs = (k, t, True)" using ne x by (simp add: last_conv_nth)
  have "a_event_read (BlockDelta (as_block st) d) \<lparr>am_started = as_started st, am_blocks = bs, am_stop = None, am_done = False\<rparr> =
      Some \<lparr>am_started = as_started st, am_blocks = ?bs, am_stop = None, am_done = False\<rparr>"
    using lt k by (auto simp: a_open_def d)
  then have "a_read (as_out ?st) no_message = Some \<lparr>am_started = as_started ?st, am_blocks = ?bs, am_stop = None, am_done = False\<rparr>"
    using read_emit [OF r, of "BlockDelta (as_block st) d"] by (simp add: emit_def)
  moreover have "blocks_ok ?bs ?st" unfolding blocks_ok_def ix
    using b lt k n_def by (auto simp: blocks_ok_def emit_def nth_list_update last_list_update)
  moreover have "calls_ok clock h' ?bs ?st"
    using c calls_in_update_other [OF away] lt by (simp add: calls_ok_def emit_def h')
  moreover have "map (block_part P) ?bs = map (block_part P) bs" if "\<not> P k" for P
    using lt that by (intro parts_update_other) auto
  moreover have "concat (map (block_part P) ?bs) = concat (map (block_part P) bs) @ s" if "P k" for P
    unfolding n_def by (rule parts_update_last [of _ k t True]) (use ne l that in auto)
  ultimately show ?thesis using s k unfolding in_step_def
    by (intro conjI exI [of _ ?bs]) (auto simp: emit_def h' stop_of_def)
qed

lemma in_step_open:
  assumes i: "in_step clock h st" and "as_started st" "\<not> as_text st" "\<not> as_think st" "\<not> (txt \<and> thk)" "txt \<or> thk"
    and b: "b = (if txt then TextBlock else ThinkingBlock)"
  shows "in_step clock h (emit (BlockStart (as_block st + 1) b) (st\<lparr>as_block := as_block st + 1, as_text := txt, as_think := thk\<rparr>))"
    (is "in_step clock h ?st")
proof -
  from i obtain bs where r: "a_read (as_out st) no_message = Some \<lparr>am_started = as_started st, am_blocks = bs, am_stop = None, am_done = False\<rparr>"
    and ok: "blocks_ok bs st" and c: "calls_ok clock h bs st" and s: "as_stop st = stop_of h"
    "concat (map (block_part (\<lambda>b. b = TextBlock)) bs) = cm_text h"
    "concat (map (block_part (\<lambda>b. b = ThinkingBlock)) bs) = cm_reasoning h" by (rule in_stepE)
  let ?bs = "bs @ [(b, [], True)]"
  have nt: "\<not> is_tool b" using b by simp
  have len: "int (length bs) = as_block st + 1" using ok by (simp add: blocks_ok_def)
  have "a_read (as_out ?st) no_message = Some \<lparr>am_started = as_started ?st, am_blocks = ?bs, am_stop = None, am_done = False\<rparr>"
    using r len assms(2) by (simp add: emit_def a_read_append)
  moreover have "blocks_ok ?bs ?st"
    using blocks_ok_open [OF ok assms(3,4,5), of b "as_tools st" undefined "[]"] assms(5,6) b
    by (auto simp: emit_def blocks_ok_def)
  moreover have "calls_ok clock h ?bs ?st"
    using c nt by (simp add: calls_ok_def emit_def)
  moreover have "concat (map (block_part P) ?bs) = concat (map (block_part P) bs)" for P by (simp add: block_part_def)
  ultimately show ?thesis using s unfolding in_step_def
    by (intro conjI exI [of _ ?bs]) (auto simp: emit_def)
qed

text \<open>Tool calls.\<close>

lemma add_piece_absent:
  "call_index tc \<notin> fst ` set cs \<Longrightarrow> add_piece tc cs = cs @ [(call_index tc, cc_id tc, cc_name tc, cc_arguments tc)]"
  by (induction tc cs rule: add_piece.induct) auto

lemma add_piece_present:
  "distinct (map fst cs) \<Longrightarrow> j < length cs \<Longrightarrow> cs ! j = (call_index tc, i, n, a) \<Longrightarrow>
     add_piece tc cs = cs[j := (call_index tc, i, n, a @ cc_arguments tc)]"
proof (induction tc cs arbitrary: j rule: add_piece.induct)
  case (2 tc i' n' f' a' cs)
  show ?case
  proof (cases j)
    case (Suc k)
    then have "(call_index tc, i, n, a) \<in> set cs" using 2 by (metis length_Cons not_less_eq nth_Cons_Suc nth_mem)
    then have "i' \<noteq> call_index tc" using 2(2) by force
    then show ?thesis using 2 Suc by simp
  qed (use 2 in simp)
qed simp

lemma add_piece_keys: "fst ` set (add_piece tc cs) = insert (call_index tc) (fst ` set cs)"
  by (induction tc cs rule: add_piece.induct) auto

lemma calls_in_update:
  assumes "j < length (tool_ix bs)" "m = tool_ix bs ! j" "bs ! m = (b, s, op)"
  shows "calls_in (bs[m := (b, s', op)]) = (calls_in bs)[j := (b, s')]"
proof (rule nth_equalityI)
  have ix: "tool_ix (bs[m := (b, s', op)]) = tool_ix bs" using assms(3) by (simp add: tool_ix_update)
  then show "length (calls_in (bs[m := (b, s', op)])) = length ((calls_in bs)[j := (b, s')])" by (simp add: calls_in_def)
  fix k assume "k < length (calls_in (bs[m := (b, s', op)]))"
  then have k: "k < length (tool_ix bs)" by (simp add: calls_in_def ix)
  have m: "m < length bs" using assms(1,2) tool_ix_props(2) [of m bs] by (metis nth_mem)
  have "tool_ix bs ! k = m \<longleftrightarrow> k = j" using k assms(1,2) tool_ix_props(1) by (auto simp: nth_eq_iff_index_eq)
  then show "calls_in (bs[m := (b, s', op)]) ! k = (calls_in bs)[j := (b, s')] ! k"
    using k m by (cases "k = j") (auto simp: calls_in_def ix)
qed

lemma in_step_call_piece:
  assumes i: "in_step clock h st" and t: "map_of (as_tools st) (call_index tc) = Some bi"
  shows "in_step clock (h\<lparr>cm_calls := add_piece tc (cm_calls h)\<rparr>)
    (if cc_arguments tc = [] then st else emit (BlockDelta bi (InputJsonDelta (cc_arguments tc))) st)"
proof -
  from i obtain bs where r: "a_read (as_out st) no_message = Some \<lparr>am_started = as_started st, am_blocks = bs, am_stop = None, am_done = False\<rparr>"
    and ok: "blocks_ok bs st" and c: "calls_ok clock h bs st" and s: "as_stop st = stop_of h"
    "concat (map (block_part (\<lambda>b. b = TextBlock)) bs) = cm_text h"
    "concat (map (block_part (\<lambda>b. b = ThinkingBlock)) bs) = cm_reasoning h" by (rule in_stepE)
  from map_of_SomeD [OF t] obtain j where j: "j < length (as_tools st)" "as_tools st ! j = (call_index tc, bi)" by (auto simp: in_set_conv_nth)
  have len: "length (as_tools st) = length (tool_ix bs)" "length (as_tools st) = length (cm_calls h)"
    using ok c by (metis blocks_ok_def length_map, metis calls_ok_def length_map)
  define m where "m = tool_ix bs ! j"
  have "map snd (as_tools st) ! j = map int (tool_ix bs) ! j" using ok by (simp add: blocks_ok_def)
  then have bi: "bi = int m" using j len by (simp add: m_def)
  have m: "m < length bs" "is_tool (fst (bs ! m))" using j len tool_ix_props(2) [of m bs] by (auto simp: m_def)
  moreover have "snd (snd (bs ! m))" using ok m by (simp add: blocks_ok_def)
  ultimately obtain b t0 where x: "bs ! m = (b, t0, True)" "is_tool b" by (cases "bs ! m") auto
  have "map fst (as_tools st) ! j = map fst (cm_calls h) ! j" using c by (simp add: calls_ok_def)
  then obtain i0 n0 a0 where cj: "cm_calls h ! j = (call_index tc, i0, n0, a0)" using j len by (cases "cm_calls h ! j") auto
  have add: "add_piece tc (cm_calls h) = (cm_calls h)[j := (call_index tc, i0, n0, a0 @ cc_arguments tc)]"
    using c j len cj by (intro add_piece_present) (auto simp: calls_ok_def)
  show ?thesis
  proof (cases "cc_arguments tc = []")
    case True
    then have "add_piece tc (cm_calls h) = cm_calls h" using cj by (simp add: add list_update_same_conv j len(2) [symmetric])
    then show ?thesis using True i by simp
  next
    case False
    let ?a = "cc_arguments tc" and ?st = "emit (BlockDelta bi (InputJsonDelta (cc_arguments tc))) st"
    let ?bs = "bs[m := (b, t0 @ ?a, True)]"
    have "delta_text b (InputJsonDelta ?a) = Some ?a" using x(2) by (cases b) auto
    then have "a_event_read (BlockDelta bi (InputJsonDelta ?a)) \<lparr>am_started = as_started st, am_blocks = bs, am_stop = None, am_done = False\<rparr> =
        Some \<lparr>am_started = as_started st, am_blocks = ?bs, am_stop = None, am_done = False\<rparr>"
      using m x by (simp add: a_open_def bi)
    then have "a_read (as_out ?st) no_message = Some \<lparr>am_started = as_started ?st, am_blocks = ?bs, am_stop = None, am_done = False\<rparr>"
      using read_emit [OF r, of "BlockDelta bi (InputJsonDelta ?a)"] by (simp add: emit_def)
    moreover have "blocks_ok ?bs ?st"
    proof -
      have ne: "bs \<noteq> []" using m by auto
      have "last ?bs = (if m = length bs - 1 then (b, t0 @ ?a, True) else last bs)" using ne by (rule last_list_update)
      then have l: "fst (last ?bs) = fst (last bs)" using x ne by (auto simp: last_conv_nth)
      have n: "fst (?bs ! i) = fst (bs ! i) \<and> snd (snd (?bs ! i)) = snd (snd (bs ! i))" if "i < length bs" for i
        using x that by (cases "i = m") auto
      have "tool_ix ?bs = tool_ix bs" using x by (simp add: tool_ix_update)
      then show ?thesis using ok l n ne by (simp add: blocks_ok_def emit_def)
    qed
    moreover have "calls_ok clock (h\<lparr>cm_calls := add_piece tc (cm_calls h)\<rparr>) ?bs ?st"
    proof -
      have "calls_in ?bs = (calls_in bs)[j := (b, t0 @ ?a)]" using j len x by (intro calls_in_update) (auto simp: m_def)
      moreover have "list_all2 (same_call clock) ((cm_calls h)[j := (call_index tc, i0, n0, a0 @ ?a)]) ((calls_in bs)[j := (b, t0 @ ?a)])"
      proof (rule list_all2_update_cong)
        show l: "list_all2 (same_call clock) (cm_calls h) (calls_in bs)" using c by (simp add: calls_ok_def)
        have "same_call clock (cm_calls h ! j) (calls_in bs ! j)" using list_all2_nthD [OF l] j len by simp
        moreover have "calls_in bs ! j = (b, t0)" using j len x by (simp add: calls_in_def m_def)
        ultimately show "same_call clock (call_index tc, i0, n0, a0 @ ?a) (b, t0 @ ?a)" using cj by (auto simp: same_call_def)
      qed
      moreover have "map fst ((cm_calls h)[j := (call_index tc, i0, n0, a0 @ ?a)]) = map fst (cm_calls h)"
        using cj j len by (simp add: map_update list_update_same_conv)
      ultimately show ?thesis using c by (simp add: calls_ok_def emit_def add)
    qed
    moreover have "map (block_part P) ?bs = map (block_part P) bs" if "\<not> P b" for P
      using m x that by (intro parts_update_other) auto
    moreover have "b \<noteq> TextBlock" "b \<noteq> ThinkingBlock" using x(2) by auto
    ultimately show ?thesis using s False unfolding in_step_def
      by (auto simp: emit_def stop_of_def intro!: exI [of _ ?bs])
  qed
qed

lemma in_step_call_open:
  assumes i: "in_step clock h st" and "as_started st" "\<not> as_text st" "\<not> as_think st" and new: "map_of (as_tools st) (call_index tc) = None"
  shows "in_step clock (h\<lparr>cm_calls := add_piece (tc\<lparr>cc_arguments := []\<rparr>) (cm_calls h)\<rparr>)
    (emit (BlockStart (as_block st + 1) (ToolUseBlock (toolID (clock k) (cc_id tc)) (cc_name tc)))
       (st\<lparr>as_block := as_block st + 1, as_tools := as_tools st @ [(call_index tc, as_block st + 1)]\<rparr>))"
    (is "in_step clock ?h ?st")
proof -
  from i obtain bs where r: "a_read (as_out st) no_message = Some \<lparr>am_started = as_started st, am_blocks = bs, am_stop = None, am_done = False\<rparr>"
    and ok: "blocks_ok bs st" and c: "calls_ok clock h bs st" and s: "as_stop st = stop_of h"
    "concat (map (block_part (\<lambda>b. b = TextBlock)) bs) = cm_text h"
    "concat (map (block_part (\<lambda>b. b = ThinkingBlock)) bs) = cm_reasoning h" by (rule in_stepE)
  let ?b = "ToolUseBlock (toolID (clock k) (cc_id tc)) (cc_name tc)"
  let ?bs = "bs @ [(?b, [], True)]"
  have len: "int (length bs) = as_block st + 1" using ok by (simp add: blocks_ok_def)
  have "a_read (as_out ?st) no_message = Some \<lparr>am_started = as_started ?st, am_blocks = ?bs, am_stop = None, am_done = False\<rparr>"
    using r len assms(2) by (simp add: emit_def a_read_append)
  moreover have "blocks_ok ?bs ?st"
    using blocks_ok_open [OF ok assms(3,4), of False False ?b "as_tools st @ [(call_index tc, as_block st + 1)]" "call_index tc" "[]"] assms(3,4)
    by (auto simp: emit_def blocks_ok_def)
  moreover have "calls_ok clock ?h ?bs ?st"
  proof -
    have "call_index tc \<notin> fst ` set (as_tools st)" using new by (auto simp: map_of_eq_None_iff)
    moreover have "fst ` set (as_tools st) = fst ` set (cm_calls h)" using c by (metis calls_ok_def set_map)
    ultimately have n: "call_index tc \<notin> fst ` set (cm_calls h)" by simp
    moreover have "call_index (tc\<lparr>cc_arguments := []\<rparr>) = call_index tc" by (simp add: call_index_def)
    ultimately have "add_piece (tc\<lparr>cc_arguments := []\<rparr>) (cm_calls h) = cm_calls h @ [(call_index tc, cc_id tc, cc_name tc, [])]"
      using add_piece_absent [of "tc\<lparr>cc_arguments := []\<rparr>"] by simp
    moreover have "same_call clock (call_index tc, cc_id tc, cc_name tc, []) (?b, [])" by (auto simp: same_call_def)
    ultimately show ?thesis using c n by (auto simp: calls_ok_def emit_def intro!: list_all2_appendI)
  qed
  moreover have "concat (map (block_part P) ?bs) = concat (map (block_part P) bs)" for P by (simp add: block_part_def)
  ultimately show ?thesis using s unfolding in_step_def
    by (intro conjI exI [of _ ?bs]) (auto simp: emit_def stop_of_def)
qed

text \<open>The handlers.\<close>

lemma in_step_reasoning:
  assumes "in_step clock h st" "as_started st"
  shows "in_step clock (h\<lparr>cm_reasoning := cm_reasoning h @ s\<rparr>) (on_reasoning s st) \<and> as_started (on_reasoning s st)"
proof (cases "s = []")
  case False
  define st1 where "st1 = (if as_think st then st
    else emit (BlockStart (as_block (closeOpen st) + 1) ThinkingBlock)
      ((closeOpen st)\<lparr>as_block := as_block (closeOpen st) + 1, as_text := False, as_think := True\<rparr>))"
  note c = in_step_close [OF assms(1)]
  have "in_step clock h st1 \<and> as_think st1 \<and> \<not> as_text st1 \<and> as_started st1"
  proof (cases "as_think st")
    case True
    then have "\<not> as_text st" using assms(1) by (auto simp: in_step_def blocks_ok_def)
    then show ?thesis using assms True by (simp add: st1_def)
  next
    case False
    then show ?thesis using in_step_open [of clock h "closeOpen st" False True ThinkingBlock] c assms(2)
      by (auto simp: st1_def emit_def)
  qed
  moreover have "on_reasoning s st = emit (BlockDelta (as_block st1) (ThinkingDelta s)) st1"
  proof -
    have "(closeOpen st)\<lparr>as_block := n, as_text := False, as_think := True\<rparr> = (closeOpen st)\<lparr>as_block := n, as_think := True\<rparr>" for n
      using c by (cases "closeOpen st") simp
    then show ?thesis using False by (simp add: on_reasoning_def st1_def Let_def)
  qed
  ultimately show ?thesis using in_step_piece [of clock h st1 "ThinkingDelta s" s] by (auto simp: emit_def)
qed (use assms in \<open>simp add: on_reasoning_def\<close>)

lemma in_step_content:
  assumes "in_step clock h st" "as_started st"
  shows "in_step clock (h\<lparr>cm_text := cm_text h @ s\<rparr>) (on_content s st) \<and> as_started (on_content s st)"
proof (cases "s = []")
  case False
  define st1 where "st1 = (if as_text st then st
    else emit (BlockStart (as_block (closeOpen st) + 1) TextBlock)
      ((closeOpen st)\<lparr>as_block := as_block (closeOpen st) + 1, as_text := True, as_think := False\<rparr>))"
  note c = in_step_close [OF assms(1)]
  have "in_step clock h st1 \<and> as_text st1 \<and> as_started st1"
  proof (cases "as_text st")
    case True
    then show ?thesis using assms by (simp add: st1_def)
  next
    case False
    then show ?thesis using in_step_open [of clock h "closeOpen st" True False TextBlock] c assms(2)
      by (auto simp: st1_def emit_def)
  qed
  moreover have "on_content s st = emit (BlockDelta (as_block st1) (TextDelta s)) st1"
  proof -
    have "(closeOpen st)\<lparr>as_block := n, as_text := True, as_think := False\<rparr> = (closeOpen st)\<lparr>as_block := n, as_text := True\<rparr>" for n
      using c by (cases "closeOpen st") simp
    then show ?thesis using False by (simp add: on_content_def st1_def Let_def)
  qed
  ultimately show ?thesis using in_step_piece [of clock h st1 "TextDelta s" s] by (auto simp: emit_def)
qed (use assms in \<open>simp add: on_content_def\<close>)

lemma in_step_call:
  assumes "in_step clock h st" "as_started st"
  shows "in_step clock (h\<lparr>cm_calls := add_piece tc (cm_calls h)\<rparr>) (on_call clock tc st) \<and> as_started (on_call clock tc st)"
proof (cases "map_of (as_tools st) (call_index tc)")
  case (Some bi)
  then show ?thesis using in_step_call_piece [OF assms(1) Some] assms(2) by (auto simp: on_call_def Let_def emit_def)
next
  case None
  let ?s0 = "closeOpen st"
  note c = in_step_close [OF assms(1)]
  let ?st1 = "emit (BlockStart (as_block ?s0 + 1) (ToolUseBlock (toolID (clock (length (as_out ?s0))) (cc_id tc)) (cc_name tc)))
    (?s0\<lparr>as_block := as_block ?s0 + 1, as_tools := as_tools ?s0 @ [(call_index tc, as_block ?s0 + 1)]\<rparr>)"
  let ?h1 = "h\<lparr>cm_calls := add_piece (tc\<lparr>cc_arguments := []\<rparr>) (cm_calls h)\<rparr>"
  have "in_step clock ?h1 ?st1" using c assms(2) None by (intro in_step_call_open) auto
  moreover have m: "map_of (as_tools ?st1) (call_index tc) = Some (as_block ?s0 + 1)"
    using None c by (simp add: emit_def map_add_def)
  ultimately have "in_step clock (?h1\<lparr>cm_calls := add_piece tc (cm_calls ?h1)\<rparr>)
      (if cc_arguments tc = [] then ?st1 else emit (BlockDelta (as_block ?s0 + 1) (InputJsonDelta (cc_arguments tc))) ?st1)"
    by (rule in_step_call_piece)
  moreover have "add_piece tc (add_piece (tc\<lparr>cc_arguments := []\<rparr>) cs) = add_piece tc cs" for cs
    by (induction tc cs rule: add_piece.induct) (auto simp: call_index_def)
  moreover have "on_call clock tc st =
      (if cc_arguments tc = [] then ?st1 else emit (BlockDelta (as_block ?s0 + 1) (InputJsonDelta (cc_arguments tc))) ?st1)"
    using None by (simp add: on_call_def Let_def)
  ultimately show ?thesis using c assms(2) by (simp add: emit_def)
qed

lemma in_step_calls:
  "in_step clock h st \<Longrightarrow> as_started st \<Longrightarrow>
     in_step clock (h\<lparr>cm_calls := fold add_piece tcs (cm_calls h)\<rparr>) (fold (on_call clock) tcs st) \<and> as_started (fold (on_call clock) tcs st)"
proof (induction tcs arbitrary: h st)
  case (Cons tc tcs)
  from in_step_call [OF Cons.prems, of tc] Cons.IH [of "h\<lparr>cm_calls := add_piece tc (cm_calls h)\<rparr>" "on_call clock tc st"]
  show ?case by simp
qed simp

lemma in_step_choice:
  assumes "in_step clock h st" "as_started st"
  shows "in_step clock (chat_delta_read d h) (on_choice clock d st) \<and> as_started (on_choice clock d st)"
proof -
  let ?s1 = "on_reasoning (cd_reasoning d) st" and ?h1 = "h\<lparr>cm_reasoning := cm_reasoning h @ cd_reasoning d\<rparr>"
  let ?s2 = "on_content (cd_content d) ?s1" and ?h2 = "?h1\<lparr>cm_text := cm_text h @ cd_content d\<rparr>"
  let ?s3 = "fold (on_call clock) (cd_calls d) ?s2" and ?h3 = "?h2\<lparr>cm_calls := fold add_piece (cd_calls d) (cm_calls h)\<rparr>"
  have 1: "in_step clock ?h1 ?s1 \<and> as_started ?s1" by (rule in_step_reasoning) (rule assms)+
  then have 2: "in_step clock ?h2 ?s2 \<and> as_started ?s2" using in_step_content [of clock ?h1 ?s1 "cd_content d"] by simp
  then have 3: "in_step clock ?h3 ?s3 \<and> as_started ?s3" using in_step_calls [of clock ?h2 ?s2 "cd_calls d"] by simp
  show ?thesis
  proof (cases "cd_finish d")
    case None
    then have "chat_delta_read d h = ?h3" by (simp add: chat_delta_read_def)
    with 3 None show ?thesis by (simp add: on_choice_def Let_def)
  next
    case (Some f)
    then have "chat_delta_read d h = ?h3\<lparr>cm_finish := Some f\<rparr>" by (simp add: chat_delta_read_def)
    moreover have "in_step clock (?h3\<lparr>cm_finish := Some f\<rparr>) (?s3\<lparr>as_stop := mapFinishToStop f\<rparr>)"
      using 3 by (auto simp: in_step_def blocks_ok_def calls_ok_def stop_of_def)
    ultimately show ?thesis using 3 Some by (simp add: on_choice_def Let_def)
  qed
qed

definition chunk_read :: "chat_chunk \<Rightarrow> chat_message \<Rightarrow> chat_message" where
  "chunk_read ck h = fold chat_delta_read (ck_choices ck) h"

lemma in_step_chunk:
  assumes "in_step clock h st"
  shows "in_step clock (chunk_read ck h) (on_chunk clock msgID m ck st)"
proof -
  define st0 where "st0 = (case ck_usage ck of Some u \<Rightarrow> st\<lparr>as_usage := Some u\<rparr> | None \<Rightarrow> st)"
  have "in_step clock h st0" using assms by (auto simp: st0_def in_step_def blocks_ok_def calls_ok_def split: option.split)
  from in_step_start [OF this] have s: "in_step clock h (start msgID m (ck_usage ck) st0)" "as_started (start msgID m (ck_usage ck) st0)" by auto
  have "in_step clock (fold chat_delta_read ds h) (fold (on_choice clock) ds st)" if "in_step clock h st" "as_started st" for ds h st
    using that
  proof (induction ds arbitrary: h st)
    case (Cons d ds)
    from in_step_choice [OF Cons.prems, of d] show ?case by (simp add: Cons.IH)
  qed simp
  from this [OF s] show ?thesis by (simp add: chunk_read_def on_chunk_def st0_def Let_def)
qed

text \<open>Closing the tool blocks, in whatever order.\<close>

definition alike :: "(a_block \<times> string \<times> bool) list \<Rightarrow> (a_block \<times> string \<times> bool) list \<Rightarrow> bool" where
  "alike bs bs' \<longleftrightarrow> map fst bs = map fst bs' \<and> map (fst \<circ> snd) bs = map (fst \<circ> snd) bs'"

lemma alike_update: "i < length bs \<Longrightarrow> bs ! i = (b, s, op) \<Longrightarrow> alike bs (bs[i := (b, s, op')])"
proof -
  assume "i < length bs" "bs ! i = (b, s, op)"
  then have "map fst (bs[i := (b, s, op')]) = map fst bs" "map (fst \<circ> snd) (bs[i := (b, s, op')]) = map (fst \<circ> snd) bs"
    by (simp_all add: map_update list_update_same_conv)
  then show ?thesis by (simp only: alike_def)
qed

lemma alike_nth: "alike bs bs' \<Longrightarrow> length bs = length bs' \<and> (\<forall>i<length bs. fst (bs ! i) = fst (bs' ! i) \<and> fst (snd (bs ! i)) = fst (snd (bs' ! i)))"
proof -
  assume a: "alike bs bs'"
  then have l: "length bs = length bs'" unfolding alike_def by (metis length_map)
  moreover have "fst (bs ! i) = fst (bs' ! i) \<and> fst (snd (bs ! i)) = fst (snd (bs' ! i))" if "i < length bs" for i
    using a that l unfolding alike_def by (metis comp_apply nth_map)
  ultimately show ?thesis by blast
qed

lemma alike_parts: "alike bs bs' \<Longrightarrow> map (block_part P) bs = map (block_part P) bs'"
  using alike_nth [of bs bs'] by (intro nth_equalityI) (auto simp: block_part_def)

lemma alike_calls: "alike bs bs' \<Longrightarrow> calls_in bs = calls_in bs'"
proof -
  assume a: "alike bs bs'"
  have "tool_ix bs = tool_ix bs'"
    unfolding tool_ix_def using alike_nth [OF a] by (intro filter_cong) auto
  then show ?thesis using alike_nth [OF a] by (auto simp: calls_in_def tool_ix_props)
qed

lemma close_blocks:
  assumes "distinct (map snd ts)" and "\<forall>bi\<in>snd ` set ts. a_open bi c"
  shows "\<exists>bs. a_read (map (\<lambda>(_, bi). BlockStop bi) ts) c = Some (c\<lparr>am_blocks := bs\<rparr>) \<and> alike (am_blocks c) bs \<and>
    (\<forall>i<length bs. snd (snd (bs ! i)) \<longleftrightarrow> snd (snd (am_blocks c ! i)) \<and> int i \<notin> snd ` set ts)"
  using assms
proof (induction ts arbitrary: c)
  case Nil
  then show ?case by (auto simp: alike_def intro!: exI [of _ "am_blocks c"])
next
  case (Cons t ts)
  obtain j bi where t: "t = (j, bi)" by fastforce
  have op: "a_open bi c" using Cons.prems(2) by (simp add: t)
  obtain b s o0 where x: "am_blocks c ! nat bi = (b, s, o0)" by (cases "am_blocks c ! nat bi") auto
  let ?c = "c\<lparr>am_blocks := (am_blocks c)[nat bi := (b, s, False)]\<rparr>"
  have r: "a_event_read (BlockStop bi) c = Some ?c" using op x by simp
  have "\<forall>bi'\<in>snd ` set ts. a_open bi' ?c"
  proof
    fix bi' assume "bi' \<in> snd ` set ts"
    then have "a_open bi' c" "bi' \<noteq> bi" using Cons.prems by (auto simp: t)
    then show "a_open bi' ?c" using op by (auto simp: a_open_def nth_list_update)
  qed
  with Cons.IH [of ?c] Cons.prems(1) obtain bs where bs: "a_read (map (\<lambda>(_, bi). BlockStop bi) ts) ?c = Some (?c\<lparr>am_blocks := bs\<rparr>)"
    "alike (am_blocks ?c) bs" "\<forall>i<length bs. snd (snd (bs ! i)) \<longleftrightarrow> snd (snd (am_blocks ?c ! i)) \<and> int i \<notin> snd ` set ts" by auto
  have lt: "nat bi < length (am_blocks c)" "0 \<le> bi" using op by (auto simp: a_open_def)
  then have "alike (am_blocks c) (am_blocks ?c)" using alike_update [OF lt(1) x] by simp
  then have "alike (am_blocks c) bs" using bs(2) by (simp add: alike_def)
  moreover have "snd (snd (bs ! i)) \<longleftrightarrow> snd (snd (am_blocks c ! i)) \<and> int i \<notin> snd ` set (t # ts)" if "i < length bs" for i
  proof -
    have "i < length (am_blocks c)" using alike_nth [OF bs(2)] that by simp
    then show ?thesis using bs(3) that lt x by (auto simp: nth_list_update t)
  qed
  ultimately show ?case using bs(1) r by (auto simp: t intro!: exI [of _ bs])
qed

lemma out_emits: "as_out (fold (\<lambda>(_, bi). emit (BlockStop bi)) ts st) = as_out st @ map (\<lambda>(_, bi). BlockStop bi) ts"
  "as_usage (fold (\<lambda>(_, bi). emit (BlockStop bi)) ts st) = as_usage st" "as_stop (fold (\<lambda>(_, bi). emit (BlockStop bi)) ts st) = as_stop st"
  by (induction ts arbitrary: st) (auto simp: emit_def)

lemma close_all:
  assumes order: "\<And>ts :: (int \<times> int) list. mset (order ts) = mset ts" and i: "in_step clock h st"
    and st': "st' = closeTools order (closeOpen (start msgID m u st))"
  shows "\<exists>bs. a_read (as_out st') no_message = Some \<lparr>am_started = True, am_blocks = bs, am_stop = None, am_done = False\<rparr> \<and>
    (\<forall>b\<in>set bs. \<not> snd (snd b)) \<and> concat (map (block_part (\<lambda>b. b = TextBlock)) bs) = cm_text h \<and>
    concat (map (block_part (\<lambda>b. b = ThinkingBlock)) bs) = cm_reasoning h \<and>
    list_all2 (same_call clock) (cm_calls h) (calls_in bs) \<and> as_stop st' = stop_of h \<and> as_usage st' = as_usage st"
proof -
  let ?s1 = "closeOpen (start msgID m u st)"
  note s = in_step_start [OF i, of msgID m u]
  note c = in_step_close [OF s [THEN conjunct1]]
  from c obtain bs where r: "a_read (as_out ?s1) no_message = Some \<lparr>am_started = True, am_blocks = bs, am_stop = None, am_done = False\<rparr>"
    and ok: "blocks_ok bs ?s1" and k: "calls_ok clock h bs ?s1" and t: "as_stop ?s1 = stop_of h"
    "concat (map (block_part (\<lambda>b. b = TextBlock)) bs) = cm_text h"
    "concat (map (block_part (\<lambda>b. b = ThinkingBlock)) bs) = cm_reasoning h"
    using in_stepE [of clock h ?s1] s by metis
  let ?ts = "order (as_tools ?s1)" and ?c = "\<lparr>am_started = True, am_blocks = bs, am_stop = None, am_done = False\<rparr>"
  have same: "set ?ts = set (as_tools ?s1)" using order by (metis set_mset_mset)
  have snd: "map snd (as_tools ?s1) = map int (tool_ix bs)" using ok by (simp add: blocks_ok_def)
  have "mset (map snd ?ts) = mset (map snd (as_tools ?s1))" using order by simp
  moreover have "distinct (map snd (as_tools ?s1))" unfolding snd using tool_ix_props(1) by (simp add: distinct_map)
  ultimately have d: "distinct (map snd ?ts)" by (metis mset_eq_imp_distinct_iff)
  have snds: "snd ` set ?ts = int ` set (tool_ix bs)" using same snd by (metis set_map)
  have opn: "snd (snd (bs ! i)) \<longleftrightarrow> is_tool (fst (bs ! i))" if "i < length bs" for i using ok c that by (simp add: blocks_ok_def)
  have "\<forall>bi\<in>snd ` set ?ts. a_open bi ?c" unfolding snds using opn by (auto simp: a_open_def tool_ix_props)
  from close_blocks [OF d this] obtain bs' where bs': "a_read (map (\<lambda>(_, bi). BlockStop bi) ?ts) ?c = Some (?c\<lparr>am_blocks := bs'\<rparr>)"
    "alike bs bs'" "\<forall>i<length bs'. snd (snd (bs' ! i)) \<longleftrightarrow> snd (snd (bs ! i)) \<and> int i \<notin> snd ` set ?ts" by auto
  have "\<not> snd (snd b)" if b: "b \<in> set bs'" for b
  proof -
    obtain i where i: "i < length bs'" "b = bs' ! i" using b by (auto simp: in_set_conv_nth)
    then have "i < length bs" using alike_nth [OF bs'(2)] by simp
    then have "snd (snd (bs ! i)) \<longrightarrow> int i \<in> snd ` set ?ts" unfolding snds using opn by (auto simp: tool_ix_props)
    then show ?thesis using bs'(3) i by auto
  qed
  moreover have "a_read (as_out st') no_message = Some \<lparr>am_started = True, am_blocks = bs', am_stop = None, am_done = False\<rparr>"
    using r bs'(1) by (simp add: st' closeTools_def out_emits a_read_append)
  moreover have "as_usage st' = as_usage st" "as_stop st' = stop_of h"
    using t(1) by (auto simp: st' closeTools_def out_emits closeOpen_def start_def emit_def)
  ultimately show ?thesis
    using t k alike_parts [OF bs'(2)] alike_calls [OF bs'(2)] by (intro exI [of _ bs']) (simp add: calls_ok_def)
qed

text \<open>What a chat client makes of the whole stream, and whether the stream is complete.\<close>

fun chat_read :: "(string \<Rightarrow> json option) \<Rightarrow> string list \<Rightarrow> chat_message \<Rightarrow> chat_message \<times> bool" where
  "chat_read parse [] h = (h, False)"
| "chat_read parse (d # ds) h =
     (if d = ''[DONE]'' then (h, True)
      else case dec_chunk (parse d) of
             None \<Rightarrow> chat_read parse ds h
           | Some ck \<Rightarrow> if ck_error ck \<noteq> None then (h, False) else chat_read parse ds (chunk_read ck h))"

lemma read_unfinished:
  "in_step clock h st \<Longrightarrow> \<exists>c. a_read (as_out st) no_message = Some c \<and> am_started c = as_started st \<and> am_stop c = None \<and> \<not> am_done c"
  by (auto simp: in_step_def)

lemma read_error:
  assumes "a_read (as_out st) no_message = Some c" "am_started c" "am_stop c = None" "\<not> am_done c"
  shows "\<exists>c'. a_read (as_out (emit (ErrorEvent e) st)) no_message = Some c' \<and> am_stop c' = None \<and> \<not> am_done c'"
  using read_emit [OF assms(1), of "ErrorEvent e"] assms by simp

lemma stream_loop_reads:
  assumes order: "\<And>ts :: (int \<times> int) list. mset (order ts) = mset ts" and "in_step clock h st"
    and "stream_loop parse order clock msgID m eof ds st = (st', e)" and "chat_read parse ds h = (h', complete)"
  shows "(complete \<longrightarrow> e = None \<and>
      (\<exists>bs. a_read (as_out st') no_message = Some \<lparr>am_started = True, am_blocks = bs,
              am_stop = Some (stop_of h', final_usage (as_usage st')), am_done = True\<rparr> \<and>
         (\<forall>b\<in>set bs. \<not> snd (snd b)) \<and> concat (map (block_part (\<lambda>b. b = TextBlock)) bs) = cm_text h' \<and>
         concat (map (block_part (\<lambda>b. b = ThinkingBlock)) bs) = cm_reasoning h' \<and>
         list_all2 (same_call clock) (cm_calls h') (calls_in bs))) \<and>
    (\<not> complete \<longrightarrow> e \<noteq> None \<and> (\<exists>c. a_read (as_out st') no_message = Some c \<and> am_stop c = None \<and> \<not> am_done c))"
  using assms(2-4)
proof (induction ds arbitrary: h st)
  case Nil
  show ?case
  proof (cases eof)
    case False
    with Nil show ?thesis using read_unfinished [OF Nil.prems(1)] by auto
  next
    case True
    let ?s = "closeTools order (closeOpen (start msgID m None st))"
    from close_all [OF order Nil.prems(1) refl, of msgID m None] obtain bs where
      "a_read (as_out ?s) no_message = Some \<lparr>am_started = True, am_blocks = bs, am_stop = None, am_done = False\<rparr>" by blast
    from read_error [OF this] show ?thesis using Nil.prems True by (auto simp: finish_stream_def Let_def)
  qed
next
  case (Cons d ds)
  show ?case
  proof (cases "d = ''[DONE]''")
    case True
    let ?s = "closeTools order (closeOpen (start msgID m None st))"
    from close_all [OF order Cons.prems(1) refl, of msgID m None] obtain bs where bs:
      "a_read (as_out ?s) no_message = Some \<lparr>am_started = True, am_blocks = bs, am_stop = None, am_done = False\<rparr>"
      "\<forall>b\<in>set bs. \<not> snd (snd b)" "concat (map (block_part (\<lambda>b. b = TextBlock)) bs) = cm_text h"
      "concat (map (block_part (\<lambda>b. b = ThinkingBlock)) bs) = cm_reasoning h"
      "list_all2 (same_call clock) (cm_calls h) (calls_in bs)" "as_stop ?s = stop_of h" by blast
    obtain out inp where u: "final_usage (as_usage ?s) = (out, inp)" by fastforce
    have st': "st' = emit MessageStop (emit (MessageDelta (as_stop ?s) out inp) ?s)" "e = None"
      using Cons.prems(2) True u by (auto simp: finish_stream_def Let_def)
    let ?s1 = "emit (MessageDelta (as_stop ?s) out inp) ?s"
    have "a_event_read (MessageDelta (as_stop ?s) out inp) \<lparr>am_started = True, am_blocks = bs, am_stop = None, am_done = False\<rparr> =
        Some \<lparr>am_started = True, am_blocks = bs, am_stop = Some (stop_of h, out, inp), am_done = False\<rparr>"
      using bs(2,6) by auto
    then have "a_read (as_out ?s1) no_message = Some \<lparr>am_started = True, am_blocks = bs, am_stop = Some (stop_of h, out, inp), am_done = False\<rparr>"
      unfolding read_emit [OF bs(1)] .
    from read_emit [OF this, of MessageStop]
    have "a_read (as_out st') no_message = Some \<lparr>am_started = True, am_blocks = bs, am_stop = Some (stop_of h, out, inp), am_done = True\<rparr>"
      by (simp add: st')
    moreover have "as_usage st' = as_usage ?s" by (simp add: st' emit_def)
    ultimately show ?thesis using bs(2-5) st'(2) Cons.prems(3) True u by auto
  next
    case False
    show ?thesis
    proof (cases "dec_chunk (parse d)")
      case None
      with Cons False show ?thesis by simp
    next
      case (Some ck)
      show ?thesis
      proof (cases "ck_error ck")
        case None
        with Cons.IH [OF in_step_chunk [OF Cons.prems(1)]] Cons.prems False Some show ?thesis by simp
      next
        case (Some msg)
        let ?s = "start msgID m None st"
        from in_step_start [OF Cons.prems(1), of msgID m None] read_unfinished
        obtain c where "a_read (as_out ?s) no_message = Some c" "am_started c" "am_stop c = None" "\<not> am_done c" by metis
        from read_error [OF this, of msg] show ?thesis using Cons.prems False Some \<open>dec_chunk (parse d) = Some ck\<close> by auto
      qed
    qed
  qed
qed

lemma new_stream_in_step: "in_step clock empty_chat new_stream"
  by (auto simp: in_step_def new_stream_def no_message_def blocks_ok_def calls_ok_def empty_chat_def stop_of_def tool_ix_def calls_in_def)

text \<open>Property C31: a converted stream says what the upstream's stream said. The Anthropic events keep the protocol:
  the message starts first, blocks are numbered in order, deltas only reach open blocks of their kind, every
  block is closed before the message ends. When the chat stream is complete, what an Anthropic client puts
  together is what a chat client would have: the same text, the same reasoning, the same tool calls with
  their arguments in the same order, the stop reason and the usage; and when it is not, the message never
  ends and the conversion reports an error.\<close>

theorem chat_stream_kept:
  assumes "\<forall>ts. mset (order ts) = mset (ts :: (int \<times> int) list)"
    and "ChatStreamToAnthropic parse order clock m eof ds = (es, u, e)" and "chat_read parse ds empty_chat = (h, complete)"
  shows "\<exists>c. a_read es no_message = Some c \<and>
    (complete \<longrightarrow> e = None \<and> am_done c \<and> (\<forall>b\<in>set (am_blocks c). \<not> snd (snd b)) \<and>
       text_of c = cm_text h \<and> thinking_of c = cm_reasoning h \<and> list_all2 (same_call clock) (cm_calls h) (tools_of c) \<and>
       am_stop c = Some (stop_of h, final_usage u)) \<and>
    (\<not> complete \<longrightarrow> e \<noteq> None \<and> am_stop c = None \<and> \<not> am_done c)"
proof -
  obtain st where run: "stream_loop parse order clock (anthropicID (clock 0) []) m eof ds new_stream = (st, e)"
    and st: "es = as_out st" "u = as_usage st" using assms(2) by (auto simp: ChatStreamToAnthropic_def split: prod.splits)
  from stream_loop_reads [OF assms(1) [rule_format] new_stream_in_step run assms(3)] show ?thesis
    unfolding st by (cases complete) (auto simp: text_of_def thinking_of_def tools_of_ix)
qed

definition sample_parse :: "string \<Rightarrow> json option" where
  "sample_parse d = (if d = ''1'' then Some (JObj [(''choices'', JArr [JObj [(''delta'', JObj [(''content'', JStr ''hi'')])]])]) else None)"

lemma chat_stream_kept_witness:
  "\<exists>c. a_read (fst (ChatStreamToAnthropic sample_parse rev (\<lambda>_. ''7'') ''m'' True [''1'', ''[DONE]''])) no_message = Some c \<and>
     am_done c \<and> text_of c = ''hi''"
proof -
  have h: "chat_read sample_parse [''1'', ''[DONE]''] empty_chat = (empty_chat\<lparr>cm_text := ''hi''\<rparr>, True)"
    by (simp add: sample_parse_def dec_chunk_def dec_chunk_fields_def dec_choice_def dec_delta_def jfield_def same_key_def
        ascii_lower_def chunk_read_def chat_delta_read_def empty_chat_def zero_delta_def)
  obtain es u e where r: "ChatStreamToAnthropic sample_parse rev (\<lambda>_. ''7'') ''m'' True [''1'', ''[DONE]''] = (es, u, e)"
    by (metis prod_cases3)
  from chat_stream_kept [OF _ r h] show ?thesis unfolding r by (auto simp: empty_chat_def)
qed

end
