(* ===== verification/To_Chat.thy ===== *)
theory To_Chat
  imports To_Anthropic
begin

text \<open>
  From Anthropic messages to OpenAI chat (\<open>src/internal/gateway/convert/chat_anthropic.go\<close>, with the folding of
  thinking into content of \<open>reasoning.go\<close>): the conversion of an Anthropic event stream into a chat
  stream. As in theory \<open>To_Anthropic\<close> the stream is the data of its events, the chunks written are values,
  and the JSON parser and the clock are arguments. So is the setting that folds thinking into the text,
  which the code reads for every delta: here it keeps one value for the whole stream.
\<close>

section \<open>The events of the upstream\<close>

record block_head =
  bh_type :: string
  bh_id :: string
  bh_name :: string

record event_delta =
  ed_type :: string
  ed_text :: string
  ed_json :: string
  ed_thinking :: string
  ed_stop :: string

record up_event =
  ue_type :: string
  ue_index :: int
  ue_message :: "(string \<times> anthropic_usage) option"
  ue_block :: "block_head option"
  ue_delta :: "event_delta option"
  ue_usage :: "anthropic_usage option"
  ue_error :: "string option"

definition dec_block_head :: "(string \<times> json) list \<Rightarrow> block_head option" where
  \<comment> \<open>the raw fields (\<open>input\<close>, \<open>content\<close>, \<open>cache_control\<close>) decode from anything\<close>
  "dec_block_head fs = do {
     t \<leftarrow> dec_str (jfield ''type'' fs);
     _ \<leftarrow> dec_str (jfield ''text'' fs);
     _ \<leftarrow> dec_ptr (\<lambda>gs. do {
            _ \<leftarrow> dec_str (jfield ''type'' gs); _ \<leftarrow> dec_str (jfield ''media_type'' gs);
            _ \<leftarrow> dec_str (jfield ''data'' gs); dec_str (jfield ''url'' gs) }) (jfield ''source'' fs);
     i \<leftarrow> dec_str (jfield ''id'' fs);
     n \<leftarrow> dec_str (jfield ''name'' fs);
     _ \<leftarrow> dec_str (jfield ''tool_use_id'' fs);
     _ \<leftarrow> dec_bool (jfield ''is_error'' fs);
     _ \<leftarrow> dec_str (jfield ''thinking'' fs);
     _ \<leftarrow> dec_str (jfield ''signature'' fs);
     Some \<lparr>bh_type = t, bh_id = i, bh_name = n\<rparr> }"

definition dec_event_delta :: "(string \<times> json) list \<Rightarrow> event_delta option" where
  "dec_event_delta fs = do {
     t \<leftarrow> dec_str (jfield ''type'' fs);
     s \<leftarrow> dec_str (jfield ''text'' fs);
     j \<leftarrow> dec_str (jfield ''partial_json'' fs);
     k \<leftarrow> dec_str (jfield ''thinking'' fs);
     r \<leftarrow> dec_str (jfield ''stop_reason'' fs);
     Some \<lparr>ed_type = t, ed_text = s, ed_json = j, ed_thinking = k, ed_stop = r\<rparr> }"

definition dec_message_head :: "(string \<times> json) list \<Rightarrow> (string \<times> anthropic_usage) option" where
  "dec_message_head fs = do {
     i \<leftarrow> dec_str (jfield ''id'' fs);
     u \<leftarrow> dec_struct zero_anthropic_usage dec_anthropic_usage (jfield ''usage'' fs);
     Some (i, u) }"

definition dec_event_fields :: "(string \<times> json) list \<Rightarrow> up_event option" where
  "dec_event_fields fs = do {
     t \<leftarrow> dec_str (jfield ''type'' fs);
     i \<leftarrow> dec_int (jfield ''index'' fs);
     m \<leftarrow> dec_ptr dec_message_head (jfield ''message'' fs);
     b \<leftarrow> dec_ptr dec_block_head (jfield ''content_block'' fs);
     d \<leftarrow> dec_ptr dec_event_delta (jfield ''delta'' fs);
     u \<leftarrow> dec_ptr dec_anthropic_usage (jfield ''usage'' fs);
     e \<leftarrow> dec_ptr (\<lambda>gs. dec_str (jfield ''message'' gs)) (jfield ''error'' fs);
     Some \<lparr>ue_type = t, ue_index = i, ue_message = m, ue_block = b, ue_delta = d, ue_usage = u, ue_error = e\<rparr> }"

definition zero_event :: up_event where
  "zero_event = \<lparr>ue_type = [], ue_index = 0, ue_message = None, ue_block = None, ue_delta = None, ue_usage = None, ue_error = None\<rparr>"

definition dec_event :: "json option \<Rightarrow> up_event option" where
  "dec_event raw = (case raw of None \<Rightarrow> None | Some v \<Rightarrow> dec_struct zero_event dec_event_fields v)"

section \<open>Thinking in content\<close>

definition think_open :: string where "think_open = ''<think>'' @ [newline]"
definition think_close :: string where "think_close = newline # ''</think>'' @ [newline]"

datatype payload =
    ContentPart string
  | ReasoningPart string
  | CallStart int string string  \<comment> \<open>index, id, name\<close>
  | CallPart int string
  | NoPart

definition think_reasoning :: "bool \<Rightarrow> string \<Rightarrow> bool \<Rightarrow> payload \<times> bool" where
  \<comment> \<open>the flag that is carried: a think block is open; \<open>fold_in\<close>: \<open>ReasoningToContent()\<close>\<close>
  "think_reasoning fold_in d opn =
     (if \<not> fold_in then (ReasoningPart d, opn)
      else if \<not> opn then (ContentPart (think_open @ d), True)
      else (ContentPart d, opn))"

definition think_text :: "string \<Rightarrow> bool \<Rightarrow> payload \<times> bool" where
  "think_text d opn = (if opn then (ContentPart (think_close @ d), False) else (ContentPart d, opn))"

definition think_closing :: "bool \<Rightarrow> payload option \<times> bool" where
  "think_closing opn = (if \<not> opn then (None, opn) else (Some (ContentPart think_close), False))"

section \<open>The conversion\<close>

datatype chat_out =
    Chunk string bool payload "string option"  \<comment> \<open>id, whether the role is sent along, the delta, the finish reason\<close>
  | UsageChunk string usage
  | ErrorChunk string string  \<comment> \<open>message and type\<close>
  | DoneMark

record c_stream =
  cs_id :: string
  cs_usage :: usage
  cs_tools :: "(int \<times> int) list"  \<comment> \<open>block index to tool call index, the latest first\<close>
  cs_next :: int
  cs_finish :: string
  cs_role :: bool
  cs_think :: bool
  cs_out :: "chat_out list"

definition chatID :: "string \<Rightarrow> string \<Rightarrow> string" where
  "chatID clock i = (if i = [] then ''chatcmpl-'' @ clock else ''chatcmpl-'' @ trim_prefix i ''msg_'')"

definition mapStopToFinish :: "string \<Rightarrow> string" where
  "mapStopToFinish sr = (if sr = ''max_tokens'' then ''length'' else if sr = ''tool_use'' then ''tool_calls'' else ''stop'')"

definition emitChunk :: "payload \<Rightarrow> string option \<Rightarrow> c_stream \<Rightarrow> c_stream" where
  "emitChunk p fin st = st\<lparr>cs_role := True, cs_out := cs_out st @ [Chunk (cs_id st) (\<not> cs_role st) p fin]\<rparr>"

definition write_out :: "chat_out \<Rightarrow> c_stream \<Rightarrow> c_stream" where
  "write_out x st = st\<lparr>cs_out := cs_out st @ [x]\<rparr>"

definition prompt_of :: "anthropic_usage \<Rightarrow> int" where
  "prompt_of a = InputTokens a + CacheReadInputTokens a + CacheCreationInputTokens a"

definition on_message_start :: "string \<Rightarrow> up_event \<Rightarrow> c_stream \<Rightarrow> c_stream" where
  "on_message_start clock e st =
     emitChunk (ContentPart []) None
       (case ue_message e of
          None \<Rightarrow> st
        | Some (i, a) \<Rightarrow>
            st\<lparr>cs_id := chatID clock i,
               cs_usage := with_cached (CacheReadInputTokens a)
                 ((cs_usage st)\<lparr>PromptTokens := prompt_of a, CacheWriteTokens := CacheCreationInputTokens a\<rparr>)\<rparr>)"

definition on_block_start :: "up_event \<Rightarrow> c_stream \<Rightarrow> c_stream" where
  "on_block_start e st =
     (case ue_block e of
        None \<Rightarrow> st
      | Some b \<Rightarrow>
          if bh_type b \<noteq> ''tool_use'' then st
          else emitChunk (CallStart (cs_next st) (bh_id b) (bh_name b)) None
                 (st\<lparr>cs_next := cs_next st + 1, cs_tools := (ue_index e, cs_next st) # cs_tools st\<rparr>))"

definition call_of :: "int \<Rightarrow> c_stream \<Rightarrow> int" where
  \<comment> \<open>\<open>blockTool[e.Index]\<close>, zero for an index that is not there\<close>
  "call_of i st = (case map_of (cs_tools st) i of Some ti \<Rightarrow> ti | None \<Rightarrow> 0)"

definition on_block_delta :: "bool \<Rightarrow> up_event \<Rightarrow> c_stream \<Rightarrow> c_stream" where
  "on_block_delta fold_in e st =
     (case ue_delta e of
        None \<Rightarrow> st
      | Some d \<Rightarrow>
          if ed_type d = ''text_delta'' then
            (case think_text (ed_text d) (cs_think st) of (p, k) \<Rightarrow> emitChunk p None (st\<lparr>cs_think := k\<rparr>))
          else if ed_type d = ''thinking_delta'' then
            (case think_reasoning fold_in (ed_thinking d) (cs_think st) of (p, k) \<Rightarrow> emitChunk p None (st\<lparr>cs_think := k\<rparr>))
          else if ed_type d = ''input_json_delta'' then emitChunk (CallPart (call_of (ue_index e) st) (ed_json d)) None st
          else st)"

definition on_message_delta :: "up_event \<Rightarrow> c_stream \<Rightarrow> c_stream" where
  "on_message_delta e st =
     (let st = (case ue_delta e of
                  Some d \<Rightarrow> if ed_stop d \<noteq> [] then st\<lparr>cs_finish := mapStopToFinish (ed_stop d)\<rparr> else st
                | None \<Rightarrow> st)
      in case ue_usage e of
           None \<Rightarrow> st
         | Some a \<Rightarrow>
             let u = (cs_usage st)\<lparr>CompletionTokens := OutputTokens a\<rparr>
             in st\<lparr>cs_usage := (if InputTokens a > 0
                  then u\<lparr>PromptTokens := prompt_of a, CacheWriteTokens := CacheCreationInputTokens a\<rparr> else u)\<rparr>)"

definition with_total :: "c_stream \<Rightarrow> c_stream" where
  "with_total st = st\<lparr>cs_usage := (cs_usage st)\<lparr>TotalTokens := PromptTokens (cs_usage st) + CompletionTokens (cs_usage st)\<rparr>\<rparr>"

definition on_message_stop :: "bool \<Rightarrow> c_stream \<Rightarrow> c_stream" where
  "on_message_stop includeUsage st =
     (let st = (case think_closing (cs_think st) of
                  (Some p, k) \<Rightarrow> emitChunk p None (st\<lparr>cs_think := k\<rparr>) | (None, k) \<Rightarrow> st);
          st = with_total st;
          st = emitChunk NoPart (Some (cs_finish st)) st;
          st = (if includeUsage then write_out (UsageChunk (cs_id st) (cs_usage st)) st else st)
      in write_out DoneMark st)"

definition error_text :: "up_event \<Rightarrow> string" where
  "error_text e = (case ue_error e of Some s \<Rightarrow> s | None \<Rightarrow> ''upstream error'')"

fun chat_loop ::
  "(string \<Rightarrow> json option) \<Rightarrow> bool \<Rightarrow> (nat \<Rightarrow> string) \<Rightarrow> bool \<Rightarrow> bool \<Rightarrow> string list \<Rightarrow> c_stream \<Rightarrow> c_stream \<times> stream_error option" where
  "chat_loop parse fold_in clock includeUsage eof [] st =
     (if eof then (write_out (ErrorChunk incomplete_message ''upstream_incomplete'') (with_total st), Some ErrIncomplete)
      else (st, Some ReadError))"
| "chat_loop parse fold_in clock includeUsage eof (d # ds) st =
     (case dec_event (parse d) of
        None \<Rightarrow> chat_loop parse fold_in clock includeUsage eof ds st
      | Some e \<Rightarrow>
          if ue_type e = ''error'' then (write_out (ErrorChunk (error_text e) ''api_error'') st, Some (UpstreamError (error_text e)))
          else if ue_type e = ''message_stop'' then (on_message_stop includeUsage st, None)
          else chat_loop parse fold_in clock includeUsage eof ds
                 (if ue_type e = ''message_start'' then on_message_start (clock (length (cs_out st))) e st
                  else if ue_type e = ''content_block_start'' then on_block_start e st
                  else if ue_type e = ''content_block_delta'' then on_block_delta fold_in e st
                  else if ue_type e = ''message_delta'' then on_message_delta e st
                  else st))"

definition new_chat_stream :: "string \<Rightarrow> c_stream" where
  "new_chat_stream clock = \<lparr>cs_id = chatID clock [], cs_usage = zero_usage, cs_tools = [], cs_next = 0, cs_finish = ''stop'',
     cs_role = False, cs_think = False, cs_out = []\<rparr>"

definition AnthropicStreamToChat ::
  "(string \<Rightarrow> json option) \<Rightarrow> bool \<Rightarrow> (nat \<Rightarrow> string) \<Rightarrow> bool \<Rightarrow> bool \<Rightarrow> string list \<Rightarrow> chat_out list \<times> usage \<times> stream_error option" where
  "AnthropicStreamToChat parse fold_in clock includeUsage eof ds =
     (case chat_loop parse fold_in clock includeUsage eof ds (new_chat_stream (clock 0)) of
        (st, e) \<Rightarrow> (cs_out st, cs_usage st, e))"

section \<open>What the clients put together\<close>

definition payload_delta :: "payload \<Rightarrow> string option \<Rightarrow> chat_delta" where
  "payload_delta p fin =
     (case p of
        ContentPart s \<Rightarrow> zero_delta\<lparr>cd_content := s, cd_finish := fin\<rparr>
      | ReasoningPart s \<Rightarrow> zero_delta\<lparr>cd_reasoning := s, cd_finish := fin\<rparr>
      | CallStart i n f \<Rightarrow> zero_delta\<lparr>cd_calls := [\<lparr>cc_index = Some i, cc_id = n, cc_name = f, cc_arguments = []\<rparr>], cd_finish := fin\<rparr>
      | CallPart i a \<Rightarrow> zero_delta\<lparr>cd_calls := [\<lparr>cc_index = Some i, cc_id = [], cc_name = [], cc_arguments = a\<rparr>], cd_finish := fin\<rparr>
      | NoPart \<Rightarrow> zero_delta\<lparr>cd_finish := fin\<rparr>)"

fun chat_out_read :: "chat_out \<Rightarrow> chat_message \<Rightarrow> chat_message" where
  "chat_out_read (Chunk _ _ p fin) h = chat_delta_read (payload_delta p fin) h"
| "chat_out_read _ h = h"

definition chat_outs_read :: "chat_out list \<Rightarrow> chat_message" where
  "chat_outs_read xs = fold chat_out_read xs empty_chat"

text \<open>What the Anthropic events say: the pieces of text and thinking in their order, and the tool calls by the number
  of their block.\<close>

datatype piece = Said string | Thought string

record up_message =
  um_pieces :: "piece list"
  um_calls :: "(int \<times> string \<times> string \<times> string) list"
  um_stop :: "string option"

definition no_up_message :: up_message where
  "no_up_message = \<lparr>um_pieces = [], um_calls = [], um_stop = None\<rparr>"

definition tool_start :: "up_event \<Rightarrow> (string \<times> string) option" where
  "tool_start e =
     (case ue_block e of Some b \<Rightarrow> if bh_type b = ''tool_use'' then Some (bh_id b, bh_name b) else None | None \<Rightarrow> None)"

definition up_event_read :: "up_event \<Rightarrow> up_message \<Rightarrow> up_message" where
  "up_event_read e um =
     (if ue_type e = ''content_block_start'' then
        (case tool_start e of Some (i, n) \<Rightarrow> um\<lparr>um_calls := um_calls um @ [(ue_index e, i, n, [])]\<rparr> | None \<Rightarrow> um)
      else if ue_type e = ''content_block_delta'' then
        (case ue_delta e of
           None \<Rightarrow> um
         | Some d \<Rightarrow>
             if ed_type d = ''text_delta'' then um\<lparr>um_pieces := um_pieces um @ [Said (ed_text d)]\<rparr>
             else if ed_type d = ''thinking_delta'' then um\<lparr>um_pieces := um_pieces um @ [Thought (ed_thinking d)]\<rparr>
             else if ed_type d = ''input_json_delta'' then
               um\<lparr>um_calls := map (\<lambda>(b, i, n, a). if b = ue_index e then (b, i, n, a @ ed_json d) else (b, i, n, a)) (um_calls um)\<rparr>
             else um)
      else if ue_type e = ''message_delta'' then
        (case ue_delta e of Some d \<Rightarrow> if ed_stop d \<noteq> [] then um\<lparr>um_stop := Some (ed_stop d)\<rparr> else um | None \<Rightarrow> um)
      else um)"

definition keeps_protocol :: "up_event \<Rightarrow> up_message \<Rightarrow> bool" where
  \<comment> \<open>blocks have numbers of their own, and pieces of input only reach tool calls\<close>
  "keeps_protocol e um \<longleftrightarrow>
     (ue_type e = ''content_block_start'' \<and> tool_start e \<noteq> None \<longrightarrow> ue_index e \<notin> fst ` set (um_calls um)) \<and>
     (ue_type e = ''content_block_delta'' \<and> (\<exists>d. ue_delta e = Some d \<and> ed_type d = ''input_json_delta'') \<longrightarrow>
        ue_index e \<in> fst ` set (um_calls um))"

fun up_read :: "(string \<Rightarrow> json option) \<Rightarrow> string list \<Rightarrow> up_message \<Rightarrow> up_message \<times> bool \<times> bool" where
  \<comment> \<open>the message, whether it is complete, whether the events keep the protocol\<close>
  "up_read parse [] um = (um, False, True)"
| "up_read parse (d # ds) um =
     (case dec_event (parse d) of
        None \<Rightarrow> up_read parse ds um
      | Some e \<Rightarrow>
          if ue_type e = ''error'' then (um, False, True)
          else if ue_type e = ''message_stop'' then (um, True, True)
          else case up_read parse ds (up_event_read e um) of (um', c, p) \<Rightarrow> (um', c, p \<and> keeps_protocol e um))"

fun rendered :: "bool \<Rightarrow> piece list \<Rightarrow> bool \<Rightarrow> string \<times> string \<times> bool" where
  \<comment> \<open>content and reasoning of a chat message, and whether a think block is open\<close>
  "rendered fold_in [] opn = ([], [], opn)"
| "rendered fold_in (Said s # ps) opn =
     (case rendered fold_in ps False of (t, r, k) \<Rightarrow> ((if opn then think_close @ s else s) @ t, r, k))"
| "rendered fold_in (Thought s # ps) opn =
     (if fold_in then (case rendered fold_in ps True of (t, r, k) \<Rightarrow> ((if opn then s else think_open @ s) @ t, r, k))
      else (case rendered fold_in ps opn of (t, r, k) \<Rightarrow> (t, s @ r, k)))"

definition content_of :: "bool \<Rightarrow> piece list \<Rightarrow> string" where
  "content_of fold_in ps = (case rendered fold_in ps False of (t, _, opn) \<Rightarrow> t @ (if opn then think_close else []))"

definition reasoning_of :: "bool \<Rightarrow> piece list \<Rightarrow> string" where
  "reasoning_of fold_in ps = fst (snd (rendered fold_in ps False))"

definition numbered :: "(int \<times> string \<times> string \<times> string) list \<Rightarrow> (int \<times> string \<times> string \<times> string) list" where
  "numbered cs = map (\<lambda>(k, (_, x)). (int k, x)) (zip [0..<length cs] cs)"

section \<open>The conversion keeps the message\<close>

lemma rendered_append:
  "rendered f (ps @ qs) k =
     (case rendered f ps k of (t, r, k') \<Rightarrow> case rendered f qs k' of (t', r', k'') \<Rightarrow> (t @ t', r @ r', k''))"
  by (induction f ps k rule: rendered.induct) (auto split: prod.splits)

text \<open>Without folding the content is the text and the reasoning the thinking.\<close>

lemma rendered_apart:
  "rendered False ps False =
     (concat (map (\<lambda>p. case p of Said s \<Rightarrow> s | Thought _ \<Rightarrow> []) ps), concat (map (\<lambda>p. case p of Thought s \<Rightarrow> s | Said _ \<Rightarrow> []) ps), False)"
  by (induction ps) (auto split: piece.splits)

lemma numbered_snoc: "numbered (cs @ [(b, x)]) = numbered cs @ [(int (length cs), x)]"
  by (simp add: numbered_def)

lemma numbered_nth: "k < length cs \<Longrightarrow> numbered cs ! k = (int k, snd (cs ! k))"
  by (simp add: numbered_def split_def)

lemma length_numbered [simp]: "length (numbered cs) = length cs"
  by (simp add: numbered_def)

lemma numbered_keys: "map fst (numbered cs) = map int [0..<length cs]"
  by (rule nth_equalityI) (auto simp: numbered_nth)

definition role_first :: "chat_out list \<Rightarrow> bool" where
  \<comment> \<open>chunks, the first of them with the role and no other\<close>
  "role_first xs \<longleftrightarrow> (\<forall>k<length xs. \<exists>i p f. xs ! k = Chunk i (k = 0) p f)"

lemma role_first_snoc [simp]: "role_first (xs @ [Chunk i r p f]) \<longleftrightarrow> role_first xs \<and> r = (xs = [])"
  unfolding role_first_def by (auto simp: nth_append less_Suc_eq)

lemma role_first_done: "role_first xs \<Longrightarrow> DoneMark \<notin> set xs"
  unfolding role_first_def by (metis chat_out.distinct(5) in_set_conv_nth)

definition c_in_step :: "bool \<Rightarrow> up_message \<Rightarrow> c_stream \<Rightarrow> bool" where
  "c_in_step fold_in um st \<longleftrightarrow>
     (let h = chat_outs_read (cs_out st)
      in rendered fold_in (um_pieces um) False = (cm_text h, cm_reasoning h, cs_think st) \<and> cm_calls h = numbered (um_calls um) \<and>
         cs_next st = int (length (um_calls um)) \<and> distinct (map fst (um_calls um)) \<and>
         (\<forall>k<length (um_calls um). map_of (cs_tools st) (fst (um_calls um ! k)) = Some (int k)) \<and>
         cs_finish st = (case um_stop um of Some r \<Rightarrow> mapStopToFinish r | None \<Rightarrow> ''stop'') \<and>
         role_first (cs_out st) \<and> cs_role st = (cs_out st \<noteq> []))"

lemma outs_snoc: "chat_outs_read (xs @ [x]) = chat_out_read x (chat_outs_read xs)"
  by (simp add: chat_outs_read_def)

lemma emitted:
  "cs_out (emitChunk p fin st) = cs_out st @ [Chunk (cs_id st) (\<not> cs_role st) p fin]" "cs_role (emitChunk p fin st)"
  "cs_think (emitChunk p fin st) = cs_think st" "cs_next (emitChunk p fin st) = cs_next st" "cs_tools (emitChunk p fin st) = cs_tools st"
  "cs_finish (emitChunk p fin st) = cs_finish st" "cs_usage (emitChunk p fin st) = cs_usage st"
  by (simp_all add: emitChunk_def)

lemma read_parts:
  "chat_delta_read (payload_delta (ContentPart s) None) h = h\<lparr>cm_text := cm_text h @ s\<rparr>"
  "chat_delta_read (payload_delta (ReasoningPart s) None) h = h\<lparr>cm_reasoning := cm_reasoning h @ s\<rparr>"
  "chat_delta_read (payload_delta (CallStart i n f) None) h = h\<lparr>cm_calls := add_piece \<lparr>cc_index = Some i, cc_id = n, cc_name = f, cc_arguments = []\<rparr> (cm_calls h)\<rparr>"
  "chat_delta_read (payload_delta (CallPart i a) None) h = h\<lparr>cm_calls := add_piece \<lparr>cc_index = Some i, cc_id = [], cc_name = [], cc_arguments = a\<rparr> (cm_calls h)\<rparr>"
  by (simp_all add: payload_delta_def chat_delta_read_def zero_delta_def)

lemma c_in_step_text:
  assumes "c_in_step f um st"
  shows "c_in_step f (um\<lparr>um_pieces := um_pieces um @ [Said s]\<rparr>)
    (case think_text s (cs_think st) of (p, k) \<Rightarrow> emitChunk p None (st\<lparr>cs_think := k\<rparr>))"
  using assms
  by (auto simp: c_in_step_def Let_def think_text_def emitted outs_snoc read_parts rendered_append split: prod.splits)

lemma c_in_step_thought:
  assumes "c_in_step f um st"
  shows "c_in_step f (um\<lparr>um_pieces := um_pieces um @ [Thought s]\<rparr>)
    (case think_reasoning f s (cs_think st) of (p, k) \<Rightarrow> emitChunk p None (st\<lparr>cs_think := k\<rparr>))"
  using assms
  by (auto simp: c_in_step_def Let_def think_reasoning_def emitted outs_snoc read_parts rendered_append split: prod.splits)

lemma c_in_step_start:
  assumes "c_in_step f um st"
  shows "c_in_step f um (on_message_start clock e st)"
  using assms
  by (auto simp: c_in_step_def Let_def on_message_start_def emitted outs_snoc read_parts split: option.split prod.splits)

lemma numbered_absent: "int (length cs) \<notin> fst ` set (numbered cs)"
proof -
  have "fst ` set (numbered cs) = int ` {..<length cs}" using arg_cong [OF numbered_keys, of set cs] by (simp add: lessThan_atLeast0)
  then show ?thesis by auto
qed

lemma c_in_step_tool:
  assumes c: "c_in_step f um st" and new: "b \<notin> fst ` set (um_calls um)"
  shows "c_in_step f (um\<lparr>um_calls := um_calls um @ [(b, i, n, [])]\<rparr>)
    (emitChunk (CallStart (cs_next st) i n) None (st\<lparr>cs_next := cs_next st + 1, cs_tools := (b, cs_next st) # cs_tools st\<rparr>))"
proof -
  let ?tc = "\<lparr>cc_index = Some (int (length (um_calls um))), cc_id = i, cc_name = n, cc_arguments = []\<rparr>"
  have "add_piece ?tc (numbered (um_calls um)) = numbered (um_calls um @ [(b, i, n, [])])"
    unfolding numbered_snoc using numbered_absent [of "um_calls um"] by (subst add_piece_absent) (simp_all add: call_index_def)
  moreover have "fst (um_calls um ! k) \<noteq> b" if "k < length (um_calls um)" for k using new that by (metis imageI nth_mem)
  ultimately show ?thesis
    using c new
    by (auto simp: c_in_step_def Let_def emitted outs_snoc read_parts nth_append less_Suc_eq)
qed

lemma c_in_step_input:
  assumes c: "c_in_step f um st" and b: "b \<in> fst ` set (um_calls um)"
  shows "c_in_step f (um\<lparr>um_calls := map (\<lambda>(b', i, n, a). if b' = b then (b', i, n, a @ s) else (b', i, n, a)) (um_calls um)\<rparr>)
    (emitChunk (CallPart (call_of b st) s) None st)"
proof -
  let ?cs = "um_calls um" and ?g = "\<lambda>(b', i, n, a). if b' = b then (b', i, n, a @ s) else (b', i, n, a)"
  obtain k where k: "k < length ?cs" "fst (?cs ! k) = b" using b by (auto simp: in_set_conv_nth)
  then obtain i n a where ck: "?cs ! k = (b, i, n, a)" by (cases "?cs ! k") auto
  have d: "distinct (map fst ?cs)" and m: "map_of (cs_tools st) b = Some (int k)" using c k by (auto simp: c_in_step_def Let_def)
  have only: "fst (?cs ! j) = b \<longleftrightarrow> j = k" if "j < length ?cs" for j
    using d k that by (metis length_map nth_eq_iff_index_eq nth_map)
  have upd: "map ?g ?cs = ?cs[k := (b, i, n, a @ s)]"
  proof (rule nth_equalityI)
    fix j assume "j < length (map ?g ?cs)"
    then show "map ?g ?cs ! j = ?cs[k := (b, i, n, a @ s)] ! j"
      using only [of j] ck k by (cases "j = k") (auto split: prod.split)
  qed simp
  have "add_piece \<lparr>cc_index = Some (int k), cc_id = [], cc_name = [], cc_arguments = s\<rparr> (numbered ?cs) =
      (numbered ?cs)[k := (int k, i, n, a @ s)]"
    by (subst add_piece_present [of _ k _ i n a])
      (use k ck in \<open>simp_all add: numbered_keys numbered_nth call_index_def distinct_map inj_on_def\<close>)
  also have "\<dots> = numbered (map ?g ?cs)" unfolding upd
  proof (rule nth_equalityI)
    fix j assume "j < length ((numbered ?cs)[k := (int k, i, n, a @ s)])"
    then show "(numbered ?cs)[k := (int k, i, n, a @ s)] ! j = numbered (?cs[k := (b, i, n, a @ s)]) ! j"
      by (cases "j = k") (simp_all add: numbered_nth)
  qed simp
  finally have add: "add_piece \<lparr>cc_index = Some (int k), cc_id = [], cc_name = [], cc_arguments = s\<rparr> (numbered ?cs) = numbered (map ?g ?cs)" .
  define cs' where "cs' = map ?g ?cs"
  have "map fst cs' = map fst ?cs" unfolding cs'_def by (rule nth_equalityI) (auto split: prod.split)
  moreover have "length cs' = length ?cs" by (simp add: cs'_def)
  moreover have "fst (cs' ! j) = fst (?cs ! j)" if "j < length ?cs" for j using that by (auto simp: cs'_def split: prod.split)
  ultimately show ?thesis
    using c add m unfolding cs'_def [symmetric]
    by (auto simp: c_in_step_def Let_def emitted outs_snoc read_parts call_of_def)
qed

lemma c_in_step_usage [simp]: "c_in_step f um (st\<lparr>cs_usage := u\<rparr>) = c_in_step f um st"
  by (simp add: c_in_step_def)

lemma c_in_step_finish:
  "c_in_step f um st \<Longrightarrow> c_in_step f (um\<lparr>um_stop := Some r\<rparr>) (st\<lparr>cs_finish := mapStopToFinish r\<rparr>)"
  by (simp add: c_in_step_def Let_def)

lemma c_in_step_message_delta:
  assumes "c_in_step f um st" "ue_type e = ''message_delta''"
  shows "c_in_step f (up_event_read e um) (on_message_delta e st)"
  using assms c_in_step_finish
  by (auto simp: up_event_read_def on_message_delta_def Let_def split: option.split)

lemma c_in_step_block_start:
  assumes "c_in_step f um st" "ue_type e = ''content_block_start''" "keeps_protocol e um"
  shows "c_in_step f (up_event_read e um) (on_block_start e st)"
  using assms c_in_step_tool [OF assms(1)]
  by (auto simp: up_event_read_def on_block_start_def tool_start_def keeps_protocol_def split: option.splits if_splits)

lemma c_in_step_block_delta:
  assumes "c_in_step f um st" "ue_type e = ''content_block_delta''" "keeps_protocol e um"
  shows "c_in_step f (up_event_read e um) (on_block_delta f e st)"
proof (cases "ue_delta e")
  case (Some d)
  then have "ed_type d = ''input_json_delta'' \<Longrightarrow> ue_index e \<in> fst ` set (um_calls um)"
    using assms(2,3) by (auto simp: keeps_protocol_def)
  with Some show ?thesis
    using assms(2) c_in_step_text [OF assms(1)] c_in_step_thought [OF assms(1)] c_in_step_input [OF assms(1), of "ue_index e"] assms(1)
    by (simp add: up_event_read_def on_block_delta_def)
qed (use assms in \<open>simp add: up_event_read_def on_block_delta_def\<close>)

lemmas c_in_steps = c_in_step_start c_in_step_block_start c_in_step_block_delta c_in_step_message_delta

lemma chat_loop_kept:
  "c_in_step f um st \<Longrightarrow> up_read parse ds um = (um', c, True) \<Longrightarrow>
     chat_loop parse f clock inc eof ds st = (st', e) \<Longrightarrow>
     (if c then e = None \<and> (\<exists>st0. c_in_step f um' st0 \<and> st' = on_message_stop inc st0)
      else e \<noteq> None \<and> DoneMark \<notin> set (cs_out st'))"
proof (induction ds arbitrary: um st)
  case Nil
  then show ?case by (auto simp: c_in_step_def Let_def write_out_def with_total_def dest: role_first_done split: if_splits)
next
  case (Cons d ds)
  show ?case
  proof (cases "dec_event (parse d)")
    case None
    then show ?thesis using Cons by simp
  next
    case (Some e')
    have no_read: "up_event_read e' um = um"
      if "ue_type e' \<notin> {''content_block_start'', ''content_block_delta'', ''message_delta''}"
      using that by (simp add: up_event_read_def)
    consider "ue_type e' = ''error''" | "ue_type e' = ''message_stop''" | "ue_type e' \<noteq> ''error''" "ue_type e' \<noteq> ''message_stop''" by blast
    then show ?thesis
    proof cases
      case 1
      then show ?thesis using Cons.prems Some
        by (auto simp: c_in_step_def Let_def write_out_def dest: role_first_done)
    next
      case 2
      then show ?thesis using Cons.prems Some by auto
    next
      case 3
      obtain um2 c2 p2 where r: "up_read parse ds (up_event_read e' um) = (um2, c2, p2)" by (metis prod_cases3)
      then have eq: "um2 = um'" "c2 = c" p2 and kp: "keeps_protocol e' um" using Cons.prems(2) Some 3 by auto
      let ?st = "if ue_type e' = ''message_start'' then on_message_start (clock (length (cs_out st))) e' st
                  else if ue_type e' = ''content_block_start'' then on_block_start e' st
                  else if ue_type e' = ''content_block_delta'' then on_block_delta f e' st
                  else if ue_type e' = ''message_delta'' then on_message_delta e' st
                  else st"
      have "c_in_step f (up_event_read e' um) ?st"
        using Cons.prems(1) c_in_steps [OF Cons.prems(1)] kp no_read by simp
      moreover have "chat_loop parse f clock inc eof ds ?st = (st', e)" using Cons.prems(3) Some 3 by simp
      ultimately show ?thesis using Cons.IH r eq by simp
    qed
  qed
qed

section \<open>What the client gets\<close>

lemma read_end:
  "chat_delta_read (payload_delta NoPart fin) h = h\<lparr>cm_finish := (case fin of Some s \<Rightarrow> Some s | None \<Rightarrow> cm_finish h)\<rparr>"
  by (simp add: payload_delta_def chat_delta_read_def zero_delta_def split: option.split)

lemma message_stop_kept:
  assumes "c_in_step f um st"
  shows "\<exists>i xs. cs_out (on_message_stop inc st) =
      xs @ (if inc then [UsageChunk i (cs_usage (on_message_stop inc st))] else []) @ [DoneMark] \<and> role_first xs \<and>
      chat_outs_read xs =
        \<lparr>cm_text = content_of f (um_pieces um), cm_reasoning = reasoning_of f (um_pieces um), cm_calls = numbered (um_calls um),
         cm_finish = Some (case um_stop um of Some r \<Rightarrow> mapStopToFinish r | None \<Rightarrow> ''stop'')\<rparr>"
proof -
  let ?st1 = "case think_closing (cs_think st) of (Some p, k) \<Rightarrow> emitChunk p None (st\<lparr>cs_think := k\<rparr>) | (None, k) \<Rightarrow> st"
  let ?st2 = "emitChunk NoPart (Some (cs_finish ?st1)) (with_total ?st1)"
  have out: "cs_out (on_message_stop inc st) =
      cs_out ?st2 @ (if inc then [UsageChunk (cs_id ?st2) (cs_usage (on_message_stop inc st))] else []) @ [DoneMark]"
    by (simp add: on_message_stop_def Let_def write_out_def with_total_def emitChunk_def)
  have parts: "rendered f (um_pieces um) False = (cm_text (chat_outs_read (cs_out st)), cm_reasoning (chat_outs_read (cs_out st)), cs_think st)"
    "cm_calls (chat_outs_read (cs_out st)) = numbered (um_calls um)"
    "cs_finish st = (case um_stop um of Some r \<Rightarrow> mapStopToFinish r | None \<Rightarrow> ''stop'')"
    "role_first (cs_out st)" "cs_role st = (cs_out st \<noteq> [])"
    using assms by (simp_all add: c_in_step_def Let_def)
  have "role_first (cs_out ?st2)"
    using parts by (simp add: think_closing_def with_total_def emitted)
  moreover have "chat_outs_read (cs_out ?st2) =
        \<lparr>cm_text = content_of f (um_pieces um), cm_reasoning = reasoning_of f (um_pieces um), cm_calls = numbered (um_calls um),
         cm_finish = Some (case um_stop um of Some r \<Rightarrow> mapStopToFinish r | None \<Rightarrow> ''stop'')\<rparr>"
    using parts by (simp add: think_closing_def with_total_def emitted outs_snoc read_parts read_end content_of_def reasoning_of_def)
  ultimately show ?thesis using out by blast
qed

lemma new_in_step: "c_in_step f no_up_message (new_chat_stream clock)"
  by (simp add: c_in_step_def new_chat_stream_def no_up_message_def chat_outs_read_def empty_chat_def role_first_def numbered_def)

text \<open>Property C32: an Anthropic event stream that ends with \<open>message_stop\<close> and keeps its protocol becomes a chat
  stream that says the same. The text, the reasoning, the tool calls and the finish reason a client puts
  together from the chunks are those of the upstream, with the thinking inside the content when it is to be folded
  in; the tool calls are numbered from zero by the order of their blocks; the role is sent with the first
  chunk and no other; and the stream ends with the usage that was asked for and \<open>[DONE]\<close>, each once. No
  other stream is reported as complete: without the end, the conversion fails and \<open>[DONE]\<close> is never written.\<close>

theorem anthropic_stream_kept:
  assumes "up_read parse ds no_up_message = (um, complete, True)"
    and "AnthropicStreamToChat parse f clock inc eof ds = (es, u, e)"
  shows "if complete
    then e = None \<and> (\<exists>i xs. es = xs @ (if inc then [UsageChunk i u] else []) @ [DoneMark] \<and> role_first xs \<and>
      chat_outs_read xs =
        \<lparr>cm_text = content_of f (um_pieces um), cm_reasoning = reasoning_of f (um_pieces um), cm_calls = numbered (um_calls um),
         cm_finish = Some (case um_stop um of Some r \<Rightarrow> mapStopToFinish r | None \<Rightarrow> ''stop'')\<rparr>)
    else e \<noteq> None \<and> DoneMark \<notin> set es"
proof -
  obtain st where st: "chat_loop parse f clock inc eof ds (new_chat_stream (clock 0)) = (st, e)" "es = cs_out st" "u = cs_usage st"
    using assms(2) by (auto simp: AnthropicStreamToChat_def split: prod.splits)
  show ?thesis
    using chat_loop_kept [OF new_in_step assms(1) st(1)] message_stop_kept [of f um _ inc] unfolding st(2,3)
    by (auto split: if_splits)
qed

definition sample_events :: "string \<Rightarrow> json option" where
  "sample_events d =
     (if d = ''1'' then Some (JObj [(''type'', JStr ''content_block_delta''),
        (''delta'', JObj [(''type'', JStr ''text_delta''), (''text'', JStr ''hi'')])])
      else if d = ''2'' then Some (JObj [(''type'', JStr ''message_stop'')]) else None)"

lemma anthropic_stream_kept_witness:
  "\<exists>i u xs. AnthropicStreamToChat sample_events True (\<lambda>_. ''7'') True True [''1'', ''2''] = (xs @ [UsageChunk i u, DoneMark], u, None) \<and>
     cm_text (chat_outs_read xs) = ''hi'' \<and> cm_finish (chat_outs_read xs) = Some ''stop''"
proof -
  have h: "up_read sample_events [''1'', ''2''] no_up_message = (no_up_message\<lparr>um_pieces := [Said ''hi'']\<rparr>, True, True)"
    by (simp add: sample_events_def dec_event_def dec_event_fields_def dec_event_delta_def dec_block_head_def dec_message_head_def
        jfield_def same_key_def ascii_lower_def up_event_read_def keeps_protocol_def no_up_message_def)
  obtain es u e where r: "AnthropicStreamToChat sample_events True (\<lambda>_. ''7'') True True [''1'', ''2''] = (es, u, e)"
    by (metis prod_cases3)
  from anthropic_stream_kept [OF h r] show ?thesis unfolding r by (auto simp: content_of_def no_up_message_def)
qed

end
