(* ===== verification/Messages.thy ===== *)
theory Messages
  imports To_Chat
begin

text \<open>
  Requests and complete responses between OpenAI chat and Anthropic messages
  (\<open>src/internal/gateway/convert/chat_anthropic.go\<close>, \<open>anthropic_chat.go\<close>, \<open>reasoning.go\<close>, \<open>types.go\<close>). A
  \<open>json.RawMessage\<close> is a JSON value that may be absent, which is not the same as \<open>null\<close>: a raw field
  holds the \<open>null\<close> the client sent. \<open>parse\<close> reads the JSON text of tool arguments and \<open>shown\<close>
  writes a value back as text; numbers that are only passed on (temperature) stay literals, and the
  clock names what has no id.
\<close>

section \<open>Chat requests\<close>

record chat_msg =
  mg_role :: string
  mg_content :: "json option"
  mg_calls :: "chat_call list"
  mg_call_id :: string
  mg_reasoning :: string

definition message :: "string \<Rightarrow> chat_msg" where
  "message r = \<lparr>mg_role = r, mg_content = None, mg_calls = [], mg_call_id = [], mg_reasoning = []\<rparr>"

record chat_tool =
  ct_type :: string
  ct_name :: string
  ct_description :: string
  ct_parameters :: "json option"

record chat_request =
  cr_model :: string
  cr_messages :: "chat_msg list"
  cr_max_tokens :: "int option"
  cr_max_completion :: "int option"
  cr_temperature :: "string option"
  cr_top_p :: "string option"
  cr_stop :: "json option"
  cr_stream :: bool
  cr_stream_options :: "json option"
  cr_tools :: "chat_tool list"
  cr_tool_choice :: "json option"
  cr_parallel :: "bool option"
  cr_user :: string
  cr_format :: "json option"
  cr_effort :: string

definition empty_request :: "string \<Rightarrow> chat_request" where
  "empty_request m = \<lparr>cr_model = m, cr_messages = [], cr_max_tokens = None, cr_max_completion = None, cr_temperature = None,
     cr_top_p = None, cr_stop = None, cr_stream = False, cr_stream_options = None, cr_tools = [], cr_tool_choice = None,
     cr_parallel = None, cr_user = [], cr_format = None, cr_effort = []\<rparr>"

section \<open>Anthropic requests\<close>

record image_source =
  is_type :: string
  is_media :: string
  is_data :: string
  is_url :: string

record content_block =
  cb_type :: string
  cb_text :: string
  cb_source :: "image_source option"
  cb_id :: string
  cb_name :: string
  cb_input :: "json option"
  cb_tool_use_id :: string
  cb_content :: "json option"
  cb_is_error :: "bool option"
  cb_thinking :: string
  cb_signature :: string
  cb_cache :: "json option"

definition block :: "string \<Rightarrow> content_block" where
  "block t = \<lparr>cb_type = t, cb_text = [], cb_source = None, cb_id = [], cb_name = [], cb_input = None, cb_tool_use_id = [],
     cb_content = None, cb_is_error = None, cb_thinking = [], cb_signature = [], cb_cache = None\<rparr>"

record a_msg =
  an_role :: string
  an_content :: "json option"

record a_tool =
  at_name :: string
  at_description :: string
  at_schema :: "json option"
  at_type :: string

record a_request =
  ar_model :: string
  ar_max_tokens :: int
  ar_messages :: "a_msg list"
  ar_system :: "json option"
  ar_temperature :: "string option"
  ar_top_p :: "string option"
  ar_stop :: "string list"
  ar_stream :: bool
  ar_tools :: "a_tool list"
  ar_tool_choice :: "json option"
  ar_thinking :: "json option"

definition jraw :: "string \<Rightarrow> (string \<times> json) list \<Rightarrow> json option" where
  \<comment> \<open>a raw field keeps \<open>null\<close>\<close>
  "jraw k fs = map_option snd (List.find (\<lambda>(k', v). same_key k k') (rev fs))"

fun dec_bool_ptr :: "json \<Rightarrow> bool option option" where
  "dec_bool_ptr JNull = Some None"
| "dec_bool_ptr (JBool b) = Some (Some b)"
| "dec_bool_ptr _ = None"

definition dec_source :: "(string \<times> json) list \<Rightarrow> image_source option" where
  "dec_source fs = do {
     t \<leftarrow> dec_str (jfield ''type'' fs);
     m \<leftarrow> dec_str (jfield ''media_type'' fs);
     d \<leftarrow> dec_str (jfield ''data'' fs);
     u \<leftarrow> dec_str (jfield ''url'' fs);
     Some \<lparr>is_type = t, is_media = m, is_data = d, is_url = u\<rparr> }"

definition dec_block :: "(string \<times> json) list \<Rightarrow> content_block option" where
  "dec_block fs = do {
     t \<leftarrow> dec_str (jfield ''type'' fs);
     s \<leftarrow> dec_str (jfield ''text'' fs);
     src \<leftarrow> dec_ptr dec_source (jfield ''source'' fs);
     i \<leftarrow> dec_str (jfield ''id'' fs);
     n \<leftarrow> dec_str (jfield ''name'' fs);
     u \<leftarrow> dec_str (jfield ''tool_use_id'' fs);
     e \<leftarrow> dec_bool_ptr (jfield ''is_error'' fs);
     th \<leftarrow> dec_str (jfield ''thinking'' fs);
     sg \<leftarrow> dec_str (jfield ''signature'' fs);
     Some \<lparr>cb_type = t, cb_text = s, cb_source = src, cb_id = i, cb_name = n, cb_input = jraw ''input'' fs,
       cb_tool_use_id = u, cb_content = jraw ''content'' fs, cb_is_error = e, cb_thinking = th, cb_signature = sg,
       cb_cache = jraw ''cache_control'' fs\<rparr> }"

definition dec_blocks :: "json \<Rightarrow> content_block list option" where
  "dec_blocks = dec_list (dec_struct (block []) dec_block)"

definition str_field :: "string \<Rightarrow> string \<Rightarrow> (string \<times> json) list" where
  \<comment> \<open>\<open>omitempty\<close>\<close>
  "str_field k s = (if s = [] then [] else [(k, JStr s)])"

definition raw_field :: "string \<Rightarrow> json option \<Rightarrow> (string \<times> json) list" where
  "raw_field k r = (case r of Some v \<Rightarrow> [(k, v)] | None \<Rightarrow> [])"

definition enc_source :: "image_source \<Rightarrow> json" where
  "enc_source s = JObj ((''type'', JStr (is_type s)) # str_field ''media_type'' (is_media s) @ str_field ''data'' (is_data s) @
     str_field ''url'' (is_url s))"

definition enc_block :: "content_block \<Rightarrow> json" where
  "enc_block b = JObj ((''type'', JStr (cb_type b)) # str_field ''text'' (cb_text b) @
     raw_field ''source'' (map_option enc_source (cb_source b)) @ str_field ''id'' (cb_id b) @ str_field ''name'' (cb_name b) @
     raw_field ''input'' (cb_input b) @ str_field ''tool_use_id'' (cb_tool_use_id b) @ raw_field ''content'' (cb_content b) @
     raw_field ''is_error'' (map_option JBool (cb_is_error b)) @ str_field ''thinking'' (cb_thinking b) @
     str_field ''signature'' (cb_signature b) @ raw_field ''cache_control'' (cb_cache b))"

definition enc_blocks :: "content_block list \<Rightarrow> json" where
  "enc_blocks bs = JArr (map enc_block bs)"

section \<open>Reading content\<close>

definition dec_text_part :: "(string \<times> json) list \<Rightarrow> (string \<times> string) option" where
  "dec_text_part fs = do { t \<leftarrow> dec_str (jfield ''type'' fs); s \<leftarrow> dec_str (jfield ''text'' fs); Some (t, s) }"

definition chatContentText :: "json option \<Rightarrow> string" where
  "chatContentText raw =
     (case raw of
        None \<Rightarrow> []
      | Some v \<Rightarrow>
          (case dec_str v of
             Some s \<Rightarrow> s
           | None \<Rightarrow>
               (case dec_list (dec_struct ([], []) dec_text_part) v of
                  Some ps \<Rightarrow> concat (map snd (filter (\<lambda>p. fst p = ''text'') ps))
                | None \<Rightarrow> [])))"

record user_part =
  up_type :: string
  up_text :: string
  up_url :: "string option"

definition dec_user_part :: "(string \<times> json) list \<Rightarrow> user_part option" where
  "dec_user_part fs = do {
     t \<leftarrow> dec_str (jfield ''type'' fs);
     s \<leftarrow> dec_str (jfield ''text'' fs);
     u \<leftarrow> dec_ptr (\<lambda>gs. dec_str (jfield ''url'' gs)) (jfield ''image_url'' fs);
     Some \<lparr>up_type = t, up_text = s, up_url = u\<rparr> }"

definition dec_user_parts :: "json \<Rightarrow> user_part list option" where
  "dec_user_parts = dec_list (dec_struct \<lparr>up_type = [], up_text = [], up_url = None\<rparr> dec_user_part)"

definition trim_suffix :: "string \<Rightarrow> string \<Rightarrow> string" where
  \<comment> \<open>\<open>strings.TrimSuffix(s, p)\<close>\<close>
  "trim_suffix s p = (if has_suffix s p then take (length s - length p) s else s)"

definition source_of :: "string \<Rightarrow> image_source" where
  "source_of url =
     (if has_prefix url ''data:'' then
        let rest = trim_prefix url ''data:'';
            meta = takeWhile (\<lambda>c. c \<noteq> CHR '','') rest; data = drop 1 (dropWhile (\<lambda>c. c \<noteq> CHR '','') rest)
        in \<lparr>is_type = ''base64'', is_media = trim_suffix meta '';base64'', is_data = data, is_url = []\<rparr>
      else \<lparr>is_type = ''url'', is_media = [], is_data = [], is_url = url\<rparr>)"

definition text_block :: "string \<Rightarrow> content_block" where
  "text_block s = (block ''text'')\<lparr>cb_text := s\<rparr>"

definition part_blocks :: "user_part \<Rightarrow> content_block list" where
  "part_blocks p =
     (if up_type p = ''text'' then [text_block (up_text p)]
      else if up_type p = ''image_url'' then
        (case up_url p of None \<Rightarrow> [] | Some u \<Rightarrow> [(block ''image'')\<lparr>cb_source := Some (source_of u)\<rparr>])
      else [])"

definition chatUserContentToBlocks :: "json option \<Rightarrow> content_block list option" where
  \<comment> \<open>None: the content is neither a text nor a list of parts\<close>
  "chatUserContentToBlocks raw =
     (case raw of
        None \<Rightarrow> None
      | Some v \<Rightarrow>
          (case dec_str v of
             Some s \<Rightarrow> Some [text_block (if s = [] then '' '' else s)]
           | None \<Rightarrow> map_option (\<lambda>ps. concat (map part_blocks ps)) (dec_user_parts v)))"

section \<open>Chat requests to Anthropic requests\<close>

datatype convert_error = InvalidUserContent | InvalidMessageContent | NoUserMessages

definition chat_max_tokens :: "chat_request \<Rightarrow> int" where
  "chat_max_tokens r =
     (case cr_max_completion r of
        Some n \<Rightarrow> if n > 0 then n else (case cr_max_tokens r of Some n \<Rightarrow> if n > 0 then n else 8192 | None \<Rightarrow> 8192)
      | None \<Rightarrow> (case cr_max_tokens r of Some n \<Rightarrow> if n > 0 then n else 8192 | None \<Rightarrow> 8192))"

fun dec_strings :: "json \<Rightarrow> string list" where
  \<comment> \<open>a \<open>[]string\<close> when the error is ignored: an element of another type is left empty\<close>
  "dec_strings (JArr vs) = map (\<lambda>v. case dec_str v of Some s \<Rightarrow> s | None \<Rightarrow> []) vs"
| "dec_strings _ = []"

definition stop_sequences :: "json option \<Rightarrow> string list" where
  "stop_sequences raw =
     (case raw of None \<Rightarrow> [] | Some v \<Rightarrow> (case dec_str v of Some s \<Rightarrow> [s] | None \<Rightarrow> dec_strings v))"

definition effort_budget :: "string \<Rightarrow> int" where
  "effort_budget e = (if e = ''low'' then 1024 else if e = ''medium'' then 4096 else if e = ''high'' then 16000 else 0)"

definition think_enabled :: "int \<Rightarrow> json" where
  "think_enabled budget = JObj [(''budget_tokens'', JInt budget), (''type'', JStr ''enabled'')]"

definition appendMsg :: "string \<Rightarrow> content_block list \<Rightarrow> a_msg list \<Rightarrow> a_msg list" where
  "appendMsg role blocks msgs =
     (if blocks = [] then msgs
      else if msgs \<noteq> [] \<and> an_role (List.last msgs) = role then
        let prev = (case an_content (List.last msgs) of
                      Some v \<Rightarrow> (case dec_blocks v of Some p \<Rightarrow> p | None \<Rightarrow> []) | None \<Rightarrow> [])
        in butlast msgs @ [(List.last msgs)\<lparr>an_content := Some (enc_blocks (prev @ blocks))\<rparr>]
      else msgs @ [\<lparr>an_role = role, an_content = Some (enc_blocks blocks)\<rparr>])"

definition call_input :: "(string \<Rightarrow> json option) \<Rightarrow> string \<Rightarrow> json" where
  "call_input parse args = (if args = [] then JObj [] else case parse args of Some v \<Rightarrow> v | None \<Rightarrow> JObj [])"

definition call_block :: "(string \<Rightarrow> json option) \<Rightarrow> string \<Rightarrow> chat_call \<Rightarrow> content_block" where
  "call_block parse now tc =
     (block ''tool_use'')\<lparr>cb_id := toolID now (cc_id tc), cb_name := cc_name tc, cb_input := Some (call_input parse (cc_arguments tc))\<rparr>"

definition call_blocks :: "(string \<Rightarrow> json option) \<Rightarrow> (nat \<Rightarrow> string) \<Rightarrow> chat_call list \<Rightarrow> content_block list" where
  "call_blocks parse clock tcs = map (\<lambda>(j, tc). call_block parse (clock j) tc) (enumerate 0 tcs)"

definition assistant_blocks :: "(string \<Rightarrow> json option) \<Rightarrow> (nat \<Rightarrow> string) \<Rightarrow> chat_msg \<Rightarrow> content_block list" where
  "assistant_blocks parse clock m =
     (let txt = chatContentText (mg_content m);
          blocks = (if txt \<noteq> [] then [text_block txt] else []) @ call_blocks parse clock (mg_calls m)
      in if blocks = [] then [text_block '' ''] else blocks)"

definition result_block :: "chat_msg \<Rightarrow> content_block" where
  "result_block m = (block ''tool_result'')\<lparr>cb_tool_use_id := mg_call_id m, cb_content := Some (JStr (chatContentText (mg_content m)))\<rparr>"

definition convert_message ::
  "(string \<Rightarrow> json option) \<Rightarrow> (nat \<Rightarrow> string) \<Rightarrow> chat_msg \<Rightarrow> string list \<times> a_msg list \<Rightarrow> convert_error + string list \<times> a_msg list" where
  "convert_message parse clock m st =
     (case st of (sys, msgs) \<Rightarrow>
        if mg_role m = ''system'' \<or> mg_role m = ''developer'' then Inr (sys @ [chatContentText (mg_content m)], msgs)
        else if mg_role m = ''user'' then
          (case chatUserContentToBlocks (mg_content m) of
             None \<Rightarrow> Inl InvalidUserContent
           | Some bs \<Rightarrow> Inr (sys, appendMsg ''user'' bs msgs))
        else if mg_role m = ''assistant'' then Inr (sys, appendMsg ''assistant'' (assistant_blocks parse clock m) msgs)
        else if mg_role m = ''tool'' \<or> mg_role m = ''function'' then Inr (sys, appendMsg ''user'' [result_block m] msgs)
        else Inr (sys, msgs))"

fun convert_messages ::
  "(string \<Rightarrow> json option) \<Rightarrow> (nat \<Rightarrow> nat \<Rightarrow> string) \<Rightarrow> nat \<Rightarrow> chat_msg list \<Rightarrow> string list \<times> a_msg list \<Rightarrow>
     convert_error + string list \<times> a_msg list" where
  "convert_messages parse clock i [] st = Inr st"
| "convert_messages parse clock i (m # ms) st =
     (case convert_message parse (clock i) m st of
        Inl e \<Rightarrow> Inl e
      | Inr st' \<Rightarrow> convert_messages parse clock (Suc i) ms st')"

definition no_parameters :: json where
  "no_parameters = JObj [(''type'', JStr ''object''), (''properties'', JObj [])]"

definition tool_of :: "chat_tool \<Rightarrow> a_tool" where
  "tool_of t = \<lparr>at_name = ct_name t, at_description = ct_description t,
     at_schema = Some (case ct_parameters t of Some p \<Rightarrow> p | None \<Rightarrow> no_parameters), at_type = []\<rparr>"

fun join_sep :: "string \<Rightarrow> string list \<Rightarrow> string" where
  \<comment> \<open>\<open>strings.Join\<close>\<close>
  "join_sep sep [] = []"
| "join_sep sep [s] = s"
| "join_sep sep (s # t # ss) = s @ sep @ join_sep sep (t # ss)"

definition dec_choice_name :: "(string \<times> json) list \<Rightarrow> string option" where
  "dec_choice_name fs = dec_struct [] (\<lambda>gs. dec_str (jfield ''name'' gs)) (jfield ''function'' fs)"

definition choice_to_anthropic :: "bool option \<Rightarrow> json option \<Rightarrow> a_tool list \<Rightarrow> a_tool list \<times> json option" where
  \<comment> \<open>the tools that stay and their choice; \<open>par\<close>: \<open>parallel_tool_calls\<close>\<close>
  "choice_to_anthropic par raw tools =
     (case raw of
        None \<Rightarrow> (tools, None)
      | Some v \<Rightarrow>
          if tools = [] then (tools, None)
          else let (tools, fs) =
                 (case dec_str v of
                    Some s \<Rightarrow>
                      (if s = ''none'' then [] else tools,
                       if s = ''auto'' then Some [(''type'', JStr ''auto'')]
                       else if s = ''required'' then Some [(''type'', JStr ''any'')] else None)
                  | None \<Rightarrow>
                      (tools, case dec_struct [] dec_choice_name v of
                                Some n \<Rightarrow> if n \<noteq> [] then Some [(''name'', JStr n), (''type'', JStr ''tool'')] else None
                              | None \<Rightarrow> None))
               in (tools, map_option (\<lambda>fs. JObj ((if par = Some False then [(''disable_parallel_tool_use'', JBool True)] else []) @ fs)) fs))"

definition first_from_user :: "a_msg list \<Rightarrow> a_msg list" where
  "first_from_user msgs =
     (if an_role (hd msgs) \<noteq> ''user''
      then \<lparr>an_role = ''user'', an_content = Some (enc_blocks [text_block ''(continue)''])\<rparr> # msgs else msgs)"

definition ChatToAnthropicRequest ::
  "(string \<Rightarrow> json option) \<Rightarrow> (nat \<Rightarrow> nat \<Rightarrow> string) \<Rightarrow> chat_request \<Rightarrow> string \<Rightarrow> convert_error + a_request" where
  \<comment> \<open>\<open>clock i j\<close>: the time when call \<open>j\<close> of message \<open>i\<close> is converted\<close>
  "ChatToAnthropicRequest parse clock r m =
     (let budget = effort_budget (cr_effort r); maxt = chat_max_tokens r
      in case convert_messages parse clock 0 (cr_messages r) ([], []) of
           Inl e \<Rightarrow> Inl e
         | Inr (sys, msgs) \<Rightarrow>
             if msgs = [] then Inl NoUserMessages
             else let (tools, choice) = choice_to_anthropic (cr_parallel r) (cr_tool_choice r)
                        (map tool_of (filter (\<lambda>t. ct_type t = ''function'') (cr_tools r)))
               in Inr \<lparr>ar_model = m, ar_max_tokens = (if budget > 0 \<and> maxt \<le> budget then budget + 4096 else maxt),
                    ar_messages = first_from_user msgs,
                    ar_system = (if sys = [] then None else Some (JStr (join_sep [newline, newline] sys))),
                    ar_temperature = cr_temperature r, ar_top_p = cr_top_p r, ar_stop = stop_sequences (cr_stop r),
                    ar_stream = cr_stream r, ar_tools = tools, ar_tool_choice = choice,
                    ar_thinking = (if budget > 0 then Some (think_enabled budget) else None)\<rparr>)"

section \<open>Anthropic requests to chat requests\<close>








definition toolResultContent :: "json option \<Rightarrow> json" where
  "toolResultContent raw =
     (case raw of
        None \<Rightarrow> JStr []
      | Some v \<Rightarrow>
          (case dec_str v of
             Some s \<Rightarrow> JStr s
           | None \<Rightarrow>
               (case dec_blocks v of
                  Some bs \<Rightarrow> JStr (concat (map cb_text (filter (\<lambda>b. cb_type b = ''text'') bs)))
                | None \<Rightarrow> v)))"



definition block_call :: "(json \<Rightarrow> string) \<Rightarrow> content_block \<Rightarrow> chat_call" where
  \<comment> \<open>\<open>shown\<close>: the raw text of a value\<close>
  "block_call shown b = \<lparr>cc_index = None, cc_id = cb_id b, cc_name = cb_name b,
     cc_arguments = (case cb_input b of Some v \<Rightarrow> shown v | None \<Rightarrow> ''{}'')\<rparr>"

definition blocks_text :: "content_block list \<Rightarrow> string" where
  "blocks_text bs = concat (map cb_text (filter (\<lambda>b. cb_type b = ''text'') bs))"



definition choice_field :: "string \<Rightarrow> json \<Rightarrow> json" where
  "choice_field k v = (case v of JObj fs \<Rightarrow> jfield k fs | _ \<Rightarrow> JNull)"

definition choice_to_chat :: "json option \<Rightarrow> json option \<times> bool option" where
  \<comment> \<open>the choice and \<open>parallel_tool_calls\<close>; decoding errors are ignored field by field\<close>
  "choice_to_chat raw =
     (case raw of
        None \<Rightarrow> (None, None)
      | Some v \<Rightarrow>
          let t = (case dec_str (choice_field ''type'' v) of Some s \<Rightarrow> s | None \<Rightarrow> []);
              n = (case dec_str (choice_field ''name'' v) of Some s \<Rightarrow> s | None \<Rightarrow> []);
              d = (case dec_bool_ptr (choice_field ''disable_parallel_tool_use'' v) of Some (Some True) \<Rightarrow> True | _ \<Rightarrow> False)
          in (if t = ''auto'' then Some (JStr ''auto'')
              else if t = ''any'' then Some (JStr ''required'')
              else if t = ''none'' then Some (JStr ''none'')
              else if t = ''tool'' then Some (JObj [(''function'', JObj [(''name'', JStr n)]), (''type'', JStr ''function'')])
              else None,
              if d then Some False else None))"





section \<open>Blocks survive their JSON\<close>

lemma jfield_jraw: "jfield k fs = (case jraw k fs of Some v \<Rightarrow> v | None \<Rightarrow> JNull)"
  by (auto simp: jfield_def jraw_def split: option.split prod.split)

lemma jraw_Nil [simp]: "jraw k [] = None"
  by (simp add: jraw_def)

lemma jraw_append: "jraw k (xs @ ys) = (case jraw k ys of Some v \<Rightarrow> Some v | None \<Rightarrow> jraw k xs)"
  by (auto simp: jraw_def find_append split: option.split)

lemma jraw_Cons: "jraw k ((k', v) # xs) = (case jraw k xs of Some w \<Rightarrow> Some w | None \<Rightarrow> if same_key k k' then Some v else None)"
  using jraw_append [of k "[(k', v)]" xs] by (simp add: jraw_def split: option.split)

lemma jraw_str_field: "jraw k (str_field k' s) = (if same_key k k' \<and> s \<noteq> [] then Some (JStr s) else None)"
  by (simp add: str_field_def jraw_Cons)

lemma jraw_raw_field: "jraw k (raw_field k' r) = (if same_key k k' then r else None)"
  by (simp add: raw_field_def jraw_Cons split: option.split)

lemmas jraw_simps = jraw_append jraw_Cons jraw_str_field jraw_raw_field

lemma dec_source_enc: "dec_ptr dec_source (enc_source s) = Some (Some s)"
  by (simp add: enc_source_def dec_source_def jfield_jraw jraw_simps same_key_def ascii_lower_def split: option.split)

lemma dec_source_none: "enc_source s \<noteq> JNull"
  by (simp add: enc_source_def)

lemma dec_block_enc: "dec_struct (block []) dec_block (enc_block b) = Some b"
proof -
  let ?fs = "(''type'', JStr (cb_type b)) # str_field ''text'' (cb_text b) @
     raw_field ''source'' (map_option enc_source (cb_source b)) @ str_field ''id'' (cb_id b) @ str_field ''name'' (cb_name b) @
     raw_field ''input'' (cb_input b) @ str_field ''tool_use_id'' (cb_tool_use_id b) @ raw_field ''content'' (cb_content b) @
     raw_field ''is_error'' (map_option JBool (cb_is_error b)) @ str_field ''thinking'' (cb_thinking b) @
     str_field ''signature'' (cb_signature b) @ raw_field ''cache_control'' (cb_cache b)"
  note looking = jfield_jraw jraw_simps same_key_def ascii_lower_def
  have "dec_str (jfield ''type'' ?fs) = Some (cb_type b)" by (simp add: looking split: option.split)
  moreover have "dec_str (jfield ''text'' ?fs) = Some (cb_text b)" by (simp add: looking split: option.split)
  moreover have "dec_ptr dec_source (jfield ''source'' ?fs) = Some (cb_source b)"
    by (cases "cb_source b") (simp_all add: looking dec_source_enc split: option.split)
  moreover have "dec_str (jfield ''id'' ?fs) = Some (cb_id b)" by (simp add: looking split: option.split)
  moreover have "dec_str (jfield ''name'' ?fs) = Some (cb_name b)" by (simp add: looking split: option.split)
  moreover have "dec_str (jfield ''tool_use_id'' ?fs) = Some (cb_tool_use_id b)" by (simp add: looking split: option.split)
  moreover have "dec_bool_ptr (jfield ''is_error'' ?fs) = Some (cb_is_error b)"
    by (cases "cb_is_error b") (simp_all add: looking split: option.split)
  moreover have "dec_str (jfield ''thinking'' ?fs) = Some (cb_thinking b)" by (simp add: looking split: option.split)
  moreover have "dec_str (jfield ''signature'' ?fs) = Some (cb_signature b)" by (simp add: looking split: option.split)
  moreover have "jraw ''input'' ?fs = cb_input b" "jraw ''content'' ?fs = cb_content b" "jraw ''cache_control'' ?fs = cb_cache b"
    by (simp_all add: jraw_simps same_key_def ascii_lower_def split: option.split)
  ultimately show ?thesis by (simp add: enc_block_def dec_block_def)
qed

lemma those_all: "\<forall>x\<in>set xs. f x = Some (g x) \<Longrightarrow> those (map f xs) = Some (map g xs)"
  by (induction xs) auto

lemma dec_blocks_enc [simp]: "dec_blocks (enc_blocks bs) = Some bs"
  using those_all [of bs "\<lambda>b. dec_struct (block []) dec_block (enc_block b)" id]
  by (simp add: dec_blocks_def enc_blocks_def dec_block_enc comp_def)

section \<open>Messages of one role\<close>

text \<open>What every message contributes, and the contributions with those of one role after another put together.\<close>

definition group_add :: "string \<times> content_block list \<Rightarrow> (string \<times> content_block list) list \<Rightarrow> (string \<times> content_block list) list" where
  "group_add c g =
     (if snd c = [] then g
      else if g \<noteq> [] \<and> fst (List.last g) = fst c then butlast g @ [(fst c, snd (List.last g) @ snd c)]
      else g @ [c])"

definition as_msg :: "string \<times> content_block list \<Rightarrow> a_msg" where
  "as_msg c = \<lparr>an_role = fst c, an_content = Some (enc_blocks (snd c))\<rparr>"

lemma appendMsg_groups: "appendMsg role bs (map as_msg g) = map as_msg (group_add (role, bs) g)"
  by (cases g rule: rev_cases) (auto simp: appendMsg_def group_add_def as_msg_def Let_def)

definition is_system :: "chat_msg \<Rightarrow> bool" where
  "is_system m \<longleftrightarrow> mg_role m = ''system'' \<or> mg_role m = ''developer''"

definition sent :: "(string \<Rightarrow> json option) \<Rightarrow> (nat \<Rightarrow> string) \<Rightarrow> chat_msg \<Rightarrow> string \<times> content_block list" where
  "sent parse clock m =
     (if mg_role m = ''assistant'' then (''assistant'', assistant_blocks parse clock m)
      else (''user'',
        if mg_role m = ''user'' then (case chatUserContentToBlocks (mg_content m) of Some bs \<Rightarrow> bs | None \<Rightarrow> [])
        else if mg_role m = ''tool'' \<or> mg_role m = ''function'' then [result_block m] else []))"

lemma convert_messages_groups:
  "convert_messages parse clock i ms (sys, map as_msg g) = Inr (sys', msgs) \<Longrightarrow>
     msgs = map as_msg (fold group_add (map (\<lambda>(i, m). sent parse (clock i) m) (enumerate i ms)) g) \<and>
     sys' = sys @ map (\<lambda>m. chatContentText (mg_content m)) (filter is_system ms) \<and>
     (\<forall>m\<in>set ms. mg_role m = ''user'' \<longrightarrow> chatUserContentToBlocks (mg_content m) \<noteq> None)"
proof (induction ms arbitrary: i sys g)
  case (Cons m ms)
  let ?g = "group_add (sent parse (clock i) m) g"
  let ?sys = "sys @ (if is_system m then [chatContentText (mg_content m)] else [])"
  have "convert_message parse (clock i) m (sys, map as_msg g) = Inr (?sys, map as_msg ?g) \<and>
      (mg_role m = ''user'' \<longrightarrow> chatUserContentToBlocks (mg_content m) \<noteq> None)"
    using Cons.prems
    by (auto simp: convert_message_def sent_def is_system_def appendMsg_groups split: if_splits option.splits)
       (auto simp: group_add_def)
  then show ?case using Cons.prems Cons.IH [of "Suc i" ?sys ?g] by auto
qed simp

definition alternating :: "(string \<times> content_block list) list \<Rightarrow> bool" where
  "alternating g \<longleftrightarrow> successively (\<lambda>a b. fst a \<noteq> fst b) g \<and> (\<forall>c\<in>set g. snd c \<noteq> [])"

lemma group_add_alternating: "alternating g \<Longrightarrow> alternating (group_add c g)"
  by (cases g rule: rev_cases) (auto simp: alternating_def group_add_def successively_append_iff)

lemma groups_alternating: "alternating g \<Longrightarrow> alternating (fold group_add cs g)"
  by (induction cs arbitrary: g) (auto intro: group_add_alternating)

lemma group_add_all:
  assumes "\<forall>c\<in>set g. P (fst c) (snd c)" "P (fst c) (snd c)" and "\<And>r a b. P r a \<Longrightarrow> P r b \<Longrightarrow> P r (a @ b)"
  shows "\<forall>c\<in>set (group_add c g). P (fst c) (snd c)"
  using assms by (cases g rule: rev_cases) (auto simp: group_add_def)

lemma groups_all:
  assumes "\<forall>c\<in>set g. P (fst c) (snd c)" "\<forall>c\<in>set cs. P (fst c) (snd c)" and "\<And>r a b. P r a \<Longrightarrow> P r b \<Longrightarrow> P r (a @ b)"
  shows "\<forall>c\<in>set (fold group_add cs g). P (fst c) (snd c)"
  using assms(1,2)
proof (induction cs arbitrary: g)
  case (Cons c cs)
  have "\<forall>c\<in>set (group_add c g). P (fst c) (snd c)"
  proof (rule group_add_all [where P = P])
    show "P (fst c) (snd c)" using Cons.prems(2) by simp
  qed (rule Cons.prems(1), rule assms(3))
  moreover have "\<forall>c\<in>set cs. P (fst c) (snd c)" using Cons.prems(2) by simp
  ultimately have "\<forall>c\<in>set (fold group_add cs (group_add c g)). P (fst c) (snd c)" by (rule Cons.IH)
  then show ?case by (simp only: fold_simps)
qed simp

section \<open>Conversations\<close>

text \<open>What a conversation says, whichever protocol carries it: turns of the user, with texts, images and results of
  tools, and turns of the assistant, with a text and calls. Neighbouring messages of one side are one
  turn.\<close>

datatype item = TextItem string | ImageItem image_source | ResultItem string string

datatype turn = UserTurn "item list" | AsstTurn string "(string \<times> string \<times> json) list"

definition add_turn :: "turn \<Rightarrow> turn list \<Rightarrow> turn list" where
  "add_turn t ts =
     (if t = UserTurn [] then ts
      else if ts = [] then [t]
      else case (List.last ts, t) of
             (UserTurn xs, UserTurn ys) \<Rightarrow> butlast ts @ [UserTurn (xs @ ys)]
           | (AsstTurn s cs, AsstTurn s' cs') \<Rightarrow> butlast ts @ [AsstTurn (s @ s') (cs @ cs')]
           | _ \<Rightarrow> ts @ [t])"

definition part_items :: "user_part \<Rightarrow> item list" where
  "part_items p =
     (if up_type p = ''text'' then [TextItem (up_text p)]
      else if up_type p = ''image_url'' then (case up_url p of Some u \<Rightarrow> [ImageItem (source_of u)] | None \<Rightarrow> []) else [])"

definition user_items :: "json option \<Rightarrow> item list" where
  "user_items raw =
     (case raw of
        None \<Rightarrow> []
      | Some v \<Rightarrow>
          (case dec_str v of
             Some s \<Rightarrow> [TextItem s]
           | None \<Rightarrow> (case dec_user_parts v of Some ps \<Rightarrow> concat (map part_items ps) | None \<Rightarrow> [])))"

definition msg_turn :: "(string \<Rightarrow> json option) \<Rightarrow> chat_msg \<Rightarrow> turn" where
  "msg_turn parse m =
     (if mg_role m = ''assistant'' then
        let s = chatContentText (mg_content m); cs = map (\<lambda>tc. (cc_id tc, cc_name tc, call_input parse (cc_arguments tc))) (mg_calls m)
        in AsstTurn s cs
      else if mg_role m = ''user'' then UserTurn (user_items (mg_content m))
      else if mg_role m = ''tool'' \<or> mg_role m = ''function'' then UserTurn [ResultItem (mg_call_id m) (chatContentText (mg_content m))]
      else UserTurn [])"

definition turns :: "(string \<Rightarrow> json option) \<Rightarrow> chat_msg list \<Rightarrow> turn list" where
  "turns parse ms = fold add_turn (map (msg_turn parse) ms) []"

text \<open>A message that says nothing, a user's empty string or an assistant's empty text without calls, is sent
  as a blank.\<close>

definition blanked :: "chat_msg \<Rightarrow> chat_msg" where
  "blanked m =
     (if mg_role m = ''user'' \<and> (case mg_content m of Some v \<Rightarrow> dec_str v = Some [] | None \<Rightarrow> False) \<or>
         mg_role m = ''assistant'' \<and> mg_calls m = [] \<and> chatContentText (mg_content m) = []
      then m\<lparr>mg_content := Some (JStr '' '')\<rparr> else m)"

definition user_first :: "turn list \<Rightarrow> turn list" where
  "user_first ts = (case ts of AsstTurn _ _ # _ \<Rightarrow> UserTurn [TextItem ''(continue)''] # ts | _ \<Rightarrow> ts)"

text \<open>The turn of a group of blocks.\<close>

definition block_items :: "content_block \<Rightarrow> item list" where
  "block_items b =
     (if cb_type b = ''text'' then [TextItem (cb_text b)]
      else if cb_type b = ''image'' then (case cb_source b of Some s \<Rightarrow> [ImageItem s] | None \<Rightarrow> [])
      else if cb_type b = ''tool_result'' then [ResultItem (cb_tool_use_id b) (chatContentText (Some (toolResultContent (cb_content b))))]
      else [])"

definition block_calls :: "content_block list \<Rightarrow> (string \<times> string \<times> json) list" where
  "block_calls bs = map (\<lambda>b. (cb_id b, cb_name b, case cb_input b of Some v \<Rightarrow> v | None \<Rightarrow> JObj [])) (filter (\<lambda>b. cb_type b = ''tool_use'') bs)"

definition group_turn :: "string \<times> content_block list \<Rightarrow> turn" where
  "group_turn c = (if fst c = ''assistant'' then AsstTurn (blocks_text (snd c)) (block_calls (snd c))
     else UserTurn (concat (map block_items (snd c))))"

definition block_ok :: "string \<Rightarrow> content_block \<Rightarrow> bool" where
  "block_ok r b \<longleftrightarrow>
     (if r = ''assistant'' then (cb_type b = ''text'' \<and> cb_text b \<noteq> []) \<or> (cb_type b = ''tool_use'' \<and> cb_input b \<noteq> None)
      else cb_type b = ''text'' \<or> (cb_type b = ''image'' \<and> (\<exists>u. cb_source b = Some (source_of u))) \<or>
        (cb_type b = ''tool_result'' \<and> (\<exists>s. cb_content b = Some (JStr s))))"

definition group_ok :: "string \<Rightarrow> content_block list \<Rightarrow> bool" where
  "group_ok r bs \<longleftrightarrow> (r = ''user'' \<or> r = ''assistant'') \<and> (\<forall>b\<in>set bs. block_ok r b)"

lemma group_ok_append: "group_ok r a \<Longrightarrow> group_ok r b \<Longrightarrow> group_ok r (a @ b)"
  by (auto simp: group_ok_def)

lemma block_types [simp]: "cb_type (text_block s) = ''text''" "cb_text (text_block s) = s" "cb_type (call_block parse now tc) = ''tool_use''"
  "cb_text (call_block parse now tc) = []" "cb_source (text_block s) = None" "cb_content (text_block s) = None"
  "cb_input (call_block parse now tc) = Some (call_input parse (cc_arguments tc))"
  by (simp_all add: text_block_def call_block_def block_def)

lemma call_blocks_are: "b \<in> set (call_blocks parse clock tcs) \<Longrightarrow> cb_type b = ''tool_use'' \<and> cb_input b \<noteq> None"
  by (auto simp: call_blocks_def)

lemma part_blocks_ok: "b \<in> set (part_blocks p) \<Longrightarrow> block_ok ''user'' b"
proof (cases "up_type p = ''text''")
  case True
  then show "b \<in> set (part_blocks p) \<Longrightarrow> block_ok ''user'' b" by (simp add: part_blocks_def block_ok_def)
next
  case False
  assume "b \<in> set (part_blocks p)"
  with False obtain u where "b = (block ''image'')\<lparr>cb_source := Some (source_of u)\<rparr>"
    unfolding part_blocks_def by (cases "up_type p = ''image_url''"; cases "up_url p") simp_all
  then show "block_ok ''user'' b" by (auto simp: block_ok_def block_def)
qed

lemma user_blocks_ok: "chatUserContentToBlocks raw = Some bs \<Longrightarrow> group_ok ''user'' bs"
  by (auto simp: group_ok_def chatUserContentToBlocks_def dest: part_blocks_ok split: option.splits)
     (simp_all add: block_ok_def)

lemma assistant_blocks_ok: "group_ok ''assistant'' (assistant_blocks parse clock m)"
  by (auto simp: group_ok_def block_ok_def assistant_blocks_def Let_def dest: call_blocks_are)

lemma sent_ok: "group_ok (fst (sent parse clock m)) (snd (sent parse clock m))"
  using assistant_blocks_ok user_blocks_ok [of "mg_content m"]
  by (auto simp: sent_def result_block_def block_def split: option.split) (auto simp: group_ok_def block_ok_def)

lemma group_items_nonempty: "group_ok r bs \<Longrightarrow> r \<noteq> ''assistant'' \<Longrightarrow> concat (map block_items bs) = [] \<longleftrightarrow> bs = []"
  by (cases bs) (auto simp: group_ok_def block_ok_def block_items_def)

lemma blocks_text_append [simp]: "blocks_text (a @ b) = blocks_text a @ blocks_text b"
  by (simp add: blocks_text_def)

lemma block_calls_append [simp]: "block_calls (a @ b) = block_calls a @ block_calls b"
  by (simp add: block_calls_def)

lemma add_group_turn:
  assumes "alternating g" "\<forall>c\<in>set g. group_ok (fst c) (snd c)" "group_ok (fst c) (snd c)" "fst c = ''assistant'' \<longrightarrow> snd c \<noteq> []"
  shows "add_turn (group_turn c) (map group_turn g) = map group_turn (group_add c g)"
proof (cases g rule: rev_cases)
  case Nil
  then show ?thesis
    using assms group_items_nonempty [of "fst c" "snd c"] by (auto simp: add_turn_def group_add_def group_turn_def)
next
  case (snoc g' d)
  then have "group_ok (fst d) (snd d)" "fst d = ''user'' \<or> fst d = ''assistant''" using assms(2) by (auto simp: group_ok_def)
  moreover have "fst c = ''user'' \<or> fst c = ''assistant''" using assms(3) by (simp add: group_ok_def)
  ultimately show ?thesis
    using snoc assms group_items_nonempty [of "fst c" "snd c"] by (auto simp: add_turn_def group_add_def group_turn_def)
qed

lemma fold_group_turns:
  "alternating g \<Longrightarrow> \<forall>c\<in>set g. group_ok (fst c) (snd c) \<Longrightarrow>
     \<forall>c\<in>set cs. group_ok (fst c) (snd c) \<and> (fst c = ''assistant'' \<longrightarrow> snd c \<noteq> []) \<Longrightarrow>
     fold add_turn (map group_turn cs) (map group_turn g) = map group_turn (fold group_add cs g)"
proof (induction cs arbitrary: g)
  case (Cons c cs)
  have "\<forall>d\<in>set (group_add c g). group_ok (fst d) (snd d)"
    by (rule group_add_all [where P = group_ok]) (use Cons.prems group_ok_append in auto)
  then show ?case using Cons group_add_alternating [of g c] add_group_turn [of g c] by simp
qed simp


text \<open>What is sent for a message is its turn.\<close>

lemma part_turn: "concat (map block_items (part_blocks p)) = part_items p"
  by (simp add: part_blocks_def part_items_def block_items_def block_def split: option.split)

lemma parts_turn: "concat (map block_items (concat (map part_blocks ps))) = concat (map part_items ps)"
  by (induction ps) (simp_all add: part_turn)

lemma call_blocks_turn:
  assumes "\<forall>tc\<in>set tcs. cc_id tc \<noteq> []"
  shows "blocks_text (call_blocks parse clock tcs) = []"
    "block_calls (call_blocks parse clock tcs) = map (\<lambda>tc. (cc_id tc, cc_name tc, call_input parse (cc_arguments tc))) tcs"
proof -
  have *: "block_calls (map (\<lambda>(j, tc). call_block parse (clock j) tc) (enumerate i tcs)) =
      map (\<lambda>tc. (cc_id tc, cc_name tc, call_input parse (cc_arguments tc))) tcs" for i
    using assms by (induction tcs arbitrary: i) (simp_all add: block_calls_def call_block_def toolID_def block_def)
  have "filter (\<lambda>b. cb_type b = ''text'') (call_blocks parse clock tcs) = []"
    by (auto simp: filter_empty_conv dest: call_blocks_are)
  then show "blocks_text (call_blocks parse clock tcs) = []" by (simp add: blocks_text_def)
  show "block_calls (call_blocks parse clock tcs) = map (\<lambda>tc. (cc_id tc, cc_name tc, call_input parse (cc_arguments tc))) tcs"
    using * by (simp add: call_blocks_def)
qed

lemma one_text: "blocks_text [text_block s] = s" "block_calls [text_block s] = []" "blocks_text [] = []" "block_calls [] = []"
  by (simp_all add: blocks_text_def block_calls_def)

lemma assistant_blocks_turn:
  assumes "\<forall>tc\<in>set (mg_calls m). cc_id tc \<noteq> []" and "mg_role m = ''assistant''"
  shows "group_turn (''assistant'', assistant_blocks parse clock m) = msg_turn parse (blanked m)"
  using call_blocks_turn [OF assms(1), of parse clock] blocks_text_append [of "[text_block (chatContentText (mg_content m))]"]
    block_calls_append [of "[text_block (chatContentText (mg_content m))]"] assms(2)
  by (cases "mg_calls m")
    (auto simp: group_turn_def msg_turn_def assistant_blocks_def Let_def one_text call_blocks_def blanked_def
      chatContentText_def [of "Some (JStr _)"])

lemma sent_turn:
  assumes "\<forall>tc\<in>set (mg_calls m). cc_id tc \<noteq> []" "mg_role m = ''user'' \<longrightarrow> chatUserContentToBlocks (mg_content m) \<noteq> None"
  shows "group_turn (sent parse clock m) = msg_turn parse (blanked m)"
proof -
  consider "mg_role m = ''assistant''" | "mg_role m = ''user''" | "mg_role m \<noteq> ''assistant''" "mg_role m \<noteq> ''user''" by blast
  then show ?thesis
  proof cases
    case 1
    with assistant_blocks_turn [OF assms(1) 1, of parse clock] show ?thesis by (simp add: sent_def)
  next
    case 2
    then obtain bs where bs: "chatUserContentToBlocks (mg_content m) = Some bs" using assms(2) by blast
    then have "concat (map block_items bs) = user_items (mg_content (blanked m))"
      using 2 by (auto simp: chatUserContentToBlocks_def user_items_def block_items_def blanked_def parts_turn split: option.splits)
    then show ?thesis using 2 bs by (simp add: sent_def group_turn_def msg_turn_def) (simp add: blanked_def)
  next
    case 3
    then have "blanked m = m" by (simp add: blanked_def)
    with 3 show ?thesis
      by (simp add: sent_def group_turn_def msg_turn_def block_items_def result_block_def block_def toolResultContent_def
          chatContentText_def [of "Some _"])
  qed
qed

section \<open>Back to chat\<close>











definition readable :: "(string \<Rightarrow> json option) \<Rightarrow> (json \<Rightarrow> string) \<Rightarrow> content_block \<Rightarrow> bool" where
  "readable parse shown b \<longleftrightarrow> (\<forall>v. cb_input b = Some v \<longrightarrow> shown v \<noteq> [] \<and> parse (shown v) = Some v)"







section \<open>What the converted requests say\<close>

definition calls_named :: "chat_msg \<Rightarrow> bool" where
  "calls_named m \<longleftrightarrow> (\<forall>tc\<in>set (mg_calls m). cc_id tc \<noteq> [])"

definition calls_shown :: "(string \<Rightarrow> json option) \<Rightarrow> (json \<Rightarrow> string) \<Rightarrow> chat_msg \<Rightarrow> bool" where
  \<comment> \<open>the text a value of the calls is written as reads back as it\<close>
  "calls_shown parse shown m \<longleftrightarrow>
     (\<forall>tc\<in>set (mg_calls m). let v = call_input parse (cc_arguments tc) in shown v \<noteq> [] \<and> parse (shown v) = Some v)"

lemma sent_readable:
  assumes "calls_shown parse shown m"
  shows "\<forall>b\<in>set (snd (sent parse clock m)). readable parse shown b"
proof -
  have none: "readable parse shown b" if "cb_input b = None" for b using that by (simp add: readable_def)
  have p: "cb_input b = None" if "b \<in> set (part_blocks p)" for b p
    using that
    by (cases "up_type p = ''text''"; cases "up_type p = ''image_url''"; cases "up_url p")
      (simp_all add: part_blocks_def text_block_def block_def)
  have t: "cb_input (text_block s) = None" "cb_input (result_block m) = None" for s
    by (simp_all add: text_block_def result_block_def block_def)
  have u: "cb_input b = None" if "chatUserContentToBlocks raw = Some bs" "b \<in> set bs" for b bs raw
    using that p t by (auto simp: chatUserContentToBlocks_def split: option.splits)
  have c: "readable parse shown b" if "b \<in> set (call_blocks parse clock (mg_calls m))" for b
  proof -
    from that obtain j tc where "(j, tc) \<in> set (enumerate 0 (mg_calls m))" "b = call_block parse (clock j) tc"
      by (auto simp: call_blocks_def)
    moreover from this have "tc \<in> set (mg_calls m)" by (auto simp: enumerate_eq_zip dest: set_zip_rightD)
    ultimately show ?thesis using assms by (auto simp: readable_def calls_shown_def Let_def)
  qed
  have "\<forall>b\<in>set (case chatUserContentToBlocks (mg_content m) of Some bs \<Rightarrow> bs | None \<Rightarrow> []). readable parse shown b"
    using none u by (cases "chatUserContentToBlocks (mg_content m)") auto
  then show ?thesis using none t c by (simp add: sent_def assistant_blocks_def Let_def ball_Un)
qed

text \<open>The only text that may be empty is one the user sent as an empty text part.\<close>

definition texts_said :: "chat_msg list \<Rightarrow> string \<Rightarrow> content_block \<Rightarrow> bool" where
  "texts_said ms role b \<longleftrightarrow>
     (cb_type b = ''text'' \<and> cb_text b = [] \<longrightarrow>
        role = ''user'' \<and>
        (\<exists>m\<in>set ms. mg_role m = ''user'' \<and>
           (\<exists>v ps. mg_content m = Some v \<and> dec_user_parts v = Some ps \<and> (\<exists>p\<in>set ps. up_type p = ''text'' \<and> up_text p = []))))"

lemma sent_texts:
  assumes "m \<in> set ms" and "b \<in> set (snd (sent parse clock m))"
  shows "texts_said ms (fst (sent parse clock m)) b"
  unfolding texts_said_def
proof
  assume e: "cb_type b = ''text'' \<and> cb_text b = []"
  have "mg_role m \<noteq> ''assistant''"
    using assms(2) e by (auto simp: sent_def assistant_blocks_def Let_def dest: call_blocks_are split: if_splits)
  moreover have "mg_role m = ''user''"
    using assms(2) e calculation by (auto simp: sent_def result_block_def block_def split: if_splits)
  moreover obtain v ps where "mg_content m = Some v" "dec_user_parts v = Some ps" "\<exists>p\<in>set ps. b \<in> set (part_blocks p)"
    using assms(2) e calculation
    by (auto simp: sent_def chatUserContentToBlocks_def map_option_case split: option.splits if_splits)
  moreover have "up_type p = ''text'' \<and> up_text p = []" if "b \<in> set (part_blocks p)" for p
    using that e
    by (cases "up_type p = ''text''"; cases "up_type p = ''image_url''"; cases "up_url p")
      (simp_all add: part_blocks_def block_def)
  ultimately show "fst (sent parse clock m) = ''user'' \<and>
        (\<exists>m\<in>set ms. mg_role m = ''user'' \<and>
           (\<exists>v ps. mg_content m = Some v \<and> dec_user_parts v = Some ps \<and> (\<exists>p\<in>set ps. up_type p = ''text'' \<and> up_text p = [])))"
    using assms(1) by (simp add: sent_def) blast
qed

lemma converted_groups:
  assumes "ChatToAnthropicRequest parse clock r m = Inr a"
  shows "\<exists>g. ar_messages a = map as_msg g \<and> g \<noteq> [] \<and> fst (hd g) = ''user'' \<and> alternating g \<and>
    (\<forall>c\<in>set g. group_ok (fst c) (snd c)) \<and>
    ((\<forall>msg\<in>set (cr_messages r). calls_shown parse shown msg) \<longrightarrow> (\<forall>c\<in>set g. \<forall>b\<in>set (snd c). readable parse shown b)) \<and>
    ((\<forall>msg\<in>set (cr_messages r). calls_named msg) \<longrightarrow> map group_turn g = user_first (turns parse (map blanked (cr_messages r)))) \<and>
    (\<forall>c\<in>set g. \<forall>b\<in>set (snd c). texts_said (cr_messages r) (fst c) b)"
proof -
  let ?ms = "cr_messages r"
  let ?cs = "map (\<lambda>(i, m). sent parse (clock i) m) (enumerate 0 ?ms)"
  obtain sys msgs where conv: "convert_messages parse clock 0 ?ms ([], map as_msg []) = Inr (sys, msgs)"
      and ne: "msgs \<noteq> []" and a: "ar_messages a = first_from_user msgs"
    using assms by (auto simp: ChatToAnthropicRequest_def Let_def split: sum.splits if_splits prod.splits)
  define h where "h = fold group_add ?cs []"
  have msgs: "msgs = map as_msg h" and user: "\<forall>m\<in>set ?ms. mg_role m = ''user'' \<longrightarrow> chatUserContentToBlocks (mg_content m) \<noteq> None"
    using convert_messages_groups [OF conv] by (auto simp: h_def)
  have alt: "alternating h" unfolding h_def by (rule groups_alternating) (simp add: alternating_def)
  have members: "\<exists>m\<in>set ?ms. \<exists>i. c = sent parse (clock i) m" if "c \<in> set ?cs" for c
    using that by (auto simp: enumerate_eq_zip dest: set_zip_rightD)
  have ok: "\<forall>c\<in>set h. group_ok (fst c) (snd c)" unfolding h_def
    by (rule groups_all [where P = group_ok]) (use members sent_ok group_ok_append in auto)
  have shown: "\<forall>c\<in>set h. \<forall>b\<in>set (snd c). readable parse shown b" if "\<forall>msg\<in>set ?ms. calls_shown parse shown msg" unfolding h_def
  proof (rule groups_all [where P = "\<lambda>_ bs. \<forall>b\<in>set bs. readable parse shown b"])
    show "\<forall>c\<in>set ?cs. \<forall>b\<in>set (snd c). readable parse shown b"
    proof
      fix c assume "c \<in> set ?cs"
      then obtain m i where "m \<in> set ?ms" "c = sent parse (clock i) m" using members by blast
      then show "\<forall>b\<in>set (snd c). readable parse shown b" using sent_readable [of parse shown m "clock i"] that by blast
    qed
  qed auto
  have texts: "\<forall>c\<in>set h. \<forall>b\<in>set (snd c). texts_said ?ms (fst c) b" unfolding h_def
  proof (rule groups_all [where P = "\<lambda>role bs. \<forall>b\<in>set bs. texts_said ?ms role b"])
    show "\<forall>c\<in>set ?cs. \<forall>b\<in>set (snd c). texts_said ?ms (fst c) b"
    proof (intro ballI)
      fix c b assume "c \<in> set ?cs" and b: "b \<in> set (snd c)"
      then obtain m i where "m \<in> set ?ms" "c = sent parse (clock i) m" using members by blast
      then show "texts_said ?ms (fst c) b" using sent_texts b by blast
    qed
  qed auto
  have nonempty: "fst (sent parse ck m) = ''assistant'' \<longrightarrow> snd (sent parse ck m) \<noteq> []" for ck m
    by (simp add: sent_def assistant_blocks_def Let_def)
  have turns: "map group_turn h = turns parse (map blanked ?ms)" if "\<forall>msg\<in>set ?ms. calls_named msg"
  proof -
    have "map group_turn ?cs = map (msg_turn parse) (map blanked ?ms)"
    proof (rule nth_equalityI)
      fix k assume "k < length (map group_turn ?cs)"
      then have k: "k < length ?ms" by simp
      then have "?ms ! k \<in> set ?ms" by simp
      then have "group_turn (sent parse (clock k) (?ms ! k)) = msg_turn parse (blanked (?ms ! k))"
        using that user unfolding calls_named_def by (intro sent_turn) blast+
      then show "map group_turn ?cs ! k = map (msg_turn parse) (map blanked ?ms) ! k" using k by (simp add: nth_enumerate_eq)
    qed simp
    moreover have "\<forall>c\<in>set ?cs. group_ok (fst c) (snd c) \<and> (fst c = ''assistant'' \<longrightarrow> snd c \<noteq> [])"
      using members sent_ok nonempty by metis
    ultimately show ?thesis
      using fold_group_turns [of "[]" ?cs] by (simp add: turns_def h_def alternating_def)
  qed
  have hne: "h \<noteq> []" using ne msgs by auto
  then have first: "fst (hd h) = ''user'' \<or> fst (hd h) = ''assistant''" using ok by (auto simp: group_ok_def)
  show ?thesis
  proof (cases "fst (hd h) = ''user''")
    case True
    then have "ar_messages a = map as_msg h" using a msgs hne by (simp add: first_from_user_def hd_map as_msg_def)
    moreover have "user_first (map group_turn h) = map group_turn h"
      using True hne by (cases h) (auto simp: user_first_def group_turn_def)
    then have "(\<forall>msg\<in>set ?ms. calls_named msg) \<longrightarrow> map group_turn h = user_first (turns parse (map blanked ?ms))"
      using turns by metis
    ultimately show ?thesis using True hne alt ok shown texts by (intro exI [of _ h]) simp
  next
    case False
    let ?c = "(''user'', [text_block ''(continue)''])"
    have "ar_messages a = map as_msg (?c # h)" using False a msgs hne by (simp add: first_from_user_def hd_map as_msg_def)
    moreover have "alternating (?c # h)" using alt False hne first by (cases h) (auto simp: alternating_def)
    moreover have "group_ok (fst ?c) (snd ?c)" by (simp add: group_ok_def block_ok_def)
    moreover have "\<forall>b\<in>set (snd ?c). readable parse shown b" by (simp add: readable_def text_block_def block_def)
    moreover have "user_first (map group_turn h) = map group_turn (?c # h)"
      using False first hne by (cases h) (auto simp: user_first_def group_turn_def block_items_def)
    moreover have "texts_said ?ms (fst ?c) b" if "b \<in> set (snd ?c)" for b using that by (simp add: texts_said_def)
    ultimately show ?thesis using ok shown turns texts by (intro exI [of _ "?c # h"]) auto
  qed
qed


lemma dec_strings_JStr: "dec_strings (JArr (map JStr ss)) = ss"
  by (induction ss) auto

text \<open>The choice of a tool comes back as it was.\<close>

lemma choice_kept:
  assumes "tools \<noteq> []" "n \<noteq> []"
    and "v = JStr ''auto'' \<or> v = JStr ''required'' \<or> v = JObj [(''function'', JObj [(''name'', JStr n)]), (''type'', JStr ''function'')]"
  shows "choice_to_chat (snd (choice_to_anthropic par (Some v) tools)) = (Some v, if par = Some False then Some False else None)"
  using assms
  by (auto simp: choice_to_anthropic_def choice_to_chat_def dec_choice_name_def choice_field_def jfield_def same_key_def ascii_lower_def)

lemma converted_rest:
  assumes "ChatToAnthropicRequest parse clock r m = Inr a"
  shows "ar_thinking a = (if effort_budget (cr_effort r) > 0 then Some (think_enabled (effort_budget (cr_effort r))) else None)"
    and "ar_max_tokens a \<ge> chat_max_tokens r" and "chat_max_tokens r > 0"
    and "effort_budget (cr_effort r) < ar_max_tokens a"
    and "ar_stop a = stop_sequences (cr_stop r)" and "ar_stream a = cr_stream r"
    and "ar_temperature a = cr_temperature r" and "ar_top_p a = cr_top_p r"
    and "ar_tools a = [] \<longrightarrow> ar_tool_choice a = None"
    and "ar_system a = (let sys = map (\<lambda>m. chatContentText (mg_content m)) (filter is_system (cr_messages r))
           in if sys = [] then None else Some (JStr (join_sep [newline, newline] sys)))"
proof -
  obtain sys msgs tools choice where
    conv: "convert_messages parse clock 0 (cr_messages r) ([], map as_msg []) = Inr (sys, msgs)" "msgs \<noteq> []"
    and t: "choice_to_anthropic (cr_parallel r) (cr_tool_choice r) (map tool_of (filter (\<lambda>t. ct_type t = ''function'') (cr_tools r))) = (tools, choice)"
    and a: "a = \<lparr>ar_model = m,
        ar_max_tokens = (if effort_budget (cr_effort r) > 0 \<and> chat_max_tokens r \<le> effort_budget (cr_effort r)
          then effort_budget (cr_effort r) + 4096 else chat_max_tokens r),
        ar_messages = first_from_user msgs,
        ar_system = (if sys = [] then None else Some (JStr (join_sep [newline, newline] sys))),
        ar_temperature = cr_temperature r, ar_top_p = cr_top_p r, ar_stop = stop_sequences (cr_stop r),
        ar_stream = cr_stream r, ar_tools = tools, ar_tool_choice = choice,
        ar_thinking = (if effort_budget (cr_effort r) > 0 then Some (think_enabled (effort_budget (cr_effort r))) else None)\<rparr>"
    using assms by (auto simp: ChatToAnthropicRequest_def Let_def split: sum.splits if_split_asm prod.splits)
  have sys: "sys = map (\<lambda>m. chatContentText (mg_content m)) (filter is_system (cr_messages r))"
    using convert_messages_groups [OF conv(1)] by simp
  show pos: "chat_max_tokens r > 0" by (simp add: chat_max_tokens_def split: option.split)
  show "ar_tools a = [] \<longrightarrow> ar_tool_choice a = None"
    using t by (auto simp: a choice_to_anthropic_def Let_def split: option.splits if_split_asm)
  show "ar_system a = (let sys = map (\<lambda>m. chatContentText (mg_content m)) (filter is_system (cr_messages r))
           in if sys = [] then None else Some (JStr (join_sep [newline, newline] sys)))"
    unfolding a sys [symmetric] Let_def by simp
  show "effort_budget (cr_effort r) < ar_max_tokens a" using pos by (simp add: a effort_budget_def)
  show "ar_thinking a = (if effort_budget (cr_effort r) > 0 then Some (think_enabled (effort_budget (cr_effort r))) else None)"
    "ar_max_tokens a \<ge> chat_max_tokens r" "ar_stop a = stop_sequences (cr_stop r)" "ar_stream a = cr_stream r"
    "ar_temperature a = cr_temperature r" "ar_top_p a = cr_top_p r"
    by (simp_all add: a)
qed

text \<open>Property C33: the shape of an Anthropic request made from a chat request: there are messages, the user
  speaks first, the roles alternate, every message has content and no text in it is empty, except one
  the user sent as an empty text part, which is passed on as it is; a tool is only chosen when there
  are tools, and the thinking budget is below the tokens the reply may have.\<close>

theorem anthropic_request_valid:
  assumes "ChatToAnthropicRequest parse clock r m = Inr a"
  shows "ar_messages a \<noteq> [] \<and> an_role (hd (ar_messages a)) = ''user'' \<and>
    successively (\<lambda>x y. an_role x \<noteq> an_role y) (ar_messages a) \<and>
    (\<forall>x\<in>set (ar_messages a). an_role x \<in> {''user'', ''assistant''} \<and>
       (\<exists>bs. bs \<noteq> [] \<and> an_content x = Some (enc_blocks bs) \<and>
          (\<forall>b\<in>set bs. cb_type b = ''text'' \<and> cb_text b = [] \<longrightarrow>
             an_role x = ''user'' \<and>
             (\<exists>msg\<in>set (cr_messages r). mg_role msg = ''user'' \<and>
                (\<exists>v ps. mg_content msg = Some v \<and> dec_user_parts v = Some ps \<and>
                   (\<exists>p\<in>set ps. up_type p = ''text'' \<and> up_text p = [])))))) \<and>
    (ar_tools a = [] \<longrightarrow> ar_tool_choice a = None) \<and>
    0 < ar_max_tokens a \<and> (\<forall>b. ar_thinking a = Some (think_enabled b) \<longrightarrow> b < ar_max_tokens a)"
proof -
  obtain g where g: "ar_messages a = map as_msg g" "g \<noteq> []" "fst (hd g) = ''user''" "alternating g" "\<forall>c\<in>set g. group_ok (fst c) (snd c)"
    "\<forall>c\<in>set g. \<forall>b\<in>set (snd c). texts_said (cr_messages r) (fst c) b"
    using converted_groups [OF assms] by metis
  have "successively (\<lambda>x y. an_role x \<noteq> an_role y) (map as_msg g)"
    using g(4) by (simp add: alternating_def successively_map as_msg_def)
  moreover have "an_role x \<in> {''user'', ''assistant''} \<and>
      (\<exists>bs. bs \<noteq> [] \<and> an_content x = Some (enc_blocks bs) \<and> (\<forall>b\<in>set bs. texts_said (cr_messages r) (an_role x) b))"
    if x: "x \<in> set (map as_msg g)" for x
  proof -
    from x obtain c where c: "c \<in> set g" "x = as_msg c" by auto
    with g(4,5) have "group_ok (fst c) (snd c)" "snd c \<noteq> []" by (auto simp: alternating_def)
    with c g(6) show ?thesis by (auto simp: group_ok_def as_msg_def)
  qed
  moreover have "an_role (hd (map as_msg g)) = ''user''" using g(2,3) by (simp add: hd_map as_msg_def)
  moreover have "b < ar_max_tokens a" if "ar_thinking a = Some (think_enabled b)" for b
    using that converted_rest(1,4) [OF assms] by (simp add: think_enabled_def split: if_split_asm)
  moreover have "0 < ar_max_tokens a" using converted_rest(2,3) [OF assms] by simp
  ultimately show ?thesis using g(1,2) converted_rest(9) [OF assms] unfolding texts_said_def by simp
qed








text \<open>A conversation that starts with the assistant.\<close>

definition sample_chat :: chat_request where
  "sample_chat = (empty_request ''gpt'')\<lparr>cr_effort := ''high'',
     cr_messages := [(message ''assistant'')\<lparr>mg_content := Some (JStr ''hi''),
       mg_calls := [\<lparr>cc_index = None, cc_id = ''c1'', cc_name = ''f'', cc_arguments = ''{}''\<rparr>]\<rparr>]\<rparr>"

definition braces :: "string \<Rightarrow> json option" where
  "braces s = (if s = ''{}'' then Some (JObj []) else None)"

lemma sample_chat_converts: "\<exists>a. ChatToAnthropicRequest braces (\<lambda>_ _. ''7'') sample_chat ''claude'' = Inr a"
  by (simp add: ChatToAnthropicRequest_def sample_chat_def convert_message_def empty_request_def message_def Let_def
      appendMsg_def assistant_blocks_def chatContentText_def split: prod.split)

lemma anthropic_request_valid_witness:
  "\<exists>a. ChatToAnthropicRequest braces (\<lambda>_ _. ''7'') sample_chat ''claude'' = Inr a \<and> an_role (hd (ar_messages a)) = ''user''"
  using sample_chat_converts anthropic_request_valid [of braces "\<lambda>_ _. ''7''" sample_chat "''claude''"] by metis


text \<open>A raw field keeps \<open>null\<close>, and \<open>null\<close> decodes into a string without an error: a client that sends
  \<open>"stop": null\<close> for no stop sequence gets the empty one.\<close>

lemma null_stop_is_sent:
  "ChatToAnthropicRequest parse clock (r\<lparr>cr_stop := Some JNull\<rparr>) m = Inr a \<Longrightarrow> ar_stop a = ['''']"
  using converted_rest(5) [of parse clock "r\<lparr>cr_stop := Some JNull\<rparr>" m a] by (simp add: stop_sequences_def)

section \<open>Complete replies\<close>

record chat_choice =
  ch_message :: "chat_msg option"
  ch_finish :: "string option"

record chat_response =
  rp_id :: string
  rp_model :: string
  rp_choices :: "chat_choice list"
  rp_usage :: "usage option"

record a_response =
  ap_id :: string
  ap_model :: string
  ap_content :: "content_block list"
  ap_stop :: "string option"
  ap_usage :: anthropic_usage

definition reply_blocks :: "(string \<Rightarrow> json option) \<Rightarrow> (nat \<Rightarrow> string) \<Rightarrow> chat_msg \<Rightarrow> content_block list" where
  "reply_blocks parse clock m =
     (if mg_reasoning m \<noteq> [] then [(block ''thinking'')\<lparr>cb_thinking := mg_reasoning m\<rparr>] else []) @
     (let txt = chatContentText (mg_content m) in if txt \<noteq> [] then [text_block txt] else []) @
     call_blocks parse clock (mg_calls m)"

definition usage_to_anthropic :: "usage \<Rightarrow> anthropic_usage" where
  "usage_to_anthropic u =
     (case PromptTokensDetails u of
        None \<Rightarrow> zero_anthropic_usage\<lparr>InputTokens := PromptTokens u, OutputTokens := CompletionTokens u\<rparr>
      | Some c \<Rightarrow> zero_anthropic_usage\<lparr>InputTokens := max 0 (PromptTokens u - c), OutputTokens := CompletionTokens u,
          CacheReadInputTokens := c\<rparr>)"

definition ChatToAnthropicResponse ::
  "(string \<Rightarrow> json option) \<Rightarrow> (nat \<Rightarrow> string) \<Rightarrow> string \<Rightarrow> chat_response \<Rightarrow> string \<Rightarrow> a_response" where
  "ChatToAnthropicResponse parse clock now r m =
     \<lparr>ap_id = anthropicID now (rp_id r), ap_model = m,
      ap_content = (case rp_choices r of [] \<Rightarrow> []
        | ch # _ \<Rightarrow> (case ch_message ch of Some msg \<Rightarrow> reply_blocks parse clock msg | None \<Rightarrow> [])),
      ap_stop = (case rp_choices r of [] \<Rightarrow> None
        | ch # _ \<Rightarrow> Some (case ch_finish ch of Some f \<Rightarrow> mapFinishToStop f | None \<Rightarrow> ''end_turn'')),
      ap_usage = (case rp_usage r of Some u \<Rightarrow> usage_to_anthropic u | None \<Rightarrow> zero_anthropic_usage)\<rparr>"

definition foldReasoning :: "bool \<Rightarrow> chat_msg \<Rightarrow> chat_msg" where
  "foldReasoning fold_in m =
     (if mg_reasoning m = [] \<or> \<not> fold_in then m
      else case (case mg_content m of None \<Rightarrow> Some [] | Some v \<Rightarrow> dec_str v) of
             None \<Rightarrow> m
           | Some cur \<Rightarrow> m\<lparr>mg_content := Some (JStr (think_open @ mg_reasoning m @ think_close @ cur)), mg_reasoning := []\<rparr>)"

definition usage_to_chat :: "anthropic_usage \<Rightarrow> usage" where
  "usage_to_chat a =
     with_cached (CacheReadInputTokens a)
       (zero_usage\<lparr>PromptTokens := prompt_of a, CompletionTokens := OutputTokens a, CacheWriteTokens := CacheCreationInputTokens a,
          TotalTokens := prompt_of a + OutputTokens a\<rparr>)"

definition AnthropicToChatResponse :: "(json \<Rightarrow> string) \<Rightarrow> bool \<Rightarrow> string \<Rightarrow> a_response \<Rightarrow> string \<Rightarrow> chat_response" where
  "AnthropicToChatResponse shown fold_in now r m =
     (let msg = (message ''assistant'')\<lparr>mg_content := Some (JStr (blocks_text (ap_content r))),
            mg_reasoning := concat (map cb_thinking (filter (\<lambda>b. cb_type b = ''thinking'') (ap_content r))),
            mg_calls := map (block_call shown) (filter (\<lambda>b. cb_type b = ''tool_use'') (ap_content r))\<rparr>
      in \<lparr>rp_id = chatID now (ap_id r), rp_model = m,
          rp_choices = [\<lparr>ch_message = Some (foldReasoning fold_in msg),
            ch_finish = Some (case ap_stop r of Some s \<Rightarrow> mapStopToFinish s | None \<Rightarrow> ''stop'')\<rparr>],
          rp_usage = Some (usage_to_chat (ap_usage r))\<rparr>)"

text \<open>A reply that went through the Anthropic form says the same and costs the same: text, reasoning and calls, why
  it ended, and the tokens, as long as no more of the prompt was cached than there was.\<close>

lemma usage_kept:
  assumes "\<forall>c. PromptTokensDetails u = Some c \<longrightarrow> 0 < c \<and> c \<le> PromptTokens u"
  shows "usage_to_chat (usage_to_anthropic u) = u\<lparr>TotalTokens := PromptTokens u + CompletionTokens u, CacheWriteTokens := 0\<rparr>"
  using assms
  by (cases u) (auto simp: usage_to_chat_def usage_to_anthropic_def prompt_of_def with_cached_def zero_usage_def zero_anthropic_usage_def
      split: option.splits)

lemma finish_kept: "mapStopToFinish (mapFinishToStop f) =
    (if f = ''length'' then ''length'' else if f = ''tool_calls'' \<or> f = ''function_call'' then ''tool_calls'' else ''stop'')"
  by (simp add: mapStopToFinish_def mapFinishToStop_def)

lemma reply_kept:
  assumes "calls_named m" "calls_shown parse shown m"
    and "r = \<lparr>rp_id = i, rp_model = n, rp_choices = [\<lparr>ch_message = Some m, ch_finish = Some f\<rparr>], rp_usage = Some u\<rparr>"
    and "AnthropicToChatResponse shown False now' (ChatToAnthropicResponse parse clock now r n') n'' = r'"
  shows "\<exists>m'. rp_choices r' = [\<lparr>ch_message = Some m', ch_finish = Some (mapStopToFinish (mapFinishToStop f))\<rparr>] \<and>
    chatContentText (mg_content m') = chatContentText (mg_content m) \<and> mg_reasoning m' = mg_reasoning m \<and>
    map (\<lambda>tc. (cc_id tc, cc_name tc, call_input parse (cc_arguments tc))) (mg_calls m') =
      map (\<lambda>tc. (cc_id tc, cc_name tc, call_input parse (cc_arguments tc))) (mg_calls m) \<and>
    rp_usage r' = Some (usage_to_chat (usage_to_anthropic u))"
proof -
  let ?cs = "call_blocks parse clock (mg_calls m)"
  have t: "filter (\<lambda>b. cb_type b = ''text'') ?cs = []" "filter (\<lambda>b. cb_type b = ''thinking'') ?cs = []" "filter (\<lambda>b. cb_type b = ''tool_use'') ?cs = ?cs"
    by (auto simp: filter_empty_conv filter_id_conv dest: call_blocks_are)
  let ?f = "\<lambda>tc. (cc_id tc, cc_name tc, call_input parse (cc_arguments tc))"
  have calls: "map ?f (map (block_call shown) ?cs) = map ?f (mg_calls m)"
  proof (rule nth_equalityI)
    fix k assume "k < length (map ?f (map (block_call shown) ?cs))"
    then have k: "k < length (mg_calls m)" by (simp add: call_blocks_def)
    then have "mg_calls m ! k \<in> set (mg_calls m)" by simp
    then have "cc_id (mg_calls m ! k) \<noteq> []" "shown (call_input parse (cc_arguments (mg_calls m ! k))) \<noteq> []"
        "parse (shown (call_input parse (cc_arguments (mg_calls m ! k)))) = Some (call_input parse (cc_arguments (mg_calls m ! k)))"
      using assms(1,2) unfolding calls_named_def calls_shown_def Let_def by blast+
    moreover have "?cs ! k = call_block parse (clock k) (mg_calls m ! k)" using k by (simp add: call_blocks_def nth_enumerate_eq)
    ultimately show "map ?f (map (block_call shown) ?cs) ! k = map ?f (mg_calls m) ! k"
      using k by (simp add: call_blocks_def block_call_def call_block_def toolID_def block_def call_input_def [of parse "shown _"])
  qed (simp add: call_blocks_def)
  show ?thesis
    unfolding assms(4) [symmetric] assms(3)
    using calls t by (auto simp: AnthropicToChatResponse_def ChatToAnthropicResponse_def Let_def foldReasoning_def reply_blocks_def
        blocks_text_def block_def text_block_def chatContentText_def [of "Some (JStr _)"])
qed

end
