(* ===== verification/To_Responses.thy ===== *)
theory To_Responses
  imports To_Chat
begin

text \<open>
  From a chat stream to the events of OpenAI's Responses API (\<open>src/internal/gateway/convert/responses.go\<close>). As in
  theory \<open>To_Anthropic\<close> the stream is the data of its events and the way it ends, the events written are
  values, and the JSON parser, the clock and the order of Go's iteration over the tool calls are arguments.
\<close>

section \<open>The chat stream\<close>

definition dec_plain_fields :: "(string \<times> json) list \<Rightarrow> chat_chunk option" where
  "dec_plain_fields fs = do {
     cs \<leftarrow> dec_list (dec_struct zero_delta dec_choice) (jfield ''choices'' fs);
     u \<leftarrow> dec_ptr dec_usage (jfield ''usage'' fs);
     e \<leftarrow> dec_ptr (\<lambda>gs. dec_str (jfield ''message'' gs)) (jfield ''error'' fs);
     Some \<lparr>ck_choices = cs, ck_usage = u, ck_error = e\<rparr> }"

definition dec_plain_chunk :: "json option \<Rightarrow> chat_chunk option" where
  "dec_plain_chunk raw =
     (case raw of None \<Rightarrow> None
      | Some v \<Rightarrow> dec_struct \<lparr>ck_choices = [], ck_usage = None, ck_error = None\<rparr> dec_plain_fields v)"

section \<open>The events\<close>

datatype r_item =
    ReasoningItem string "string option"  \<comment> \<open>id and the text of the summary\<close>
  | MessageItem string "string option"  \<comment> \<open>id and, when it is completed, the text\<close>
  | CallItem string bool string string string  \<comment> \<open>id, whether it is completed, call id, name, arguments\<close>

record r_usage =
  ru_input :: int
  ru_output :: int
  ru_total :: int
  ru_cached :: int

record response =
  re_status :: string
  re_output :: "r_item list"
  re_details :: "string option"  \<comment> \<open>why it is incomplete\<close>
  re_error :: "string option"
  re_usage :: "r_usage option"

datatype r_event =
    Created
  | InProgress
  | ItemAdded int r_item
  | PartAdded string int
  | OutputDelta string int string  \<comment> \<open>item id, output index, text\<close>
  | OutputDone string int string
  | PartDone string int string
  | SummaryDelta string int string
  | ArgumentsDelta string int string
  | ArgumentsDone string int string
  | ItemDone int r_item
  | Completed response
  | Failed response
  | ErrorOut string string  \<comment> \<open>code and message\<close>

definition toRespUsage :: "usage \<Rightarrow> r_usage" where
  "toRespUsage u = \<lparr>ru_input = PromptTokens u, ru_output = CompletionTokens u, ru_total = TotalTokens u,
     ru_cached = (case PromptTokensDetails u of Some c \<Rightarrow> c | None \<Rightarrow> 0)\<rparr>"

definition respID :: "string \<Rightarrow> string \<Rightarrow> string" where
  "respID clock i = (if i = [] then ''resp_'' @ clock else ''resp_'' @ trim_prefix i ''chatcmpl-'')"

section \<open>The conversion\<close>

record toolState =
  ts_index :: int
  ts_item :: string
  ts_call :: string
  ts_name :: string
  ts_args :: string

record r_stream =
  rs_usage :: "usage option"
  rs_index :: int
  rs_msg :: bool
  rs_msg_id :: string
  rs_text :: string
  rs_reason :: string
  rs_reason_open :: bool
  rs_reason_index :: int
  rs_tools :: "(int \<times> toolState) list"
  rs_outputs :: "r_item list"
  rs_finish :: string
  rs_out :: "(int \<times> r_event) list"

definition announce :: "r_event \<Rightarrow> r_stream \<Rightarrow> r_stream" where
  \<comment> \<open>\<open>emit\<close>: the sequence number counts the events\<close>
  "announce e st = st\<lparr>rs_out := rs_out st @ [(int (length (rs_out st)), e)]\<rparr>"

definition int_text :: "int \<Rightarrow> string" where
  \<comment> \<open>\<open>%d\<close>\<close>
  "int_text i = (if i < 0 then CHR ''-'' # dec_nat (nat (- i)) else dec_nat (nat i))"

definition item_id :: "string \<Rightarrow> string \<Rightarrow> int \<Rightarrow> string" where
  "item_id kind i k = kind @ ''_'' @ drop 5 i @ ''_'' @ int_text k"

definition reason_id :: "string \<Rightarrow> string" where
  "reason_id i = ''rs_'' @ drop 5 i"

definition closeMsg :: "r_stream \<Rightarrow> r_stream" where
  "closeMsg st =
     (if \<not> rs_msg st then st
      else let st = st\<lparr>rs_msg := False\<rparr>; full = rs_text st; k = rs_index st; i = rs_msg_id st;
               st = announce (PartDone i k full) (announce (OutputDone i k full) st);
               it = MessageItem i (Some full);
               st = st\<lparr>rs_outputs := rs_outputs st @ [it]\<rparr>
           in announce (ItemDone k it) st)"

definition closeReason :: "string \<Rightarrow> r_stream \<Rightarrow> r_stream" where
  "closeReason i st =
     (if \<not> rs_reason_open st then st
      else let it = ReasoningItem (reason_id i) (Some (rs_reason st))
           in announce (ItemDone (rs_reason_index st) it) (st\<lparr>rs_reason_open := False, rs_outputs := rs_outputs st @ [it]\<rparr>))"

definition closeTool :: "toolState \<Rightarrow> r_stream \<Rightarrow> r_stream" where
  "closeTool ts st =
     (let st = announce (ArgumentsDone (ts_item ts) (ts_index ts) (ts_args ts)) st;
          it = CallItem (ts_item ts) True (ts_call ts) (ts_name ts) (ts_args ts);
          st = st\<lparr>rs_outputs := rs_outputs st @ [it]\<rparr>
      in announce (ItemDone (ts_index ts) it) st)"

definition closeCalls :: "(toolState list \<Rightarrow> toolState list) \<Rightarrow> r_stream \<Rightarrow> r_stream" where
  \<comment> \<open>\<open>closeTools\<close>; \<open>order\<close>: the order in which the range over the map visits them\<close>
  "closeCalls order st = fold closeTool (order (map snd (rs_tools st))) st"

definition r_reasoning :: "string \<Rightarrow> string \<Rightarrow> r_stream \<Rightarrow> r_stream" where
  "r_reasoning i s st =
     (if s = [] then st
      else let st = (if rs_reason_open st then st
                     else let k = rs_index st + 1
                          in announce (ItemAdded k (ReasoningItem (reason_id i) None))
                               (st\<lparr>rs_index := k, rs_reason_index := k, rs_reason_open := True\<rparr>))
           in announce (SummaryDelta (reason_id i) (rs_reason_index st) s) (st\<lparr>rs_reason := rs_reason st @ s\<rparr>))"

definition r_content :: "string \<Rightarrow> string \<Rightarrow> r_stream \<Rightarrow> r_stream" where
  "r_content i s st =
     (if s = [] then st
      else let st = closeReason i st;
               st = (if rs_msg st then st
                     else let k = rs_index st + 1; m = item_id ''msg'' i k
                          in announce (PartAdded m k) (announce (ItemAdded k (MessageItem m None))
                               (st\<lparr>rs_index := k, rs_msg := True, rs_msg_id := m\<rparr>)))
           in announce (OutputDelta (rs_msg_id st) (rs_index st) s) (st\<lparr>rs_text := rs_text st @ s\<rparr>))"

definition add_args :: "int \<Rightarrow> string \<Rightarrow> (int \<times> toolState) list \<Rightarrow> (int \<times> toolState) list" where
  "add_args idx s ts = map (\<lambda>(j, t). if j = idx then (j, t\<lparr>ts_args := ts_args t @ s\<rparr>) else (j, t)) ts"

definition new_tool :: "(nat \<Rightarrow> string) \<Rightarrow> string \<Rightarrow> chat_call \<Rightarrow> r_stream \<Rightarrow> toolState" where
  "new_tool clock i tc st =
     (let k = rs_index st + 1
      in \<lparr>ts_index = k, ts_item = item_id ''fc'' i k,
          ts_call = (if cc_id tc = [] then ''call_'' @ clock (length (rs_out st)) else cc_id tc), ts_name = cc_name tc, ts_args = []\<rparr>)"

definition open_tool :: "(nat \<Rightarrow> string) \<Rightarrow> string \<Rightarrow> chat_call \<Rightarrow> r_stream \<Rightarrow> r_stream" where
  "open_tool clock i tc st =
     (let st = closeMsg (closeReason i st); t = new_tool clock i tc st
      in announce (ItemAdded (ts_index t) (CallItem (ts_item t) False (ts_call t) (ts_name t) []))
           (st\<lparr>rs_index := ts_index t, rs_tools := rs_tools st @ [(call_index tc, t)]\<rparr>))"

definition r_call :: "(nat \<Rightarrow> string) \<Rightarrow> string \<Rightarrow> chat_call \<Rightarrow> r_stream \<Rightarrow> r_stream" where
  "r_call clock i tc st =
     (let idx = call_index tc;
          st = (if map_of (rs_tools st) idx = None then open_tool clock i tc st else st)
      in if cc_arguments tc = [] then st
         else case map_of (rs_tools st) idx of
                None \<Rightarrow> st
              | Some t \<Rightarrow> announce (ArgumentsDelta (ts_item t) (ts_index t) (cc_arguments tc))
                  (st\<lparr>rs_tools := add_args idx (cc_arguments tc) (rs_tools st)\<rparr>))"

definition r_choice :: "(nat \<Rightarrow> string) \<Rightarrow> string \<Rightarrow> chat_delta \<Rightarrow> r_stream \<Rightarrow> r_stream" where
  "r_choice clock i ch st =
     (let st = fold (r_call clock i) (cd_calls ch) (r_content i (cd_content ch) (r_reasoning i (cd_reasoning ch) st))
      in case cd_finish ch of Some f \<Rightarrow> st\<lparr>rs_finish := f\<rparr> | None \<Rightarrow> st)"

definition r_chunk :: "(nat \<Rightarrow> string) \<Rightarrow> string \<Rightarrow> chat_chunk \<Rightarrow> r_stream \<Rightarrow> r_stream" where
  "r_chunk clock i ck st =
     fold (r_choice clock i) (ck_choices ck) (case ck_usage ck of Some u \<Rightarrow> st\<lparr>rs_usage := Some u\<rparr> | None \<Rightarrow> st)"

definition final_response :: "r_stream \<Rightarrow> response" where
  "final_response st =
     \<lparr>re_status = (if rs_finish st = ''length'' then ''incomplete'' else ''completed''), re_output = rs_outputs st,
      re_details = (if rs_finish st = ''length'' then Some ''max_output_tokens'' else None), re_error = None,
      re_usage = map_option toRespUsage (rs_usage st)\<rparr>"

definition r_finish ::
  "(toolState list \<Rightarrow> toolState list) \<Rightarrow> string \<Rightarrow> bool \<Rightarrow> r_stream \<Rightarrow> r_stream \<times> stream_error option" where
  "r_finish order i ended st =
     (let st = closeCalls order (closeMsg (closeReason i st)); fin = final_response st
      in if \<not> ended
         then (announce (ErrorOut ''upstream_incomplete'' incomplete_message)
                 (announce (Failed (fin\<lparr>re_status := ''failed'', re_error := Some incomplete_message\<rparr>)) st), Some ErrIncomplete)
         else (announce (Completed fin) st, None))"

fun r_loop ::
  "(string \<Rightarrow> json option) \<Rightarrow> (toolState list \<Rightarrow> toolState list) \<Rightarrow> (nat \<Rightarrow> string) \<Rightarrow> string \<Rightarrow> bool \<Rightarrow> string list \<Rightarrow>
     r_stream \<Rightarrow> r_stream \<times> stream_error option" where
  "r_loop parse order clock i eof [] st = (if eof then r_finish order i False st else (st, Some ReadError))"
| "r_loop parse order clock i eof (d # ds) st =
     (if d = ''[DONE]'' then r_finish order i True st
      else case dec_plain_chunk (parse d) of
             None \<Rightarrow> r_loop parse order clock i eof ds st
           | Some ck \<Rightarrow>
               case ck_error ck of
                 Some e \<Rightarrow> (announce (ErrorOut ''upstream_error'' e) st, Some (UpstreamError e))
               | None \<Rightarrow> r_loop parse order clock i eof ds (r_chunk clock i ck st))"

definition new_response :: r_stream where
  "new_response = announce InProgress (announce Created
     \<lparr>rs_usage = None, rs_index = - 1, rs_msg = False, rs_msg_id = [], rs_text = [], rs_reason = [], rs_reason_open = False,
      rs_reason_index = 0, rs_tools = [], rs_outputs = [], rs_finish = [], rs_out = []\<rparr>)"

definition ChatStreamToResponses ::
  "(string \<Rightarrow> json option) \<Rightarrow> (toolState list \<Rightarrow> toolState list) \<Rightarrow> (nat \<Rightarrow> string) \<Rightarrow> bool \<Rightarrow> string list \<Rightarrow>
     (int \<times> r_event) list \<times> usage option \<times> stream_error option" where
  "ChatStreamToResponses parse order clock eof ds =
     (case r_loop parse order clock (respID (clock 0) []) eof ds new_response of (st, e) \<Rightarrow> (rs_out st, rs_usage st, e))"

section \<open>What the clients put together\<close>

fun plain_read :: "(string \<Rightarrow> json option) \<Rightarrow> string list \<Rightarrow> chat_message \<Rightarrow> chat_message \<times> bool" where
  "plain_read parse [] h = (h, False)"
| "plain_read parse (d # ds) h =
     (if d = ''[DONE]'' then (h, True)
      else case dec_plain_chunk (parse d) of
             None \<Rightarrow> plain_read parse ds h
           | Some ck \<Rightarrow> if ck_error ck \<noteq> None then (h, False) else plain_read parse ds (chunk_read ck h))"

record r_message =
  rm_text :: string
  rm_reasoning :: string
  rm_calls :: "(int \<times> string \<times> string \<times> string) list"  \<comment> \<open>output index, call id, name, arguments\<close>

fun r_event_read :: "r_event \<Rightarrow> r_message \<Rightarrow> r_message" where
  "r_event_read (OutputDelta _ _ s) m = m\<lparr>rm_text := rm_text m @ s\<rparr>"
| "r_event_read (SummaryDelta _ _ s) m = m\<lparr>rm_reasoning := rm_reasoning m @ s\<rparr>"
| "r_event_read (ItemAdded k (CallItem _ _ c n _)) m = m\<lparr>rm_calls := rm_calls m @ [(k, c, n, [])]\<rparr>"
| "r_event_read (ArgumentsDelta _ k s) m =
     m\<lparr>rm_calls := map (\<lambda>(j, c, n, a). if j = k then (j, c, n, a @ s) else (j, c, n, a)) (rm_calls m)\<rparr>"
| "r_event_read _ m = m"

definition r_read :: "(int \<times> r_event) list \<Rightarrow> r_message" where
  "r_read es = fold (r_event_read \<circ> snd) es \<lparr>rm_text = [], rm_reasoning = [], rm_calls = []\<rparr>"

section \<open>The events say what the chunks said\<close>

definition same_tool :: "int \<times> string \<times> string \<times> string \<Rightarrow> int \<times> toolState \<Rightarrow> bool" where
  "same_tool c t \<longleftrightarrow>
     (case (c, t) of ((j, i, n, a), (j', ts)) \<Rightarrow> j = j' \<and> (i \<noteq> [] \<longrightarrow> ts_call ts = i) \<and> ts_name ts = n \<and> ts_args ts = a)"

definition tool_call :: "int \<times> toolState \<Rightarrow> int \<times> string \<times> string \<times> string" where
  "tool_call t = (ts_index (snd t), ts_call (snd t), ts_name (snd t), ts_args (snd t))"

definition tools_ok :: "r_stream \<Rightarrow> bool" where
  "tools_ok st \<longleftrightarrow> distinct (map fst (rs_tools st)) \<and> distinct (map (ts_index \<circ> snd) (rs_tools st)) \<and>
     (\<forall>t\<in>set (rs_tools st). ts_index (snd t) \<le> rs_index st)"

fun is_call :: "r_item \<Rightarrow> bool" where
  "is_call (CallItem _ _ _ _ _) = True"
| "is_call _ = False"

definition numbered_events :: "(int \<times> r_event) list \<Rightarrow> bool" where
  "numbered_events es \<longleftrightarrow> map fst es = map int [0..<length es]"

definition r_in_step :: "chat_message \<Rightarrow> r_stream \<Rightarrow> bool" where
  "r_in_step h st \<longleftrightarrow>
     (let m = r_read (rs_out st)
      in rm_text m = cm_text h \<and> rs_text st = cm_text h \<and> rm_reasoning m = cm_reasoning h \<and> rs_reason st = cm_reasoning h \<and>
         rm_calls m = map tool_call (rs_tools st) \<and> list_all2 same_tool (cm_calls h) (rs_tools st) \<and> tools_ok st \<and>
         rs_finish st = (case cm_finish h of Some f \<Rightarrow> f | None \<Rightarrow> []) \<and>
         (\<forall>it\<in>set (rs_outputs st). \<not> is_call it) \<and> numbered_events (rs_out st) \<and> (\<forall>r. Completed r \<notin> snd ` set (rs_out st)))"

lemma r_in_stepI:
  assumes "rm_text (r_read (rs_out st)) = cm_text h" "rs_text st = cm_text h" "rm_reasoning (r_read (rs_out st)) = cm_reasoning h"
    "rs_reason st = cm_reasoning h" "rm_calls (r_read (rs_out st)) = map tool_call (rs_tools st)"
    "list_all2 same_tool (cm_calls h) (rs_tools st)" "tools_ok st"
    "rs_finish st = (case cm_finish h of Some f \<Rightarrow> f | None \<Rightarrow> [])" "\<forall>it\<in>set (rs_outputs st). \<not> is_call it"
    "numbered_events (rs_out st)" "\<forall>r. Completed r \<notin> snd ` set (rs_out st)"
  shows "r_in_step h st"
  using assms by (simp add: r_in_step_def)

lemma r_in_stepD:
  assumes "r_in_step h st"
  shows "rm_text (r_read (rs_out st)) = cm_text h" "rs_text st = cm_text h" "rm_reasoning (r_read (rs_out st)) = cm_reasoning h"
    "rs_reason st = cm_reasoning h" "rm_calls (r_read (rs_out st)) = map tool_call (rs_tools st)"
    "list_all2 same_tool (cm_calls h) (rs_tools st)" "tools_ok st"
    "rs_finish st = (case cm_finish h of Some f \<Rightarrow> f | None \<Rightarrow> [])" "\<forall>it\<in>set (rs_outputs st). \<not> is_call it"
    "numbered_events (rs_out st)" "\<forall>r. Completed r \<notin> snd ` set (rs_out st)"
  using assms by (simp_all add: r_in_step_def Let_def)

lemma announced [simp]:
  "rs_usage (announce e st) = rs_usage st" "rs_index (announce e st) = rs_index st" "rs_msg (announce e st) = rs_msg st"
  "rs_msg_id (announce e st) = rs_msg_id st" "rs_text (announce e st) = rs_text st" "rs_reason (announce e st) = rs_reason st"
  "rs_reason_open (announce e st) = rs_reason_open st" "rs_reason_index (announce e st) = rs_reason_index st"
  "rs_tools (announce e st) = rs_tools st" "rs_outputs (announce e st) = rs_outputs st" "rs_finish (announce e st) = rs_finish st"
  by (simp_all add: announce_def)

lemma read_announced [simp]: "r_read (rs_out (announce e st)) = r_event_read e (r_read (rs_out st))"
  by (simp add: announce_def r_read_def)

lemma numbered_announced [simp]: "numbered_events (rs_out (announce e st)) \<longleftrightarrow> numbered_events (rs_out st)"
  by (simp add: announce_def numbered_events_def)

lemma events_announced [simp]: "snd ` set (rs_out (announce e st)) = insert e (snd ` set (rs_out st))"
  by (simp add: announce_def)

lemma tools_ok_cong: "rs_tools st' = rs_tools st \<Longrightarrow> rs_index st \<le> rs_index st' \<Longrightarrow> tools_ok st \<Longrightarrow> tools_ok st'"
  by (fastforce simp: tools_ok_def)

lemma tools_ok_announced [simp]: "tools_ok (announce e st) \<longleftrightarrow> tools_ok st"
  by (simp add: tools_ok_def)

text \<open>An event that carries no piece, and fields that carry none.\<close>

lemma r_in_step_silent:
  assumes "r_in_step h st" "\<And>m. r_event_read e m = m" "\<forall>r. e \<noteq> Completed r"
  shows "r_in_step h (announce e st)"
  using r_in_stepD [OF assms(1)] assms(2,3)
  by (intro r_in_stepI) (auto intro: tools_ok_cong)

lemma closeMsg_step:
  assumes "r_in_step h st"
  shows "r_in_step h (closeMsg st)" "rs_index (closeMsg st) = rs_index st" "rs_tools (closeMsg st) = rs_tools st"
proof -
  show "r_in_step h (closeMsg st)"
    using r_in_stepD [OF assms]
    by (intro r_in_stepI) (auto simp: closeMsg_def Let_def intro: tools_ok_cong [of _ st])
qed (simp_all add: closeMsg_def Let_def)

lemma closeReason_step:
  assumes "r_in_step h st"
  shows "r_in_step h (closeReason i st)" "rs_index (closeReason i st) = rs_index st" "rs_tools (closeReason i st) = rs_tools st"
proof -
  show "r_in_step h (closeReason i st)"
    using r_in_stepD [OF assms]
    by (intro r_in_stepI) (auto simp: closeReason_def Let_def intro: tools_ok_cong [of _ st])
qed (simp_all add: closeReason_def Let_def)

lemma r_reasoning_step:
  assumes "r_in_step h st"
  shows "r_in_step (h\<lparr>cm_reasoning := cm_reasoning h @ s\<rparr>) (r_reasoning i s st)"
  using r_in_stepD [OF assms]
  by (intro r_in_stepI) (auto simp: r_reasoning_def Let_def intro: tools_ok_cong [of _ st])

lemma r_content_step:
  assumes "r_in_step h st"
  shows "r_in_step (h\<lparr>cm_text := cm_text h @ s\<rparr>) (r_content i s st)"
proof -
  note c = closeReason_step [OF assms, of i]
  show ?thesis
    using r_in_stepD [OF c(1)] r_in_stepD [OF assms] c(2,3)
    by (intro r_in_stepI) (auto simp: r_content_def Let_def intro: tools_ok_cong [of _ "closeReason i st"] tools_ok_cong [of _ st])
qed

section \<open>Tool calls\<close>

lemma same_tool_keys: "list_all2 same_tool cs ts \<Longrightarrow> fst ` set cs = fst ` set ts"
  by (induction rule: list_all2_induct) (auto simp: same_tool_def)

lemma add_args_absent: "idx \<notin> fst ` set ts \<Longrightarrow> add_args idx s ts = ts"
  by (induction ts) (auto simp: add_args_def)

lemma add_args_keys: "map fst (add_args idx s ts) = map fst ts" "map (ts_index \<circ> snd) (add_args idx s ts) = map (ts_index \<circ> snd) ts"
  by (simp_all add: add_args_def split_def)

lemma add_piece_args:
  "list_all2 same_tool cs ts \<Longrightarrow> distinct (map fst ts) \<Longrightarrow> call_index tc \<in> fst ` set ts \<Longrightarrow>
     list_all2 same_tool (add_piece tc cs) (add_args (call_index tc) (cc_arguments tc) ts)"
proof (induction rule: list_all2_induct)
  case (Cons c cs t ts)
  obtain j i n a where c: "c = (j, i, n, a)" by (metis prod_cases4)
  obtain j' x where t: "t = (j', x)" by fastforce
  show ?case
  proof (cases "j = call_index tc")
    case True
    then have "call_index tc \<notin> fst ` set ts" using Cons.hyps(1) Cons.prems(1) c t by (auto simp: same_tool_def)
    then have "add_args (call_index tc) (cc_arguments tc) ts = ts" by (rule add_args_absent)
    then show ?thesis using True Cons.hyps c t by (simp add: same_tool_def add_args_def)
  next
    case False
    then have "call_index tc \<in> fst ` set ts" using Cons.hyps(1) Cons.prems(2) c t by (auto simp: same_tool_def)
    then show ?thesis using False Cons c t by (simp add: same_tool_def add_args_def)
  qed
qed simp

lemma map_args:
  assumes "distinct (map fst ts)" "distinct (map (ts_index \<circ> snd) ts)" "(idx, t) \<in> set ts"
  shows "map (\<lambda>(j, c, n, a). if j = ts_index t then (j, c, n, a @ s) else (j, c, n, a)) (map tool_call ts) =
    map tool_call (add_args idx s ts)"
proof -
  have same: "ts_index t' = ts_index t \<longleftrightarrow> j = idx" if "(j, t') \<in> set ts" for j t'
  proof -
    from that assms(3) obtain p q where pq: "p < length ts" "ts ! p = (j, t')" "q < length ts" "ts ! q = (idx, t)"
      by (auto simp: in_set_conv_nth)
    then have "(p = q) = (j = idx)" using nth_eq_iff_index_eq [OF assms(1), of p q] by simp
    moreover have "(p = q) = (ts_index t' = ts_index t)" using nth_eq_iff_index_eq [OF assms(2), of p q] pq by simp
    ultimately show ?thesis by blast
  qed
  have "(\<lambda>(j, c, n, a). if j = ts_index t then (j, c, n, a @ s) else (j, c, n, a)) (tool_call (k, t')) =
      tool_call ((\<lambda>(j, t). if j = idx then (j, t\<lparr>ts_args := ts_args t @ s\<rparr>) else (j, t)) (k, t'))" if "(k, t') \<in> set ts" for k t'
    using same [OF that] by (simp add: tool_call_def)
  note eq = this
  show ?thesis unfolding add_args_def map_map
  proof (rule map_cong [OF refl])
    fix u assume "u \<in> set ts"
    then show "((\<lambda>(j, c, n, a). if j = ts_index t then (j, c, n, a @ s) else (j, c, n, a)) \<circ> tool_call) u =
      (tool_call \<circ> (\<lambda>(j, t). if j = idx then (j, t\<lparr>ts_args := ts_args t @ s\<rparr>) else (j, t))) u"
      using eq [of "fst u" "snd u"] by (simp del: split_def)
  qed
qed

lemma open_tool_step:
  assumes "r_in_step h st" "call_index tc \<notin> fst ` set (rs_tools st)"
  shows "r_in_step (h\<lparr>cm_calls := cm_calls h @ [(call_index tc, cc_id tc, cc_name tc, [])]\<rparr>) (open_tool clock i tc st)"
    "\<exists>t. rs_tools (open_tool clock i tc st) = rs_tools st @ [(call_index tc, t)]"
proof -
  let ?st = "closeMsg (closeReason i st)"
  have c: "r_in_step h ?st" "rs_index ?st = rs_index st" "rs_tools ?st = rs_tools st"
    using closeMsg_step [OF closeReason_step(1) [OF assms(1)]] closeReason_step [OF assms(1)] by simp_all
  let ?t = "new_tool clock i tc ?st"
  have t: "ts_index ?t = rs_index st + 1" "ts_name ?t = cc_name tc" "ts_args ?t = []" "cc_id tc \<noteq> [] \<longrightarrow> ts_call ?t = cc_id tc"
    using c(2) by (simp_all add: new_tool_def Let_def)
  have o: "open_tool clock i tc st = announce (ItemAdded (ts_index ?t) (CallItem (ts_item ?t) False (ts_call ?t) (ts_name ?t) []))
           (?st\<lparr>rs_index := ts_index ?t, rs_tools := rs_tools ?st @ [(call_index tc, ?t)]\<rparr>)"
    by (simp add: open_tool_def Let_def)
  show "\<exists>t. rs_tools (open_tool clock i tc st) = rs_tools st @ [(call_index tc, t)]" by (simp add: o c(3))
  note d = r_in_stepD [OF c(1)]
  have "tools_ok (open_tool clock i tc st)"
    using d(7) assms(2) c(2,3) t(1) by (fastforce simp: tools_ok_def o)
  moreover have "list_all2 same_tool (cm_calls h @ [(call_index tc, cc_id tc, cc_name tc, [])]) (rs_tools st @ [(call_index tc, ?t)])"
    using d(6) c(3) t by (intro list_all2_appendI) (simp_all add: same_tool_def)
  ultimately show "r_in_step (h\<lparr>cm_calls := cm_calls h @ [(call_index tc, cc_id tc, cc_name tc, [])]\<rparr>) (open_tool clock i tc st)"
    using d c t by (intro r_in_stepI) (auto simp: o tool_call_def)
qed

lemma r_call_step:
  assumes "r_in_step h st"
  shows "r_in_step (h\<lparr>cm_calls := add_piece tc (cm_calls h)\<rparr>) (r_call clock i tc st)"
proof -
  let ?idx = "call_index tc"
  define st1 where "st1 = (if map_of (rs_tools st) ?idx = None then open_tool clock i tc st else st)"
  define cs1 where "cs1 = (if map_of (rs_tools st) ?idx = None then cm_calls h @ [(?idx, cc_id tc, cc_name tc, [])] else cm_calls h)"
  have s1: "r_in_step (h\<lparr>cm_calls := cs1\<rparr>) st1"
    using assms open_tool_step(1) [OF assms, of tc] by (simp add: st1_def cs1_def map_of_eq_None_iff)
  have "\<exists>t. map_of (rs_tools st1) ?idx = Some t"
  proof (cases "map_of (rs_tools st) ?idx")
    case None
    then obtain t where "rs_tools (open_tool clock i tc st) = rs_tools st @ [(?idx, t)]"
      using open_tool_step(2) [OF assms, of tc clock i] by (auto simp: map_of_eq_None_iff)
    then show ?thesis using None by (simp add: st1_def map_add_def)
  qed (simp add: st1_def)
  then obtain t where t: "map_of (rs_tools st1) ?idx = Some t" by blast
  note d = r_in_stepD [OF s1]
  have ok: "distinct (map fst (rs_tools st1))" "distinct (map (ts_index \<circ> snd) (rs_tools st1))" using d(7) by (simp_all add: tools_ok_def)
  have "?idx \<in> fst ` set (rs_tools st1)" using t by (metis map_of_eq_None_iff option.distinct(1))
  then have keys: "?idx \<in> fst ` set (rs_tools st1)" "?idx \<in> fst ` set cs1" using same_tool_keys [OF d(6)] by simp_all
  have piece: "add_piece tc cs1 = add_piece tc (cm_calls h)"
  proof (cases "map_of (rs_tools st) ?idx = None")
    case True
    then have "?idx \<notin> fst ` set (cm_calls h)" using same_tool_keys [OF r_in_stepD(6) [OF assms]] by (simp add: map_of_eq_None_iff)
    moreover have "add_piece tc (cs @ [(?idx, cc_id tc, cc_name tc, [])]) = add_piece tc cs" if "?idx \<notin> fst ` set cs" for cs
      using that by (induction cs) auto
    ultimately show ?thesis using True by (simp add: cs1_def)
  qed (auto simp: cs1_def)
  have run: "r_call clock i tc st = (if cc_arguments tc = [] then st1
      else announce (ArgumentsDelta (ts_item t) (ts_index t) (cc_arguments tc)) (st1\<lparr>rs_tools := add_args ?idx (cc_arguments tc) (rs_tools st1)\<rparr>))"
    using t by (simp add: r_call_def Let_def st1_def)
  have calls: "list_all2 same_tool (add_piece tc (cm_calls h)) (add_args ?idx (cc_arguments tc) (rs_tools st1))"
    using add_piece_args [OF d(6) ok(1) keys(1)] piece by simp
  show ?thesis
  proof (cases "cc_arguments tc = []")
    case True
    have "add_args ?idx [] ts = ts" for ts by (induction ts) (auto simp: add_args_def)
    then show ?thesis using True run calls d by (intro r_in_stepI) simp_all
  next
    case False
    have "(?idx, t) \<in> set (rs_tools st1)" using t by (rule map_of_SomeD)
    note args = map_args [OF ok this, of "cc_arguments tc"]
    have "tools_ok (st1\<lparr>rs_tools := add_args ?idx (cc_arguments tc) (rs_tools st1)\<rparr>)"
      using d(7) by (auto simp: tools_ok_def add_args_keys) (auto simp: add_args_def split: if_split_asm)
    then have "tools_ok (r_call clock i tc st)" using False run by simp
    then show ?thesis using False run calls d args by (intro r_in_stepI) auto
  qed
qed

lemma r_choice_step:
  assumes "r_in_step h st"
  shows "r_in_step (chat_delta_read d h) (r_choice clock i d st)"
proof -
  have calls: "r_in_step (h\<lparr>cm_calls := fold add_piece tcs (cm_calls h)\<rparr>) (fold (r_call clock i) tcs st)"
    if "r_in_step h st" for tcs h st
    using that
  proof (induction tcs arbitrary: h st)
    case (Cons tc tcs)
    from Cons.IH [OF r_call_step [OF Cons.prems, of tc clock i]] show ?case by simp
  qed simp
  let ?st = "fold (r_call clock i) (cd_calls d) (r_content i (cd_content d) (r_reasoning i (cd_reasoning d) st))"
  have "r_in_step (h\<lparr>cm_reasoning := cm_reasoning h @ cd_reasoning d, cm_text := cm_text h @ cd_content d,
      cm_calls := fold add_piece (cd_calls d) (cm_calls h)\<rparr>) ?st" (is "r_in_step ?h ?st")
    using calls [OF r_content_step [OF r_reasoning_step [OF assms]], of "cd_calls d"] by simp
  note d = r_in_stepD [OF this]
  have rc: "r_choice clock i d st = (case cd_finish d of Some f \<Rightarrow> ?st\<lparr>rs_finish := f\<rparr> | None \<Rightarrow> ?st)"
    by (simp add: r_choice_def Let_def)
  show ?thesis unfolding rc
    using d by (intro r_in_stepI) (auto simp: chat_delta_read_def intro: tools_ok_cong split: option.split)
qed

lemma r_chunk_step:
  assumes "r_in_step h st"
  shows "r_in_step (chunk_read ck h) (r_chunk clock i ck st)"
proof -
  have "r_in_step (fold chat_delta_read ds h) (fold (r_choice clock i) ds st)" if "r_in_step h st" for ds h st
    using that
  proof (induction ds arbitrary: h st)
    case (Cons d ds)
    from Cons.IH [OF r_choice_step [OF Cons.prems]] show ?case by simp
  qed simp
  moreover have "r_in_step h (case ck_usage ck of Some u \<Rightarrow> st\<lparr>rs_usage := Some u\<rparr> | None \<Rightarrow> st)"
    using r_in_stepD [OF assms] by (intro r_in_stepI) (auto intro: tools_ok_cong [of _ st] split: option.split)
  ultimately show ?thesis by (simp add: chunk_read_def r_chunk_def)
qed

section \<open>The end of the stream\<close>

definition call_texts :: "r_item list \<Rightarrow> (string \<times> string \<times> string) list" where
  "call_texts its = concat (map (\<lambda>it. case it of CallItem _ _ c n a \<Rightarrow> [(c, n, a)] | _ \<Rightarrow> []) its)"

definition tool_text :: "toolState \<Rightarrow> string \<times> string \<times> string" where
  "tool_text t = (ts_call t, ts_name t, ts_args t)"

lemma no_call_texts: "\<forall>it\<in>set its. \<not> is_call it \<Longrightarrow> call_texts its = []"
  by (auto simp: call_texts_def split: r_item.split)

lemma closeTools_events:
  "r_read (rs_out (fold closeTool ts st)) = r_read (rs_out st) \<and>
   (numbered_events (rs_out (fold closeTool ts st)) = numbered_events (rs_out st)) \<and>
   ((\<forall>r. Completed r \<notin> snd ` set (rs_out st)) \<longrightarrow> (\<forall>r. Completed r \<notin> snd ` set (rs_out (fold closeTool ts st)))) \<and>
   rs_finish (fold closeTool ts st) = rs_finish st \<and> rs_usage (fold closeTool ts st) = rs_usage st \<and>
   call_texts (rs_outputs (fold closeTool ts st)) = call_texts (rs_outputs st) @ map tool_text ts"
proof (induction ts arbitrary: st)
  case (Cons t ts)
  show ?case using Cons.IH [of "closeTool t st"] by (simp add: closeTool_def Let_def call_texts_def tool_text_def)
qed simp

definition r_outcome :: "chat_message \<Rightarrow> bool \<Rightarrow> (int \<times> r_event) list \<Rightarrow> stream_error option \<Rightarrow> bool" where
  "r_outcome h complete es e \<longleftrightarrow> map fst es = map int [0..<length es] \<and>
    (if complete
     then e = None \<and> rm_text (r_read es) = cm_text h \<and> rm_reasoning (r_read es) = cm_reasoning h \<and>
       (\<exists>ts. list_all2 same_tool (cm_calls h) ts \<and> rm_calls (r_read es) = map tool_call ts \<and>
         (\<exists>es' r. map snd es = es' @ [Completed r] \<and> (\<forall>r. Completed r \<notin> set es') \<and>
            re_status r = (if cm_finish h = Some ''length'' then ''incomplete'' else ''completed'') \<and>
            mset (call_texts (re_output r)) = mset (map (tool_text \<circ> snd) ts)))
     else e \<noteq> None \<and> (\<forall>r. Completed r \<notin> snd ` set es))"

lemma r_finish_step:
  assumes order: "\<forall>ts. mset (order ts) = mset (ts :: toolState list)" and s: "r_in_step h st"
    and run: "r_finish order i ended st = (st', e)"
  shows "r_outcome h ended (rs_out st') e"
proof -
  let ?st1 = "closeMsg (closeReason i st)" and ?st2 = "closeCalls order (closeMsg (closeReason i st))"
  have c: "r_in_step h ?st1" "rs_tools ?st1 = rs_tools st"
    using closeMsg_step [OF closeReason_step(1) [OF s]] closeReason_step [OF s] by simp_all
  note d = r_in_stepD [OF c(1)]
  note t = closeTools_events [of "order (map snd (rs_tools st))" ?st1]
  have st2: "?st2 = fold closeTool (order (map snd (rs_tools st))) ?st1" by (simp add: closeCalls_def c(2))
  have read: "r_read (rs_out ?st2) = r_read (rs_out ?st1)" "numbered_events (rs_out ?st2)" "\<forall>r. Completed r \<notin> snd ` set (rs_out ?st2)"
    "rs_finish ?st2 = rs_finish ?st1" using t d unfolding st2 by auto
  have "call_texts (rs_outputs ?st2) = map tool_text (order (map snd (rs_tools st)))"
    using t no_call_texts [OF d(9)] unfolding st2 by simp
  then have "mset (call_texts (rs_outputs ?st2)) = image_mset tool_text (mset (map snd (rs_tools st)))" using order by simp
  then have calls: "mset (call_texts (rs_outputs ?st2)) = mset (map (tool_text \<circ> snd) (rs_tools st))" by (simp add: multiset.map_comp)
  have status: "re_status (final_response ?st2) = (if cm_finish h = Some ''length'' then ''incomplete'' else ''completed'')"
    using read(4) d(8) by (auto simp: final_response_def split: option.splits)
  show ?thesis
  proof (cases ended)
    case True
    then have "st' = announce (Completed (final_response ?st2)) ?st2" "e = None" using run by (simp_all add: r_finish_def Let_def)
    moreover have "map snd (rs_out (announce x ?st2)) = map snd (rs_out ?st2) @ [x]" for x by (simp add: announce_def)
    moreover have "\<forall>r. Completed r \<notin> set (map snd (rs_out ?st2))" using read(3) by simp
    moreover have "re_output (final_response ?st2) = rs_outputs ?st2" by (simp add: final_response_def)
    moreover have "numbered_events (rs_out (announce (Completed (final_response ?st2)) ?st2))" using read(2) by simp
    ultimately show ?thesis
      using True read(1) d(1,3,5,6) c(2) calls status unfolding r_outcome_def numbered_events_def by auto
  next
    case False
    then have "st' = announce (ErrorOut ''upstream_incomplete'' incomplete_message)
        (announce (Failed ((final_response ?st2)\<lparr>re_status := ''failed'', re_error := Some incomplete_message\<rparr>)) ?st2)" "e = Some ErrIncomplete"
      using run by (simp_all add: r_finish_def Let_def)
    moreover from this read(2,3) have "numbered_events (rs_out st')" "\<forall>r. Completed r \<notin> snd ` set (rs_out st')" by simp_all
    ultimately show ?thesis using False unfolding r_outcome_def numbered_events_def by simp
  qed
qed

lemma r_loop_step:
  assumes order: "\<forall>ts. mset (order ts) = mset (ts :: toolState list)"
  shows "r_in_step h st \<Longrightarrow> r_loop parse order clock i eof ds st = (st', e) \<Longrightarrow> plain_read parse ds h = (h', complete) \<Longrightarrow>
    r_outcome h' complete (rs_out st') e"
proof (induction ds arbitrary: h st)
  case Nil
  note d = r_in_stepD [OF Nil.prems(1)]
  show ?case
  proof (cases eof)
    case True
    then have "r_finish order i False st = (st', e)" "\<not> complete" using Nil.prems by simp_all
    with r_finish_step [OF order Nil.prems(1) this(1)] show ?thesis using Nil.prems(3) by simp
  qed (use Nil.prems d in \<open>auto simp: r_outcome_def numbered_events_def\<close>)
next
  case (Cons x ds)
  show ?case
  proof (cases "x = ''[DONE]''")
    case True
    then have run: "r_finish order i True st = (st', e)" and h: "h' = h" "complete" using Cons.prems by simp_all
    from r_finish_step [OF order Cons.prems(1) run] show ?thesis using h by auto
  next
    case False
    show ?thesis
    proof (cases "dec_plain_chunk (parse x)")
      case None
      with Cons False show ?thesis by simp
    next
      case (Some ck)
      show ?thesis
      proof (cases "ck_error ck")
        case None
        with Cons.IH [OF r_chunk_step [OF Cons.prems(1), of ck clock i]] Cons.prems False Some show ?thesis by simp
      next
        case (Some msg)
        with Cons.prems False \<open>dec_plain_chunk (parse x) = Some ck\<close> r_in_stepD(10,11) [OF Cons.prems(1)]
        have "st' = announce (ErrorOut ''upstream_error'' msg) st" "e \<noteq> None" "\<not> complete" by auto
        with r_in_stepD(10,11) [OF Cons.prems(1)] numbered_announced [of "ErrorOut ''upstream_error'' msg" st] show ?thesis
          unfolding r_outcome_def numbered_events_def by simp
      qed
    qed
  qed
qed

lemma new_response_in_step: "r_in_step empty_chat new_response"
  by (intro r_in_stepI)
    (simp_all add: new_response_def announce_def r_read_def empty_chat_def tools_ok_def numbered_events_def)

text \<open>Property C35: the events of the Responses API made from a chat stream say piece by piece what the chunks said:
  the deltas of text, of reasoning and of the arguments of every tool call add up to those of the chat
  message, in the same order; the events are numbered without a gap. A complete stream ends with one
  \<open>response.completed\<close>, whose output holds every tool call once and whole and whose status says whether the reply
  was cut off; no other stream is ever reported as completed.\<close>

theorem responses_stream_kept:
  assumes "\<forall>ts. mset (order ts) = mset (ts :: toolState list)"
    and "ChatStreamToResponses parse order clock eof ds = (es, u, e)" and "plain_read parse ds empty_chat = (h, complete)"
  shows "map fst es = map int [0..<length es] \<and>
    (if complete
     then e = None \<and> rm_text (r_read es) = cm_text h \<and> rm_reasoning (r_read es) = cm_reasoning h \<and>
       (\<exists>ts. list_all2 same_tool (cm_calls h) ts \<and> rm_calls (r_read es) = map tool_call ts \<and>
         (\<exists>es' r. map snd es = es' @ [Completed r] \<and> (\<forall>r. Completed r \<notin> set es') \<and>
            re_status r = (if cm_finish h = Some ''length'' then ''incomplete'' else ''completed'') \<and>
            mset (call_texts (re_output r)) = mset (map (tool_text \<circ> snd) ts)))
     else e \<noteq> None \<and> (\<forall>r. Completed r \<notin> snd ` set es))"
proof -
  obtain st where run: "r_loop parse order clock (respID (clock 0) []) eof ds new_response = (st, e)" and st: "es = rs_out st"
    using assms(2) by (auto simp: ChatStreamToResponses_def split: prod.splits)
  from r_loop_step [OF assms(1) new_response_in_step run assms(3)] show ?thesis
    unfolding st r_outcome_def .
qed

lemma plain_sample: "plain_read sample_parse [''1'', ''[DONE]''] empty_chat = (empty_chat\<lparr>cm_text := ''hi''\<rparr>, True)"
  by (simp add: sample_parse_def dec_plain_chunk_def dec_plain_fields_def dec_choice_def dec_delta_def jfield_def same_key_def
      ascii_lower_def chunk_read_def chat_delta_read_def empty_chat_def zero_delta_def)

lemma responses_stream_kept_witness:
  "\<exists>es u. ChatStreamToResponses sample_parse rev (\<lambda>_. ''7'') True [''1'', ''[DONE]''] = (es, u, None) \<and> rm_text (r_read es) = ''hi''"
proof -
  obtain es u e where r: "ChatStreamToResponses sample_parse rev (\<lambda>_. ''7'') True [''1'', ''[DONE]''] = (es, u, e)"
    by (metis prod_cases3)
  from responses_stream_kept [OF _ r plain_sample] show ?thesis unfolding r by (auto simp: empty_chat_def)
qed

section \<open>What goes wrong\<close>

text \<open>A chunk for every letter.\<close>

definition text_chunk :: "string \<Rightarrow> json" where
  "text_chunk s = JObj [(''choices'', JArr [JObj [(''delta'', JObj [(''content'', JStr s)])]])]"

definition call_chunk :: json where
  "call_chunk = JObj [(''choices'', JArr [JObj [(''delta'', JObj [(''tool_calls'',
     JArr [JObj [(''index'', JInt 0), (''id'', JStr ''c''), (''function'', JObj [(''name'', JStr ''f''), (''arguments'', JStr ''{}'')])]])])]])]"

definition before_and_after :: "string \<Rightarrow> string \<Rightarrow> string \<Rightarrow> json option" where
  "before_and_after s s' d = (if d = ''1'' then Some (text_chunk s) else if d = ''2'' then Some call_chunk
     else if d = ''3'' then Some (text_chunk s') else None)"

definition output_texts :: "r_event list \<Rightarrow> string list" where
  \<comment> \<open>the texts of the messages in the completed response\<close>
  "output_texts es = concat (map (\<lambda>e. case e of Completed r \<Rightarrow>
     concat (map (\<lambda>it. case it of MessageItem _ (Some s) \<Rightarrow> [s] | _ \<Rightarrow> []) (re_output r)) | _ \<Rightarrow> []) es)"

text \<open>The buffer of the text is never emptied: when the model speaks, calls a tool and speaks on, the second message of
  the completed response repeats the first, although the deltas do not.\<close>

lemma later_message_repeats:
  assumes "s \<noteq> []" "s' \<noteq> []"
  shows "\<exists>es u. ChatStreamToResponses (before_and_after s s') (\<lambda>ts. ts) clock eof [''1'', ''2'', ''3'', ''[DONE]''] = (es, u, None) \<and>
    output_texts (map snd es) = [s, s @ s']"
proof -
  have "dec_plain_chunk (Some (text_chunk x)) = Some \<lparr>ck_choices = [zero_delta\<lparr>cd_content := x\<rparr>], ck_usage = None, ck_error = None\<rparr>" for x
    by (simp add: text_chunk_def dec_plain_chunk_def dec_plain_fields_def dec_choice_def dec_delta_def jfield_def same_key_def
        ascii_lower_def zero_delta_def)
  moreover have "dec_plain_chunk (Some call_chunk) = Some \<lparr>ck_choices = [zero_delta\<lparr>cd_calls :=
      [\<lparr>cc_index = Some 0, cc_id = ''c'', cc_name = ''f'', cc_arguments = ''{}''\<rparr>]\<rparr>], ck_usage = None, ck_error = None\<rparr>"
    by (simp add: call_chunk_def dec_plain_chunk_def dec_plain_fields_def dec_choice_def dec_delta_def dec_call_def jfield_def same_key_def
        ascii_lower_def zero_delta_def int64_ok_def)
  ultimately show ?thesis
    using assms
    by (simp add: ChatStreamToResponses_def before_and_after_def r_chunk_def r_choice_def zero_delta_def r_reasoning_def r_content_def
        r_call_def call_index_def Let_def new_response_def announce_def closeReason_def closeMsg_def open_tool_def new_tool_def add_args_def
        r_finish_def closeCalls_def closeTool_def final_response_def output_texts_def)
qed

text \<open>Reasoning that arrives while a message is open moves the output index on, and the message's later deltas carry
  the index of the reasoning item.\<close>

definition reasoning_between :: "string \<Rightarrow> string \<Rightarrow> string \<Rightarrow> json option" where
  "reasoning_between s s' d = (if d = ''1'' then Some (text_chunk s)
     else if d = ''2'' then Some (JObj [(''choices'', JArr [JObj [(''delta'', JObj [(''reasoning_content'', JStr ''hm'')])]])])
     else if d = ''3'' then Some (text_chunk s') else None)"

lemma reasoning_moves_index:
  assumes "s \<noteq> []" "s' \<noteq> []"
  shows "\<exists>es u i j. ChatStreamToResponses (reasoning_between s s') (\<lambda>ts. ts) clock eof [''1'', ''2'', ''3'', ''[DONE]''] = (es, u, None) \<and>
    {ItemAdded 0 (MessageItem i None), ItemAdded 1 (ReasoningItem j None), OutputDelta i 1 s'} \<subseteq> snd ` set es"
proof -
  have "dec_plain_chunk (Some (text_chunk x)) = Some \<lparr>ck_choices = [zero_delta\<lparr>cd_content := x\<rparr>], ck_usage = None, ck_error = None\<rparr>" for x
    by (simp add: text_chunk_def dec_plain_chunk_def dec_plain_fields_def dec_choice_def dec_delta_def jfield_def same_key_def
        ascii_lower_def zero_delta_def)
  moreover have "dec_plain_chunk (Some (JObj [(''choices'', JArr [JObj [(''delta'', JObj [(''reasoning_content'', JStr ''hm'')])]])])) =
      Some \<lparr>ck_choices = [zero_delta\<lparr>cd_reasoning := ''hm''\<rparr>], ck_usage = None, ck_error = None\<rparr>"
    by (simp add: dec_plain_chunk_def dec_plain_fields_def dec_choice_def dec_delta_def jfield_def same_key_def ascii_lower_def zero_delta_def)
  ultimately show ?thesis
    using assms
    by (simp add: ChatStreamToResponses_def reasoning_between_def r_chunk_def r_choice_def zero_delta_def r_reasoning_def r_content_def
        Let_def new_response_def announce_def closeReason_def closeMsg_def r_finish_def closeCalls_def final_response_def)
qed

end
