(* ===== verification/Spec2Isabelle.thy ===== *)
theory Spec2Isabelle
  imports Gateway_Errors Limiter Rate_Limit Health Quota Key_Cache Snapshot Json Usage Admission Forward Forwarding Aho_Corasick Compliance Request_Text Handlers Compat Rollup Journal Lines Sse Top_K Routing Pricing Ledger To_Anthropic To_Chat Messages To_Responses
begin

text \<open>
  A verification development for the yzapi gateway: an HTTP gateway in Go that authenticates a request
  with an API key, limits it, screens its text, chooses an upstream account, forwards the request
  (converting between provider protocols), and accounts for tokens and cost. The development translates
  the parts of \<open>src/internal\<close> that decide something into HOL definitions, one theory for each component, and
  proves what makes each of them correct. Definitions keep the names of the Go code where they can.

  \<^bold>\<open>How the parts interact.\<close> A handler (theory \<open>Handlers\<close>) runs \<open>prepare\<close> (theory \<open>Admission\<close>), which looks the key up
  (\<open>Key_Cache\<close>), reads the routing snapshot (\<open>Snapshot\<close>) and asks the rate limiter (\<open>Rate_Limit\<close>) and the token quota (\<open>Quota\<close>);
  then it takes the slots of the limiter (\<open>Limiter\<close>, behind the interface of \<open>Slot_Pool\<close>), has the text checked
  (\<open>Compliance\<close>, over \<open>Aho_Corasick\<close> and \<open>Top_K\<close>), labels it for the smart router (\<open>Routing\<close>) and forwards it (\<open>Forward\<close>) to accounts
  whose circuit breaker lets it through (\<open>Health\<close>). The reply is relayed, its usage read (\<open>Usage\<close>) and priced (\<open>Pricing\<close>), and one
  log entry leaves for the log store: the journal (\<open>Journal\<close>), the hourly rollup (\<open>Rollup\<close>), and, for old databases, the
  migration of the costs (\<open>Ledger\<close>). Streams are read and written by \<open>Sse\<close> and converted by \<open>To_Anthropic\<close>, \<open>To_Chat\<close> and
  \<open>To_Responses\<close>, requests and complete replies by \<open>Messages\<close>.

  \<^bold>\<open>Theories and sources.\<close>
    \<^item> \<open>GoBase\<close>: the prelude. Go's integers (\<open>wrap64\<close>), times, byte strings and the string functions of the standard
      library, and the list lemmas the components share. \<open>Json\<close>: JSON values and \<open>json.Unmarshal\<close> into the
      Go types in use. \<open>Lines\<close>: \<open>bufio.Reader.ReadBytes\<close>. \<open>Slot_Pool\<close>: the locale of a counter slots are taken from.
    \<^item> \<open>Gateway_Errors\<close>: \<open>gateway/errors.go\<close>, the error values with their status and wire type; the protocols.
    \<^item> \<open>Limiter\<close>: \<open>gateway/limiter.go\<close>. Lock-free counters with the interleaving of compare-and-swap loops as a step
      relation, the counter map, the global gate with its bounded queue and the memory budget (step relations too).
      Lemmas: limits and queue bounds, no lost wake-up, the budget's balance; interpretations of \<open>Slot_Pool\<close>.
    \<^item> \<open>Rate_Limit\<close>: \<open>gateway/ratelimit.go\<close>. The ring of sixty seconds refines the specification that remembers the count of
      every second, and so no sixty consecutive seconds admit more than the limit.
    \<^item> \<open>Health\<close>: \<open>gateway/health.go\<close>, the circuit breaker; writes to the database are jobs run in any order, and may fail. Lemmas:
      one probe at a time, the stored row settles on the newest state unless a reset intervenes or the latest write failed
      (which nothing repeats).
    \<^item> \<open>Quota\<close>: \<open>gateway/quota.go\<close>. \<open>Key_Cache\<close>: \<open>gateway/principal.go\<close>, with the interleaving of lookups and invalidations.
    \<^item> \<open>Snapshot\<close>: \<open>gateway/snapshot.go\<close>, the rebuild of the routing configuration, which is proved to publish what the
      rows say, and the resolution of model names.
    \<^item> \<open>Admission\<close>, \<open>Forward\<close>, \<open>Forwarding\<close>, \<open>Handlers\<close>: \<open>gateway/handler.go\<close>, from authentication to \<open>finish\<close>; \<open>Forward\<close> holds the model
      and \<open>Forwarding\<close> its theorems (slots given back, no retry after a byte was sent, one log entry for each request).
      \<open>Usage\<close>: what an upstream reply says was consumed (\<open>gateway/upstream.go\<close>) and how attempts fold into a request.
    \<^item> \<open>Compat\<close>: \<open>gateway/compat.go\<close> and \<open>gateway/gemini.go\<close>, model lists and token counters.
    \<^item> \<open>Aho_Corasick\<close>: \<open>compliance/aho.go\<close>, equivalent to searching for each pattern alone. \<open>Request_Text\<close>: what of a body is
      read. \<open>Compliance\<close>: \<open>compliance/compliance.go\<close>, rules, reload, verdict, building of vectors.
    \<^item> \<open>Top_K\<close>: the bounded heap of the vector searches, against sorting and taking the first \<open>k\<close> (locale \<open>ranking\<close>).
      \<open>Routing\<close>: \<open>routing/routing.go\<close>, the engine that labels a request.
    \<^item> \<open>Pricing\<close>, \<open>Ledger\<close>: \<open>pricing/pricing.go\<close>; the price table, and the one-off migration of stored costs into US dollars
      with its journal hook, which converts nothing twice and agrees with the migration but for one origin (v1).
    \<^item> \<open>Journal\<close>: the durable half of \<open>logstore/logstore.go\<close> as a state machine with crashes and failing files at every step;
      metering is exact unless one of three losing situations occurs, which ghost flags of the run record. \<open>Rollup\<close>: its
      accounting half (live booking, rebuild, reconciliation, and what a finished request is charged), with the law of tables one adds to as a locale interpreted on both tables of the code.
    \<^item> \<open>Messages\<close>: the converters of whole requests and replies between chat and Anthropic; the shape of the requests,
      and what of a conversation survives the way there and back. \<open>Sse\<close>: \<open>gateway/convert/sse.go\<close>, events read back from the wire. \<open>To_Anthropic\<close>, \<open>To_Chat\<close>, \<open>To_Responses\<close>: the stream
      converters of \<open>convert/anthropic_chat.go\<close>, \<open>convert/chat_anthropic.go\<close> (with \<open>convert/reasoning.go\<close>) and
      \<open>convert/responses.go\<close>, against what the clients of the protocols put together.

  \<^bold>\<open>State and effects.\<close> A struct is a record, its methods are functions that return it updated, and an error is a
  value of a sum or option type. Mutexes make a method one step; where Go takes no lock (counters, the
  key cache, the gate, health writes, the journal's writer) the steps between which others run are the
  constructors of an inductive relation, and the properties hold of all reachable states. Go's maps iterate
  in no fixed order, so every order the code depends on is an argument, and theorems quantify over it.

  \<^bold>\<open>Arguments of the model.\<close> The clock, random draws, the answers of the database, the embedding service and the
  upstream, the JSON text parser, Unicode lower-casing, decryption and time zones are arguments; the
  hypotheses on them are in the statements. Scores, prices and rates are rationals, where Go computes with
  float64. Machine integers are kept at their width where a computation can overflow (\<open>Retry-After\<close>) and are
  integers elsewhere.

  \<^bold>\<open>Fuel and termination.\<close> Loops are recursions on the data they consume, or have a measure. Three take fuel:
  \<open>strip_seqs\<close> (\<open>strings.TrimSpace\<close>) the length of the string, of which every step removes at least one byte; the
  walk along failure links of the automaton the number of nodes, each link leading to a shallower one; and
  the batches of a vector build the number of rows, of which every batch takes at least one.

  \<^bold>\<open>Not modelled.\<close> Log fields that time the phases of a request, metrics, live statistics and body capture; the HTTP
  transport, CORS headers and the JSON text of replies; fsync and the counters of the journal, and the upgrade of an old
  rollup at the start of the store; a change of the setting that folds thinking into text in the middle of a stream; the batch
  writer of audit rows, which may drop them by design; the converters of Gemini and
  the remaining ones of Responses, which work like those modelled; multipart bodies; the vector build of the router, which
  repeats that of compliance; the import of price lists; the admin API, backup and restore, settings,
  migrations of the schema and start-up, which are SQL through an ORM and input/output; the web console.
\<close>

end
